(* ===== verification/Prelude.thy ===== *)
theory Prelude
  imports Main "HOL-Library.Word" "HOL-Library.Monad_Syntax"
begin

text \<open>
  Shared vocabulary of the development: the machine types of
  \<^verbatim>\<open>src/src/runtime/Platform.h\<close>, the abort monad that models
  \<^verbatim>\<open>RASSERT\<close>, the collections of rewrite rules that the component
  theories extend, and generic facts on lists, words and functions.
\<close>

unbundle bit_operations_syntax

section \<open>Machine types\<close>

type_synonym mword = "64 word"      \<comment> \<open>\<open>uint64_t\<close>, also \<open>size_t\<close> and \<open>uintptr_t\<close>\<close>
type_synonym fid = nat              \<comment> \<open>identity (address) of a \<open>Fred\<close>\<close>
type_synonym pid = nat              \<comment> \<open>identity (address) of a \<open>BaseProcessor\<close>\<close>

section \<open>Assertions\<close>

text \<open>
  \<^verbatim>\<open>RASSERT(expr)\<close> aborts the process when \<^verbatim>\<open>expr\<close> is false. An
  operation that contains assertions returns an option: \<open>None\<close> is the abort. Theorems that
  claim an operation is safe state that the result is \<open>Some\<close>.
\<close>

definition rassert :: "bool \<Rightarrow> unit option" where
  "rassert b = (if b then Some () else None)"

lemma rassert_True [simp]: "rassert True = Some ()"
  by (simp add: rassert_def)

lemma rassert_False [simp]: "rassert False = None"
  by (simp add: rassert_def)

lemma rassert_eq_Some [simp]: "rassert b = Some u \<longleftrightarrow> b"
  by (simp add: rassert_def)

lemma rassert_bind [simp]: "rassert b \<bind> f = (if b then f () else None)"
  by (simp add: rassert_def)

section \<open>Rule collections\<close>

named_theorems lf_inv \<open>unfolding of component invariants\<close>
named_theorems lf_op \<open>unfolding of component operations\<close>

section \<open>Generic facts\<close>

lemma bind_eq_SomeE:
  assumes "m \<bind> f = Some y"
  obtains x where "m = Some x" and "f x = Some y"
  using assms by (cases m) auto

lemma takeWhile_upt_least:
  assumes "i < n" and "P i" and "\<And>j. j < i \<Longrightarrow> \<not> P j"
  shows "length (takeWhile (\<lambda>k. \<not> P k) [0..<n]) = i"
proof -
  have "[0..<n] = [0..<i] @ i # [Suc i..<n]"
    using assms(1) upt_add_eq_append [of 0 i "n - i"] by (simp add: upt_conv_Cons)
  moreover have "takeWhile (\<lambda>k. \<not> P k) [0..<i] = [0..<i]"
    using assms(3) by (auto simp: takeWhile_eq_all_conv)
  ultimately show ?thesis
    using assms by (simp add: takeWhile_append)
qed

lemma length_takeWhile_upt_less:
  assumes "i < n" and "P i"
  shows "length (takeWhile (\<lambda>k. \<not> P k) [0..<n]) \<le> i"
proof -
  define k where "k = (LEAST k. P k)"
  have k: "k \<le> i" "P k" "\<And>j. j < k \<Longrightarrow> \<not> P j"
    using assms(2) by (auto simp: k_def intro: Least_le LeastI dest: not_less_Least)
  with assms(1) have "length (takeWhile (\<lambda>k. \<not> P k) [0..<n]) = k"
    by (intro takeWhile_upt_least) auto
  with k show ?thesis by simp
qed

end
