(* ===== verification/Platform.thy ===== *)
theory Platform
  imports Prelude
begin

text \<open>
  The word-level helpers of \<^verbatim>\<open>src/src/runtime/Platform.h\<close>: limits, alignment,
  rounding division, bit masks, bit scans within a word and over an array of words.
  The compiler builtins \<^verbatim>\<open>__builtin_ctz/clz/popcount\<close> and the x86
  instructions \<^verbatim>\<open>bsf\<close> and \<^verbatim>\<open>bsr\<close> are written out as
  searches over the bit positions.
\<close>

section \<open>Definitions\<close>

definition limit :: "'a::len word" where
  "limit = NOT 0"

definition slimit :: "'a::len word" where
  "slimit = drop_bit 1 (NOT 0)"

definition pow2 :: "nat \<Rightarrow> 'a::len word" where
  "pow2 x = push_bit x 1"

definition ispow2 :: "'a::len word \<Rightarrow> bool" where
  "ispow2 x \<longleftrightarrow> x AND (x - 1) = 0"

definition align_up :: "'a::len word \<Rightarrow> 'a word \<Rightarrow> 'a word" where
  "align_up x a = (x + a - 1) AND NOT (a - 1)"

definition align_down :: "'a::len word \<Rightarrow> 'a word \<Rightarrow> 'a word" where
  "align_down x a = x AND NOT (a - 1)"

definition aligned :: "'a::len word \<Rightarrow> 'a word \<Rightarrow> bool" where
  "aligned x a \<longleftrightarrow> x AND (a - 1) = 0"

definition divup :: "'a::len word \<Rightarrow> 'a word \<Rightarrow> 'a word" where
  "divup n d = (n - 1) div d + 1"

definition bitsize :: "'a::len word itself \<Rightarrow> nat" where
  "bitsize _ = LENGTH('a)"

definition bitmask :: "nat \<Rightarrow> 'a::len word" where
  "bitmask width = (if width = bitsize TYPE('a word) then limit else pow2 width - 1)"

definition bitmask_at :: "nat \<Rightarrow> nat \<Rightarrow> 'a::len word" where
  "bitmask_at pos width = push_bit pos (bitmask width)"

definition ctz :: "'a::len word \<Rightarrow> nat" where
  "ctz x = length (takeWhile (\<lambda>i. \<not> bit x i) [0..<LENGTH('a)])"

definition clz :: "'a::len word \<Rightarrow> nat" where
  "clz x = length (takeWhile (\<lambda>i. \<not> bit x (LENGTH('a) - 1 - i)) [0..<LENGTH('a)])"

definition lsb :: "'a::len word \<Rightarrow> int \<Rightarrow> int" where
  "lsb x alt = (if x = 0 then alt else int (ctz x))"

definition msb :: "'a::len word \<Rightarrow> int \<Rightarrow> int" where
  "msb x alt = (if x = 0 then alt else int (bitsize TYPE('a word) - 1) - int (clz x))"

definition popcount :: "'a::len word \<Rightarrow> nat" where
  "popcount x = length (filter (bit x) [0..<LENGTH('a)])"

definition floorlog2 :: "'a::len word \<Rightarrow> int" where
  "floorlog2 x = msb x (int (bitsize TYPE('a word)))"

text \<open>In \<^verbatim>\<open>ceilinglog2\<close> the alternative value \<open>limit<T>()\<close> is narrowed to
  \<^verbatim>\<open>int\<close>, which gives \<open>-1\<close>.\<close>

definition ceilinglog2 :: "'a::len word \<Rightarrow> int" where
  "ceilinglog2 x = msb (x - 1) (- 1) + 1"

definition alignment :: "'a::len word \<Rightarrow> int" where
  "alignment x = lsb x (int (bitsize TYPE('a word)))"

subsection \<open>Scans over arrays of words\<close>

definition scanword :: "bool \<Rightarrow> mword \<Rightarrow> mword" where
  "scanword findset d = (if findset then d else NOT d)"

text \<open>The loop of \<^verbatim>\<open>multiscan_next\<close>: \<open>datafield\<close> is the current word, the list holds
  the words \<open>data[i+1..N-1]\<close>, so that \<open>i == N\<close> is the empty list.\<close>

fun multiscan_loop :: "bool \<Rightarrow> mword \<Rightarrow> mword list \<Rightarrow> nat \<Rightarrow> nat" where
  "multiscan_loop fs datafield [] result = result + nat (lsb datafield 64)"
| "multiscan_loop fs datafield (d # ds) result =
     (let b = nat (lsb datafield 64); result' = result + b
      in if b < 64 then result' else multiscan_loop fs (scanword fs d) ds result')"

definition multiscan_next :: "mword list \<Rightarrow> nat \<Rightarrow> bool \<Rightarrow> nat" where
  "multiscan_next data idx fs =
     (if idx \<ge> length data * 64 then length data * 64
      else let i = idx div 64;
               result = unat (align_down (of_nat idx :: mword) 64);
               datafield = scanword fs (data ! i) AND NOT (bitmask (idx mod 64))
           in multiscan_loop fs datafield (drop (Suc i) data) result)"

text \<open>One round of the x86 version: \<open>bsf\<close> leaves 64 in \<open>scan\<close> for a zero word
  (\<open>cmovz\<close>), and a nonzero word clears \<open>newmask\<close> (\<open>cmovnz\<close>); the mask then
  suppresses all later words.\<close>

definition multiscan_step :: "bool \<Rightarrow> mword \<Rightarrow> mword \<times> mword \<Rightarrow> mword \<times> mword" where
  "multiscan_step fs d = (\<lambda>(result, mask).
     let datafield = scanword fs d;
         scan = (if datafield = 0 then 64 else of_nat (ctz datafield));
         newmask = (if datafield = 0 then mask else 0)
     in (result + (scan AND mask), newmask))"

definition multiscan :: "mword list \<Rightarrow> bool \<Rightarrow> mword" where
  "multiscan data fs = fst (fold (multiscan_step fs) data (0, NOT 0))"

definition multiscan_rev_step :: "bool \<Rightarrow> mword \<Rightarrow> mword \<times> mword \<Rightarrow> mword \<times> mword" where
  "multiscan_rev_step fs d = (\<lambda>(result, mask).
     let datafield = scanword fs d;
         scan = (if datafield = 0 then 0 else of_nat (63 - clz datafield));
         newmask = (if datafield = 0 then mask else 0)
     in (result + (scan AND mask) + (64 AND NOT mask), newmask))"

definition multiscan_rev :: "mword list \<Rightarrow> bool \<Rightarrow> mword" where
  "multiscan_rev data fs = fst (fold (multiscan_rev_step fs) (rev data) (0, NOT 0))"

section \<open>Masks and alignment\<close>

lemma pow2_eq: "pow2 k = (2 ^ k :: 'a::len word)"
  by (simp add: pow2_def push_bit_eq_mult)

lemma bitmask_eq_mask: "width \<le> LENGTH('a) \<Longrightarrow> bitmask width = (mask width :: 'a::len word)"
  by (auto simp: bitmask_def bitsize_def limit_def pow2_eq mask_eq_exp_minus_1 bit_simps
      intro: bit_word_eqI)

lemma align_down_eq: "align_down x (2 ^ k) = push_bit k (drop_bit k (x :: 'a::len word))"
  by (rule bit_word_eqI)
    (auto simp: align_down_def bit_simps simp flip: mask_eq_exp_minus_1)

lemma unat_align_down:
  "unat (align_down x (2 ^ k :: 'a::len word)) = unat x div 2 ^ k * 2 ^ k"
proof -
  have "unat x div 2 ^ k * 2 ^ k < 2 ^ LENGTH('a)"
    by (rule le_less_trans [OF div_times_less_eq_dividend]) simp
  then show ?thesis
    by (simp only: align_down_eq unsigned_push_bit_eq unsigned_drop_bit_eq)
      (simp add: drop_bit_eq_div push_bit_eq_mult take_bit_nat_eq_self)
qed

lemma aligned_iff: "aligned x (2 ^ k :: 'a::len word) \<longleftrightarrow> 2 ^ k dvd unat x"
  by (simp add: aligned_def and_mask_dvd_nat flip: mask_eq_exp_minus_1)

lemma unat_two_power: "k < LENGTH('a) \<Longrightarrow> unat (2 ^ k :: 'a::len word) = 2 ^ k"
  using unat_of_nat [of "2 ^ k", where 'a = 'a] by simp

lemma unat_align_up:
  assumes "unat x + (2 ^ k - 1) < 2 ^ LENGTH('a)" and "k < LENGTH('a)"
  shows "unat (align_up x (2 ^ k :: 'a::len word)) = (unat x + (2 ^ k - 1)) div 2 ^ k * 2 ^ k"
proof -
  have p: "unat (2 ^ k :: 'a word) = 2 ^ k"
    using assms(2) by (rule unat_two_power)
  have "unat (x + (2 ^ k - 1)) = unat x + (2 ^ k - 1)"
    using assms p by (simp add: unat_word_ariths unat_sub word_le_nat_alt)
  moreover have "align_up x (2 ^ k) = align_down (x + (2 ^ k - 1)) (2 ^ k :: 'a word)"
    by (simp add: align_up_def align_down_def algebra_simps)
  ultimately show ?thesis
    by (simp add: unat_align_down)
qed

lemma unat_divup:
  assumes "n \<noteq> 0" and "d \<noteq> (0 :: 'a::len word)"
  shows "unat (divup n d) = (unat n + unat d - 1) div unat d"
proof -
  have pos: "0 < unat n" "0 < unat d" using assms by (simp_all add: unat_gt_0)
  have m: "unat (n - 1) = unat n - 1"
    using assms(1) by (simp add: unat_minus_one)
  have "(unat n - 1) div unat d + 1 \<le> unat n"
    using pos by (metis Suc_eq_plus1 Suc_leI Suc_pred' div_le_dividend le_imp_less_Suc)
  then have "(unat n - 1) div unat d + 1 < 2 ^ LENGTH('a)"
    using unsigned_less [of n] by (rule le_less_trans)
  then have "unat (divup n d) = (unat n - 1) div unat d + 1"
    by (simp add: divup_def unat_word_ariths unat_div m)
  also have "\<dots> = (unat n + unat d - 1) div unat d"
    using pos by (metis Nat.add_diff_assoc2 One_nat_def Suc_leI div_add_self2 not_gr_zero)
  finally show ?thesis .
qed

section \<open>Bit scans\<close>

lemma ctz_zero [simp]: "ctz (0 :: 'a::len word) = LENGTH('a)"
  by (simp add: ctz_def takeWhile_eq_all_conv [THEN iffD2])

lemma ctz_least:
  assumes "bit (x :: 'a::len word) i" and "\<And>j. j < i \<Longrightarrow> \<not> bit x j"
  shows "ctz x = i"
  unfolding ctz_def using assms bit_imp_le_length [OF assms(1)]
  by (intro takeWhile_upt_least)

lemma ctz_nonzero:
  assumes "(x :: 'a::len word) \<noteq> 0"
  shows "ctz x < LENGTH('a)" and "bit x (ctz x)" and "\<And>j. j < ctz x \<Longrightarrow> \<not> bit x j"
proof -
  define i where "i = (LEAST i. bit x i)"
  have "\<exists>i. bit x i" using assms by (auto simp: bit_eq_iff)
  then have i: "bit x i" "\<And>j. j < i \<Longrightarrow> \<not> bit x j"
    by (auto simp: i_def intro: LeastI_ex dest: not_less_Least)
  then have "ctz x = i" by (rule ctz_least)
  with i bit_imp_le_length [OF i(1)]
  show "ctz x < LENGTH('a)" "bit x (ctz x)" "\<And>j. j < ctz x \<Longrightarrow> \<not> bit x j" by auto
qed

lemma clz_nonzero:
  assumes "(x :: 'a::len word) \<noteq> 0"
  shows "clz x < LENGTH('a)" and "bit x (LENGTH('a) - 1 - clz x)"
    and "\<And>j. LENGTH('a) - 1 - clz x < j \<Longrightarrow> \<not> bit x j"
proof -
  let ?P = "\<lambda>i. bit x (LENGTH('a) - 1 - i)"
  define i where "i = (LEAST i. ?P i)"
  obtain n where n: "bit x n" using assms by (auto simp: bit_eq_iff)
  then have nl: "n < LENGTH('a)" by (rule bit_imp_le_length)
  with n have "?P (LENGTH('a) - 1 - n)" by simp
  then have i: "?P i" "\<And>j. j < i \<Longrightarrow> \<not> ?P j" and il: "i \<le> LENGTH('a) - 1 - n"
    by (auto simp: i_def intro: LeastI Least_le dest: not_less_Least)
  from il nl have i_lt: "i < LENGTH('a)" by simp
  have "clz x = i"
    unfolding clz_def by (rule takeWhile_upt_least [where P = ?P]) (use i i_lt in auto)
  moreover have "\<not> bit x j" if "LENGTH('a) - 1 - i < j" for j
  proof (cases "j < LENGTH('a)")
    case True
    with that i_lt have "LENGTH('a) - 1 - j < i" by simp
    from i(2) [OF this] True show ?thesis by simp
  next
    case False
    then show ?thesis using bit_imp_le_length by blast
  qed
  ultimately show "clz x < LENGTH('a)" "bit x (LENGTH('a) - 1 - clz x)"
    "\<And>j. LENGTH('a) - 1 - clz x < j \<Longrightarrow> \<not> bit x j"
    using i i_lt by auto
qed

text \<open>The first set bit of a list of words, counted in bits from its start.\<close>

fun first_set :: "mword list \<Rightarrow> nat" where
  "first_set [] = 0"
| "first_set (w # ws) = (if w = 0 then 64 + first_set ws else ctz w)"

abbreviation bit_at :: "mword list \<Rightarrow> nat \<Rightarrow> bool" where
  "bit_at ws k \<equiv> bit (ws ! (k div 64)) (k mod 64)"

lemma first_set_le: "first_set ws \<le> 64 * length ws"
proof (induction ws)
  case (Cons w ws)
  then show ?case using ctz_nonzero(1) [of w] by auto
qed simp

lemma first_set_below: "k < first_set ws \<Longrightarrow> \<not> bit_at ws k"
proof (induction ws arbitrary: k)
  case (Cons w ws)
  show ?case
  proof (cases "k < 64")
    case True
    with Cons.prems show ?thesis by (auto simp: ctz_nonzero(3) split: if_splits)
  next
    case False
    with Cons.prems ctz_nonzero(1) [of w] have w: "w = 0" and "k - 64 < first_set ws"
      by (auto split: if_splits)
    then have "\<not> bit_at ws (k - 64)" by (intro Cons.IH)
    with False show ?thesis by (simp add: le_div_geq le_mod_geq)
  qed
qed simp

lemma first_set_hit: "first_set ws < 64 * length ws \<Longrightarrow> bit_at ws (first_set ws)"
proof (induction ws)
  case (Cons w ws)
  then show ?case
    using ctz_nonzero [of w] by (auto simp: le_div_geq le_mod_geq)
qed simp

lemma multiscan_loop_eq:
  "multiscan_loop fs df ds result = result + first_set (df # map (scanword fs) ds)"
proof (induction ds arbitrary: df result)
  case (Cons d ds)
  then show ?case
    using ctz_nonzero(1) [of df] by (auto simp: lsb_def Let_def)
qed (simp add: lsb_def)

lemma multiscan_fold_done:
  "fold (multiscan_step fs) ds (r, 0) = (r, 0)"
  by (induction ds) (simp_all add: multiscan_step_def)

lemma multiscan_fold:
  "fst (fold (multiscan_step fs) ds (r, NOT 0)) = r + of_nat (first_set (map (scanword fs) ds))"
  by (induction ds arbitrary: r) (auto simp: multiscan_step_def multiscan_fold_done)

lemma bit_at_masked:
  assumes "i < length ws" and "idx div 64 = i"
  shows "bit_at ((ws ! i AND NOT (bitmask (idx mod 64))) # drop (Suc i) ws) j \<longleftrightarrow>
     bit_at ws (64 * i + j) \<and> idx \<le> 64 * i + j"
proof (cases "j < 64")
  case True
  have "idx = 64 * i + idx mod 64" using assms(2) by (metis mult_div_mod_eq)
  with True show ?thesis
    by (auto simp: bitmask_eq_mask bit_simps)
next
  case False
  then obtain j' where j: "j = 64 + j'" by (metis le_iff_add not_less)
  have "(64 * i + j) div 64 = Suc (i + j' div 64)" by (simp add: j)
  moreover have "idx < 64 * i + 64" using assms(2) by simp
  ultimately show ?thesis
    using assms(1) by (auto simp: j nth_Cons' nth_drop Suc_le_eq)
qed

lemma multiscan_next_first:
  assumes "idx < 64 * length data" and "64 * length data < 2 ^ 64"
  shows "idx \<le> multiscan_next data idx fs \<and> multiscan_next data idx fs \<le> 64 * length data
    \<and> (\<forall>k. idx \<le> k \<and> k < multiscan_next data idx fs \<longrightarrow> \<not> bit_at (map (scanword fs) data) k)
    \<and> (multiscan_next data idx fs < 64 * length data \<longrightarrow>
         bit_at (map (scanword fs) data) (multiscan_next data idx fs))"
proof -
  define i where "i = idx div 64"
  define ws where "ws = map (scanword fs) data"
  define vs where "vs = (ws ! i AND NOT (bitmask (idx mod 64))) # drop (Suc i) ws"
  have i: "i < length ws" "idx div 64 = i" using assms(1) by (auto simp: i_def ws_def)
  have "unat (align_down (of_nat idx :: mword) (2 ^ 6)) = 64 * i"
    using assms by (simp only: unat_align_down) (simp add: unat_of_nat i_def)
  then have r: "multiscan_next data idx fs = 64 * i + first_set vs"
    using assms(1) i by (simp add: multiscan_next_def multiscan_loop_eq vs_def ws_def drop_map Let_def)
  note hit = bit_at_masked [OF i, folded vs_def]
  have len: "64 * i + 64 * length vs = 64 * length data"
    using i(1) by (simp add: vs_def ws_def)
  have "idx \<le> 64 * i + first_set vs"
  proof (cases "first_set vs < 64 * length vs")
    case True
    then show ?thesis using first_set_hit hit by blast
  next
    case False
    then show ?thesis using len assms(1) by linarith
  qed
  moreover have "\<not> bit_at ws k" if "idx \<le> k" "k < 64 * i + first_set vs" for k
  proof -
    have "64 * i \<le> k" using that(1) i(2) by (metis div_times_less_eq_dividend le_trans mult.commute)
    with that hit [of "k - 64 * i"] first_set_below [of "k - 64 * i" vs] show ?thesis by auto
  qed
  ultimately show ?thesis
    using first_set_le [of vs] first_set_hit [of vs] hit [of "first_set vs"] len
    by (auto simp: r simp flip: ws_def)
qed

section \<open>Properties\<close>

text \<open>\<^verbatim>\<open>multiscan_next\<close> returns the first position at or after \<open>idx\<close> whose bit is
  set (or clear, for \<open>findset = false\<close>) in the word array, and the size of the array in bits
  if there is none.\<close>

theorem multiscan_next_correct:
  assumes "idx < 64 * length data" and "64 * length data < 2 ^ 64"
  shows "idx \<le> multiscan_next data idx fs \<and> multiscan_next data idx fs \<le> 64 * length data
    \<and> (\<forall>k. idx \<le> k \<and> k < multiscan_next data idx fs \<longrightarrow> \<not> bit_at (map (scanword fs) data) k)
    \<and> (multiscan_next data idx fs < 64 * length data \<longrightarrow>
         bit_at (map (scanword fs) data) (multiscan_next data idx fs))"
  using multiscan_next_first [OF assms, of fs] by (intro conjI) blast+

theorem multiscan_next_correct_witness:
  "multiscan_next [0, 6] 65 True = 65 \<and> 65 < 64 * length [0, 6 :: mword]"
proof -
  have "bit_at (map (scanword True) [0, 6]) 65" by (simp add: scanword_def)
  then show ?thesis
    using multiscan_next_correct [of 65 "[0, 6]" True] by (auto simp: not_less dest: spec [of _ 65])
qed

text \<open>the branch-free x86 version of \<^verbatim>\<open>multiscan\<close> (masks instead of a loop exit)
  computes the same position as the portable \<^verbatim>\<open>multiscan_next\<close> from position 0.\<close>

theorem multiscan_eq_portable:
  assumes "64 * length data < 2 ^ 64"
  shows "unat (multiscan data fs) = multiscan_next data 0 fs"
proof (cases "data = []")
  case False
  have "unat (multiscan data fs) = first_set (map (scanword fs) data)"
    using first_set_le [of "map (scanword fs) data"] assms
    unfolding multiscan_def multiscan_fold by (simp add: unat_of_nat)
  moreover have "multiscan_next data 0 fs = first_set (map (scanword fs) data)"
    using False by (cases data)
      (simp_all add: multiscan_next_def multiscan_loop_eq align_down_def bitmask_eq_mask)
  ultimately show ?thesis by simp
qed (simp add: multiscan_def multiscan_next_def)

theorem multiscan_eq_portable_witness: "unat (multiscan [0, 0, 8] True) = multiscan_next [0, 0, 8] 0 True"
  using multiscan_eq_portable [of "[0, 0, 8]" True] by simp

text \<open>\<^verbatim>\<open>align_up\<close> and \<^verbatim>\<open>align_down\<close> to a power of two give the
  neighbouring multiples: the results are aligned, lie at most \<open>a - 1\<close> away and bracket the
  argument; \<^verbatim>\<open>align_up\<close> needs the sum not to wrap around.\<close>

theorem align_brackets:
  assumes "k < LENGTH('a)" and "unat x + (2 ^ k - 1) < 2 ^ LENGTH('a)"
  shows "aligned (align_down x (2 ^ k)) (2 ^ k) \<and> aligned (align_up x (2 ^ k)) (2 ^ k :: 'a::len word)
    \<and> unat (align_down x (2 ^ k)) \<le> unat x \<and> unat x < unat (align_down x (2 ^ k)) + 2 ^ k
    \<and> unat x \<le> unat (align_up x (2 ^ k)) \<and> unat (align_up x (2 ^ k)) < unat x + 2 ^ k"
proof -
  have "unat x < unat x div 2 ^ k * 2 ^ k + 2 ^ k"
    by (metis add.commute dividend_less_div_times zero_less_numeral zero_less_power)
  moreover have "unat x \<le> (unat x + (2 ^ k - 1)) div 2 ^ k * 2 ^ k"
    using dividend_less_div_times [of "2 ^ k" "unat x + (2 ^ k - 1)"] by simp
  moreover have "(unat x + (2 ^ k - 1)) div 2 ^ k * 2 ^ k < unat x + 2 ^ k"
    by (rule le_less_trans [OF div_times_less_eq_dividend]) simp
  ultimately show ?thesis
    using assms by (simp add: aligned_iff unat_align_up unat_align_down)
qed

theorem align_brackets_witness:
  "aligned (align_up (5000 :: mword) (2 ^ 12)) (2 ^ 12) \<and> (5000::nat) \<le> unat (align_up (5000 :: mword) (2 ^ 12))"
  using align_brackets [of 12 "5000 :: mword"] by simp

text \<open>\<^verbatim>\<open>divup\<close> is division rounded up, for every nonzero dividend and divisor and
  without overflow.\<close>

theorem divup_ceiling:
  assumes "n \<noteq> 0" and "d \<noteq> (0 :: 'a::len word)"
  shows "unat n \<le> unat (divup n d) * unat d \<and> (unat (divup n d) - 1) * unat d < unat n"
proof -
  have "0 < unat d" "0 < unat n" using assms by (simp_all add: unat_gt_0)
  then show ?thesis
    unfolding unat_divup [OF assms] diff_mult_distrib
    using dividend_less_div_times [of "unat d" "unat n + unat d - 1"]
      le_less_trans [OF div_times_less_eq_dividend [of "unat n + unat d - 1" "unat d"],
        of "unat n + unat d"]
    by linarith
qed

theorem divup_ceiling_witness:
  "unat (65 :: mword) \<le> unat (divup (65 :: mword) 64) * unat (64 :: mword)"
  using divup_ceiling [of "65 :: mword" 64] by simp

end
