(* ===== verification/Basics.thy ===== *)
theory Basics
  imports Platform "HOL-Library.Signed_Division"
begin

text \<open>
  \<^verbatim>\<open>src/src/runtime/Basics.h\<close>: the bit-field helper \<^verbatim>\<open>BitString\<close> and the
  class \<^verbatim>\<open>Time\<close>, a \<^verbatim>\<open>timespec\<close> with arithmetic, conversions and the
  comparison operators that order the timer queue. The C++ division truncates towards zero,
  so conversions use the signed division of the library. Seconds and nanoseconds are
  unbounded integers here; the 64-bit fields of the source hold every time of day.
\<close>

section \<open>Definitions\<close>

definition bs_mask :: "nat \<Rightarrow> nat \<Rightarrow> 'a::len word" where
  "bs_mask pos width = bitmask_at pos width"

definition bs_put :: "nat \<Rightarrow> nat \<Rightarrow> 'a::len word \<Rightarrow> 'a word" where
  "bs_put pos width f = push_bit pos (f AND bitmask width)"

definition bs_get :: "nat \<Rightarrow> nat \<Rightarrow> 'a::len word \<Rightarrow> 'a word" where
  "bs_get pos width f = drop_bit pos f AND bitmask width"

definition bs_excl :: "nat \<Rightarrow> nat \<Rightarrow> 'a::len word \<Rightarrow> 'a word" where
  "bs_excl pos width f = f AND NOT (bitmask_at pos width)"

datatype time = Time (tv_sec: int) (tv_nsec: int)

definition NSEC :: int where
  "NSEC = 1000000000"

definition time_zero :: time where
  "time_zero = Time 0 0"

definition fromMS :: "int \<Rightarrow> time" where
  "fromMS ms = Time (ms sdiv 1000) ((ms smod 1000) * 1000000)"

definition toMS :: "time \<Rightarrow> int" where
  "toMS t = 1000 * tv_sec t + tv_nsec t sdiv 1000000"

definition fromUS :: "int \<Rightarrow> time" where
  "fromUS us = Time (us sdiv 1000000) ((us smod 1000000) * 1000)"

definition toUS :: "time \<Rightarrow> int" where
  "toUS t = 1000000 * tv_sec t + tv_nsec t sdiv 1000"

definition fromNS :: "int \<Rightarrow> time" where
  "fromNS ns = Time (ns sdiv 1000000000) (ns smod 1000000000)"

definition toNS :: "time \<Rightarrow> int" where
  "toNS t = 1000000000 * tv_sec t + tv_nsec t"

text \<open>\<^verbatim>\<open>operator+=\<close> and \<^verbatim>\<open>operator+\<close> carry when the nanoseconds
  exceed \<^verbatim>\<open>NSEC\<close>; \<^verbatim>\<open>operator-=\<close> and \<^verbatim>\<open>operator-\<close> borrow when they
  are negative.\<close>

definition time_add :: "time \<Rightarrow> time \<Rightarrow> time" where
  "time_add a b =
     (let s = tv_sec a + tv_sec b; n = tv_nsec a + tv_nsec b
      in if n > NSEC then Time (s + 1) (n - NSEC) else Time s n)"

definition time_sub :: "time \<Rightarrow> time \<Rightarrow> time" where
  "time_sub a b =
     (let s = tv_sec a - tv_sec b; n = tv_nsec a - tv_nsec b
      in if n < 0 then Time (s - 1) (n + NSEC) else Time s n)"

definition time_eq :: "time \<Rightarrow> time \<Rightarrow> bool" where
  "time_eq a b \<longleftrightarrow> tv_sec a = tv_sec b \<and> tv_nsec a = tv_nsec b"

definition time_lt :: "time \<Rightarrow> time \<Rightarrow> bool" where
  "time_lt a b \<longleftrightarrow> (if tv_sec a = tv_sec b then tv_nsec a < tv_nsec b else tv_sec a < tv_sec b)"

definition time_le :: "time \<Rightarrow> time \<Rightarrow> bool" where
  "time_le a b \<longleftrightarrow> (if tv_sec a = tv_sec b then tv_nsec a \<le> tv_nsec b else tv_sec a \<le> tv_sec b)"

definition time_gt :: "time \<Rightarrow> time \<Rightarrow> bool" where
  "time_gt a b \<longleftrightarrow> (if tv_sec a = tv_sec b then tv_nsec a > tv_nsec b else tv_sec a > tv_sec b)"

definition time_ge :: "time \<Rightarrow> time \<Rightarrow> bool" where
  "time_ge a b \<longleftrightarrow> (if tv_sec a = tv_sec b then tv_nsec a \<ge> tv_nsec b else tv_sec a \<ge> tv_sec b)"

text \<open>The comparison operators make \<^verbatim>\<open>Time\<close> a linear order, which is what
  \<^verbatim>\<open>std::multimap\<close> needs.\<close>

instantiation time :: linorder
begin

definition less_eq_time :: "time \<Rightarrow> time \<Rightarrow> bool" where
  "less_eq_time = time_le"

definition less_time :: "time \<Rightarrow> time \<Rightarrow> bool" where
  "less_time = time_lt"

instance
  by intro_classes
    (auto simp: less_eq_time_def less_time_def time_le_def time_lt_def split: if_splits
      intro: time.expand)

end

text \<open>A normalised time, as \<^verbatim>\<open>clock_gettime\<close> returns it and as the kernel's timer calls
  require it.\<close>

definition time_norm :: "time \<Rightarrow> bool" where
  "time_norm t \<longleftrightarrow> 0 \<le> tv_nsec t \<and> tv_nsec t < NSEC"

section \<open>Bit fields\<close>

lemma bit_bitmask:
  "width \<le> LENGTH('a) \<Longrightarrow> bit (bitmask width :: 'a::len word) n \<longleftrightarrow> n < width"
  by (auto simp: bitmask_eq_mask bit_simps)

lemma bs_put_excl_disjoint:
  assumes "pos + width \<le> LENGTH('a)"
  shows "bs_excl pos width (bs_put pos width f :: 'a::len word) = 0"
  using assms
  by (intro bit_word_eqI) (auto simp: bs_excl_def bs_put_def bitmask_at_def bit_simps bit_bitmask)

text \<open>a \<^verbatim>\<open>BitString\<close> field reads back what was put into it (truncated to the field's
  width), and replacing the field with \<open>excl\<close> and \<open>put\<close> leaves the bits outside the
  field unchanged.\<close>

theorem bitstring_roundtrip:
  assumes "pos + width \<le> LENGTH('a)"
  shows "bs_get pos width (bs_excl pos width w OR bs_put pos width f) = (f AND bitmask width :: 'a::len word)
    \<and> bs_excl pos width (bs_excl pos width w OR bs_put pos width f) = bs_excl pos width w"
proof
  show "bs_get pos width (bs_excl pos width w OR bs_put pos width f) = f AND bitmask width"
    using assms
    by (intro bit_word_eqI)
      (auto simp: bs_get_def bs_excl_def bs_put_def bitmask_at_def bit_simps bit_bitmask)
next
  show "bs_excl pos width (bs_excl pos width w OR bs_put pos width f) = bs_excl pos width w"
    using assms
    by (intro bit_word_eqI)
      (auto simp: bs_excl_def bs_put_def bitmask_at_def bit_simps bit_bitmask)
qed

theorem bitstring_roundtrip_witness:
  "bs_get 4 4 (bs_excl 4 4 (0xABC :: mword) OR bs_put 4 4 0x7) = 0x7 AND bitmask 4"
  using bitstring_roundtrip [of 4 4 "0xABC :: mword" "0x7"] by simp

section \<open>Time\<close>

lemma toNS_simps [simp]: "toNS (Time s n) = 1000000000 * s + n"
  by (simp add: toNS_def)

lemma time_norm_lt_iff:
  assumes "time_norm a" and "time_norm b"
  shows "a < b \<longleftrightarrow> toNS a < toNS b"
  using assms by (auto simp: less_time_def time_lt_def time_norm_def toNS_def NSEC_def)

text \<open>the six comparison operators agree with the one linear order on \<^verbatim>\<open>Time\<close>, and on
  normalised times that order is the order of the instants in nanoseconds.\<close>

theorem time_operators_order:
  assumes "time_norm a" and "time_norm b"
  shows "(time_lt a b \<longleftrightarrow> toNS a < toNS b) \<and> (time_le a b \<longleftrightarrow> toNS a \<le> toNS b)
    \<and> (time_gt a b \<longleftrightarrow> time_lt b a) \<and> (time_ge a b \<longleftrightarrow> time_le b a) \<and> (time_eq a b \<longleftrightarrow> toNS a = toNS b)"
  using assms
  by (auto simp: time_lt_def time_le_def time_gt_def time_ge_def time_eq_def time_norm_def toNS_def NSEC_def)

theorem time_operators_order_witness:
  "time_norm (Time 1 999999999) \<and> time_norm (Time 2 0) \<and> time_lt (Time 1 999999999) (Time 2 0)"
  using time_operators_order [of "Time 1 999999999" "Time 2 0"] by (simp add: time_norm_def NSEC_def)

text \<open>adding and subtracting times is exact in nanoseconds; a difference of normalised times
  is normalised, and a sum is normalised except in one case: when the nanoseconds add up to
  exactly one second the carry is not performed (the source tests \<open>> NSEC\<close>) and the result
  has \<open>tv_nsec = NSEC\<close>.\<close>

theorem time_arith:
  assumes "time_norm a" and "time_norm b"
  shows "toNS (time_add a b) = toNS a + toNS b \<and> toNS (time_sub a b) = toNS a - toNS b
    \<and> time_norm (time_sub a b)
    \<and> (time_norm (time_add a b) \<longleftrightarrow> tv_nsec a + tv_nsec b \<noteq> NSEC)"
  using assms by (auto simp: time_add_def time_sub_def time_norm_def toNS_def NSEC_def Let_def)

theorem time_arith_witness:
  "time_norm (Time 3 500000000) \<and> \<not> time_norm (time_add (Time 3 500000000) (Time 1 500000000))
    \<and> toNS (time_add (Time 3 500000000) (Time 1 500000000)) = toNS (Time 5 0)"
  using time_arith [of "Time 3 500000000" "Time 1 500000000"] by (simp add: time_norm_def NSEC_def)

text \<open>the unit conversions round-trip: every signed count of milli-, micro- or nanoseconds
  survives the conversion to \<^verbatim>\<open>Time\<close> and back, and every normalised time survives the
  conversion to nanoseconds and back when it is not negative.\<close>

theorem time_conversion_roundtrip:
  "toMS (fromMS n) = n \<and> toUS (fromUS n) = n \<and> toNS (fromNS n) = n
    \<and> (time_norm t \<and> 0 \<le> tv_sec t \<longrightarrow> fromNS (toNS t) = t)"
proof -
  have "1000 * (n sdiv 1000) + n smod 1000 = n" "1000000 * (n sdiv 1000000) + n smod 1000000 = n"
    "1000000000 * (n sdiv 1000000000) + n smod 1000000000 = n"
    by (rule mult_sdiv_smod_eq)+
  moreover have "(m * k) sdiv k = m" if "0 < k" for m k :: int
    using that by (simp add: signed_divide_int_def abs_mult sgn_mult sgn_mult_abs)
  moreover have "fromNS (toNS t) = t" if "time_norm t" "0 \<le> tv_sec t"
    using that
    by (cases t) (auto simp: fromNS_def time_norm_def NSEC_def signed_divide_int_def
        signed_modulo_int_def sgn_if)
  ultimately show ?thesis
    by (simp add: toMS_def fromMS_def toUS_def fromUS_def toNS_def fromNS_def)
qed

theorem time_conversion_roundtrip_witness:
  "fromNS (toNS (Time 2 5)) = Time 2 5 \<and> toMS (fromMS (- 1500)) = - 1500"
  using time_conversion_roundtrip [of "- 1500" "Time 2 5"] by (simp add: time_norm_def NSEC_def)

end
