(* ===== verification/Fred_Model.thy ===== *)
theory Fred_Model
  imports Prelude
begin

text \<open>
  \<^verbatim>\<open>src/src/runtime/Fred.h\<close> and \<^verbatim>\<open>Fred.cc\<close>: the runtime context
  (\<^verbatim>\<open>Fred\<close>) with its run state and resume race. The atomic operations of the source are
  functions on one \<open>fred\<close> record; an operation that may put the fred on a ready queue returns
  a flag that says so. The life cycle of one fred, with any number of other threads racing to
  resume it, is the step relation \<open>fred_step\<close>; its invariant shows that the assertions of
  the source hold, that no resume is lost and that the fred is queued once per suspension.
\<close>

section \<open>State and operations\<close>

type_synonym addr = nat   \<comment> \<open>\<open>ptr_t\<close>; \<open>nullptr\<close> is 0\<close>

definition Parked :: nat where "Parked = 0"
definition Running :: nat where "Running = 1"
definition ResumedEarly :: nat where "ResumedEarly = 2"

definition TopPriority :: nat where "TopPriority = 0"
definition DefaultPriority :: nat where "DefaultPriority = 1"
definition LowPriority :: nat where "LowPriority = 2"
definition NumPriority :: nat where "NumPriority = 3"

record fred =
  processor :: pid
  priority :: nat
  affinity :: bool
  runState :: nat
  resumeInfo :: addr

text \<open>The constructor; \<^verbatim>\<open>DefaultAffinity\<close> is false unless
  \<^verbatim>\<open>TESTING_DEFAULT_AFFINITY\<close> is set, which is a parameter here. \<open>resumeInfo\<close> is not
  initialised by the source, so it is a parameter too.\<close>

definition new_fred :: "bool \<Rightarrow> addr \<Rightarrow> pid \<Rightarrow> fred" where
  "new_fred defaultAffinity garbage proc =
     \<lparr>processor = proc, priority = DefaultPriority, affinity = defaultAffinity,
      runState = Running, resumeInfo = garbage\<rparr>"

definition setPriority :: "nat \<Rightarrow> fred \<Rightarrow> fred" where
  "setPriority p f = f\<lparr>priority := p\<rparr>"

definition setAffinity :: "bool \<Rightarrow> fred \<Rightarrow> fred" where
  "setAffinity a f = f\<lparr>affinity := a\<rparr>"

text \<open>\<^verbatim>\<open>checkAffinity\<close>: a fred without affinity follows the processor that stole it.\<close>

definition checkAffinity :: "pid \<Rightarrow> fred \<Rightarrow> bool \<times> fred" where
  "checkAffinity newProcessor f =
     (if affinity f then (True, f) else (False, f\<lparr>processor := newProcessor\<rparr>))"

text \<open>One round of the loop in \<^verbatim>\<open>suspend\<close>: the compare-and-swap from
  \<open>ResumedEarly\<close> to \<open>Running\<close>. Success means that the resume has already happened and
  the fred does not switch away.\<close>

definition suspend_cas :: "fred \<Rightarrow> bool \<times> fred" where
  "suspend_cas f =
     (if runState f = ResumedEarly then (True, f\<lparr>runState := Running\<rparr>) else (False, f))"

text \<open>\<^verbatim>\<open>postSuspend\<close>, run on the next fred's stack after the switch: atomic decrement;
  an early resume puts the fred back on a ready queue (result \<open>True\<close>).\<close>

definition postSuspend :: "fred \<Rightarrow> (bool \<times> fred) option" where
  "postSuspend f =
     (let prev = runState f; f' = f\<lparr>runState := prev - 1\<rparr>
      in if prev = ResumedEarly then Some (True, f')
         else do { rassert (prev = Running); Some (False, f') })"

text \<open>\<^verbatim>\<open>resume\<close>: atomic increment; a parked fred goes to a ready queue
  (\<open>resumeInternal\<close>, or \<open>resumeDirect\<close> for a direct switch).\<close>

definition fred_resume :: "fred \<Rightarrow> (bool \<times> fred) option" where
  "fred_resume f =
     (let prev = runState f; f' = f\<lparr>runState := prev + 1\<rparr>
      in if prev = Parked then Some (True, f')
         else do { rassert (prev = Running); Some (False, f') })"

definition cancelEarlyResume :: "fred \<Rightarrow> fred" where
  "cancelEarlyResume f = f\<lparr>runState := Running\<rparr>"

definition prepareResumeRace :: "fred \<Rightarrow> fred option" where
  "prepareResumeRace f =
     do { rassert (runState f = Running); Some (f\<lparr>resumeInfo := 0\<rparr>) }"

definition cancelRunningResumeRace :: "fred \<Rightarrow> addr \<times> fred" where
  "cancelRunningResumeRace f = (resumeInfo f, f\<lparr>resumeInfo := 1\<rparr>)"

definition raceResume :: "addr \<Rightarrow> fred \<Rightarrow> bool \<times> fred" where
  "raceResume ri f =
     (if resumeInfo f = 0 then (True, f\<lparr>resumeInfo := ri\<rparr>) else (False, f))"

lemmas fred_op_defs = suspend_cas_def postSuspend_def fred_resume_def cancelEarlyResume_def
  prepareResumeRace_def cancelRunningResumeRace_def raceResume_def checkAffinity_def
  Parked_def Running_def ResumedEarly_def

lemma fred_resume_Some:
  "fred_resume f = Some (enq, f') \<longleftrightarrow>
     runState f = Parked \<and> enq \<and> f' = f\<lparr>runState := Running\<rparr> \<or>
     runState f = Running \<and> \<not> enq \<and> f' = f\<lparr>runState := ResumedEarly\<rparr>"
  by (auto simp: fred_op_defs Let_def)

lemma postSuspend_Some:
  "postSuspend f = Some (enq, f') \<longleftrightarrow>
     runState f = ResumedEarly \<and> enq \<and> f' = f\<lparr>runState := Running\<rparr> \<or>
     runState f = Running \<and> \<not> enq \<and> f' = f\<lparr>runState := Parked\<rparr>"
  by (auto simp: fred_op_defs Let_def)

lemma raceResume_True:
  "raceResume ri f = (True, f') \<longleftrightarrow> resumeInfo f = 0 \<and> f' = f\<lparr>resumeInfo := ri\<rparr>"
  by (auto simp: raceResume_def)

lemma suspend_cas_eq:
  "suspend_cas f = (True, f') \<longleftrightarrow> runState f = ResumedEarly \<and> f' = f\<lparr>runState := Running\<rparr>"
  "suspend_cas f = (False, f') \<longleftrightarrow> runState f \<noteq> ResumedEarly \<and> f' = f"
  by (auto simp: suspend_cas_def)

lemma prepareResumeRace_Some:
  "prepareResumeRace f = Some f' \<longleftrightarrow> runState f = Running \<and> f' = f\<lparr>resumeInfo := 0\<rparr>"
  by (auto simp: prepareResumeRace_def)

lemma fred_op_None:
  "fred_resume f = None \<longleftrightarrow> runState f \<noteq> Parked \<and> runState f \<noteq> Running"
  "postSuspend f = None \<longleftrightarrow> runState f \<noteq> ResumedEarly \<and> runState f \<noteq> Running"
  "prepareResumeRace f = None \<longleftrightarrow> runState f \<noteq> Running"
  by (simp_all add: fred_resume_def postSuspend_def prepareResumeRace_def Let_def)

lemma runState_distinct [simp]:
  "Parked \<noteq> Running" "Running \<noteq> Parked" "Running \<noteq> ResumedEarly" "ResumedEarly \<noteq> Running"
  "Parked \<noteq> ResumedEarly" "ResumedEarly \<noteq> Parked"
  by (simp_all add: Parked_def Running_def ResumedEarly_def)

lemmas fred_op_eqs = fred_resume_Some postSuspend_Some raceResume_True suspend_cas_eq
  prepareResumeRace_Some

section \<open>Life cycle of a fred\<close>

text \<open>
  Where the fred is: executing its own code, past the last compare-and-swap of
  \<^verbatim>\<open>suspend\<close> and on its way to the switch, switched away and parked, or on a ready queue.
\<close>

datatype phase = Executing | Switching | Stopped | Ready

text \<open>\<open>armed\<close>: \<^verbatim>\<open>prepareRace\<close> has been called and the suspension it prepares has not
  ended. \<open>tokens\<close>: the number of race winners that have not called
  \<^verbatim>\<open>resume\<close> yet. \<open>enqueues\<close> and \<open>dispatches\<close> count how often the fred was put on a
  ready queue and taken off it.\<close>

record life =
  fr :: fred
  ph :: phase
  armed :: bool
  tokens :: nat
  enqueues :: nat
  dispatches :: nat

definition life_init :: "fred \<Rightarrow> life" where
  "life_init f = \<lparr>fr = f, ph = Executing, armed = False, tokens = 0, enqueues = 0, dispatches = 0\<rparr>"

definition enqueue_if :: "bool \<Rightarrow> life \<Rightarrow> life" where
  "enqueue_if b s = (if b then s\<lparr>ph := Ready, enqueues := Suc (enqueues s)\<rparr> else s)"

inductive fred_step :: "life \<Rightarrow> life \<Rightarrow> bool" where
  arm: "ph s = Executing \<Longrightarrow> \<not> armed s \<Longrightarrow> prepareResumeRace (fr s) = Some f' \<Longrightarrow>
     fred_step s (s\<lparr>fr := f', armed := True\<rparr>)"
| win: "armed s \<Longrightarrow> ri \<noteq> 0 \<Longrightarrow> raceResume ri (fr s) = (True, f') \<Longrightarrow>
     fred_step s (s\<lparr>fr := f', tokens := Suc (tokens s)\<rparr>)"
| resume: "0 < tokens s \<Longrightarrow> fred_resume (fr s) = Some (enq, f') \<Longrightarrow>
     fred_step s (enqueue_if enq (s\<lparr>fr := f', tokens := tokens s - 1\<rparr>))"
| suspend_early: "ph s = Executing \<Longrightarrow> armed s \<Longrightarrow> suspend_cas (fr s) = (True, f') \<Longrightarrow>
     fred_step s (s\<lparr>fr := f', armed := False\<rparr>)"
| suspend_switch: "ph s = Executing \<Longrightarrow> armed s \<Longrightarrow> suspend_cas (fr s) = (False, f') \<Longrightarrow>
     fred_step s (s\<lparr>fr := f', ph := Switching\<rparr>)"
| post_suspend: "ph s = Switching \<Longrightarrow> postSuspend (fr s) = Some (enq, f') \<Longrightarrow>
     fred_step s (enqueue_if enq (s\<lparr>fr := f', ph := Stopped\<rparr>))"
| dispatch: "ph s = Ready \<Longrightarrow>
     fred_step s (s\<lparr>ph := Executing, armed := False, dispatches := Suc (dispatches s)\<rparr>)"

inductive life_reach :: "fred \<Rightarrow> life \<Rightarrow> bool" for f where
  start: "life_reach f (life_init f)"
| step: "life_reach f s \<Longrightarrow> fred_step s t \<Longrightarrow> life_reach f t"

text \<open>The resume of the current suspension has been executed.\<close>

definition fired :: "life \<Rightarrow> bool" where
  "fired s \<longleftrightarrow> armed s \<and> resumeInfo (fr s) \<noteq> 0 \<and> tokens s = 0"

definition life_inv :: "life \<Rightarrow> bool" where
  "life_inv s \<longleftrightarrow>
     tokens s \<le> 1 \<and> (0 < tokens s \<longrightarrow> armed s \<and> resumeInfo (fr s) \<noteq> 0) \<and>
     enqueues s = dispatches s + (if ph s = Ready then 1 else 0) \<and>
     (ph s \<noteq> Executing \<longrightarrow> armed s) \<and>
     (ph s = Stopped \<longrightarrow> \<not> fired s) \<and> (ph s = Ready \<longrightarrow> fired s) \<and>
     runState (fr s) =
       (if ph s = Stopped then Parked
        else if ph s = Ready \<or> \<not> fired s then Running else ResumedEarly)"

lemma life_inv_init: "runState f = Running \<Longrightarrow> life_inv (life_init f)"
  by (simp add: life_inv_def life_init_def fired_def)

lemmas life_step_simps = life_inv_def fired_def fred_op_eqs enqueue_if_def

lemma fred_step_inv: "fred_step s t \<Longrightarrow> life_inv s \<Longrightarrow> life_inv t"
proof (induction rule: fred_step.induct)
  case (arm s f')
  then show ?case by (cases "ph s") (auto simp: life_step_simps split: if_splits)
next
  case (win s ri f')
  then show ?case by (cases "ph s") (auto simp: life_step_simps split: if_splits)
next
  case (resume s enq f')
  then show ?case by (cases "ph s") (auto simp: life_step_simps split: if_splits)
next
  case (suspend_early s f')
  then show ?case by (cases "ph s") (auto simp: life_step_simps split: if_splits)
next
  case (suspend_switch s f')
  then show ?case by (cases "ph s") (auto simp: life_step_simps split: if_splits)
next
  case (post_suspend s enq f')
  then show ?case by (cases "ph s") (auto simp: life_step_simps split: if_splits)
next
  case (dispatch s)
  then show ?case by (cases "ph s") (auto simp: life_step_simps split: if_splits)
qed

lemma life_reach_inv: "life_reach f s \<Longrightarrow> runState f = Running \<Longrightarrow> life_inv s"
  by (induction rule: life_reach.induct) (auto intro: life_inv_init fred_step_inv)

text \<open>A run: the fred arms the race, loses the compare-and-swap, and is resumed before
  \<^verbatim>\<open>postSuspend\<close> runs.\<close>

definition life_example :: "nat \<Rightarrow> nat \<Rightarrow> life" where
  "life_example n rs =
     \<lparr>fr = (new_fred False 7 0)\<lparr>resumeInfo := (if n = 0 then 0 else 42), runState := rs\<rparr>,
      ph = Switching, armed = True, tokens = (if n = 1 then 1 else 0), enqueues = 0, dispatches = 0\<rparr>"

lemma life_example_reach:
  "life_reach (new_fred False 7 0) (life_example 1 Running)"
  "life_reach (new_fred False 7 0) (life_example 2 ResumedEarly)"
proof -
  let ?f = "new_fred False 7 0"
  have 1: "life_reach ?f ((life_init ?f)\<lparr>fr := ?f\<lparr>resumeInfo := 0\<rparr>, armed := True\<rparr>)"
    by (rule life_reach.step [OF life_reach.start fred_step.arm])
      (simp_all add: life_init_def new_fred_def prepareResumeRace_Some)
  have 2: "life_reach ?f (life_example 0 Running)"
    using life_reach.step [OF 1 fred_step.suspend_switch [of _ "?f\<lparr>resumeInfo := 0\<rparr>"]]
    by (simp add: life_init_def life_example_def new_fred_def suspend_cas_def)
  show 3: "life_reach ?f (life_example 1 Running)"
    using life_reach.step [OF 2 fred_step.win [of _ 42 "?f\<lparr>resumeInfo := 42\<rparr>"]]
    by (simp add: life_example_def new_fred_def raceResume_True)
  show "life_reach ?f (life_example 2 ResumedEarly)"
    using life_reach.step [OF 3 fred_step.resume [of _ False "fr (life_example 2 ResumedEarly)"]]
    by (simp add: life_example_def new_fred_def fred_resume_Some enqueue_if_def)
qed

section \<open>Properties\<close>

text \<open>the assertions of the run state protocol hold. In every reachable state of a fred's life
  cycle a race winner's \<^verbatim>\<open>resume\<close> and a pending \<^verbatim>\<open>postSuspend\<close> succeed
  (no abort), and so does \<^verbatim>\<open>prepareResumeRace\<close> for a new blocking operation.\<close>

theorem fred_no_abort:
  assumes "life_reach f s" and "runState f = Running"
  shows "(0 < tokens s \<longrightarrow> fred_resume (fr s) \<noteq> None)
    \<and> (ph s = Switching \<longrightarrow> postSuspend (fr s) \<noteq> None)
    \<and> (ph s = Executing \<and> \<not> armed s \<longrightarrow> prepareResumeRace (fr s) \<noteq> None)"
  using life_reach_inv [OF assms] by (simp add: life_inv_def fired_def fred_op_None)

theorem fred_no_abort_witness:
  "fred_resume (fr (life_example 1 Running)) \<noteq> None \<and> tokens (life_example 1 Running) = 1"
  using fred_no_abort [OF life_example_reach(1)] by (simp add: new_fred_def life_example_def)

text \<open>C13: no resume is lost and none is duplicated. At most one racer wins per suspension; once
  its resume has been executed a fred that left its code is on a ready queue, or its pending
  \<^verbatim>\<open>postSuspend\<close> puts it there, while a fred still executing will skip the switch; a
  parked fred has not been resumed; and the number of times it was queued exceeds the number
  of times it was dispatched by one exactly when it is on a ready queue.\<close>

theorem fred_no_lost_wakeup:
  assumes "life_reach f s" and "runState f = Running"
  shows "tokens s \<le> 1
    \<and> (fired s \<and> ph s = Executing \<longrightarrow> fst (suspend_cas (fr s)))
    \<and> (fired s \<and> ph s = Switching \<longrightarrow> map_option fst (postSuspend (fr s)) = Some True)
    \<and> (ph s = Stopped \<longrightarrow> \<not> fired s)
    \<and> enqueues s = dispatches s + (if ph s = Ready then 1 else 0)"
  using life_reach_inv [OF assms]
  by (simp add: life_inv_def suspend_cas_def postSuspend_def Let_def)

theorem fred_no_lost_wakeup_witness:
  "fired (life_example 2 ResumedEarly)
    \<and> map_option fst (postSuspend (fr (life_example 2 ResumedEarly))) = Some True"
  using fred_no_lost_wakeup [OF life_example_reach(2)]
  by (simp add: new_fred_def life_example_def fired_def)

end
