(* ===== verification/Blocking_Queue.thy ===== *)
theory Blocking_Queue
  imports Fred_Model Basics
begin

text \<open>
  \<^verbatim>\<open>BlockingQueue\<close>, \<^verbatim>\<open>Condition\<close> and \<^verbatim>\<open>LockedBarrier\<close> of
  \<^verbatim>\<open>src/src/runtime/BlockingSync.h\<close>. A blocking operation has two parts that run with the
  object's lock held: entering the queue before the suspension and, when the wait was
  cancelled, leaving it afterwards. Each part is one function, atomic in the step relations.
  The intrusive list of nodes is the list of waiting freds in queue order (theory
  \<open>Container_Model\<close> shows that the pointer operations implement the list operations).
  The contract a blocking queue offers to its clients is the locale \<open>wait_queue\<close>.
\<close>

type_synonym freds = "fid \<Rightarrow> fred"

section \<open>BlockingQueue\<close>

record bqueue =
  bq_addr :: addr        \<comment> \<open>\<open>&queue\<close>, the tag with which an unblocker wins the race\<close>
  bq_nodes :: "fid list"

definition bq_empty :: "bqueue \<Rightarrow> bool" where
  "bq_empty q \<longleftrightarrow> bq_nodes q = []"

text \<open>The optional argument of a blocking call: wait, do not wait, or wait until a deadline.\<close>

datatype wait_arg = Wait | NoWait | Until time

text \<open>The three \<^verbatim>\<open>block\<close> overloads: does the call enter the queue at all?\<close>

fun bq_will_block :: "wait_arg \<Rightarrow> time \<Rightarrow> bool" where
  "bq_will_block Wait now = True"
| "bq_will_block NoWait now = False"
| "bq_will_block (Until timeout) now = (timeout > now)"

text \<open>\<^verbatim>\<open>blockInternal\<close> up to the release of the lock, and after the suspension.\<close>

definition bq_block_begin :: "fid \<Rightarrow> bqueue \<Rightarrow> freds \<Rightarrow> (bqueue \<times> freds) option" where
  "bq_block_begin cf q F =
     do { f \<leftarrow> prepareResumeRace (F cf);
          Some (q\<lparr>bq_nodes := bq_nodes q @ [cf]\<rparr>, F(cf := f)) }"

definition bq_block_end :: "fid \<Rightarrow> bqueue \<Rightarrow> freds \<Rightarrow> bool \<times> bqueue" where
  "bq_block_end cf q F =
     (let winner = resumeInfo (F cf)
      in if winner = bq_addr q then (True, q)
         else (False, q\<lparr>bq_nodes := remove1 cf (bq_nodes q)\<rparr>))"

text \<open>\<^verbatim>\<open>unblock\<close>: the first node whose race can still be won is removed and returned;
  nodes that lost to a timeout stay for their owner to remove.\<close>

fun unblock_loop :: "addr \<Rightarrow> fid list \<Rightarrow> freds \<Rightarrow> fid option \<times> fid list \<times> freds" where
  "unblock_loop a [] F = (None, [], F)"
| "unblock_loop a (f # fs) F =
     (let (won, f') = raceResume a (F f)
      in if won then (Some f, fs, F(f := f'))
         else let (r, fs', F') = unblock_loop a fs F in (r, f # fs', F'))"

definition bq_unblock :: "bqueue \<Rightarrow> freds \<Rightarrow> fid option \<times> bqueue \<times> freds" where
  "bq_unblock q F =
     (let (r, ns, F') = unblock_loop (bq_addr q) (bq_nodes q) F in (r, q\<lparr>bq_nodes := ns\<rparr>, F'))"

text \<open>Nodes that can still be unblocked.\<close>

definition bq_waiters :: "bqueue \<Rightarrow> freds \<Rightarrow> fid list" where
  "bq_waiters q F = filter (\<lambda>f. resumeInfo (F f) = 0) (bq_nodes q)"

definition bq_inv :: "bqueue \<Rightarrow> freds \<Rightarrow> bool" where
  "bq_inv q F \<longleftrightarrow> bq_addr q \<noteq> 0 \<and> distinct (bq_nodes q)"

section \<open>The contract of a queue of waiting freds\<close>

text \<open>\<open>iter_unblock\<close>: a loop that calls \<^verbatim>\<open>unblock<true>\<close> a fixed number of times,
  collecting the freds it resumed.\<close>

fun iter_unblock :: "('q \<Rightarrow> freds \<Rightarrow> fid option \<times> 'q \<times> freds) \<Rightarrow> nat \<Rightarrow> 'q \<Rightarrow> freds \<Rightarrow> fid list \<times> 'q \<times> freds" where
  "iter_unblock unb 0 q F = ([], q, F)"
| "iter_unblock unb (Suc n) q F =
     (let (r, q', F') = unb q F; (rs, q'', F'') = iter_unblock unb n q' F'
      in (case r of None \<Rightarrow> rs | Some f \<Rightarrow> f # rs, q'', F''))"

locale wait_queue =
  fixes inv :: "'q \<Rightarrow> freds \<Rightarrow> bool"
    and waiters :: "'q \<Rightarrow> freds \<Rightarrow> fid list"
    and enter :: "fid \<Rightarrow> 'q \<Rightarrow> freds \<Rightarrow> ('q \<times> freds) option"
    and unblock :: "'q \<Rightarrow> freds \<Rightarrow> fid option \<times> 'q \<times> freds"
  assumes unblock_none: "inv q F \<Longrightarrow> waiters q F = [] \<Longrightarrow> unblock q F = (None, q, F)"
    and unblock_some: "inv q F \<Longrightarrow> waiters q F = f # fs \<Longrightarrow>
      \<exists>q' F'. unblock q F = (Some f, q', F') \<and> waiters q' F' = fs \<and> inv q' F'"
    and enter_waiters: "inv q F \<Longrightarrow> f \<notin> set (waiters q F) \<Longrightarrow> enter f q F = Some (q', F') \<Longrightarrow>
      inv q' F' \<Longrightarrow> waiters q' F' = waiters q F @ [f]"
begin

lemma unblock_iff: "inv q F \<Longrightarrow> fst (unblock q F) = None \<longleftrightarrow> waiters q F = []"
  by (cases "waiters q F") (fastforce simp: unblock_none dest: unblock_some)+

lemma unblock_hd: "inv q F \<Longrightarrow> fst (unblock q F) = Some f \<Longrightarrow> waiters q F \<noteq> [] \<and> f = hd (waiters q F)"
  by (cases "waiters q F") (fastforce simp: unblock_none dest: unblock_some)+

lemma iter_unblock_take:
  "inv q F \<Longrightarrow> \<exists>q' F'. iter_unblock unblock n q F = (take n (waiters q F), q', F')
     \<and> waiters q' F' = drop n (waiters q F) \<and> inv q' F'"
proof (induction n arbitrary: q F)
  case 0
  then show ?case by simp
next
  case (Suc n)
  show ?case
  proof (cases "waiters q F")
    case Nil
    with Suc unblock_none [OF Suc.prems Nil] Suc.IH [OF Suc.prems] show ?thesis by auto
  next
    case (Cons f fs)
    from unblock_some [OF Suc.prems Cons] obtain q1 F1 where
      1: "unblock q F = (Some f, q1, F1)" "waiters q1 F1 = fs" "inv q1 F1" by blast
    with Suc.IH [OF 1(3)] Cons show ?thesis by auto
  qed
qed

lemma iter_unblock_all:
  "inv q F \<Longrightarrow> length (waiters q F) \<le> n \<Longrightarrow>
     \<exists>q' F'. iter_unblock unblock n q F = (waiters q F, q', F') \<and> waiters q' F' = [] \<and> inv q' F'"
  using iter_unblock_take [of q F n] by auto

end

section \<open>BlockingQueue fulfils the contract\<close>

lemma unblock_loop_none:
  "filter (\<lambda>f. resumeInfo (F f) = 0) ns = [] \<Longrightarrow> unblock_loop a ns F = (None, ns, F)"
  by (induction ns) (auto simp: raceResume_def split: if_splits)

lemma unblock_loop_some:
  assumes "filter (\<lambda>f. resumeInfo (F f) = 0) ns = f # fs"
  shows "unblock_loop a ns F = (Some f, remove1 f ns, F(f := (F f)\<lparr>resumeInfo := a\<rparr>))"
  using assms
proof (induction ns)
  case (Cons n ns)
  then show ?case
    by (cases "resumeInfo (F n) = 0") (auto simp: raceResume_def filter_eq_Cons_iff)
qed simp

lemma bq_unblock_none: "bq_waiters q F = [] \<Longrightarrow> bq_unblock q F = (None, q, F)"
  by (simp add: bq_unblock_def bq_waiters_def unblock_loop_none)

lemma bq_unblock_some:
  "bq_waiters q F = f # fs \<Longrightarrow>
     bq_unblock q F = (Some f, q\<lparr>bq_nodes := remove1 f (bq_nodes q)\<rparr>,
                       F(f := (F f)\<lparr>resumeInfo := bq_addr q\<rparr>))"
  by (simp add: bq_unblock_def bq_waiters_def unblock_loop_some)

lemma filter_remove1_upd:
  assumes "distinct ns" and "filter P ns = f # fs" and "\<not> P' f" and "\<And>g. g \<noteq> f \<Longrightarrow> P' g = P g"
  shows "filter P' (remove1 f ns) = fs"
proof -
  have "filter P' (remove1 f ns) = filter P (remove1 f ns)"
    using assms(1,4) by (intro filter_cong) (auto simp: set_remove1_eq)
  also have "\<dots> = remove1 f (filter P ns)"
    by (simp add: filter_remove1)
  finally show ?thesis using assms(2) by simp
qed

lemma bq_waiters_unblock:
  assumes "bq_inv q F" and "bq_waiters q F = f # fs"
  shows "bq_waiters (q\<lparr>bq_nodes := remove1 f (bq_nodes q)\<rparr>)
           (F(f := (F f)\<lparr>resumeInfo := bq_addr q\<rparr>)) = fs"
  using assms by (auto simp: bq_waiters_def bq_inv_def intro!: filter_remove1_upd)

lemma bq_block_begin_Some:
  "bq_block_begin cf q F = Some (q', F') \<longleftrightarrow>
     runState (F cf) = Running \<and> q' = q\<lparr>bq_nodes := bq_nodes q @ [cf]\<rparr> \<and>
     F' = F(cf := (F cf)\<lparr>resumeInfo := 0\<rparr>)"
  by (auto simp: bq_block_begin_def bind_eq_Some_conv prepareResumeRace_Some)

interpretation bq: wait_queue bq_inv bq_waiters bq_block_begin bq_unblock
proof
  fix q F f fs
  assume "bq_inv q F" and w: "bq_waiters q F = f # fs"
  then have "bq_inv (q\<lparr>bq_nodes := remove1 f (bq_nodes q)\<rparr>) (F(f := (F f)\<lparr>resumeInfo := bq_addr q\<rparr>))"
    by (simp add: bq_inv_def)
  then show "\<exists>q' F'. bq_unblock q F = (Some f, q', F') \<and> bq_waiters q' F' = fs \<and> bq_inv q' F'"
    using bq_unblock_some [OF w] bq_waiters_unblock [OF \<open>bq_inv q F\<close> w] by blast
next
  fix q F f q' F'
  assume "bq_inv q' F'" and b: "bq_block_begin f q F = Some (q', F')"
  then have "f \<notin> set (bq_nodes q)" by (auto simp: bq_inv_def bq_block_begin_Some)
  then have "filter (\<lambda>g. resumeInfo (F' g) = 0) (bq_nodes q) = filter (\<lambda>g. resumeInfo (F g) = 0) (bq_nodes q)"
    using b by (intro filter_cong) (auto simp: bq_block_begin_Some)
  with b show "bq_waiters q' F' = bq_waiters q F @ [f]"
    by (simp add: bq_waiters_def bq_block_begin_Some)
qed (rule bq_unblock_none)

section \<open>Condition\<close>

lemma bq_unblock_shrinks: "bq_unblock q F = (Some f, q', F') \<Longrightarrow> length (bq_nodes q') < length (bq_nodes q)"
proof (cases "bq_waiters q F")
  case (Cons g gs)
  then have "g \<in> set (bq_nodes q)" by (auto simp: bq_waiters_def filter_eq_Cons_iff)
  moreover assume "bq_unblock q F = (Some f, q', F')"
  ultimately show ?thesis
    using bq_unblock_some [OF Cons] length_pos_if_in_set [of g "bq_nodes q"]
    by (auto simp: length_remove1)
qed (simp add: bq_unblock_none)

text \<open>\<^verbatim>\<open>signal<Broadcast>\<close>: \<open>while (bq.unblock<true>() && Broadcast);\<close>. Each round that
  continues has removed a node, which bounds the loop.\<close>

function signal_broadcast :: "bqueue \<Rightarrow> freds \<Rightarrow> fid list \<times> bqueue \<times> freds" where
  "signal_broadcast q F =
     (case bq_unblock q F of
        (None, q', F') \<Rightarrow> ([], q', F')
      | (Some f, q', F') \<Rightarrow> let (rs, r) = signal_broadcast q' F' in (f # rs, r))"
  by pat_completeness auto

termination
  by (relation "measure (\<lambda>(q, F). length (bq_nodes q))") (auto intro: bq_unblock_shrinks [OF sym])

declare signal_broadcast.simps [simp del]

definition cond_signal :: "bool \<Rightarrow> bqueue \<Rightarrow> freds \<Rightarrow> fid list \<times> bqueue \<times> freds" where
  "cond_signal broadcast q F =
     (if broadcast then signal_broadcast q F
      else let (r, q', F') = bq_unblock q F in (case r of None \<Rightarrow> [] | Some f \<Rightarrow> [f], q', F'))"

lemma signal_broadcast_all:
  "bq_inv q F \<Longrightarrow> \<exists>q' F'. signal_broadcast q F = (bq_waiters q F, q', F') \<and> bq_waiters q' F' = []"
proof (induction q F rule: signal_broadcast.induct)
  case (1 q F)
  show ?case
  proof (cases "bq_waiters q F")
    case Nil
    then show ?thesis
      using bq.unblock_none [OF "1.prems" Nil] by (simp add: signal_broadcast.simps [of q F])
  next
    case (Cons f fs)
    from bq.unblock_some [OF "1.prems" Cons] obtain q1 F1 where
      u: "bq_unblock q F = (Some f, q1, F1)" "bq_waiters q1 F1 = fs" "bq_inv q1 F1" by blast
    with "1.IH" [OF u(1) [symmetric] refl refl u(3)] Cons show ?thesis
      by (auto simp: signal_broadcast.simps [of q F])
  qed
qed

text \<open>\<^verbatim>\<open>Condition::signal\<close> resumes the longest-waiting fred that has not timed out, and
  \<^verbatim>\<open>signal<true>\<close> resumes every such fred, in the order in which they began to wait, and
  leaves none behind; the loop always terminates.\<close>

theorem cond_signal_correct:
  assumes "bq_inv q F"
  shows "fst (cond_signal False q F) = take 1 (bq_waiters q F)
    \<and> fst (cond_signal True q F) = bq_waiters q F
    \<and> (case cond_signal True q F of (_, q', F') \<Rightarrow> bq_waiters q' F' = [])"
proof -
  have "fst (cond_signal False q F) = take 1 (bq_waiters q F)"
    using bq.iter_unblock_take [OF assms, of 1]
    by (auto simp: cond_signal_def split: prod.splits option.splits)
  then show ?thesis
    using signal_broadcast_all [OF assms] by (auto simp: cond_signal_def)
qed

definition queue_example :: bqueue where
  "queue_example = \<lparr>bq_addr = 100, bq_nodes = [3, 1, 4]\<rparr>"

definition freds_example :: freds where
  "freds_example = (\<lambda>f. new_fred False (if f = 1 then 200 else 0) 0)"

theorem cond_signal_correct_witness:
  "fst (cond_signal True queue_example freds_example) = [3, 4]"
  using cond_signal_correct [of queue_example freds_example]
  by (simp add: bq_inv_def bq_waiters_def queue_example_def freds_example_def new_fred_def)

section \<open>LockedBarrier\<close>

record lbarrier =
  target :: nat
  bcount :: nat
  bbq :: bqueue

definition new_barrier :: "addr \<Rightarrow> nat \<Rightarrow> lbarrier option" where
  "new_barrier a t =
     do { rassert (t > 0); Some \<lparr>target = t, bcount = 0, bbq = \<lparr>bq_addr = a, bq_nodes = []\<rparr>\<rparr> }"

text \<open>\<^verbatim>\<open>wait\<close> with the lock held. The last arrival returns \<open>true\<close> after a loop that
  calls \<^verbatim>\<open>unblock<true>\<close> once per counted arrival and counts down to zero; every other arrival blocks
  and returns \<open>false\<close> afterwards (result \<open>None\<close> here: still blocked).\<close>

definition barrier_wait :: "fid \<Rightarrow> lbarrier \<Rightarrow> freds \<Rightarrow> (bool option \<times> fid list \<times> lbarrier \<times> freds) option" where
  "barrier_wait cf b F =
     (let c = bcount b + 1
      in if c = target b
         then let (rs, q, F') = iter_unblock bq_unblock c (bbq b) F
              in Some (Some True, rs, b\<lparr>bcount := 0, bbq := q\<rparr>, F')
         else do { (q, F') \<leftarrow> bq_block_begin cf (bbq b) F;
                   Some (None, [], b\<lparr>bcount := c, bbq := q\<rparr>, F') })"

record barrier_sys =
  bsys_b :: lbarrier
  bsys_F :: freds
  bsys_in :: "fid set"      \<comment> \<open>freds inside \<open>wait\<close>\<close>
  bsys_trips :: nat         \<comment> \<open>calls that returned true\<close>
  bsys_arrivals :: nat      \<comment> \<open>calls of \<open>wait\<close> so far\<close>

inductive barrier_step :: "barrier_sys \<Rightarrow> barrier_sys \<Rightarrow> bool" where
  arrive_last: "cf \<notin> bsys_in s \<Longrightarrow> barrier_wait cf (bsys_b s) (bsys_F s) = Some (Some True, rs, b, F) \<Longrightarrow>
     barrier_step s (s\<lparr>bsys_b := b, bsys_F := F, bsys_trips := Suc (bsys_trips s),
                       bsys_arrivals := Suc (bsys_arrivals s)\<rparr>)"
| arrive_block: "cf \<notin> bsys_in s \<Longrightarrow> barrier_wait cf (bsys_b s) (bsys_F s) = Some (None, rs, b, F) \<Longrightarrow>
     barrier_step s (s\<lparr>bsys_b := b, bsys_F := F, bsys_in := insert cf (bsys_in s),
                       bsys_arrivals := Suc (bsys_arrivals s)\<rparr>)"
| leave: "cf \<in> bsys_in s \<Longrightarrow> resumeInfo (bsys_F s cf) \<noteq> 0 \<Longrightarrow> bq_block_end cf (bbq (bsys_b s)) (bsys_F s) = (r, q) \<Longrightarrow>
     barrier_step s (s\<lparr>bsys_b := (bsys_b s)\<lparr>bbq := q\<rparr>, bsys_in := bsys_in s - {cf}\<rparr>)"

inductive barrier_reach :: "addr \<Rightarrow> nat \<Rightarrow> freds \<Rightarrow> barrier_sys \<Rightarrow> bool" for a t F0 where
  start: "new_barrier a t = Some b \<Longrightarrow>
     barrier_reach a t F0 \<lparr>bsys_b = b, bsys_F = F0, bsys_in = {}, bsys_trips = 0, bsys_arrivals = 0\<rparr>"
| step: "barrier_reach a t F0 s \<Longrightarrow> barrier_step s s' \<Longrightarrow> barrier_reach a t F0 s'"

definition barrier_inv :: "nat \<Rightarrow> barrier_sys \<Rightarrow> bool" where
  "barrier_inv t s \<longleftrightarrow>
     (let b = bsys_b s; q = bbq b; F = bsys_F s
      in bq_inv q F \<and> target b = t \<and> bcount b < t \<and> bcount b = length (bq_nodes q)
         \<and> set (bq_nodes q) \<subseteq> bsys_in s
         \<and> (\<forall>f \<in> bsys_in s. resumeInfo (F f) = (if f \<in> set (bq_nodes q) then 0 else bq_addr q))
         \<and> bsys_arrivals s = t * bsys_trips s + bcount b)"

lemma barrier_inv_waiters:
  "barrier_inv t s \<Longrightarrow> bq_waiters (bbq (bsys_b s)) (bsys_F s) = bq_nodes (bbq (bsys_b s))"
  by (auto simp: barrier_inv_def bq_waiters_def Let_def filter_id_conv)

text \<open>What the release loop of the last arrival does to the queue and to the races.\<close>

lemma iter_unblock_release:
  assumes "bq_inv q F" and "bq_waiters q F = bq_nodes q" and "length (bq_nodes q) \<le> n"
  shows "iter_unblock bq_unblock n q F =
     (bq_nodes q, q\<lparr>bq_nodes := []\<rparr>,
      \<lambda>f. if f \<in> set (bq_nodes q) then (F f)\<lparr>resumeInfo := bq_addr q\<rparr> else F f)"
  using assms
proof (induction n arbitrary: q F)
  case (Suc n)
  show ?case
  proof (cases "bq_nodes q")
    case Nil
    with Suc.prems bq_unblock_none [of q F] Suc.IH [of q F] show ?thesis by (simp add: Let_def)
  next
    case (Cons f fs)
    define q1 where "q1 = q\<lparr>bq_nodes := fs\<rparr>"
    define F1 where "F1 = F(f := (F f)\<lparr>resumeInfo := bq_addr q\<rparr>)"
    have "bq_unblock q F = (Some f, q1, F1)"
      using bq_unblock_some [of q F f fs] Suc.prems(2) Cons by (simp add: q1_def F1_def)
    moreover have q1: "bq_inv q1 F1" "bq_nodes q1 = fs" "bq_addr q1 = bq_addr q"
      using Suc.prems(1) Cons by (simp_all add: bq_inv_def q1_def)
    have "bq_waiters q1 F1 = fs"
      using bq_waiters_unblock [OF Suc.prems(1), of f fs] Suc.prems(2) Cons by (simp add: q1_def F1_def)
    then have "iter_unblock bq_unblock n q1 F1 =
        (fs, q1\<lparr>bq_nodes := []\<rparr>, \<lambda>g. if g \<in> set fs then (F1 g)\<lparr>resumeInfo := bq_addr q\<rparr> else F1 g)"
      using Suc.IH [OF q1(1)] Suc.prems(3) Cons q1 by (simp cong: if_cong)
    ultimately show ?thesis using Cons by (auto simp: q1_def F1_def intro!: ext)
  qed
qed simp

lemma barrier_inv_start:
  assumes "new_barrier a t = Some b" and "a \<noteq> 0"
  shows "barrier_inv t \<lparr>bsys_b = b, bsys_F = F0, bsys_in = {}, bsys_trips = 0, bsys_arrivals = 0\<rparr>"
  using assms by (auto simp: new_barrier_def barrier_inv_def bq_inv_def Let_def split: if_splits)

lemma barrier_wait_last:
  assumes "barrier_inv t s" and "bcount (bsys_b s) + 1 = t"
  shows "barrier_wait cf (bsys_b s) (bsys_F s) =
     Some (Some True, bq_nodes (bbq (bsys_b s)),
       (bsys_b s)\<lparr>bcount := 0, bbq := (bbq (bsys_b s))\<lparr>bq_nodes := []\<rparr>\<rparr>,
       \<lambda>f. if f \<in> set (bq_nodes (bbq (bsys_b s)))
            then (bsys_F s f)\<lparr>resumeInfo := bq_addr (bbq (bsys_b s))\<rparr> else bsys_F s f)"
proof -
  have "bq_inv (bbq (bsys_b s)) (bsys_F s)" "length (bq_nodes (bbq (bsys_b s))) \<le> t"
    "target (bsys_b s) = t"
    using assms by (auto simp: barrier_inv_def Let_def)
  then show ?thesis
    using iter_unblock_release [of "bbq (bsys_b s)" "bsys_F s" t] barrier_inv_waiters [OF assms(1)] assms(2)
    by (simp add: barrier_wait_def Let_def)
qed

lemma barrier_step_inv: "barrier_step s s' \<Longrightarrow> barrier_inv t s \<Longrightarrow> barrier_inv t s'"
proof (induction rule: barrier_step.induct)
  case (arrive_last cf s rs b F)
  then have last: "bcount (bsys_b s) + 1 = t"
    by (auto simp: barrier_wait_def barrier_inv_def Let_def bind_eq_Some_conv split: if_splits)
  with arrive_last(2,3) barrier_wait_last [OF arrive_last(3) last, of cf] show ?case
    by (auto simp: barrier_inv_def bq_inv_def Let_def)
next
  case (arrive_block cf s rs b F)
  then show ?case
    by (auto simp: barrier_wait_def barrier_inv_def bq_inv_def Let_def bind_eq_Some_conv
        bq_block_begin_Some split: if_splits prod.splits)
next
  case (leave cf s r q)
  then have "cf \<notin> set (bq_nodes (bbq (bsys_b s)))" "q = bbq (bsys_b s)"
    by (auto simp: barrier_inv_def bq_block_end_def Let_def split: if_splits)
  with leave show ?case by (auto simp: barrier_inv_def Let_def)
qed

lemma barrier_reach_inv: "barrier_reach a t F0 s \<Longrightarrow> a \<noteq> 0 \<Longrightarrow> barrier_inv t s"
  by (induction rule: barrier_reach.induct) (auto intro: barrier_inv_start barrier_step_inv)

text \<open>\<^verbatim>\<open>LockedBarrier::wait\<close> trips exactly once per \<open>target\<close> arrivals. In every reachable
  state the number of calls so far is \<open>target\<close> times the number of calls that returned true plus
  the number of freds waiting, which stays below \<open>target\<close>; and the arrival that completes the
  group releases exactly the waiting freds, in order, and leaves the barrier empty.\<close>

theorem barrier_trips:
  assumes "barrier_reach a t F0 s" and "a \<noteq> 0"
  shows "bsys_arrivals s = t * bsys_trips s + length (bq_nodes (bbq (bsys_b s)))
    \<and> length (bq_nodes (bbq (bsys_b s))) < t
    \<and> (length (bq_nodes (bbq (bsys_b s))) + 1 = t \<longrightarrow>
        (\<exists>b F. barrier_wait cf (bsys_b s) (bsys_F s) = Some (Some True, bq_nodes (bbq (bsys_b s)), b, F)
           \<and> bcount b = 0 \<and> bq_nodes (bbq b) = []))"
proof -
  have inv: "barrier_inv t s" by (rule barrier_reach_inv [OF assms])
  then have "bcount (bsys_b s) = length (bq_nodes (bbq (bsys_b s)))"
    "bsys_arrivals s = t * bsys_trips s + bcount (bsys_b s)" "bcount (bsys_b s) < t"
    by (simp_all add: barrier_inv_def Let_def)
  with barrier_wait_last [OF inv, of cf] show ?thesis by auto
qed

lemma barrier_example:
  "barrier_reach 9 2 (\<lambda>_. new_fred False 0 0)
     \<lparr>bsys_b = \<lparr>target = 2, bcount = 1, bbq = \<lparr>bq_addr = 9, bq_nodes = [5]\<rparr>\<rparr>,
      bsys_F = (\<lambda>_. new_fred False 0 0), bsys_in = {5}, bsys_trips = 0, bsys_arrivals = 1\<rparr>"
proof -
  let ?F = "\<lambda>_ :: fid. new_fred False 0 0"
  let ?s = "\<lparr>bsys_b = \<lparr>target = 2, bcount = 0, bbq = \<lparr>bq_addr = 9, bq_nodes = []\<rparr>\<rparr>,
    bsys_F = ?F, bsys_in = {}, bsys_trips = 0, bsys_arrivals = 0\<rparr>"
  have 1: "barrier_reach 9 2 ?F ?s"
    by (rule barrier_reach.start) (simp add: new_barrier_def)
  have 2: "barrier_wait 5 (bsys_b ?s) (bsys_F ?s) =
      Some (None, [], \<lparr>target = 2, bcount = 1, bbq = \<lparr>bq_addr = 9, bq_nodes = [5]\<rparr>\<rparr>, ?F)"
    by (auto simp: barrier_wait_def bq_block_begin_def prepareResumeRace_def new_fred_def fun_eq_iff)
  show ?thesis
    using barrier_reach.step [OF 1 barrier_step.arrive_block [OF _ 2]] by simp
qed

theorem barrier_trips_witness:
  "\<exists>b F. barrier_wait 6 \<lparr>target = 2, bcount = 1, bbq = \<lparr>bq_addr = 9, bq_nodes = [5]\<rparr>\<rparr>
       (\<lambda>_. new_fred False 0 0) = Some (Some True, [5], b, F) \<and> bcount b = 0 \<and> bq_nodes (bbq b) = []"
  using barrier_trips [OF barrier_example, of 6] by simp

end
