(* ===== verification/Lock_Contract.thy ===== *)
theory Lock_Contract
  imports Prelude
begin

text \<open>
  What the locks of the program promise to the code that uses them, as the locale \<open>mutex\<close>: a transition system in
  which at most one thread is inside. The client is a critical section, as made by \<^verbatim>\<open>ScopedLock\<close> in
  \<^verbatim>\<open>src/src/runtime/ScopedLocks.h\<close>: a thread that is inside accesses the shared data several times before it leaves.
  Proved once for every lock: the accesses of different sections do not mix, so that a section is one atomic change of the
  data. The component theories rest on this when they model a section that runs with a lock held as one function.
  Every lock of the program interprets the locale in its own theory.
\<close>

section \<open>Sections\<close>

text \<open>The lock, the data, for each thread the accesses that are left of its section, and the sections begun so far.\<close>

record ('s, 't, 'd) guarded =
  gd_lock :: 's
  gd_data :: 'd
  gd_run :: "'t \<Rightarrow> ('d \<Rightarrow> 'd) list option"
  gd_log :: "('d \<Rightarrow> 'd) list list"

text \<open>The lock moves by itself but no thread leaves in the middle of its section; a section begins, makes one access,
  ends.\<close>

inductive guarded_step ::
  "('s \<Rightarrow> 's \<Rightarrow> bool) \<Rightarrow> ('s \<Rightarrow> 't \<Rightarrow> bool) \<Rightarrow> ('s, 't, 'd) guarded \<Rightarrow> ('s, 't, 'd) guarded \<Rightarrow> bool" for step inside where
  lock: "step (gd_lock c) l \<Longrightarrow> (\<forall>t. gd_run c t \<noteq> None \<longrightarrow> inside l t) \<Longrightarrow> guarded_step step inside c (c\<lparr>gd_lock := l\<rparr>)"
| section_begin: "inside (gd_lock c) t \<Longrightarrow> gd_run c t = None \<Longrightarrow>
     guarded_step step inside c (c\<lparr>gd_run := (gd_run c)(t := Some fs), gd_log := gd_log c @ [fs]\<rparr>)"
| access: "gd_run c t = Some (f # fs) \<Longrightarrow>
     guarded_step step inside c (c\<lparr>gd_data := f (gd_data c), gd_run := (gd_run c)(t := Some fs)\<rparr>)"
| section_end: "gd_run c t = Some [] \<Longrightarrow> guarded_step step inside c (c\<lparr>gd_run := (gd_run c)(t := None)\<rparr>)"

inductive guarded_reach ::
  "('s \<Rightarrow> 's \<Rightarrow> bool) \<Rightarrow> ('s \<Rightarrow> 't \<Rightarrow> bool) \<Rightarrow> 's \<Rightarrow> 'd \<Rightarrow> ('s, 't, 'd) guarded \<Rightarrow> bool" for step inside l0 d0 where
  start: "guarded_reach step inside l0 d0 \<lparr>gd_lock = l0, gd_data = d0, gd_run = (\<lambda>_. None), gd_log = []\<rparr>"
| move: "guarded_reach step inside l0 d0 c \<Longrightarrow> guarded_step step inside c c' \<Longrightarrow> guarded_reach step inside l0 d0 c'"

text \<open>The sections one after the other.\<close>

definition replay :: "('d \<Rightarrow> 'd) list list \<Rightarrow> 'd \<Rightarrow> 'd" where
  "replay log d = fold (\<lambda>f. f) (concat log) d"

text \<open>The data are what the sections produce one after the other, the last one possibly not finished.\<close>

definition guarded_inv :: "('s \<Rightarrow> 't \<Rightarrow> bool) \<Rightarrow> 'd \<Rightarrow> ('s, 't, 'd) guarded \<Rightarrow> bool" where
  "guarded_inv inside d0 c \<longleftrightarrow> (\<forall>t. gd_run c t \<noteq> None \<longrightarrow> inside (gd_lock c) t)
     \<and> (\<exists>ds rest. concat (gd_log c) = ds @ rest \<and> gd_data c = fold (\<lambda>f. f) ds d0
          \<and> (\<forall>t fs. gd_run c t = Some fs \<longrightarrow> fs = rest) \<and> ((\<forall>t. gd_run c t = None) \<longrightarrow> rest = []))"

definition one_section :: "('s, 't, 'd) guarded \<Rightarrow> bool" where
  "one_section c \<longleftrightarrow> (\<forall>t u. gd_run c t \<noteq> None \<longrightarrow> gd_run c u \<noteq> None \<longrightarrow> t = u)"

text \<open>Sections are atomic: at most one is under way, and when none is, the data are those of the sections one after the
  other.\<close>

definition serializable :: "'d \<Rightarrow> ('s, 't, 'd) guarded \<Rightarrow> bool" where
  "serializable d0 c \<longleftrightarrow> one_section c \<and> ((\<forall>t. gd_run c t = None) \<longrightarrow> gd_data c = replay (gd_log c) d0)"

section \<open>The contract\<close>

locale mutex =
  fixes reach :: "'s \<Rightarrow> bool"
    and step :: "'s \<Rightarrow> 's \<Rightarrow> bool"
    and inside :: "'s \<Rightarrow> 't \<Rightarrow> bool"
  assumes reach_step: "reach s \<Longrightarrow> step s s' \<Longrightarrow> reach s'"
    and exclusive: "reach s \<Longrightarrow> inside s t \<Longrightarrow> inside s u \<Longrightarrow> t = u"
begin

lemma guarded_one: "reach (gd_lock c) \<Longrightarrow> guarded_inv inside d0 c \<Longrightarrow> one_section c"
  unfolding one_section_def guarded_inv_def by (meson exclusive)

lemma guarded_step_inv:
  assumes "guarded_step step inside c c'" and "reach (gd_lock c)" and inv: "guarded_inv inside d0 c"
  shows "reach (gd_lock c') \<and> guarded_inv inside d0 c'"
proof -
  have one: "one_section c" by (rule guarded_one [OF assms(2) inv])
  obtain ds rest where r: "concat (gd_log c) = ds @ rest" "gd_data c = fold (\<lambda>f. f) ds d0"
      "\<And>t fs. gd_run c t = Some fs \<Longrightarrow> fs = rest" "(\<forall>t. gd_run c t = None) \<Longrightarrow> rest = []"
    and ins: "\<And>t. gd_run c t \<noteq> None \<Longrightarrow> inside (gd_lock c) t"
    using inv unfolding guarded_inv_def by blast
  show ?thesis
    using assms(1)
  proof (cases rule: guarded_step.cases)
    case (lock l)
    then show ?thesis using r reach_step [OF assms(2) lock(2)] by (auto simp: guarded_inv_def)
  next
    case (section_begin t fs)
    have "gd_run c u = None" for u
    proof (rule ccontr)
      assume u: "gd_run c u \<noteq> None"
      then have "u = t" using exclusive [OF assms(2) ins section_begin(2)] by blast
      with u section_begin(3) show False by simp
    qed
    then have "rest = []" and none: "\<And>u. gd_run c u = None" using r(4) by blast+
    then show ?thesis using section_begin r(1,2) assms(2)
      unfolding guarded_inv_def by (auto intro!: exI [of _ ds] exI [of _ fs])
  next
    case (access t f fs)
    have "rest = f # fs" using r(3) [OF access(2)] by simp
    moreover have "gd_run c u = None" if "u \<noteq> t" for u using one access(2) that unfolding one_section_def by fastforce
    ultimately show ?thesis using access r(1,2) ins assms(2)
      unfolding guarded_inv_def by (auto intro!: exI [of _ "ds @ [f]"] exI [of _ fs])
  next
    case (section_end t)
    have "rest = []" using r(3) [OF section_end(2)] by simp
    moreover have "gd_run c u = None" if "u \<noteq> t" for u using one section_end(2) that unfolding one_section_def by fastforce
    ultimately show ?thesis using section_end r(1,2) ins assms(2)
      unfolding guarded_inv_def by (auto intro!: exI [of _ ds])
  qed
qed

lemma guarded_reach_inv:
  assumes "guarded_reach step inside l0 d0 c" and "reach l0"
  shows "reach (gd_lock c) \<and> guarded_inv inside d0 c"
  using assms(1)
proof (induction rule: guarded_reach.induct)
  case start
  then show ?case using assms(2) by (simp add: guarded_inv_def)
next
  case (move c c')
  then show ?case using guarded_step_inv [OF move(2), of d0] by simp
qed

lemma sections_atomic:
  assumes "reach l0" and "guarded_reach step inside l0 d0 c"
  shows "serializable d0 c"
proof -
  note inv = guarded_reach_inv [OF assms(2,1)]
  have "gd_data c = replay (gd_log c) d0" if "\<forall>t. gd_run c t = None"
    using inv that unfolding guarded_inv_def replay_def by (metis append_Nil2)
  then show ?thesis using guarded_one [of c d0] inv by (simp add: serializable_def)
qed

end

section \<open>Readers and writers\<close>

text \<open>Of a readers-writer lock the writers are threads inside a mutex; a reader is only inside when no writer is.\<close>

locale rw_mutex =
  fixes reach :: "'s \<Rightarrow> bool"
    and step :: "'s \<Rightarrow> 's \<Rightarrow> bool"
    and reading :: "'s \<Rightarrow> 't \<Rightarrow> bool"
    and writing :: "'s \<Rightarrow> 't \<Rightarrow> bool"
  assumes rw_reach_step: "reach s \<Longrightarrow> step s s' \<Longrightarrow> reach s'"
    and one_writer: "reach s \<Longrightarrow> writing s t \<Longrightarrow> writing s u \<Longrightarrow> t = u"
    and no_reader: "reach s \<Longrightarrow> writing s t \<Longrightarrow> \<not> reading s u"

sublocale rw_mutex \<subseteq> mutex reach step writing
  by unfold_locales (fact rw_reach_step one_writer)+

context rw_mutex begin

text \<open>A reader sees the data as complete sections of the writers leave them.\<close>

lemma readers_see_sections:
  assumes "reach l0" and "guarded_reach step writing l0 d0 c" and "reading (gd_lock c) t"
  shows "gd_data c = replay (gd_log c) d0"
proof -
  have "reach (gd_lock c)" "guarded_inv writing d0 c" using guarded_reach_inv [OF assms(2,1)] by simp_all
  then have "gd_run c u = None" for u using no_reader assms(3) unfolding guarded_inv_def by blast
  then show ?thesis using sections_atomic [OF assms(1,2)] by (simp add: serializable_def)
qed

end

end
