(* ===== verification/Locked_Sync.thy ===== *)
theory Locked_Sync
  imports Blocking_Queue Lock_Contract
begin

text \<open>
  \<^verbatim>\<open>LockedSemaphore\<close> of
  \<^verbatim>\<open>src/src/runtime/BlockingSync.h\<close>. Every section that the source runs with the internal
  lock held is one function on the object and the freds; the step relations interleave those
  sections with timers that win races. A wait ends when somebody has won the race for the fred
  (theory \<open>Fred_Model\<close> shows that the suspension then returns).
\<close>

section \<open>Freds inside a blocking call\<close>

text \<open>\<open>B\<close> is the set of freds between \<open>bq_block_begin\<close> and \<open>bq_block_end\<close> on the queue.
  Those whose race was won by the queue have been granted what they wait for.\<close>

definition bq_ok :: "bqueue \<Rightarrow> freds \<Rightarrow> fid set \<Rightarrow> bool" where
  "bq_ok q F B \<longleftrightarrow> bq_addr q \<noteq> 0 \<and> distinct (bq_nodes q) \<and> set (bq_nodes q) \<subseteq> B \<and> finite B
     \<and> (\<forall>f\<in>B. f \<in> set (bq_nodes q) \<longleftrightarrow> resumeInfo (F f) \<noteq> bq_addr q)"

definition granted :: "bqueue \<Rightarrow> freds \<Rightarrow> fid set \<Rightarrow> fid set" where
  "granted q F B = {f \<in> B. resumeInfo (F f) = bq_addr q}"

text \<open>A timer (or anybody else) wins the race for a fred.\<close>

definition race_won :: "addr \<Rightarrow> fid \<Rightarrow> freds \<Rightarrow> freds" where
  "race_won a f F = F(f := snd (raceResume a (F f)))"

definition queue_init :: "addr \<Rightarrow> bqueue" where
  "queue_init a = \<lparr>bq_addr = a, bq_nodes = []\<rparr>"

lemma queue_init_sel [simp]: "bq_addr (queue_init a) = a" "bq_nodes (queue_init a) = []"
  by (simp_all add: queue_init_def)

lemma bq_ok_init: "a \<noteq> 0 \<Longrightarrow> bq_ok (queue_init a) F {}"
  by (simp add: bq_ok_def)

lemma granted_empty [simp]: "granted q F {} = {}"
  by (simp add: granted_def)

lemma finite_granted [intro]: "bq_ok q F B \<Longrightarrow> finite (granted q F B)"
  by (simp add: granted_def bq_ok_def)

lemma bq_ok_inv: "bq_ok q F B \<Longrightarrow> bq_inv q F"
  by (simp add: bq_ok_def bq_inv_def)

lemma bq_waiters_blocked: "bq_ok q F B \<Longrightarrow> set (bq_waiters q F) \<subseteq> B"
  by (auto simp: bq_ok_def bq_waiters_def)

lemma bq_ok_frame:
  assumes "\<And>f. f \<in> B \<Longrightarrow> resumeInfo (F' f) = resumeInfo (F f)" and "bq_ok q F B"
  shows "bq_ok q F' B" and "granted q F' B = granted q F B" and "bq_waiters q F' = bq_waiters q F"
proof -
  show "bq_ok q F' B" and "granted q F' B = granted q F B"
    using assms by (auto simp: bq_ok_def granted_def)
  show "bq_waiters q F' = bq_waiters q F"
    unfolding bq_waiters_def using assms by (intro filter_cong) (auto simp: bq_ok_def subset_iff)
qed

lemma bq_ok_enter:
  assumes "bq_ok q F B" and "cf \<notin> B" and "bq_block_begin cf q F = Some (q', F')"
  shows "bq_ok q' F' (insert cf B)" and "granted q' F' (insert cf B) = granted q F B"
    and "bq_waiters q' F' = bq_waiters q F @ [cf]" and "bq_addr q' = bq_addr q"
    and "\<And>f. f \<noteq> cf \<Longrightarrow> F' f = F f"
proof -
  have eq: "q' = q\<lparr>bq_nodes := bq_nodes q @ [cf]\<rparr>" "F' = F(cf := (F cf)\<lparr>resumeInfo := 0\<rparr>)"
    using assms(3) by (simp_all add: bq_block_begin_Some)
  show ok: "bq_ok q' F' (insert cf B)" and "granted q' F' (insert cf B) = granted q F B"
    using assms(1,2) by (auto simp: eq bq_ok_def granted_def)
  show "bq_waiters q' F' = bq_waiters q F @ [cf]"
    using bq_waiters_blocked [OF assms(1)] assms(2)
    by (intro bq.enter_waiters [OF bq_ok_inv [OF assms(1)] _ assms(3) bq_ok_inv [OF ok]]) auto
  show "bq_addr q' = bq_addr q" and "\<And>f. f \<noteq> cf \<Longrightarrow> F' f = F f"
    by (simp_all add: eq)
qed

lemma bq_ok_leave:
  assumes "bq_ok q F B" and "cf \<in> B" and "resumeInfo (F cf) \<noteq> 0" and "bq_block_end cf q F = (r, q')"
  shows "bq_ok q' F (B - {cf})" and "r \<longleftrightarrow> cf \<in> granted q F B"
    and "granted q' F (B - {cf}) = granted q F B - {cf}" and "bq_waiters q' F = bq_waiters q F"
    and "bq_addr q' = bq_addr q"
proof -
  have q': "q' = q\<lparr>bq_nodes := remove1 cf (bq_nodes q)\<rparr>"
    using assms by (auto simp: bq_block_end_def bq_ok_def Let_def remove1_idem split: if_splits)
  show "bq_ok q' F (B - {cf})" and "granted q' F (B - {cf}) = granted q F B - {cf}"
    and "bq_addr q' = bq_addr q"
    using assms(1) by (auto simp: q' bq_ok_def granted_def)
  show "r \<longleftrightarrow> cf \<in> granted q F B"
    using assms by (auto simp: bq_block_end_def granted_def Let_def split: if_splits)
  show "bq_waiters q' F = bq_waiters q F"
    using assms(1,3) by (simp add: q' bq_waiters_def filter_remove1 remove1_idem)
qed

lemma bq_ok_unblock:
  assumes "bq_ok q F B" and "bq_unblock q F = (r, q', F')"
  shows "bq_ok q' F' B" and "bq_addr q' = bq_addr q"
    and "r = None \<Longrightarrow> bq_waiters q F = [] \<and> q' = q \<and> F' = F"
    and "r = Some f \<Longrightarrow> bq_waiters q F = f # bq_waiters q' F'"
    and "r = Some f \<Longrightarrow> f \<in> B \<and> f \<notin> granted q F B \<and> granted q' F' B = insert f (granted q F B)"
    and "r = Some f \<Longrightarrow> g \<noteq> f \<Longrightarrow> F' g = F g"
proof -
  have "bq_ok q' F' B \<and> bq_addr q' = bq_addr q \<and> (r = None \<longrightarrow> bq_waiters q F = [] \<and> q' = q \<and> F' = F)
    \<and> (\<forall>f. r = Some f \<longrightarrow> bq_waiters q F = f # bq_waiters q' F' \<and> f \<in> B \<and> f \<notin> granted q F B
          \<and> granted q' F' B = insert f (granted q F B) \<and> (\<forall>g. g \<noteq> f \<longrightarrow> F' g = F g))"
  proof (cases "bq_waiters q F")
    case Nil
    with assms bq_unblock_none [OF Nil] show ?thesis by auto
  next
    case (Cons f fs)
    have f: "f \<in> set (bq_nodes q)" "resumeInfo (F f) = 0"
      using Cons by (auto simp: bq_waiters_def filter_eq_Cons_iff)
    have "r = Some f" "q' = q\<lparr>bq_nodes := remove1 f (bq_nodes q)\<rparr>"
      "F' = F(f := (F f)\<lparr>resumeInfo := bq_addr q\<rparr>)"
      using assms(2) bq_unblock_some [OF Cons] by simp_all
    with bq_waiters_unblock [OF bq_ok_inv [OF assms(1)] Cons] Cons f assms(1) show ?thesis
      by (auto simp: bq_ok_def granted_def)
  qed
  then show "bq_ok q' F' B" and "bq_addr q' = bq_addr q"
    and "r = None \<Longrightarrow> bq_waiters q F = [] \<and> q' = q \<and> F' = F"
    and "r = Some f \<Longrightarrow> bq_waiters q F = f # bq_waiters q' F'"
    and "r = Some f \<Longrightarrow> f \<in> B \<and> f \<notin> granted q F B \<and> granted q' F' B = insert f (granted q F B)"
    and "r = Some f \<Longrightarrow> g \<noteq> f \<Longrightarrow> F' g = F g"
    by auto
qed

lemma bq_unblock_outside:
  assumes "bq_ok q F B" and "bq_unblock q F = (r, q', F')" and "g \<notin> B"
  shows "F' g = F g"
proof (cases r)
  case None
  then show ?thesis using bq_ok_unblock(3) [OF assms(1,2)] by simp
next
  case (Some f)
  then show ?thesis using bq_ok_unblock(5,6) [OF assms(1,2) Some] assms(3) by metis
qed

lemma bq_ok_timer:
  assumes "bq_ok q F B" and "t \<noteq> 0" and "t \<noteq> bq_addr q"
  shows "bq_ok q (race_won t f F) B" and "granted q (race_won t f F) B = granted q F B"
    and "set (bq_waiters q (race_won t f F)) \<subseteq> set (bq_waiters q F)"
  using assms by (auto simp: bq_ok_def granted_def bq_waiters_def race_won_def raceResume_def)

section \<open>LockedSemaphore\<close>

datatype SemaphoreResult = SemaphoreTimeout | SemaphoreSuccess | SemaphoreWasOpen

record lsem =
  sem_counter :: int
  sem_bq :: bqueue

definition new_sem :: "addr \<Rightarrow> int \<Rightarrow> lsem" where
  "new_sem a c = \<lparr>sem_counter = c, sem_bq = queue_init a\<rparr>"

definition sem_reset :: "int \<Rightarrow> lsem \<Rightarrow> lsem option" where
  "sem_reset c s = do { rassert (bq_empty (sem_bq s)); Some (s\<lparr>sem_counter := c\<rparr>) }"

text \<open>\<^verbatim>\<open>internalP\<close> up to the release of the lock; no result yet means that the fred is blocked.
  \<^verbatim>\<open>P(args)\<close>, \<^verbatim>\<open>tryP()\<close> (argument \<open>NoWait\<close>) and \<^verbatim>\<open>unlockP\<close>
  (argument \<open>Wait\<close>) are this section after acquiring the lock.\<close>

definition sem_internalP ::
  "wait_arg \<Rightarrow> time \<Rightarrow> fid \<Rightarrow> lsem \<Rightarrow> freds \<Rightarrow> (SemaphoreResult option \<times> lsem \<times> freds) option" where
  "sem_internalP arg now cf s F =
     (if sem_counter s < 1
      then if bq_will_block arg now
           then do { (q, F') \<leftarrow> bq_block_begin cf (sem_bq s) F;
                     Some (None, s\<lparr>sem_bq := q\<rparr>, F') }
           else Some (Some SemaphoreTimeout, s, F)
      else Some (Some SemaphoreWasOpen, s\<lparr>sem_counter := sem_counter s - 1\<rparr>, F))"

text \<open>\<^verbatim>\<open>internalP\<close> after the suspension.\<close>

definition sem_P_end :: "fid \<Rightarrow> lsem \<Rightarrow> freds \<Rightarrow> SemaphoreResult \<times> lsem" where
  "sem_P_end cf s F =
     (let (won, q) = bq_block_end cf (sem_bq s) F
      in (if won then SemaphoreSuccess else SemaphoreTimeout, s\<lparr>sem_bq := q\<rparr>))"

definition sem_tryP :: "time \<Rightarrow> fid \<Rightarrow> lsem \<Rightarrow> freds \<Rightarrow> (SemaphoreResult option \<times> lsem \<times> freds) option" where
  "sem_tryP = sem_internalP NoWait"

text \<open>\<^verbatim>\<open>wait\<close>: condition/signal use of a binary semaphore.\<close>

definition sem_wait ::
  "bool \<Rightarrow> wait_arg \<Rightarrow> time \<Rightarrow> fid \<Rightarrow> lsem \<Rightarrow> freds \<Rightarrow> (SemaphoreResult option \<times> lsem \<times> freds) option" where
  "sem_wait binary arg now cf s F =
     do { rassert binary; rassert (sem_counter s \<ge> 0);
          sem_internalP arg now cf (s\<lparr>sem_counter := 0\<rparr>) F }"

text \<open>\<^verbatim>\<open>V\<close> and \<^verbatim>\<open>tryV\<close>; the first component is the fred to resume.\<close>

definition sem_V :: "bool \<Rightarrow> lsem \<Rightarrow> freds \<Rightarrow> fid option \<times> lsem \<times> freds" where
  "sem_V binary s F =
     (let (next, q, F') = bq_unblock (sem_bq s) F
      in case next of
           Some f \<Rightarrow> (Some f, s\<lparr>sem_bq := q\<rparr>, F')
         | None \<Rightarrow> (None, s\<lparr>sem_bq := q, sem_counter := if binary then 1 else sem_counter s + 1\<rparr>, F'))"

definition sem_tryV :: "lsem \<Rightarrow> freds \<Rightarrow> fid option \<times> lsem \<times> freds" where
  "sem_tryV s F = (let (next, q, F') = bq_unblock (sem_bq s) F in (next, s\<lparr>sem_bq := q\<rparr>, F'))"

record sem_sys =
  ss :: lsem
  sF :: freds
  sB :: "fid set"      \<comment> \<open>freds blocked in \<open>P\<close> or \<open>wait\<close>\<close>
  sVs :: nat           \<comment> \<open>\<open>V\<close> calls, and \<open>tryV\<close> calls that found a waiter\<close>
  sGot :: nat          \<comment> \<open>\<open>P\<close> and \<open>wait\<close> calls that returned success\<close>

definition sem_entered :: "fid \<Rightarrow> SemaphoreResult option \<times> lsem \<times> freds \<Rightarrow> sem_sys \<Rightarrow> sem_sys" where
  "sem_entered cf r s = (case r of (res, l, F) \<Rightarrow>
     s\<lparr>ss := l, sF := F, sB := (if res = None then insert cf (sB s) else sB s),
       sGot := sGot s + (if res = Some SemaphoreWasOpen then 1 else 0)\<rparr>)"

lemma sem_entered_ss [simp]: "sem_entered cf r (s\<lparr>ss := l\<rparr>) = sem_entered cf r s"
proof -
  obtain res l' F where "r = (res, l', F)" by (metis surj_pair)
  then show ?thesis by (simp add: sem_entered_def cong: if_cong)
qed

inductive sem_step :: "bool \<Rightarrow> sem_sys \<Rightarrow> sem_sys \<Rightarrow> bool" for binary where
  P: "cf \<notin> sB s \<Longrightarrow> sem_internalP arg now cf (ss s) (sF s) = Some r \<Longrightarrow>
     sem_step binary s (sem_entered cf r s)"
| wait: "cf \<notin> sB s \<Longrightarrow> sem_wait binary arg now cf (ss s) (sF s) = Some r \<Longrightarrow>
     sem_step binary s (sem_entered cf r s)"
| woken: "cf \<in> sB s \<Longrightarrow> resumeInfo (sF s cf) \<noteq> 0 \<Longrightarrow> sem_P_end cf (ss s) (sF s) = (res, l) \<Longrightarrow>
     sem_step binary s (s\<lparr>ss := l, sB := sB s - {cf},
                          sGot := sGot s + (if res = SemaphoreSuccess then 1 else 0)\<rparr>)"
| V: "sem_V binary (ss s) (sF s) = (next, l, F) \<Longrightarrow>
     sem_step binary s (s\<lparr>ss := l, sF := F, sVs := sVs s + 1\<rparr>)"
| tryV: "sem_tryV (ss s) (sF s) = (next, l, F) \<Longrightarrow>
     sem_step binary s (s\<lparr>ss := l, sF := F, sVs := sVs s + (if next = None then 0 else 1)\<rparr>)"
| timer: "t \<noteq> 0 \<Longrightarrow> t \<noteq> bq_addr (sem_bq (ss s)) \<Longrightarrow>
     sem_step binary s (s\<lparr>sF := race_won t f (sF s)\<rparr>)"

inductive sem_reach :: "bool \<Rightarrow> addr \<Rightarrow> int \<Rightarrow> freds \<Rightarrow> sem_sys \<Rightarrow> bool" for binary a c F0 where
  start: "sem_reach binary a c F0 \<lparr>ss = new_sem a c, sF = F0, sB = {}, sVs = 0, sGot = 0\<rparr>"
| step: "sem_reach binary a c F0 s \<Longrightarrow> sem_step binary s s' \<Longrightarrow> sem_reach binary a c F0 s'"

definition sem_inv :: "bool \<Rightarrow> int \<Rightarrow> sem_sys \<Rightarrow> bool" where
  "sem_inv binary c s \<longleftrightarrow>
     (let q = sem_bq (ss s); n = sem_counter (ss s)
      in bq_ok q (sF s) (sB s) \<and> 0 \<le> n \<and> (binary \<longrightarrow> n \<le> 1) \<and> (0 < n \<longrightarrow> bq_waiters q (sF s) = [])
         \<and> (if binary then n + int (sGot s + card (granted q (sF s) (sB s))) \<le> c + int (sVs s)
            else n + int (sGot s + card (granted q (sF s) (sB s))) = c + int (sVs s)))"

lemma sem_inv_start:
  "a \<noteq> 0 \<Longrightarrow> 0 \<le> c \<Longrightarrow> (binary \<longrightarrow> c \<le> 1) \<Longrightarrow>
     sem_inv binary c \<lparr>ss = new_sem a c, sF = F0, sB = {}, sVs = 0, sGot = 0\<rparr>"
  by (simp add: sem_inv_def new_sem_def bq_ok_init bq_waiters_def)

lemma sem_internalP_cases:
  assumes "sem_internalP arg now cf s F = Some r"
  obtains (blocked) q F' where "sem_counter s < 1" "bq_block_begin cf (sem_bq s) F = Some (q, F')"
      "r = (None, s\<lparr>sem_bq := q\<rparr>, F')"
  | (refused) "sem_counter s < 1" "r = (Some SemaphoreTimeout, s, F)"
  | (opened) "sem_counter s \<ge> 1" "r = (Some SemaphoreWasOpen, s\<lparr>sem_counter := sem_counter s - 1\<rparr>, F)"
  using assms by (auto simp: sem_internalP_def bind_eq_Some_conv split: if_splits)

lemma sem_inv_P:
  assumes "sem_internalP arg now cf (ss s) (sF s) = Some r" and "sem_inv binary c s" and "cf \<notin> sB s"
  shows "sem_inv binary c (sem_entered cf r s)"
  using assms(1)
proof (cases rule: sem_internalP_cases)
  case (blocked q F')
  have ok: "bq_ok (sem_bq (ss s)) (sF s) (sB s)" using assms(2) by (simp add: sem_inv_def Let_def)
  with blocked assms(2) bq_ok_enter [OF ok assms(3) blocked(2)] show ?thesis
    by (auto simp: sem_inv_def sem_entered_def Let_def split: if_splits)
next
  case refused
  with assms(2) show ?thesis by (auto simp: sem_inv_def sem_entered_def Let_def split: if_splits)
next
  case opened
  with assms(2) show ?thesis by (auto simp: sem_inv_def sem_entered_def Let_def)
qed

lemma sem_inv_unblock:
  assumes "bq_unblock (sem_bq (ss s)) (sF s) = (next, q, F)" and "sem_inv binary c s"
  shows "next = None \<Longrightarrow> bq_waiters (sem_bq (ss s)) (sF s) = [] \<and> q = sem_bq (ss s) \<and> F = sF s"
    and "next = Some f \<Longrightarrow> sem_inv binary c (s\<lparr>ss := (ss s)\<lparr>sem_bq := q\<rparr>, sF := F, sVs := sVs s + 1\<rparr>)"
proof -
  have ok: "bq_ok (sem_bq (ss s)) (sF s) (sB s)" using assms(2) by (simp add: sem_inv_def Let_def)
  note u = bq_ok_unblock [OF ok assms(1)]
  show "next = None \<Longrightarrow> bq_waiters (sem_bq (ss s)) (sF s) = [] \<and> q = sem_bq (ss s) \<and> F = sF s"
    using u(3) .
  show "next = Some f \<Longrightarrow> sem_inv binary c (s\<lparr>ss := (ss s)\<lparr>sem_bq := q\<rparr>, sF := F, sVs := sVs s + 1\<rparr>)"
    using u(1) u(4,5) [of f] assms(2) finite_granted [OF ok]
    by (auto simp: sem_inv_def Let_def split: if_splits)
qed

lemma sem_step_inv: "sem_step binary s s' \<Longrightarrow> sem_inv binary c s \<Longrightarrow> sem_inv binary c s'"
proof (induction rule: sem_step.induct)
  case (P cf s arg now r)
  then show ?case by (intro sem_inv_P)
next
  case (wait cf s arg now r)
  then have "sem_inv binary c (s\<lparr>ss := (ss s)\<lparr>sem_counter := 0\<rparr>\<rparr>)" and binary
    and *: "sem_internalP arg now cf (ss (s\<lparr>ss := (ss s)\<lparr>sem_counter := 0\<rparr>\<rparr>)) (sF s) = Some r"
    by (auto simp: sem_wait_def sem_inv_def Let_def split: if_splits)
  then have "sem_inv binary c (sem_entered cf r (s\<lparr>ss := (ss s)\<lparr>sem_counter := 0\<rparr>\<rparr>))"
    using wait(1) by (intro sem_inv_P [where arg = arg and now = now]) simp_all
  then show ?case by simp
next
  case (woken cf s res l)
  have ok: "bq_ok (sem_bq (ss s)) (sF s) (sB s)" using woken by (simp add: sem_inv_def Let_def)
  obtain won q where e: "bq_block_end cf (sem_bq (ss s)) (sF s) = (won, q)" by fastforce
  note u = bq_ok_leave [OF ok woken(1,2) e]
  have "card (granted (sem_bq (ss s)) (sF s) (sB s))
      = card (granted q (sF s) (sB s - {cf})) + (if won then 1 else 0)"
    unfolding u(3) using u(2) card_Suc_Diff1 [OF finite_granted [OF ok], of cf] by (cases won) simp_all
  with u(1,4) woken(3,4) e show ?case
    by (auto simp: sem_inv_def sem_P_end_def Let_def split: if_splits)
next
  case (V s "next" l F)
  obtain n q F' where u: "bq_unblock (sem_bq (ss s)) (sF s) = (n, q, F')" by (metis surj_pair)
  with V sem_inv_unblock [OF u V(2)] show ?case
    by (cases n) (auto simp: sem_V_def sem_inv_def Let_def split: if_splits)
next
  case (tryV s "next" l F)
  obtain n q F' where u: "bq_unblock (sem_bq (ss s)) (sF s) = (n, q, F')" by (metis surj_pair)
  with tryV sem_inv_unblock [OF u tryV(2)] show ?case
    by (cases n) (auto simp: sem_tryV_def)
next
  case (timer t s f)
  have ok: "bq_ok (sem_bq (ss s)) (sF s) (sB s)" using timer by (simp add: sem_inv_def Let_def)
  from bq_ok_timer [OF ok timer(1,2), of f] timer(3) show ?case
    by (auto simp: sem_inv_def Let_def)
qed

lemma sem_reach_inv:
  "sem_reach binary a c F0 s \<Longrightarrow> a \<noteq> 0 \<Longrightarrow> 0 \<le> c \<Longrightarrow> (binary \<longrightarrow> c \<le> 1) \<Longrightarrow> sem_inv binary c s"
  by (induction rule: sem_reach.induct) (auto intro: sem_inv_start sem_step_inv)

text \<open>C14: \<^verbatim>\<open>LockedSemaphore\<close> (counting): after any interleaving of \<open>P\<close>, \<open>tryP\<close>,
  \<open>V\<close>, \<open>tryV\<close> and timeouts, the counter plus the successful \<open>P\<close> calls plus the freds that have been
  handed a baton but not yet returned equals the initial value plus the \<open>V\<close> calls; the counter is
  never negative; and no fred waits while the counter is positive, so no wake-up is lost, timeouts
  included. The next \<open>V\<close> goes to the longest-waiting fred that has not timed out.\<close>

theorem sem_conservation:
  assumes "sem_reach False a c F0 s" and "a \<noteq> 0" and "0 \<le> c"
  shows "sem_counter (ss s) + int (sGot s) + int (card (granted (sem_bq (ss s)) (sF s) (sB s)))
           = c + int (sVs s)
    \<and> 0 \<le> sem_counter (ss s)
    \<and> (0 < sem_counter (ss s) \<longrightarrow> bq_waiters (sem_bq (ss s)) (sF s) = [])
    \<and> fst (sem_V False (ss s) (sF s)) =
        (case bq_waiters (sem_bq (ss s)) (sF s) of [] \<Rightarrow> None | f # fs \<Rightarrow> Some f)"
proof -
  have inv: "sem_inv False c s" using sem_reach_inv [OF assms] by simp
  then have ok: "bq_ok (sem_bq (ss s)) (sF s) (sB s)" by (simp add: sem_inv_def Let_def)
  have "fst (sem_V False (ss s) (sF s)) = fst (bq_unblock (sem_bq (ss s)) (sF s))"
    by (auto simp: sem_V_def Let_def split: prod.splits option.splits)
  also have "\<dots> = (case bq_waiters (sem_bq (ss s)) (sF s) of [] \<Rightarrow> None | f # fs \<Rightarrow> Some f)"
    using bq_unblock_none bq_unblock_some by (fastforce split: list.splits)
  finally show ?thesis using inv by (auto simp: sem_inv_def Let_def)
qed

text \<open>A binary \<^verbatim>\<open>LockedSemaphore\<close>, with the condition/signal call \<open>wait\<close> included, keeps its
  counter at 0 or 1, leaves no waiter while it is 1, and never lets more calls succeed than the
  initial value and the \<open>V\<close> calls allow; the assertions of \<open>wait\<close> hold.\<close>

theorem binary_sem_bounds:
  assumes "sem_reach True a c F0 s" and "a \<noteq> 0" and "0 \<le> c" and "c \<le> 1"
  shows "sem_counter (ss s) \<in> {0, 1}
    \<and> (sem_counter (ss s) = 1 \<longrightarrow> bq_waiters (sem_bq (ss s)) (sF s) = [])
    \<and> int (sGot s) \<le> c + int (sVs s)
    \<and> (runState (sF s cf) = Running \<longrightarrow> sem_wait True arg now cf (ss s) (sF s) \<noteq> None)"
proof -
  have inv: "sem_inv True c s" using sem_reach_inv [OF assms(1-3)] assms(4) by simp
  then have "sem_counter (ss s) \<ge> 0" by (simp add: sem_inv_def Let_def)
  then have "runState (sF s cf) = Running \<longrightarrow> sem_wait True arg now cf (ss s) (sF s) \<noteq> None"
    by (auto simp: sem_wait_def sem_internalP_def bq_block_begin_def prepareResumeRace_def split: prod.splits)
  with inv show ?thesis by (auto simp: sem_inv_def Let_def)
qed

text \<open>A run: fred 1 takes the only unit, freds 2 and 3 block, a timer cancels fred 2, and a
  \<open>V\<close> reaches fred 3.\<close>

definition sem_example :: "bool \<Rightarrow> sem_sys" where
  "sem_example r =
     \<lparr>ss = \<lparr>sem_counter = 0, sem_bq = \<lparr>bq_addr = 100, bq_nodes = (if r then [2] else [2, 3])\<rparr>\<rparr>,
      sF = (\<lambda>f. new_fred False (if f = 2 then 200 else if f = 3 \<and> r then 100 else 0) 0),
      sB = {2, 3}, sVs = (if r then 1 else 0), sGot = 1\<rparr>"

lemma sem_reach_stepI:
  "sem_reach binary a c F0 s \<Longrightarrow> sem_step binary s s' \<Longrightarrow> s' = t \<Longrightarrow> sem_reach binary a c F0 t"
  by (auto intro: sem_reach.step)

lemma sem_example_reach:
  fixes binary :: bool
  defines "F0 \<equiv> (\<lambda>f. new_fred False 0 0)"
  shows "sem_reach binary 100 1 F0 (sem_example True)"
proof -
  define st where "st c ns B = \<lparr>ss = \<lparr>sem_counter = c, sem_bq = \<lparr>bq_addr = 100, bq_nodes = ns\<rparr>\<rparr>,
      sF = F0, sB = B, sVs = 0, sGot = (if c = 0 then 1 else 0)\<rparr>" for c :: int and ns :: "fid list" and B :: "fid set"
  note simps = st_def F0_def sem_entered_def sem_internalP_def bq_block_begin_def prepareResumeRace_def new_fred_def
  have 0: "sem_reach binary 100 1 F0 (st 1 [] {})"
    using sem_reach.start [of binary 100 1 F0] by (simp add: st_def new_sem_def queue_init_def)
  have 1: "sem_reach binary 100 1 F0 (st 0 [] {})"
    by (rule sem_reach_stepI [OF 0 sem_step.P [where cf = 1 and arg = Wait]]) (simp add: simps fun_eq_iff)+
  have 2: "sem_reach binary 100 1 F0 (st 0 [2] {2})"
    by (rule sem_reach_stepI [OF 1 sem_step.P [where cf = 2 and arg = Wait]]) (simp add: simps fun_eq_iff)+
  have 3: "sem_reach binary 100 1 F0 (st 0 [2, 3] {2, 3})"
    by (rule sem_reach_stepI [OF 2 sem_step.P [where cf = 3 and arg = Wait]]) (simp add: simps fun_eq_iff insert_commute)+
  have 4: "sem_reach binary 100 1 F0 (sem_example False)"
    by (rule sem_reach_stepI [OF 3 sem_step.timer [where t = 200 and f = 2]])
      (simp_all add: simps sem_example_def race_won_def raceResume_def fun_eq_iff)
  have "sem_V binary (ss (sem_example False)) (sF (sem_example False))
      = (Some 3, ss (sem_example True), sF (sem_example True))"
    by (simp add: sem_example_def sem_V_def bq_unblock_def raceResume_def new_fred_def fun_eq_iff)
  from sem_reach_stepI [OF 4 sem_step.V [OF this]] show ?thesis
    by (simp add: sem_example_def)
qed

theorem sem_conservation_witness:
  "sem_counter (ss (sem_example True)) + int (sGot (sem_example True))
     + int (card (granted (sem_bq (ss (sem_example True))) (sF (sem_example True)) (sB (sem_example True)))) = 1 + 1"
  using sem_conservation [OF sem_example_reach] by (simp add: sem_example_def)

theorem binary_sem_bounds_witness:
  "sem_counter (ss (sem_example True)) \<in> {0, 1} \<and> int (sGot (sem_example True)) \<le> 2"
  using binary_sem_bounds [OF sem_example_reach [of True]] by (simp add: sem_example_def)

end
