(* ===== verification/Locked_Mutex.thy ===== *)
theory Locked_Mutex
  imports Locked_Sync
begin

text \<open>
  \<^verbatim>\<open>LockedMutex\<close> of \<^verbatim>\<open>src/src/runtime/BlockingSync.h\<close>, with both settings of its
  \<^verbatim>\<open>Fifo\<close> parameter, and the recursive wrapper \<^verbatim>\<open>OwnerMutex\<close> on top of it.
\<close>

section \<open>LockedMutex\<close>

record lmutex =
  mx_owner :: "fid option"
  mx_bq :: bqueue

definition new_mutex :: "addr \<Rightarrow> lmutex" where
  "new_mutex a = \<lparr>mx_owner = None, mx_bq = queue_init a\<rparr>"

definition mutex_reset :: "lmutex \<Rightarrow> lmutex option" where
  "mutex_reset m = do { rassert (mx_owner m = None); rassert (bq_empty (mx_bq m)); Some m }"

text \<open>One round of the loop in \<^verbatim>\<open>internalAcquire\<close>, up to the release of the lock or the
  suspension; no result means blocked.\<close>

definition mutex_round ::
  "wait_arg \<Rightarrow> time \<Rightarrow> fid \<Rightarrow> lmutex \<Rightarrow> freds \<Rightarrow> (bool option \<times> lmutex \<times> freds) option" where
  "mutex_round arg now cf m F =
     (if mx_owner m = None then Some (Some True, m\<lparr>mx_owner := Some cf\<rparr>, F)
      else if bq_will_block arg now
      then do { (q, F') \<leftarrow> bq_block_begin cf (mx_bq m) F; Some (None, m\<lparr>mx_bq := q\<rparr>, F') }
      else Some (Some False, m, F))"

definition mutex_internalAcquire ::
  "bool \<Rightarrow> wait_arg \<Rightarrow> time \<Rightarrow> fid \<Rightarrow> lmutex \<Rightarrow> freds \<Rightarrow> (bool option \<times> lmutex \<times> freds) option" where
  "mutex_internalAcquire ownerLock arg now cf m F =
     (if ownerLock \<and> mx_owner m = Some cf then Some (Some True, m, F)
      else do { rassert (mx_owner m \<noteq> Some cf); mutex_round arg now cf m F })"

text \<open>The loop after the suspension: time-out, baton received, or the next round.\<close>

definition mutex_woken ::
  "bool \<Rightarrow> wait_arg \<Rightarrow> time \<Rightarrow> fid \<Rightarrow> lmutex \<Rightarrow> freds \<Rightarrow> (bool option \<times> lmutex \<times> freds) option" where
  "mutex_woken fifo arg now cf m F =
     (let (won, q) = bq_block_end cf (mx_bq m) F; m' = m\<lparr>mx_bq := q\<rparr>
      in if \<not> won then Some (Some False, m', F)
         else if fifo then Some (Some True, m', F)
         else mutex_round arg now cf m' F)"

definition mutex_release :: "bool \<Rightarrow> fid \<Rightarrow> lmutex \<Rightarrow> freds \<Rightarrow> (fid option \<times> lmutex \<times> freds) option" where
  "mutex_release fifo cf m F =
     do { rassert (mx_owner m = Some cf);
          let (next, q, F') = bq_unblock (mx_bq m) F
          in Some (next, m\<lparr>mx_bq := q, mx_owner := if fifo then next else None\<rparr>, F') }"

section \<open>Mutual exclusion and progress\<close>

record mutex_sys =
  mm :: lmutex
  mF :: freds
  mB :: "fid set"   \<comment> \<open>freds blocked in \<open>acquire\<close>\<close>
  mH :: "fid set"   \<comment> \<open>freds whose \<open>acquire\<close> returned true and that have not released\<close>

definition mutex_returned :: "fid \<Rightarrow> bool option \<times> lmutex \<times> freds \<Rightarrow> mutex_sys \<Rightarrow> mutex_sys" where
  "mutex_returned cf r s = (case r of (res, m, F) \<Rightarrow>
     s\<lparr>mm := m, mF := F, mB := (if res = None then insert cf (mB s) else mB s - {cf}),
       mH := (if res = Some True then insert cf (mH s) else mH s)\<rparr>)"

inductive mutex_step :: "bool \<Rightarrow> mutex_sys \<Rightarrow> mutex_sys \<Rightarrow> bool" for fifo where
  acquire: "cf \<notin> mB s \<Longrightarrow> cf \<notin> mH s \<Longrightarrow>
     mutex_internalAcquire ownerLock arg now cf (mm s) (mF s) = Some r \<Longrightarrow>
     mutex_step fifo s (mutex_returned cf r s)"
| woken: "cf \<in> mB s \<Longrightarrow> resumeInfo (mF s cf) \<noteq> 0 \<Longrightarrow>
     mutex_woken fifo arg now cf (mm s) (mF s) = Some r \<Longrightarrow> mutex_step fifo s (mutex_returned cf r s)"
| release: "cf \<in> mH s \<Longrightarrow> mutex_release fifo cf (mm s) (mF s) = Some (next, m, F) \<Longrightarrow>
     mutex_step fifo s (s\<lparr>mm := m, mF := F, mH := mH s - {cf}\<rparr>)"
| timer: "t \<noteq> 0 \<Longrightarrow> t \<noteq> bq_addr (mx_bq (mm s)) \<Longrightarrow> mutex_step fifo s (s\<lparr>mF := race_won t f (mF s)\<rparr>)"

inductive mutex_reach :: "bool \<Rightarrow> addr \<Rightarrow> freds \<Rightarrow> mutex_sys \<Rightarrow> bool" for fifo a F0 where
  start: "mutex_reach fifo a F0 \<lparr>mm = new_mutex a, mF = F0, mB = {}, mH = {}\<rparr>"
| step: "mutex_reach fifo a F0 s \<Longrightarrow> mutex_step fifo s s' \<Longrightarrow> mutex_reach fifo a F0 s'"

text \<open>With baton passing the owner either holds the mutex or is on its way out of the wait; without,
  woken freds compete, and one of them is on its way if freds wait for a free mutex.\<close>

definition mutex_own :: "bool \<Rightarrow> fid option \<Rightarrow> fid set \<Rightarrow> fid set \<Rightarrow> fid list \<Rightarrow> bool" where
  "mutex_own fifo ow H G ws =
     (case ow of
        None \<Rightarrow> H = {} \<and> (if fifo then G = {} \<and> ws = [] else ws = [] \<or> G \<noteq> {})
      | Some f \<Rightarrow> if fifo then H = {f} \<and> G = {} \<or> H = {} \<and> G = {f} else H = {f})"

definition mutex_inv :: "bool \<Rightarrow> mutex_sys \<Rightarrow> bool" where
  "mutex_inv fifo s \<longleftrightarrow>
     bq_ok (mx_bq (mm s)) (mF s) (mB s) \<and> mH s \<inter> mB s = {}
     \<and> mutex_own fifo (mx_owner (mm s)) (mH s) (granted (mx_bq (mm s)) (mF s) (mB s))
         (bq_waiters (mx_bq (mm s)) (mF s))"

lemma mutex_round_cases:
  assumes "mutex_round arg now cf m F = Some r"
  obtains (free) "mx_owner m = None" "r = (Some True, m\<lparr>mx_owner := Some cf\<rparr>, F)"
  | (blocked) q F' where "mx_owner m \<noteq> None" "bq_block_begin cf (mx_bq m) F = Some (q, F')"
      "r = (None, m\<lparr>mx_bq := q\<rparr>, F')"
  | (refused) "mx_owner m \<noteq> None" "r = (Some False, m, F)"
  using assms by (auto simp: mutex_round_def bind_eq_Some_conv split: if_splits)

text \<open>One round, started by a fred outside the queue, keeps the invariant. A non-FIFO fred may
  have given up the last grant by starting the round (\<open>extra\<close>).\<close>

lemma mutex_inv_round:
  assumes "mutex_round arg now cf (mm s) (mF s) = Some r"
    and ok: "bq_ok (mx_bq (mm s)) (mF s) (mB s)" and "mH s \<inter> mB s = {}" and "cf \<notin> mB s" and "cf \<notin> mH s"
    and own: "mutex_own fifo (mx_owner (mm s)) (mH s)
      (granted (mx_bq (mm s)) (mF s) (mB s) \<union> extra) (bq_waiters (mx_bq (mm s)) (mF s))"
    and "fifo \<Longrightarrow> extra = {}"
  shows "mutex_inv fifo (mutex_returned cf r s)"
  using assms(1)
proof (cases rule: mutex_round_cases)
  case free
  with assms show ?thesis
    by (auto simp: mutex_inv_def mutex_returned_def mutex_own_def split: if_splits)
next
  case (blocked q F')
  with assms bq_ok_enter [OF ok \<open>cf \<notin> mB s\<close> blocked(2)] show ?thesis
    by (auto simp: mutex_inv_def mutex_returned_def mutex_own_def split: if_splits option.splits)
next
  case refused
  with assms show ?thesis
    by (auto simp: mutex_inv_def mutex_returned_def mutex_own_def split: if_splits option.splits)
qed

lemma mutex_inv_owner: "mutex_inv fifo s \<Longrightarrow> mx_owner (mm s) = Some f \<Longrightarrow> f \<in> mH s \<union> mB s"
  by (auto simp: mutex_inv_def mutex_own_def granted_def split: if_splits)

lemma mutex_inv_woken:
  assumes "cf \<in> mB s" and "resumeInfo (mF s cf) \<noteq> 0"
    and w: "mutex_woken fifo arg now cf (mm s) (mF s) = Some r" and inv: "mutex_inv fifo s"
  shows "mutex_inv fifo (mutex_returned cf r s)"
proof -
  have ok: "bq_ok (mx_bq (mm s)) (mF s) (mB s)" and disj: "mH s \<inter> mB s = {}"
    using inv by (simp_all add: mutex_inv_def)
  obtain won q where e: "bq_block_end cf (mx_bq (mm s)) (mF s) = (won, q)" by fastforce
  note u = bq_ok_leave [OF ok assms(1,2) e]
  define s1 where "s1 = s\<lparr>mm := (mm s)\<lparr>mx_bq := q\<rparr>, mB := mB s - {cf}\<rparr>"
  consider (lost) "\<not> won" | (baton) "won" "fifo" | (again) "won" "\<not> fifo" by blast
  then show ?thesis
  proof cases
    case lost
    then have "r = (Some False, (mm s)\<lparr>mx_bq := q\<rparr>, mF s)"
      using w e by (simp add: mutex_woken_def)
    with lost u inv disj show ?thesis
      by (auto simp: mutex_inv_def mutex_returned_def)
  next
    case baton
    then have "r = (Some True, (mm s)\<lparr>mx_bq := q\<rparr>, mF s)"
      using w e by (simp add: mutex_woken_def)
    with baton u inv disj show ?thesis
      by (auto simp: mutex_inv_def mutex_returned_def mutex_own_def split: option.splits)
  next
    case again
    have "mutex_returned cf r s = mutex_returned cf r s1"
      using \<open>cf \<in> mB s\<close> by (cases r) (auto simp: s1_def mutex_returned_def insert_absorb)
    moreover have "mutex_round arg now cf (mm s1) (mF s1) = Some r"
      using w e again by (simp add: mutex_woken_def s1_def)
    then have "mutex_inv fifo (mutex_returned cf r s1)"
    proof (rule mutex_inv_round [where extra = "{cf}"])
      show "mutex_own fifo (mx_owner (mm s1)) (mH s1)
          (granted (mx_bq (mm s1)) (mF s1) (mB s1) \<union> {cf}) (bq_waiters (mx_bq (mm s1)) (mF s1))"
        using inv u again by (auto simp: s1_def mutex_inv_def mutex_own_def split: option.splits)
    qed (use u disj \<open>cf \<in> mB s\<close> again in \<open>auto simp: s1_def\<close>)
    ultimately show ?thesis by simp
  qed
qed

lemma mutex_step_inv: "mutex_step fifo s s' \<Longrightarrow> mutex_inv fifo s \<Longrightarrow> mutex_inv fifo s'"
proof (induction rule: mutex_step.induct)
  case (acquire cf s ownerLock arg now r)
  then have "mx_owner (mm s) \<noteq> Some cf" using mutex_inv_owner [of fifo s cf] by auto
  then have "mutex_round arg now cf (mm s) (mF s) = Some r"
    using acquire(3) by (simp add: mutex_internalAcquire_def)
  with acquire show ?case
    by (intro mutex_inv_round [where extra = "{}"]) (auto simp: mutex_inv_def)
next
  case (woken cf s arg now r)
  then show ?case by (rule mutex_inv_woken)
next
  case (release cf s "next" m F)
  have ok: "bq_ok (mx_bq (mm s)) (mF s) (mB s)" using release by (simp add: mutex_inv_def)
  obtain n q F' where u: "bq_unblock (mx_bq (mm s)) (mF s) = (n, q, F')" by (metis surj_pair)
  with bq_ok_unblock [OF ok u] release show ?case
    by (cases n) (auto simp: mutex_release_def mutex_inv_def mutex_own_def split: if_splits option.splits)
next
  case (timer t s f)
  have ok: "bq_ok (mx_bq (mm s)) (mF s) (mB s)" using timer by (simp add: mutex_inv_def)
  from bq_ok_timer [OF ok timer(1,2), of f] timer(3) show ?case
    by (auto simp: mutex_inv_def mutex_own_def split: if_splits option.splits)
qed

lemma mutex_reach_inv: "mutex_reach fifo a F0 s \<Longrightarrow> a \<noteq> 0 \<Longrightarrow> mutex_inv fifo s"
proof (induction rule: mutex_reach.induct)
  case start
  then show ?case by (simp add: mutex_inv_def mutex_own_def new_mutex_def bq_ok_init bq_waiters_def)
qed (auto intro: mutex_step_inv)

interpretation lmx: mutex "\<lambda>s. mutex_reach fifo a F0 s \<and> a \<noteq> 0" "mutex_step fifo" "\<lambda>s f. f \<in> mH s" for fifo a F0
proof
  fix s f g assume "mutex_reach fifo a F0 s \<and> a \<noteq> 0" and h: "f \<in> mH s" "g \<in> mH s"
  then have "mutex_inv fifo s" using mutex_reach_inv by blast
  then show "f = g" using h by (auto simp: mutex_inv_def mutex_own_def split: option.splits if_splits)
qed (blast intro: mutex_reach.step)

text \<open>C15: \<^verbatim>\<open>LockedMutex\<close>, FIFO or not, after any interleaving of acquisitions, releases and
  timeouts: at most one fred holds the mutex and the owner field names it; while the owner field is
  empty no fred waits without another one already woken to compete for the mutex; a FIFO
  release makes the longest-waiting fred the owner; and no assertion fails.\<close>

theorem mutex_exclusion:
  assumes "mutex_reach fifo a F0 s" and "a \<noteq> 0"
  shows "(\<forall>f\<in>mH s. mH s = {f} \<and> mx_owner (mm s) = Some f)
    \<and> (mx_owner (mm s) = None \<longrightarrow> bq_waiters (mx_bq (mm s)) (mF s) = []
         \<or> \<not> fifo \<and> granted (mx_bq (mm s)) (mF s) (mB s) \<noteq> {})
    \<and> (f \<in> mH s \<longrightarrow> (\<exists>m F. mutex_release fifo f (mm s) (mF s) =
          Some (case bq_waiters (mx_bq (mm s)) (mF s) of [] \<Rightarrow> None | w # ws \<Rightarrow> Some w, m, F)
          \<and> (fifo \<longrightarrow> mx_owner m = (case bq_waiters (mx_bq (mm s)) (mF s) of [] \<Rightarrow> None | w # ws \<Rightarrow> Some w))))
    \<and> (g \<notin> mH s \<union> mB s \<and> runState (mF s g) = Running \<longrightarrow>
          mutex_internalAcquire ownerLock arg now g (mm s) (mF s) \<noteq> None)"
proof (intro conjI impI)
  have inv: "mutex_inv fifo s" by (rule mutex_reach_inv [OF assms])
  then show H: "\<forall>f\<in>mH s. mH s = {f} \<and> mx_owner (mm s) = Some f"
    by (auto simp: mutex_inv_def mutex_own_def split: option.splits if_splits)
  show "bq_waiters (mx_bq (mm s)) (mF s) = [] \<or> \<not> fifo \<and> granted (mx_bq (mm s)) (mF s) (mB s) \<noteq> {}"
    if "mx_owner (mm s) = None"
    using inv that by (auto simp: mutex_inv_def mutex_own_def split: if_splits)
  show "\<exists>m F. mutex_release fifo f (mm s) (mF s) =
          Some (case bq_waiters (mx_bq (mm s)) (mF s) of [] \<Rightarrow> None | w # ws \<Rightarrow> Some w, m, F)
          \<and> (fifo \<longrightarrow> mx_owner m = (case bq_waiters (mx_bq (mm s)) (mF s) of [] \<Rightarrow> None | w # ws \<Rightarrow> Some w))"
    if "f \<in> mH s"
    using H that bq_unblock_none [of "mx_bq (mm s)" "mF s"] bq_unblock_some [of "mx_bq (mm s)" "mF s"]
    by (cases "bq_waiters (mx_bq (mm s)) (mF s)") (simp_all add: mutex_release_def)
  show "mutex_internalAcquire ownerLock arg now g (mm s) (mF s) \<noteq> None"
    if "g \<notin> mH s \<union> mB s \<and> runState (mF s g) = Running"
    using mutex_inv_owner [OF inv, of g] that
    by (auto simp: mutex_internalAcquire_def mutex_round_def bq_block_begin_def prepareResumeRace_def)
qed

text \<open>A run: fred 1 acquires, fred 2 blocks.\<close>

definition mutex_example :: mutex_sys where
  "mutex_example =
     \<lparr>mm = \<lparr>mx_owner = Some 1, mx_bq = \<lparr>bq_addr = 100, bq_nodes = [2]\<rparr>\<rparr>,
      mF = (\<lambda>f. new_fred False 0 0), mB = {2}, mH = {1}\<rparr>"

lemma mutex_example_reach: "mutex_reach fifo 100 (\<lambda>f. new_fred False 0 0) mutex_example"
proof -
  define F0 where "F0 = (\<lambda>f::fid. new_fred False 0 0)"
  define s1 where "s1 = \<lparr>mm = (new_mutex 100)\<lparr>mx_owner := Some (1::fid)\<rparr>, mF = F0, mB = {}, mH = {1}\<rparr>"
  have "mutex_internalAcquire False Wait time_zero 1 (new_mutex 100) F0
      = Some (Some True, (new_mutex 100)\<lparr>mx_owner := Some 1\<rparr>, F0)"
    by (simp add: mutex_internalAcquire_def mutex_round_def new_mutex_def)
  with mutex_reach.step [OF mutex_reach.start mutex_step.acquire [where cf = 1]]
  have 1: "mutex_reach fifo 100 F0 s1"
    by (fastforce simp: mutex_returned_def s1_def)
  have "mutex_internalAcquire False Wait time_zero 2 (mm s1) (mF s1)
      = Some (None, (mm s1)\<lparr>mx_bq := \<lparr>bq_addr = 100, bq_nodes = [2]\<rparr>\<rparr>, F0)"
    by (simp add: mutex_internalAcquire_def mutex_round_def new_mutex_def s1_def bq_block_begin_def
        prepareResumeRace_def F0_def new_fred_def queue_init_def fun_eq_iff)
  from mutex_reach.step [OF 1 mutex_step.acquire [OF _ _ this]] show ?thesis
    by (simp add: mutex_returned_def s1_def mutex_example_def F0_def new_mutex_def)
qed

theorem mutex_exclusion_witness:
  "mH mutex_example = {1} \<and> mx_owner (mm mutex_example) = Some 1
    \<and> (\<exists>m F. mutex_release True 1 (mm mutex_example) (mF mutex_example) = Some (Some 2, m, F)
         \<and> mx_owner m = Some 2)"
  using mutex_exclusion [OF mutex_example_reach [of True], of 1]
  by (simp add: mutex_example_def bq_waiters_def new_fred_def)

section \<open>OwnerMutex\<close>

text \<open>The wrapper counts the acquisitions; \<open>counter\<close> is a \<^verbatim>\<open>size_t\<close>. A result of 0 from
  \<open>acquire\<close> means failure.\<close>

record omutex =
  om_base :: lmutex
  om_counter :: mword
  om_recursion :: bool

definition new_omutex :: "addr \<Rightarrow> omutex" where
  "new_omutex a = \<lparr>om_base = new_mutex a, om_counter = 0, om_recursion = False\<rparr>"

definition om_enableRecursion :: "omutex \<Rightarrow> omutex" where
  "om_enableRecursion om = om\<lparr>om_recursion := True\<rparr>"

definition om_count :: "omutex \<Rightarrow> bool option \<times> lmutex \<times> freds \<Rightarrow> mword option \<times> omutex \<times> freds" where
  "om_count om r = (case r of
       (None, m, F) \<Rightarrow> (None, om\<lparr>om_base := m\<rparr>, F)
     | (Some True, m, F) \<Rightarrow> (Some (om_counter om + 1), om\<lparr>om_base := m, om_counter := om_counter om + 1\<rparr>, F)
     | (Some False, m, F) \<Rightarrow> (Some 0, om\<lparr>om_base := m\<rparr>, F))"

definition om_acquire ::
  "wait_arg \<Rightarrow> time \<Rightarrow> fid \<Rightarrow> omutex \<Rightarrow> freds \<Rightarrow> (mword option \<times> omutex \<times> freds) option" where
  "om_acquire arg now cf om F =
     do { r \<leftarrow> mutex_internalAcquire (om_recursion om) arg now cf (om_base om) F; Some (om_count om r) }"

definition om_woken ::
  "bool \<Rightarrow> wait_arg \<Rightarrow> time \<Rightarrow> fid \<Rightarrow> omutex \<Rightarrow> freds \<Rightarrow> (mword option \<times> omutex \<times> freds) option" where
  "om_woken fifo arg now cf om F =
     do { r \<leftarrow> mutex_woken fifo arg now cf (om_base om) F; Some (om_count om r) }"

definition om_release :: "bool \<Rightarrow> fid \<Rightarrow> omutex \<Rightarrow> freds \<Rightarrow> (mword \<times> fid option \<times> omutex \<times> freds) option" where
  "om_release fifo cf om F =
     (let om' = om\<lparr>om_counter := om_counter om - 1\<rparr>
      in if om_counter om' > 0 then Some (om_counter om', None, om', F)
         else do { (next, m, F') \<leftarrow> mutex_release fifo cf (om_base om') F;
                   Some (0, next, om'\<lparr>om_base := m\<rparr>, F') })"

text \<open>\<open>n\<close> nested calls of \<open>acquire\<close> and of \<open>release\<close> by the same fred, with their results.\<close>

fun om_acquires :: "nat \<Rightarrow> time \<Rightarrow> fid \<Rightarrow> omutex \<Rightarrow> freds \<Rightarrow> (mword option list \<times> omutex \<times> freds) option" where
  "om_acquires 0 now cf om F = Some ([], om, F)"
| "om_acquires (Suc n) now cf om F =
     do { (rs, om1, F1) \<leftarrow> om_acquires n now cf om F;
          (r, om2, F2) \<leftarrow> om_acquire Wait now cf om1 F1;
          Some (rs @ [r], om2, F2) }"

fun om_releases :: "bool \<Rightarrow> nat \<Rightarrow> fid \<Rightarrow> omutex \<Rightarrow> freds \<Rightarrow> (mword list \<times> omutex \<times> freds) option" where
  "om_releases fifo 0 cf om F = Some ([], om, F)"
| "om_releases fifo (Suc n) cf om F =
     do { (r, _, om1, F1) \<leftarrow> om_release fifo cf om F;
          (rs, om2, F2) \<leftarrow> om_releases fifo n cf om1 F1;
          Some (r # rs, om2, F2) }"

lemma om_acquire_again:
  "om_recursion om \<Longrightarrow> mx_owner (om_base om) = Some cf \<Longrightarrow>
     om_acquire Wait now cf om F = Some (Some (om_counter om + 1), om\<lparr>om_counter := om_counter om + 1\<rparr>, F)"
  by (simp add: om_acquire_def mutex_internalAcquire_def om_count_def)

lemma om_acquires_nested:
  assumes "om_recursion om" and "mx_owner (om_base om) = None" and "om_counter om = 0"
  shows "om_acquires n now cf om F =
     Some (map (\<lambda>k. Some (of_nat k)) [1..<Suc n],
       if n = 0 then om else om\<lparr>om_base := (om_base om)\<lparr>mx_owner := Some cf\<rparr>, om_counter := of_nat n\<rparr>, F)"
proof (induction n)
  case (Suc n)
  show ?case
  proof (cases n)
    case 0
    then show ?thesis
      using assms by (simp add: om_acquire_def mutex_internalAcquire_def mutex_round_def om_count_def)
  next
    case (Suc k)
    with Suc.IH om_acquire_again assms(1) show ?thesis by (simp add: add.commute)
  qed
qed simp

lemma om_releases_nested:
  assumes "n < 2 ^ 64" and "om_counter om = of_nat (Suc n)" and "Suc n < 2 ^ 64"
  shows "om_releases fifo n cf om F = Some (rev (map of_nat [1..<Suc n]), om\<lparr>om_counter := 1\<rparr>, F)"
  using assms
proof (induction n arbitrary: om)
  case (Suc n)
  have "(of_nat (Suc n) :: mword) > 0"
    using Suc.prems(1) by (simp add: word_gt_0 of_nat_neq_0 del: of_nat_Suc)
  then have "om_release fifo cf om F = Some (of_nat (Suc n), None, om\<lparr>om_counter := of_nat (Suc n)\<rparr>, F)"
    using Suc.prems(2) by (simp add: om_release_def)
  with Suc.IH [of "om\<lparr>om_counter := of_nat (Suc n)\<rparr>"] Suc.prems show ?case by simp
qed simp

text \<open>\<^verbatim>\<open>OwnerMutex\<close> with recursion enabled: \<open>n\<close> nested acquisitions by one fred
  succeed and return 1 to \<open>n\<close>; the matching releases return \<open>n\<close>-1 down to 0, and only the last of
  them releases the base mutex. Without recursion the second acquisition is an assertion failure.\<close>

theorem owner_mutex_nesting:
  assumes "mx_owner (om_base om) = None" and "om_counter om = 0" and "0 < n" and "n < 2 ^ 64"
    and "bq_waiters (mx_bq (om_base om)) F = []"
  shows "(om_recursion om \<longrightarrow> (\<exists>om'. om_acquires n now cf om F = Some (map (\<lambda>k. Some (of_nat k)) [1..<Suc n], om', F)
      \<and> mx_owner (om_base om') = Some cf
      \<and> (\<exists>om1. om_releases fifo (n - 1) cf om' F = Some (rev (map of_nat [1..<n]), om1, F)
            \<and> mx_owner (om_base om1) = Some cf \<and> om_release fifo cf om1 F = Some (0, None, om, F))))
    \<and> (\<not> om_recursion om \<longrightarrow> om_acquires 2 now cf om F = None)"
proof (intro conjI impI)
  define b where "b = (om_base om)\<lparr>mx_owner := Some cf\<rparr>"
  show "\<exists>om'. om_acquires n now cf om F = Some (map (\<lambda>k. Some (of_nat k)) [1..<Suc n], om', F)
      \<and> mx_owner (om_base om') = Some cf
      \<and> (\<exists>om1. om_releases fifo (n - 1) cf om' F = Some (rev (map of_nat [1..<n]), om1, F)
            \<and> mx_owner (om_base om1) = Some cf \<and> om_release fifo cf om1 F = Some (0, None, om, F))"
    if "om_recursion om"
  proof (intro exI conjI)
    let ?om = "om\<lparr>om_base := b, om_counter := of_nat n\<rparr>"
    show "om_acquires n now cf om F = Some (map (\<lambda>k. Some (of_nat k)) [1..<Suc n], ?om, F)"
      using om_acquires_nested [OF that assms(1,2), of n now cf F] assms(3) by (simp add: b_def)
    show "om_releases fifo (n - 1) cf ?om F = Some (rev (map of_nat [1..<n]), ?om\<lparr>om_counter := 1\<rparr>, F)"
      using om_releases_nested [of "n - 1" ?om fifo cf F] assms(3,4) by simp
    show "om_release fifo cf (?om\<lparr>om_counter := 1\<rparr>) F = Some (0, None, om, F)"
      using assms(1,2) bq_unblock_none [OF assms(5)]
      by (simp add: om_release_def mutex_release_def b_def)
  qed (simp_all add: b_def)
  show "om_acquires 2 now cf om F = None" if "\<not> om_recursion om"
    using that assms(1,2)
    by (simp add: numeral_2_eq_2 om_acquire_def mutex_internalAcquire_def mutex_round_def om_count_def)
qed

theorem owner_mutex_nesting_witness:
  "\<exists>om'. om_acquires 2 time_zero 5 (om_enableRecursion (new_omutex 100)) (\<lambda>f. new_fred False 0 0)
     = Some ([Some 1, Some 2], om', \<lambda>f. new_fred False 0 0) \<and> mx_owner (om_base om') = Some 5"
  using owner_mutex_nesting [of "om_enableRecursion (new_omutex 100)" 2 "\<lambda>f. new_fred False 0 0" time_zero 5]
  by (fastforce simp: om_enableRecursion_def new_omutex_def new_mutex_def bq_waiters_def upt_conv_Cons)

end
