(* ===== verification/Locked_RWLock.thy ===== *)
theory Locked_RWLock
  imports Locked_Sync
begin

text \<open>
  \<^verbatim>\<open>LockedRWLock\<close> of \<^verbatim>\<open>src/src/runtime/BlockingSync.h\<close>: readers-writer exclusion,
  and the run in which a reader is left waiting for a lock that nobody holds.
\<close>

section \<open>State and operations\<close>

record rwlock =
  rw_state :: int     \<comment> \<open>-1 writer, 0 open, >0 readers\<close>
  bqR :: bqueue
  bqW :: bqueue

definition new_rwlock :: "addr \<Rightarrow> addr \<Rightarrow> rwlock" where
  "new_rwlock a b = \<lparr>rw_state = 0, bqR = queue_init a, bqW = queue_init b\<rparr>"

definition rw_reset :: "rwlock \<Rightarrow> rwlock option" where
  "rw_reset l = do { rassert (rw_state l = 0); rassert (bq_empty (bqR l)); rassert (bq_empty (bqW l)); Some l }"

text \<open>\<^verbatim>\<open>internalAR\<close> and \<^verbatim>\<open>internalAW\<close>, first section (no result: blocked).\<close>

definition internalAR :: "wait_arg \<Rightarrow> time \<Rightarrow> fid \<Rightarrow> rwlock \<Rightarrow> freds \<Rightarrow> (bool option \<times> rwlock \<times> freds) option" where
  "internalAR arg now cf l F =
     (if rw_state l \<ge> 0 \<and> bq_empty (bqW l) then Some (Some True, l\<lparr>rw_state := rw_state l + 1\<rparr>, F)
      else if bq_will_block arg now
      then do { (q, F') \<leftarrow> bq_block_begin cf (bqR l) F; Some (None, l\<lparr>bqR := q\<rparr>, F') }
      else Some (Some False, l, F))"

definition internalAW :: "wait_arg \<Rightarrow> time \<Rightarrow> fid \<Rightarrow> rwlock \<Rightarrow> freds \<Rightarrow> (bool option \<times> rwlock \<times> freds) option" where
  "internalAW arg now cf l F =
     (if rw_state l = 0 then Some (Some True, l\<lparr>rw_state := rw_state l - 1\<rparr>, F)
      else if bq_will_block arg now
      then do { (q, F') \<leftarrow> bq_block_begin cf (bqW l) F; Some (None, l\<lparr>bqW := q\<rparr>, F') }
      else Some (Some False, l, F))"

text \<open>Unblocking from one of the queues with the matching change of \<open>state\<close>.\<close>

definition rw_unblockR :: "rwlock \<Rightarrow> freds \<Rightarrow> fid option \<times> rwlock \<times> freds" where
  "rw_unblockR l F =
     (let (next, q, F') = bq_unblock (bqR l) F
      in (next, l\<lparr>bqR := q, rw_state := if next \<noteq> None then rw_state l + 1 else rw_state l\<rparr>, F'))"

definition rw_unblockW :: "rwlock \<Rightarrow> freds \<Rightarrow> fid option \<times> rwlock \<times> freds" where
  "rw_unblockW l F =
     (let (next, q, F') = bq_unblock (bqW l) F
      in (next, l\<lparr>bqW := q, rw_state := if next \<noteq> None then rw_state l - 1 else rw_state l\<rparr>, F'))"

text \<open>After the suspension; a reader that was granted the lock lets the next waiting reader in
  (second component: the fred to resume).\<close>

definition internalAR_end :: "fid \<Rightarrow> rwlock \<Rightarrow> freds \<Rightarrow> bool \<times> fid option \<times> rwlock \<times> freds" where
  "internalAR_end cf l F =
     (let (won, q) = bq_block_end cf (bqR l) F; l' = l\<lparr>bqR := q\<rparr>
      in if won then (True, rw_unblockR l' F) else (False, None, l', F))"

definition internalAW_end :: "fid \<Rightarrow> rwlock \<Rightarrow> freds \<Rightarrow> bool \<times> rwlock" where
  "internalAW_end cf l F = (let (won, q) = bq_block_end cf (bqW l) F in (won, l\<lparr>bqW := q\<rparr>))"

definition rw_release :: "rwlock \<Rightarrow> freds \<Rightarrow> (fid option \<times> rwlock \<times> freds) option" where
  "rw_release l F =
     do { rassert (rw_state l \<noteq> 0);
          if rw_state l > 0
          then let l1 = l\<lparr>rw_state := rw_state l - 1\<rparr>
               in if rw_state l1 > 0 then Some (None, l1, F)
                  else (case rw_unblockW l1 F of
                          (None, l2, F') \<Rightarrow> Some (rw_unblockR l2 F')
                        | r \<Rightarrow> Some r)
          else do { rassert (rw_state l = -1);
                    let l1 = l\<lparr>rw_state := rw_state l + 1\<rparr>
                    in (case rw_unblockR l1 F of
                          (None, l2, F') \<Rightarrow> Some (rw_unblockW l2 F')
                        | r \<Rightarrow> Some r) } }"

section \<open>Step relation\<close>

record rw_sys =
  rl :: rwlock
  rF :: freds
  rBR :: "fid set"   \<comment> \<open>blocked in \<open>acquireRead\<close>\<close>
  rBW :: "fid set"   \<comment> \<open>blocked in \<open>acquireWrite\<close>\<close>
  rHR :: "fid set"   \<comment> \<open>readers whose call returned true\<close>
  rHW :: "fid set"   \<comment> \<open>writers whose call returned true\<close>

definition rw_busy :: "rw_sys \<Rightarrow> fid set" where
  "rw_busy s = rBR s \<union> rBW s \<union> rHR s \<union> rHW s"

definition rw_read_entered :: "fid \<Rightarrow> bool option \<times> rwlock \<times> freds \<Rightarrow> rw_sys \<Rightarrow> rw_sys" where
  "rw_read_entered cf r s = (case r of (res, l, F) \<Rightarrow>
     s\<lparr>rl := l, rF := F, rBR := (if res = None then insert cf (rBR s) else rBR s),
       rHR := (if res = Some True then insert cf (rHR s) else rHR s)\<rparr>)"

definition rw_write_entered :: "fid \<Rightarrow> bool option \<times> rwlock \<times> freds \<Rightarrow> rw_sys \<Rightarrow> rw_sys" where
  "rw_write_entered cf r s = (case r of (res, l, F) \<Rightarrow>
     s\<lparr>rl := l, rF := F, rBW := (if res = None then insert cf (rBW s) else rBW s),
       rHW := (if res = Some True then insert cf (rHW s) else rHW s)\<rparr>)"

inductive rw_step :: "rw_sys \<Rightarrow> rw_sys \<Rightarrow> bool" where
  acquire_read: "cf \<notin> rw_busy s \<Longrightarrow> internalAR arg now cf (rl s) (rF s) = Some r \<Longrightarrow>
     rw_step s (rw_read_entered cf r s)"
| acquire_write: "cf \<notin> rw_busy s \<Longrightarrow> internalAW arg now cf (rl s) (rF s) = Some r \<Longrightarrow>
     rw_step s (rw_write_entered cf r s)"
| read_woken: "cf \<in> rBR s \<Longrightarrow> resumeInfo (rF s cf) \<noteq> 0 \<Longrightarrow>
     internalAR_end cf (rl s) (rF s) = (res, next, l, F) \<Longrightarrow>
     rw_step s (s\<lparr>rl := l, rF := F, rBR := rBR s - {cf},
                  rHR := (if res then insert cf (rHR s) else rHR s)\<rparr>)"
| write_woken: "cf \<in> rBW s \<Longrightarrow> resumeInfo (rF s cf) \<noteq> 0 \<Longrightarrow>
     internalAW_end cf (rl s) (rF s) = (res, l) \<Longrightarrow>
     rw_step s (s\<lparr>rl := l, rBW := rBW s - {cf},
                  rHW := (if res then insert cf (rHW s) else rHW s)\<rparr>)"
| release: "cf \<in> rHR s \<union> rHW s \<Longrightarrow> rw_release (rl s) (rF s) = Some (next, l, F) \<Longrightarrow>
     rw_step s (s\<lparr>rl := l, rF := F, rHR := rHR s - {cf}, rHW := rHW s - {cf}\<rparr>)"
| timer: "t \<noteq> 0 \<Longrightarrow> t \<noteq> bq_addr (bqR (rl s)) \<Longrightarrow> t \<noteq> bq_addr (bqW (rl s)) \<Longrightarrow>
     rw_step s (s\<lparr>rF := race_won t f (rF s)\<rparr>)"

inductive rw_reach :: "addr \<Rightarrow> addr \<Rightarrow> freds \<Rightarrow> rw_sys \<Rightarrow> bool" for a b F0 where
  start: "rw_reach a b F0 \<lparr>rl = new_rwlock a b, rF = F0, rBR = {}, rBW = {}, rHR = {}, rHW = {}\<rparr>"
| step: "rw_reach a b F0 s \<Longrightarrow> rw_step s s' \<Longrightarrow> rw_reach a b F0 s'"

section \<open>Invariant\<close>

text \<open>\<open>rw_count\<close>: the state counts the readers (holding or granted), or is -1 for one writer.\<close>

definition rw_count :: "int \<Rightarrow> nat \<Rightarrow> nat \<Rightarrow> bool" where
  "rw_count st r w \<longleftrightarrow> st = -1 \<and> w = 1 \<and> r = 0 \<or> 0 \<le> st \<and> w = 0 \<and> st = int r"

definition rw_queues :: "rwlock \<Rightarrow> freds \<Rightarrow> fid set \<Rightarrow> fid set \<Rightarrow> bool" where
  "rw_queues l F BR BW \<longleftrightarrow> bq_ok (bqR l) F BR \<and> bq_ok (bqW l) F BW
     \<and> bq_addr (bqR l) \<noteq> bq_addr (bqW l) \<and> BR \<inter> BW = {}"

definition gR :: "rwlock \<Rightarrow> freds \<Rightarrow> fid set \<Rightarrow> fid set" where "gR l = granted (bqR l)"
definition gW :: "rwlock \<Rightarrow> freds \<Rightarrow> fid set \<Rightarrow> fid set" where "gW l = granted (bqW l)"

definition rw_inv :: "rw_sys \<Rightarrow> bool" where
  "rw_inv s \<longleftrightarrow> rw_queues (rl s) (rF s) (rBR s) (rBW s) \<and> finite (rHR s) \<and> finite (rHW s)
     \<and> rHR s \<inter> (rBR s \<union> rBW s \<union> rHW s) = {} \<and> rHW s \<inter> (rBR s \<union> rBW s) = {}
     \<and> rw_count (rw_state (rl s)) (card (rHR s) + card (gR (rl s) (rF s) (rBR s)))
          (card (rHW s) + card (gW (rl s) (rF s) (rBW s)))
     \<and> (rw_state (rl s) = 0 \<longrightarrow> bq_waiters (bqW (rl s)) (rF s) = [])"

lemma rw_unblockR_effect:
  assumes "rw_unblockR l F = (n, l', F')" and q: "rw_queues l F BR BW"
  shows "rw_queues l' F' BR BW" and "bqW l' = bqW l" and "gW l' F' BW = gW l F BW"
    and "bq_waiters (bqW l') F' = bq_waiters (bqW l) F"
    and "n = None \<Longrightarrow> l' = l \<and> F' = F \<and> bq_waiters (bqR l) F = []"
    and "n = Some f \<Longrightarrow> rw_state l' = rw_state l + 1 \<and> card (gR l' F' BR) = Suc (card (gR l F BR))"
proof -
  have okR: "bq_ok (bqR l) F BR" and okW: "bq_ok (bqW l) F BW" and disj: "BR \<inter> BW = {}"
    using q by (simp_all add: rw_queues_def)
  obtain m qr F1 where b: "bq_unblock (bqR l) F = (m, qr, F1)" by (metis surj_pair)
  then have eq: "m = n" "F1 = F'"
    "l' = l\<lparr>bqR := qr, rw_state := if n \<noteq> None then rw_state l + 1 else rw_state l\<rparr>"
    using assms(1) by (auto simp: rw_unblockR_def)
  note u = bq_ok_unblock [OF okR b [unfolded eq(1,2)]]
  have "\<And>g. g \<in> BW \<Longrightarrow> resumeInfo (F' g) = resumeInfo (F g)"
    using bq_unblock_outside [OF okR b [unfolded eq(1,2)]] disj by (metis disjoint_iff)
  note fr = bq_ok_frame [OF this okW]
  show "rw_queues l' F' BR BW" "bqW l' = bqW l" "gW l' F' BW = gW l F BW"
    "bq_waiters (bqW l') F' = bq_waiters (bqW l) F"
    using q u(1,2) fr by (simp_all add: rw_queues_def gW_def eq)
  show "n = None \<Longrightarrow> l' = l \<and> F' = F \<and> bq_waiters (bqR l) F = []"
    using u(3) by (simp add: eq)
  show "n = Some f \<Longrightarrow> rw_state l' = rw_state l + 1 \<and> card (gR l' F' BR) = Suc (card (gR l F BR))"
    using u(5) [of f] finite_granted [OF okR] by (simp add: eq gR_def)
qed

lemma rw_unblockW_effect:
  assumes "rw_unblockW l F = (n, l', F')" and q: "rw_queues l F BR BW"
  shows "rw_queues l' F' BR BW" and "bqR l' = bqR l" and "gR l' F' BR = gR l F BR"
    and "n = None \<Longrightarrow> l' = l \<and> F' = F \<and> bq_waiters (bqW l) F = []"
    and "n = Some f \<Longrightarrow> rw_state l' = rw_state l - 1 \<and> card (gW l' F' BW) = Suc (card (gW l F BW))"
proof -
  have okR: "bq_ok (bqR l) F BR" and okW: "bq_ok (bqW l) F BW" and disj: "BR \<inter> BW = {}"
    using q by (simp_all add: rw_queues_def)
  obtain m qw F1 where b: "bq_unblock (bqW l) F = (m, qw, F1)" by (metis surj_pair)
  then have eq: "m = n" "F1 = F'"
    "l' = l\<lparr>bqW := qw, rw_state := if n \<noteq> None then rw_state l - 1 else rw_state l\<rparr>"
    using assms(1) by (auto simp: rw_unblockW_def)
  note u = bq_ok_unblock [OF okW b [unfolded eq(1,2)]]
  have "\<And>g. g \<in> BR \<Longrightarrow> resumeInfo (F' g) = resumeInfo (F g)"
    using bq_unblock_outside [OF okW b [unfolded eq(1,2)]] disj by (metis disjoint_iff)
  note fr = bq_ok_frame [OF this okR]
  show "rw_queues l' F' BR BW" "bqR l' = bqR l" "gR l' F' BR = gR l F BR"
    using q u(1,2) fr by (simp_all add: rw_queues_def gR_def eq)
  show "n = None \<Longrightarrow> l' = l \<and> F' = F \<and> bq_waiters (bqW l) F = []"
    using u(3) by (simp add: eq)
  show "n = Some f \<Longrightarrow> rw_state l' = rw_state l - 1 \<and> card (gW l' F' BW) = Suc (card (gW l F BW))"
    using u(5) [of f] finite_granted [OF okW] by (simp add: eq gW_def)
qed

lemma rw_queues_state [simp]: "rw_queues (l\<lparr>rw_state := n\<rparr>) F BR BW = rw_queues l F BR BW"
  "gR (l\<lparr>rw_state := n\<rparr>) = gR l" "gW (l\<lparr>rw_state := n\<rparr>) = gW l"
  by (simp_all add: rw_queues_def gR_def gW_def)

lemma rw_inv_queues: "rw_inv s \<Longrightarrow> rw_queues (rl s) (rF s) (rBR s) (rBW s)"
  by (simp add: rw_inv_def)

lemma rw_inv_read:
  assumes inv: "rw_inv s" and "cf \<notin> rw_busy s" and "internalAR arg now cf (rl s) (rF s) = Some r"
  shows "rw_inv (rw_read_entered cf r s)"
proof -
  have okR: "bq_ok (bqR (rl s)) (rF s) (rBR s)" and okW: "bq_ok (bqW (rl s)) (rF s) (rBW s)"
    using inv by (simp_all add: rw_inv_def rw_queues_def)
  consider (opened) "rw_state (rl s) \<ge> 0" "r = (Some True, (rl s)\<lparr>rw_state := rw_state (rl s) + 1\<rparr>, rF s)"
    | (blocked) q F' where "bq_block_begin cf (bqR (rl s)) (rF s) = Some (q, F')" "r = (None, (rl s)\<lparr>bqR := q\<rparr>, F')"
    | (refused) "r = (Some False, rl s, rF s)"
    using assms(3) by (auto simp: internalAR_def bind_eq_Some_conv split: if_splits)
  then show ?thesis
  proof cases
    case opened
    with inv assms(2) show ?thesis
      by (auto simp: rw_inv_def rw_read_entered_def rw_count_def rw_busy_def)
  next
    case blocked
    have "cf \<notin> rBR s" and "cf \<notin> rBW s" using assms(2) by (simp_all add: rw_busy_def)
    note e = bq_ok_enter [OF okR this(1) blocked(1)]
    have "\<And>g. g \<in> rBW s \<Longrightarrow> resumeInfo (F' g) = resumeInfo (rF s g)"
      using e(5) \<open>cf \<notin> rBW s\<close> by metis
    note fr = bq_ok_frame [OF this okW]
    from blocked(2) inv assms(2) e(1,2,4) fr show ?thesis
      by (simp add: rw_inv_def rw_read_entered_def rw_queues_def gR_def gW_def rw_busy_def)
  next
    case refused
    with inv show ?thesis by (simp add: rw_read_entered_def)
  qed
qed

lemma rw_inv_write:
  assumes inv: "rw_inv s" and "cf \<notin> rw_busy s" and "internalAW arg now cf (rl s) (rF s) = Some r"
  shows "rw_inv (rw_write_entered cf r s)"
proof -
  have okR: "bq_ok (bqR (rl s)) (rF s) (rBR s)" and okW: "bq_ok (bqW (rl s)) (rF s) (rBW s)"
    using inv by (simp_all add: rw_inv_def rw_queues_def)
  consider (opened) "rw_state (rl s) = 0" "r = (Some True, (rl s)\<lparr>rw_state := - 1\<rparr>, rF s)"
    | (blocked) q F' where "rw_state (rl s) \<noteq> 0" "bq_block_begin cf (bqW (rl s)) (rF s) = Some (q, F')"
        "r = (None, (rl s)\<lparr>bqW := q\<rparr>, F')"
    | (refused) "r = (Some False, rl s, rF s)"
    using assms(3) by (auto simp: internalAW_def bind_eq_Some_conv split: if_splits)
  then show ?thesis
  proof cases
    case opened
    then have "rHR s = {}" "card (gR (rl s) (rF s) (rBR s)) = 0"
      using inv by (auto simp: rw_inv_def rw_count_def simp del: of_nat_add)
    with opened inv assms(2) show ?thesis
      by (auto simp: rw_inv_def rw_write_entered_def rw_count_def rw_busy_def)
  next
    case blocked
    have "cf \<notin> rBW s" and "cf \<notin> rBR s" using assms(2) by (simp_all add: rw_busy_def)
    note e = bq_ok_enter [OF okW this(1) blocked(2)]
    have "\<And>g. g \<in> rBR s \<Longrightarrow> resumeInfo (F' g) = resumeInfo (rF s g)"
      using e(5) \<open>cf \<notin> rBR s\<close> by metis
    note fr = bq_ok_frame [OF this okR]
    from blocked(1,3) inv assms(2) e(1,2,4) fr show ?thesis
      by (simp add: rw_inv_def rw_write_entered_def rw_queues_def gR_def gW_def rw_busy_def)
  next
    case refused
    with inv show ?thesis by (simp add: rw_write_entered_def)
  qed
qed

lemma card_moved:
  "finite G \<Longrightarrow> finite H \<Longrightarrow> cf \<notin> H \<Longrightarrow> cf \<in> G \<Longrightarrow> card (insert cf H) + card (G - {cf}) = card H + card G"
  by (simp add: card_Suc_Diff1 [symmetric] del: card_Diff_insert)

lemma rw_inv_read_woken:
  assumes inv: "rw_inv s" and "cf \<in> rBR s" and "resumeInfo (rF s cf) \<noteq> 0"
    and r: "internalAR_end cf (rl s) (rF s) = (res, n, l, F)"
  shows "rw_inv (s\<lparr>rl := l, rF := F, rBR := rBR s - {cf}, rHR := (if res then insert cf (rHR s) else rHR s)\<rparr>)"
proof -
  have okR: "bq_ok (bqR (rl s)) (rF s) (rBR s)" and q: "rw_queues (rl s) (rF s) (rBR s) (rBW s)"
    using inv by (simp_all add: rw_inv_def rw_queues_def)
  obtain won qr where e: "bq_block_end cf (bqR (rl s)) (rF s) = (won, qr)" by fastforce
  note u = bq_ok_leave [OF okR assms(2,3) e]
  define l1 where "l1 = (rl s)\<lparr>bqR := qr\<rparr>"
  define s1 where "s1 = s\<lparr>rl := l1, rBR := rBR s - {cf}, rHR := (if won then insert cf (rHR s) else rHR s)\<rparr>"
  have fin: "finite (gR (rl s) (rF s) (rBR s))" "finite (rHR s)" "cf \<notin> rHR s"
    using finite_granted [OF okR] inv assms(2) by (auto simp: gR_def rw_inv_def)
  have inv1: "rw_inv s1"
  proof (cases won)
    case True
    then have "card (insert cf (rHR s)) + card (gR l1 (rF s) (rBR s - {cf})) = card (rHR s) + card (gR (rl s) (rF s) (rBR s))"
      using card_moved [OF fin(1,2,3)] u(2,3) by (simp add: gR_def l1_def)
    with True inv u(1,5) assms(2) show ?thesis
      by (auto simp: rw_inv_def rw_queues_def gW_def s1_def l1_def)
  next
    case False
    then have "gR l1 (rF s) (rBR s - {cf}) = gR (rl s) (rF s) (rBR s)"
      using u(2,3) by (simp add: gR_def l1_def)
    with False inv u(1,5) assms(2) show ?thesis
      by (auto simp: rw_inv_def rw_queues_def gW_def s1_def l1_def)
  qed
  show ?thesis
  proof (cases won)
    case False
    with r e have "s\<lparr>rl := l, rF := F, rBR := rBR s - {cf}, rHR := (if res then insert cf (rHR s) else rHR s)\<rparr> = s1"
      by (intro rw_sys.equality) (auto simp: internalAR_end_def s1_def l1_def)
    with inv1 show ?thesis by simp
  next
    case True
    with r e have un: "rw_unblockR l1 (rF s) = (n, l, F)" and res
      by (simp_all add: internalAR_end_def l1_def)
    note w = rw_unblockR_effect [OF un, of "rBR s1" "rBW s1"]
    have q1: "rw_queues l1 (rF s) (rBR s1) (rBW s1)" using rw_inv_queues [OF inv1] by (simp add: s1_def)
    have "rw_inv (s1\<lparr>rl := l, rF := F\<rparr>)"
    proof (cases n)
      case None
      with w(5) [OF q1] have "s1\<lparr>rl := l, rF := F\<rparr> = s1"
        by (intro rw_sys.equality) (simp_all add: s1_def)
      with inv1 show ?thesis by simp
    next
      case (Some f)
      have "0 < card (rHR s1)" using True fin by (simp add: s1_def card_gt_0_iff)
      with Some w [OF q1] inv1 show ?thesis
        by (auto simp: rw_inv_def rw_count_def s1_def)
    qed
    moreover have "s1\<lparr>rl := l, rF := F\<rparr> = s\<lparr>rl := l, rF := F, rBR := rBR s - {cf}, rHR := insert cf (rHR s)\<rparr>"
      using True by (intro rw_sys.equality) (simp_all add: s1_def)
    ultimately show ?thesis using \<open>res\<close> by simp
  qed
qed

lemma rw_inv_write_woken:
  assumes inv: "rw_inv s" and "cf \<in> rBW s" and "resumeInfo (rF s cf) \<noteq> 0"
    and r: "internalAW_end cf (rl s) (rF s) = (res, l)"
  shows "rw_inv (s\<lparr>rl := l, rBW := rBW s - {cf}, rHW := (if res then insert cf (rHW s) else rHW s)\<rparr>)"
proof -
  have okW: "bq_ok (bqW (rl s)) (rF s) (rBW s)" using inv by (simp add: rw_inv_def rw_queues_def)
  obtain won qw where e: "bq_block_end cf (bqW (rl s)) (rF s) = (won, qw)" by fastforce
  note u = bq_ok_leave [OF okW assms(2,3) e]
  have eq: "won = res" "l = (rl s)\<lparr>bqW := qw\<rparr>" using r e by (simp_all add: internalAW_end_def)
  have fin: "finite (gW (rl s) (rF s) (rBW s))" "finite (rHW s)" "cf \<notin> rHW s"
    using finite_granted [OF okW] inv assms(2) by (auto simp: gW_def rw_inv_def)
  show ?thesis
  proof (cases res)
    case True
    then have "card (insert cf (rHW s)) + card (gW l (rF s) (rBW s - {cf})) = card (rHW s) + card (gW (rl s) (rF s) (rBW s))"
      using card_moved [OF fin] u(2,3) by (simp add: gW_def eq)
    with True inv u(1,4,5) assms(2) show ?thesis
      by (auto simp: rw_inv_def rw_queues_def gR_def eq)
  next
    case False
    then have "gW l (rF s) (rBW s - {cf}) = gW (rl s) (rF s) (rBW s)"
      using u(2,3) by (simp add: gW_def eq)
    with False inv u(1,4,5) assms(2) show ?thesis
      by (auto simp: rw_inv_def rw_queues_def gR_def eq)
  qed
qed

text \<open>What a release by a holder amounts to.\<close>

lemma rw_inv_holder:
  assumes "rw_inv s"
  shows "cf \<in> rHR s \<Longrightarrow> 0 < rw_state (rl s) \<and> rHW s = {}" and "cf \<in> rHW s \<Longrightarrow> rw_state (rl s) = -1 \<and> rHR s = {} \<and> rHW s = {cf}"
proof -
  have f: "finite (rHR s)" "finite (rHW s)" using assms by (simp_all add: rw_inv_def)
  show "0 < rw_state (rl s) \<and> rHW s = {}" if "cf \<in> rHR s"
  proof -
    from that f(1) have "0 < card (rHR s)" by (auto simp: card_gt_0_iff)
    with assms f show ?thesis by (auto simp: rw_inv_def rw_count_def)
  qed
  show "rw_state (rl s) = -1 \<and> rHR s = {} \<and> rHW s = {cf}" if "cf \<in> rHW s"
  proof -
    from that f(2) have "0 < card (rHW s)" by (auto simp: card_gt_0_iff)
    with assms f that have "rw_state (rl s) = -1" "card (rHW s) = 1" "rHR s = {}"
      by (auto simp: rw_inv_def rw_count_def)
    with that show ?thesis by (auto simp: card_1_singleton_iff)
  qed
qed

lemma rw_release_eq:
  "0 < rw_state l \<Longrightarrow> rw_release l F =
     (let l1 = l\<lparr>rw_state := rw_state l - 1\<rparr>
      in if rw_state l > 1 then Some (None, l1, F)
         else case rw_unblockW l1 F of (None, l2, F') \<Rightarrow> Some (rw_unblockR l2 F') | r \<Rightarrow> Some r)"
  "rw_state l = -1 \<Longrightarrow> rw_release l F =
     (case rw_unblockR (l\<lparr>rw_state := 0\<rparr>) F of (None, l2, F') \<Rightarrow> Some (rw_unblockW l2 F') | r \<Rightarrow> Some r)"
  by (simp_all add: rw_release_def Let_def)

lemma rw_release_None: "rw_release l F = None \<longleftrightarrow> rw_state l = 0 \<or> rw_state l < -1"
  by (auto simp: rw_release_def Let_def split: prod.splits option.splits) (metis surj_pair)+

lemma rw_inv_release:
  assumes inv: "rw_inv s" and "cf \<in> rHR s \<union> rHW s" and r: "rw_release (rl s) (rF s) = Some (n, l, F)"
  shows "rw_inv (s\<lparr>rl := l, rF := F, rHR := rHR s - {cf}, rHW := rHW s - {cf}\<rparr>)"
proof (cases "cf \<in> rHR s")
  case True
  define l1 where "l1 = (rl s)\<lparr>rw_state := rw_state (rl s) - 1\<rparr>"
  have st: "0 < rw_state (rl s)" "rHW s = {}" using rw_inv_holder(1) [OF inv True] by simp_all
  have q1: "rw_queues l1 (rF s) (rBR s) (rBW s)" using rw_inv_queues [OF inv] by (simp add: l1_def)
  have fin: "finite (rHR s)" using inv by (simp add: rw_inv_def)
  have c: "Suc (card (rHR s - {cf})) = card (rHR s)" using card_Suc_Diff1 [OF fin True] .
  show ?thesis
  proof (cases "rw_state (rl s) > 1")
    case more: True
    then have "l = l1" "F = rF s" using r rw_release_eq(1) [OF st(1)] by (simp_all add: l1_def)
    with more inv st(2) c q1 fin show ?thesis
      by (auto simp: rw_inv_def rw_count_def l1_def)
  next
    case last: False
    then have zero: "rw_state l1 = 0" using st by (simp add: l1_def)
    obtain nw l2 F2 where w: "rw_unblockW l1 (rF s) = (nw, l2, F2)" by (metis surj_pair)
    note we = rw_unblockW_effect [OF w q1]
    have zc: "card (rHR s - {cf}) = 0" "card (gR l1 (rF s) (rBR s)) = 0" "card (gW l1 (rF s) (rBW s)) = 0"
    proof -
      have "card (rHR s) + card (gR (rl s) (rF s) (rBR s)) = 1" "card (gW (rl s) (rF s) (rBW s)) = 0"
        using inv zero st by (auto simp: rw_inv_def rw_count_def l1_def)
      then show "card (rHR s - {cf}) = 0" "card (gR l1 (rF s) (rBR s)) = 0" "card (gW l1 (rF s) (rBW s)) = 0"
        unfolding l1_def rw_queues_state using c by linarith+
    qed
    have base: "rHR s \<inter> (rBR s \<union> rBW s) = {}" using inv by (auto simp: rw_inv_def)
    show ?thesis
    proof (cases nw)
      case None
      with w r last have u: "rw_unblockR l2 F2 = (n, l, F)" using rw_release_eq(1) [OF st(1)] by (simp add: l1_def)
      have eq: "l2 = l1" "F2 = rF s" "bq_waiters (bqW l1) (rF s) = []" using we(4) [OF None] by auto
      note re = rw_unblockR_effect [OF u [unfolded eq] q1]
      with eq zero zc base st(2) fin show ?thesis
        by (cases n) (auto simp: rw_inv_def rw_count_def)
    next
      case (Some f)
      with w r last have "l = l2" "F = F2" using rw_release_eq(1) [OF st(1)] by (simp_all add: l1_def)
      with we(1,3) we(5) [OF Some] zero zc base st(2) fin show ?thesis
        by (auto simp: rw_inv_def rw_count_def)
    qed
  qed
next
  case False
  then have "cf \<in> rHW s" using assms(2) by simp
  note st = rw_inv_holder(2) [OF inv this]
  define l1 where "l1 = (rl s)\<lparr>rw_state := 0\<rparr>"
  have q1: "rw_queues l1 (rF s) (rBR s) (rBW s)" using rw_inv_queues [OF inv] by (simp add: l1_def)
  obtain nr l2 F2 where w: "rw_unblockR l1 (rF s) = (nr, l2, F2)" by (metis surj_pair)
  note re = rw_unblockR_effect [OF w q1]
  have zc: "card (gR l1 (rF s) (rBR s)) = 0" "card (gW l1 (rF s) (rBW s)) = 0"
    using inv st by (auto simp: rw_inv_def rw_count_def l1_def)
  show ?thesis
  proof (cases nr)
    case None
    with w r st have u: "rw_unblockW l2 F2 = (n, l, F)" using rw_release_eq(2) [of "rl s"] by (simp add: l1_def)
    have eq: "l2 = l1" "F2 = rF s" using re(5) [OF None] by auto
    note we = rw_unblockW_effect [OF u [unfolded eq] q1]
    with zc st show ?thesis
      by (cases n) (auto simp: rw_inv_def rw_count_def l1_def)
  next
    case (Some f)
    with w r st have "l = l2" "F = F2" using rw_release_eq(2) [of "rl s"] by (simp_all add: l1_def)
    with re(1,3) re(6) [OF Some] zc st show ?thesis
      by (auto simp: rw_inv_def rw_count_def l1_def)
  qed
qed

lemma rw_inv_timer:
  assumes "rw_inv s" and "t \<noteq> 0" and "t \<noteq> bq_addr (bqR (rl s))" and "t \<noteq> bq_addr (bqW (rl s))"
  shows "rw_inv (s\<lparr>rF := race_won t f (rF s)\<rparr>)"
proof -
  have "bq_ok (bqR (rl s)) (rF s) (rBR s)" and "bq_ok (bqW (rl s)) (rF s) (rBW s)"
    using assms(1) by (simp_all add: rw_inv_def rw_queues_def)
  note R = bq_ok_timer [OF this(1) assms(2,3), of f] and W = bq_ok_timer [OF this(2) assms(2,4), of f]
  with assms(1) show ?thesis
    by (auto simp: rw_inv_def rw_queues_def gR_def gW_def)
qed

lemma rw_step_inv: "rw_step s s' \<Longrightarrow> rw_inv s \<Longrightarrow> rw_inv s'"
proof (induction rule: rw_step.induct)
  case (acquire_read cf s arg now r)
  then show ?case by (intro rw_inv_read)
next
  case (acquire_write cf s arg now r)
  then show ?case by (intro rw_inv_write)
next
  case (read_woken cf s res n l F)
  then show ?case by (intro rw_inv_read_woken)
next
  case (write_woken cf s res l)
  then show ?case by (intro rw_inv_write_woken)
next
  case (release cf s n l F)
  then show ?case by (intro rw_inv_release)
next
  case (timer t s f)
  then show ?case by (intro rw_inv_timer)
qed

lemma rw_reach_inv: "rw_reach a b F0 s \<Longrightarrow> a \<noteq> 0 \<Longrightarrow> b \<noteq> 0 \<Longrightarrow> a \<noteq> b \<Longrightarrow> rw_inv s"
proof (induction rule: rw_reach.induct)
  case start
  then show ?case
    by (simp add: rw_inv_def rw_queues_def new_rwlock_def bq_ok_init rw_count_def gR_def gW_def bq_waiters_def)
qed (auto intro: rw_step_inv)

interpretation lrw: rw_mutex "\<lambda>s. rw_reach a b F0 s \<and> a \<noteq> 0 \<and> b \<noteq> 0 \<and> a \<noteq> b" rw_step "\<lambda>s f. f \<in> rHR s" "\<lambda>s f. f \<in> rHW s"
  for a b F0
proof
  fix s f g assume s: "rw_reach a b F0 s \<and> a \<noteq> 0 \<and> b \<noteq> 0 \<and> a \<noteq> b" and f: "f \<in> rHW s"
  have inv: "rw_inv s" using rw_reach_inv s by blast
  show "f = g" if "g \<in> rHW s" using rw_inv_holder(2) [OF inv f] that by simp
  show "g \<notin> rHR s" using rw_inv_holder(2) [OF inv f] by simp
qed (blast intro: rw_reach.step)

section \<open>Properties\<close>

text \<open>C20: \<^verbatim>\<open>LockedRWLock\<close>: after any interleaving of read and write acquisitions, releases and
  timeouts, a writer holds the lock alone; the state is -1 exactly when a writer holds it or has been
  granted it and otherwise counts the readers; no writer waits while the lock is open; and a release by a
  holder violates no assertion.\<close>

theorem rw_exclusion:
  assumes "rw_reach a b F0 s" and "a \<noteq> 0" and "b \<noteq> 0" and "a \<noteq> b"
  shows "(cf \<in> rHW s \<longrightarrow> rHW s = {cf} \<and> rHR s = {} \<and> rw_state (rl s) = -1)
    \<and> (rHW s = {} \<and> granted (bqW (rl s)) (rF s) (rBW s) = {} \<longrightarrow>
         rw_state (rl s) = int (card (rHR s) + card (granted (bqR (rl s)) (rF s) (rBR s))))
    \<and> (rw_state (rl s) = 0 \<longrightarrow> bq_waiters (bqW (rl s)) (rF s) = [])
    \<and> (cf \<in> rHR s \<union> rHW s \<longrightarrow> rw_release (rl s) (rF s) \<noteq> None)"
proof (intro conjI impI)
  have inv: "rw_inv s" by (rule rw_reach_inv [OF assms])
  show "rHW s = {cf}" "rHR s = {}" "rw_state (rl s) = -1" if "cf \<in> rHW s"
    using rw_inv_holder(2) [OF inv that] by simp_all
  show "rw_state (rl s) = int (card (rHR s) + card (granted (bqR (rl s)) (rF s) (rBR s)))"
    if "rHW s = {} \<and> granted (bqW (rl s)) (rF s) (rBW s) = {}"
    using inv that by (auto simp: rw_inv_def rw_count_def gR_def gW_def)
  show "bq_waiters (bqW (rl s)) (rF s) = []" if "rw_state (rl s) = 0"
    using inv that by (simp add: rw_inv_def)
  show "rw_release (rl s) (rF s) \<noteq> None" if "cf \<in> rHR s \<union> rHW s"
    using rw_inv_holder [OF inv, of cf] that
    by (auto simp: rw_release_None)
qed

text \<open>A run: reader 1 holds the lock, writer 2 waits with a deadline, its timer fires (but fred 2 has
  not run yet), reader 1 releases, reader 3 arrives and blocks behind the node of fred 2, and fred 2
  removes its node and returns.\<close>

definition rw_state_at :: "int \<Rightarrow> fid list \<Rightarrow> fid list \<Rightarrow> addr \<Rightarrow> fid set \<Rightarrow> rw_sys" where
  "rw_state_at st rs ws info H =
     \<lparr>rl = \<lparr>rw_state = st, bqR = \<lparr>bq_addr = 100, bq_nodes = rs\<rparr>, bqW = \<lparr>bq_addr = 200, bq_nodes = ws\<rparr>\<rparr>,
      rF = (\<lambda>f. new_fred False (if f = 2 then info else 0) 0), rBR = set rs, rBW = set ws, rHR = H, rHW = {}\<rparr>"

lemma rw_reach_stepI: "rw_reach a b F0 s \<Longrightarrow> rw_step s s' \<Longrightarrow> s' = t \<Longrightarrow> rw_reach a b F0 t"
  by (auto intro: rw_reach.step)

lemmas rw_run_simps = rw_state_at_def rw_busy_def new_fred_def internalAR_def internalAW_def bq_empty_def
  bq_block_begin_def prepareResumeRace_def rw_read_entered_def rw_write_entered_def fun_eq_iff

lemma rw_run:
  fixes F0 :: freds
  defines "F0 \<equiv> (\<lambda>f. new_fred False 0 0)"
  shows "rw_reach 100 200 F0 (rw_state_at 1 [] [2] 0 {1})"
    and "rw_reach 100 200 F0 (rw_state_at 0 [3] [] 300 {})"
proof -
  have 0: "rw_reach 100 200 F0 (rw_state_at 0 [] [] 0 {})"
    using rw_reach.start [of 100 200 F0] by (simp add: rw_state_at_def new_rwlock_def queue_init_def F0_def)
  have 1: "rw_reach 100 200 F0 (rw_state_at 1 [] [] 0 {1})"
    by (rule rw_reach_stepI [OF 0 rw_step.acquire_read [where cf = 1 and arg = Wait]]) (simp add: rw_run_simps)+
  show 2: "rw_reach 100 200 F0 (rw_state_at 1 [] [2] 0 {1})"
    by (rule rw_reach_stepI [OF 1 rw_step.acquire_write [where cf = 2 and arg = Wait]]) (simp add: rw_run_simps)+
  have 3: "rw_reach 100 200 F0 (rw_state_at 1 [] [2] 300 {1})"
    by (rule rw_reach_stepI [OF 2 rw_step.timer [where t = 300 and f = 2]])
      (simp_all add: rw_run_simps race_won_def raceResume_def)
  have "rw_release (rl (rw_state_at 1 [] [2] 300 {1})) (rF (rw_state_at 1 [] [2] 300 {1}))
      = Some (None, rl (rw_state_at 0 [] [2] 300 {}), rF (rw_state_at 0 [] [2] 300 {}))"
    by (simp add: rw_state_at_def rw_release_def rw_unblockW_def rw_unblockR_def bq_unblock_def raceResume_def new_fred_def)
  from rw_reach_stepI [OF 3 rw_step.release [where cf = 1, OF _ this]]
  have 4: "rw_reach 100 200 F0 (rw_state_at 0 [] [2] 300 {})" by (simp add: rw_state_at_def)
  have 5: "rw_reach 100 200 F0 (rw_state_at 0 [3] [2] 300 {})"
    by (rule rw_reach_stepI [OF 4 rw_step.acquire_read [where cf = 3 and arg = Wait]]) (simp add: rw_run_simps)+
  show "rw_reach 100 200 F0 (rw_state_at 0 [3] [] 300 {})"
    by (rule rw_reach_stepI [OF 5 rw_step.write_woken [where cf = 2 and res = False]])
      (simp add: rw_state_at_def internalAW_end_def bq_block_end_def new_fred_def)+
qed

theorem rw_exclusion_witness:
  "rw_state (rl (rw_state_at 1 [] [2] 0 {1})) = 1
    \<and> rw_release (rl (rw_state_at 1 [] [2] 0 {1})) (rF (rw_state_at 1 [] [2] 0 {1})) \<noteq> None"
  using rw_exclusion [OF rw_run(1), of 1] by (simp add: rw_state_at_def)

text \<open>C21: A reader can be left waiting for a lock that nobody holds: there is a reachable state in
  which the lock is open, no fred holds it or is about to, no fred waits for writing, and yet a
  reader is blocked. The cause is that a new reader looks at \<open>bqW.empty()\<close>, which still counts the
  node of a writer whose wait has timed out.\<close>

theorem rw_reader_stranded:
  "\<exists>s. rw_reach 100 200 (\<lambda>f. new_fred False 0 0) s \<and> rw_state (rl s) = 0
     \<and> rHR s = {} \<and> rHW s = {} \<and> rBW s = {} \<and> bq_nodes (bqW (rl s)) = []
     \<and> rBR s = {3} \<and> bq_waiters (bqR (rl s)) (rF s) = [3]"
  using rw_run(2) by (intro exI [of _ "rw_state_at 0 [3] [] 300 {}"])
    (simp add: rw_state_at_def bq_waiters_def new_fred_def)

end
