(* ===== verification/Sync_Flag.thy ===== *)
theory Sync_Flag
  imports Fred_Model
begin

text \<open>
  \<^verbatim>\<open>SynchronizedFlag\<close>, \<^verbatim>\<open>Joinable\<close> and \<^verbatim>\<open>SyncPoint\<close> of
  \<^verbatim>\<open>src/src/runtime/BlockingSync.h\<close>: the flag on which \<^verbatim>\<open>join\<close> waits. The source keeps the
  state and the waiting fred in one union, so the model keeps one machine address: 0, 2 and 4 are the
  states, any other value is a pointer to the waiter.
\<close>

section \<open>State and operations\<close>

definition FlagRunning :: addr where "FlagRunning = 0"
definition FlagDummy :: addr where "FlagDummy = 1"
definition FlagPosted :: addr where "FlagPosted = 2"
definition FlagDetached :: addr where "FlagDetached = 4"

lemmas flag_state_defs = FlagRunning_def FlagDummy_def FlagPosted_def FlagDetached_def

text \<open>\<^verbatim>\<open>wait\<close>: the first section either stores the waiter and suspends (\<open>None\<close>) or
  continues; \<open>flag_check\<close> is what follows, where \<open>None\<close> is the \<^verbatim>\<open>RABORT\<close>.\<close>

definition flag_wait_begin :: "addr \<Rightarrow> addr \<Rightarrow> bool \<times> addr" where
  "flag_wait_begin cf st = (if st = FlagRunning then (True, cf) else (False, st))"

definition flag_check :: "addr \<Rightarrow> bool option" where
  "flag_check st = (if st = FlagPosted then Some True else if st = FlagDetached then Some False else None)"

text \<open>\<^verbatim>\<open>post\<close> and \<^verbatim>\<open>detach\<close>: result, the fred to resume, and the new value.\<close>

definition flag_resume :: "addr \<Rightarrow> addr option" where
  "flag_resume st = (if st \<noteq> FlagRunning then Some st else None)"

definition flag_post :: "addr \<Rightarrow> (bool \<times> addr option \<times> addr) option" where
  "flag_post st =
     do { rassert (st \<noteq> FlagPosted);
          if st = FlagDetached then Some (False, None, st) else Some (True, flag_resume st, FlagPosted) }"

definition flag_detach :: "addr \<Rightarrow> (addr option \<times> addr) option" where
  "flag_detach st =
     do { rassert (st \<noteq> FlagDetached \<and> st \<noteq> FlagPosted); Some (flag_resume st, FlagDetached) }"

text \<open>\<^verbatim>\<open>Joinable\<close>: the payload is a union of the runner pointer and the result.\<close>

record joinable =
  flag :: addr
  payload :: addr

definition new_joinable :: "addr \<Rightarrow> joinable" where
  "new_joinable runner = \<lparr>flag = FlagRunning, payload = runner\<rparr>"

definition joinable_wait_end :: "joinable \<Rightarrow> (bool \<times> addr) option" where
  "joinable_wait_end j = do { r \<leftarrow> flag_check (flag j); Some (r, if r then payload j else 0) }"

definition joinable_post :: "addr \<Rightarrow> joinable \<Rightarrow> (bool \<times> addr option \<times> joinable) option" where
  "joinable_post v j =
     do { (r, f, st) \<leftarrow> flag_post (flag j);
          Some (r, f, if r then j\<lparr>flag := st, payload := v\<rparr> else j\<lparr>flag := st\<rparr>) }"

section \<open>Join protocol\<close>

text \<open>One runner posts once when it ends; one other fred may wait for it, or somebody detaches it
  instead. \<open>jw\<close> is the fred suspended in \<open>wait\<close> and \<open>jwoken\<close> how often it has been resumed;
  \<open>jv\<close> is the value given to \<open>post\<close>, \<open>jd\<close> says that \<open>detach\<close> was called, \<open>jout\<close> is what \<open>wait\<close> returned.\<close>

record join_sys =
  jj :: joinable
  jw :: "addr option"
  jwoken :: nat
  jv :: "addr option"
  jd :: bool
  jout :: "(bool \<times> addr) option"

definition woken_by :: "addr option \<Rightarrow> nat" where
  "woken_by f = (if f = None then 0 else 1)"

definition join_init :: "addr \<Rightarrow> join_sys" where
  "join_init r = \<lparr>jj = new_joinable r, jw = None, jwoken = 0, jv = None, jd = False, jout = None\<rparr>"

inductive join_step :: "join_sys \<Rightarrow> join_sys \<Rightarrow> bool" where
  wait_block: "jw s = None \<Longrightarrow> jout s = None \<Longrightarrow> 4 < cf \<Longrightarrow> flag_wait_begin cf (flag (jj s)) = (True, st) \<Longrightarrow>
     join_step s (s\<lparr>jj := (jj s)\<lparr>flag := st\<rparr>, jw := Some cf, jwoken := 0\<rparr>)"
| wait_direct: "jw s = None \<Longrightarrow> jout s = None \<Longrightarrow> flag_wait_begin cf (flag (jj s)) = (False, st) \<Longrightarrow>
     joinable_wait_end (jj s) = Some r \<Longrightarrow> join_step s (s\<lparr>jout := Some r\<rparr>)"
| wait_end: "jw s = Some cf \<Longrightarrow> 0 < jwoken s \<Longrightarrow> joinable_wait_end (jj s) = Some r \<Longrightarrow>
     join_step s (s\<lparr>jw := None, jout := Some r\<rparr>)"
| post: "jv s = None \<Longrightarrow> joinable_post v (jj s) = Some (r, f, j) \<Longrightarrow>
     join_step s (s\<lparr>jj := j, jwoken := jwoken s + woken_by f, jv := Some v\<rparr>)"
| detach: "\<not> jd s \<Longrightarrow> jv s = None \<Longrightarrow> flag_detach (flag (jj s)) = Some (f, st) \<Longrightarrow>
     join_step s (s\<lparr>jj := (jj s)\<lparr>flag := st\<rparr>, jwoken := jwoken s + woken_by f, jd := True\<rparr>)"

inductive join_reach :: "addr \<Rightarrow> join_sys \<Rightarrow> bool" for r where
  start: "join_reach r (join_init r)"
| step: "join_reach r s \<Longrightarrow> join_step s s' \<Longrightarrow> join_reach r s'"

definition join_inv :: "join_sys \<Rightarrow> bool" where
  "join_inv s \<longleftrightarrow>
     flag (jj s) = (if jd s then FlagDetached else if jv s \<noteq> None then FlagPosted
                    else case jw s of None \<Rightarrow> FlagRunning | Some f \<Rightarrow> f)
     \<and> (\<forall>f. jw s = Some f \<longrightarrow> 4 < f \<and> jwoken s = (if jd s \<or> jv s \<noteq> None then 1 else 0))
     \<and> (\<forall>v. \<not> jd s \<longrightarrow> jv s = Some v \<longrightarrow> payload (jj s) = v)
     \<and> (jout s \<noteq> None \<longrightarrow> jw s = None \<and> jout s = (if jd s then Some (False, 0) else map_option (Pair True) (jv s)))"

lemma flag_wait_begin_eq:
  "flag_wait_begin cf st = (True, st') \<longleftrightarrow> st = FlagRunning \<and> st' = cf"
  "flag_wait_begin cf st = (False, st') \<longleftrightarrow> st \<noteq> FlagRunning \<and> st' = st"
  by (auto simp: flag_wait_begin_def)

lemma flag_states_distinct [simp]:
  "FlagPosted \<noteq> FlagDetached" "FlagDetached \<noteq> FlagPosted" "FlagRunning \<noteq> FlagPosted" "FlagRunning \<noteq> FlagDetached"
  "FlagPosted \<noteq> FlagRunning" "FlagDetached \<noteq> FlagRunning"
  by (simp_all add: flag_state_defs)

lemma joinable_wait_end_eq:
  "joinable_wait_end j = Some r \<longleftrightarrow>
     flag j = FlagPosted \<and> r = (True, payload j) \<or> flag j = FlagDetached \<and> r = (False, 0)"
  by (auto simp: joinable_wait_end_def flag_check_def)

lemma flag_resume_states [simp]: "flag_resume FlagRunning = None" "4 < f \<Longrightarrow> flag_resume f = Some f"
  by (simp_all add: flag_resume_def flag_state_defs)

lemma joinable_post_eq:
  "joinable_post v j = Some (r, f, j') \<longleftrightarrow>
     flag j = FlagDetached \<and> \<not> r \<and> f = None \<and> j' = j \<or>
     flag j \<noteq> FlagDetached \<and> flag j \<noteq> FlagPosted \<and> r \<and> f = flag_resume (flag j) \<and> j' = j\<lparr>flag := FlagPosted, payload := v\<rparr>"
  by (auto simp: joinable_post_def flag_post_def)

lemma flag_detach_eq:
  "flag_detach st = Some (f, st') \<longleftrightarrow>
     st \<noteq> FlagDetached \<and> st \<noteq> FlagPosted \<and> f = flag_resume st \<and> st' = FlagDetached"
  by (auto simp: flag_detach_def)

lemma waiter_not_state: "4 < f \<Longrightarrow> f \<noteq> FlagDetached \<and> f \<noteq> FlagPosted \<and> f \<noteq> FlagRunning"
  by (simp add: flag_state_defs)

lemmas join_simps = join_inv_def flag_wait_begin_eq joinable_wait_end_eq joinable_post_eq flag_detach_eq
  woken_by_def waiter_not_state

lemma join_step_inv: "join_step s s' \<Longrightarrow> join_inv s \<Longrightarrow> join_inv s'"
proof (induction rule: join_step.induct)
  case (wait_block s cf st)
  then show ?case by (cases "jd s"; cases "jv s") (simp_all add: join_simps)
next
  case (wait_direct s cf st r)
  then show ?case by (cases "jd s"; cases "jv s") (simp_all add: join_simps)
next
  case (wait_end s cf r)
  then show ?case by (cases "jd s"; cases "jv s") (auto simp add: join_simps)
next
  case (post s v r f j)
  then show ?case by (cases "jd s"; cases "jw s"; cases "jout s") (auto simp: join_simps)
next
  case (detach s f st)
  then show ?case by (cases "jw s"; cases "jout s") (auto simp: join_simps)
qed

lemma join_reach_inv: "join_reach r s \<Longrightarrow> join_inv s"
proof (induction rule: join_reach.induct)
  case start
  show ?case by (simp add: join_init_def join_inv_def new_joinable_def)
qed (rule join_step_inv)

lemma join_inv_wait:
  assumes "join_inv s" and "jd s \<or> jv s \<noteq> None"
  shows "joinable_wait_end (jj s) = (if jd s then Some (False, 0) else map_option (Pair True) (jv s))"
  using assms by (cases "jd s"; cases "jv s") (simp_all add: join_simps)

lemma join_inv_post:
  assumes "join_inv s" and "jv s = None"
  shows "\<exists>f j. joinable_post v (jj s) = Some (\<not> jd s, f, j)" and "\<not> jd s \<Longrightarrow> flag_detach (flag (jj s)) \<noteq> None"
proof -
  show "\<exists>f j. joinable_post v (jj s) = Some (\<not> jd s, f, j)"
    using assms by (cases "jd s"; cases "jw s") (simp_all add: join_simps)
  show "flag_detach (flag (jj s)) \<noteq> None" if "\<not> jd s"
    using assms that by (cases "jw s") (simp_all add: join_inv_def flag_detach_def waiter_not_state)
qed

text \<open>C22: Joining: a waiting fred is resumed exactly once, by the post or by the detach, and it is
  not resumed before; \<open>wait\<close> returns true with exactly the posted value, or false with 0 if the runner was
  detached; a post after a detach returns false; and as long as there is one waiter and one post, no
  assertion fails.\<close>

theorem joinable_protocol:
  assumes "join_reach r s"
  shows "(\<forall>f. jw s = Some f \<longrightarrow> jwoken s = (if jd s \<or> jv s \<noteq> None then 1 else 0))
    \<and> (jout s \<noteq> None \<longrightarrow> jout s = (if jd s then Some (False, 0) else map_option (Pair True) (jv s)))
    \<and> (jv s = None \<longrightarrow> (\<exists>f j. joinable_post v (jj s) = Some (\<not> jd s, f, j)))
    \<and> (jv s = None \<and> \<not> jd s \<longrightarrow> flag_detach (flag (jj s)) \<noteq> None)
    \<and> (jd s \<or> jv s \<noteq> None \<longrightarrow>
        joinable_wait_end (jj s) = (if jd s then Some (False, 0) else map_option (Pair True) (jv s)))"
proof (intro conjI)
  have inv: "join_inv s" by (rule join_reach_inv [OF assms])
  then show "\<forall>f. jw s = Some f \<longrightarrow> jwoken s = (if jd s \<or> jv s \<noteq> None then 1 else 0)"
    and "jout s \<noteq> None \<longrightarrow> jout s = (if jd s then Some (False, 0) else map_option (Pair True) (jv s))"
    unfolding join_inv_def by blast+
  show "jv s = None \<longrightarrow> (\<exists>f j. joinable_post v (jj s) = Some (\<not> jd s, f, j))"
    and "jv s = None \<and> \<not> jd s \<longrightarrow> flag_detach (flag (jj s)) \<noteq> None"
    using join_inv_post [OF inv] by blast+
  show "jd s \<or> jv s \<noteq> None \<longrightarrow>
      joinable_wait_end (jj s) = (if jd s then Some (False, 0) else map_option (Pair True) (jv s))"
    using join_inv_wait [OF inv] by blast
qed

definition join_example :: join_sys where
  "join_example = \<lparr>jj = \<lparr>flag = 2, payload = 77\<rparr>, jw = Some 64, jwoken = 1, jv = Some 77, jd = False, jout = None\<rparr>"

lemma join_example_reach: "join_reach 32 join_example"
proof -
  have 1: "join_reach 32 ((join_init 32)\<lparr>jj := \<lparr>flag = 64, payload = 32\<rparr>, jw := Some 64, jwoken := 0\<rparr>)"
    using join_reach.step [OF join_reach.start join_step.wait_block [where cf = 64 and st = 64], of 32]
    by (simp add: join_init_def new_joinable_def flag_wait_begin_def flag_state_defs)
  have "joinable_post 77 \<lparr>flag = 64, payload = 32\<rparr> = Some (True, Some 64, \<lparr>flag = 2, payload = 77\<rparr>)"
    by (simp add: joinable_post_def flag_post_def flag_resume_def flag_state_defs)
  with join_reach.step [OF 1 join_step.post [where v = 77 and f = "Some 64" and j = "\<lparr>flag = 2, payload = 77\<rparr>" and r = True]]
  show ?thesis by (simp add: join_init_def join_example_def woken_by_def)
qed

theorem joinable_protocol_witness:
  "jwoken join_example = 1 \<and> joinable_wait_end (jj join_example) = Some (True, 77)"
  using joinable_protocol [OF join_example_reach, of 0] by (simp add: join_example_def)

end
