(* ===== verification/Timer_Queue.thy ===== *)
theory Timer_Queue
  imports Locked_Sync
begin

text \<open>
  \<^verbatim>\<open>TimerQueue\<close> and \<^verbatim>\<open>sleepFred\<close> of \<^verbatim>\<open>src/src/runtime/BlockingSync.h\<close>.
  The \<^verbatim>\<open>std::multimap\<close> is the list of its entries in iteration order; a node lives on the stack
  of the fred that waits, so the fred identifies it. The one hardware timeout that
  \<^verbatim>\<open>Runtime::Timer::newTimeout\<close> programs is the field \<open>hw\<close> of the step relation.
\<close>

section \<open>State and operations\<close>

record timerq =
  tq_addr :: addr                    \<comment> \<open>\<open>&queue\<close>, the tag with which the timer wins a race\<close>
  tq_queue :: "(time \<times> fid) list"
  tq_expired :: "fid \<Rightarrow> bool"         \<comment> \<open>\<open>Node::expired\<close>\<close>

definition new_timerq :: "addr \<Rightarrow> timerq" where
  "new_timerq a = \<lparr>tq_addr = a, tq_queue = [], tq_expired = (\<lambda>_. False)\<rparr>"

definition tq_empty :: "timerq \<Rightarrow> bool" where
  "tq_empty q \<longleftrightarrow> tq_queue q = []"

text \<open>\<^verbatim>\<open>multimap::insert\<close>: after all entries with an equal key.\<close>

fun multimap_insert :: "time \<Rightarrow> fid \<Rightarrow> (time \<times> fid) list \<Rightarrow> (time \<times> fid) list" where
  "multimap_insert t f [] = [(t, f)]"
| "multimap_insert t f ((u, g) # q) =
     (if t < u then (t, f) # (u, g) # q else (u, g) # multimap_insert t f q)"

text \<open>\<^verbatim>\<open>enqueue\<close>: the second result is the call of \<^verbatim>\<open>newTimeout\<close>, if any.\<close>

definition tq_enqueue :: "fid \<Rightarrow> time \<Rightarrow> timerq \<Rightarrow> timerq \<times> time option" where
  "tq_enqueue f absTimeout q =
     (let es = multimap_insert absTimeout f (tq_queue q)
      in (q\<lparr>tq_queue := es, tq_expired := (tq_expired q)(f := False)\<rparr>,
          if fst (es ! 0) = absTimeout \<and> snd (es ! 0) = f then Some absTimeout else None))"

text \<open>The loop of \<^verbatim>\<open>checkExpiry\<close>: freds resumed, remaining entries, freds, expired flags,
  and the call of \<^verbatim>\<open>newTimeout\<close>.\<close>

fun tq_expire :: "addr \<Rightarrow> time \<Rightarrow> (time \<times> fid) list \<Rightarrow> freds \<Rightarrow> (fid \<Rightarrow> bool) \<Rightarrow>
    fid list \<times> (time \<times> fid) list \<times> freds \<times> (fid \<Rightarrow> bool) \<times> time option" where
  "tq_expire a now [] F ex = ([], [], F, ex, None)"
| "tq_expire a now ((t, f) # q) F ex =
     (if t > now then ([], (t, f) # q, F, ex, Some t)
      else let (won, f') = raceResume a (F f)
           in if won then let (rs, r) = tq_expire a now q (F(f := f')) ex in (f # rs, r)
              else tq_expire a now q F (ex(f := True)))"

definition checkExpiry :: "time \<Rightarrow> timerq \<Rightarrow> freds \<Rightarrow> fid list \<times> timerq \<times> freds \<times> time option" where
  "checkExpiry now q F =
     (let (rs, es, F', ex, arm) = tq_expire (tq_addr q) now (tq_queue q) F (tq_expired q)
      in (rs, q\<lparr>tq_queue := es, tq_expired := ex\<rparr>, F', arm))"

definition tq_erase :: "fid \<Rightarrow> timerq \<Rightarrow> timerq" where
  "tq_erase f q = (if tq_expired q f then q else q\<lparr>tq_queue := filter (\<lambda>e. snd e \<noteq> f) (tq_queue q)\<rparr>)"

definition didExpireAfterLosingRace :: "fid \<Rightarrow> timerq \<Rightarrow> bool" where
  "didExpireAfterLosingRace f q = tq_expired q f"

text \<open>\<^verbatim>\<open>blockTimeout\<close> after the suspension: the winner, 0 for the timer.\<close>

definition blockTimeout_end :: "fid \<Rightarrow> timerq \<Rightarrow> freds \<Rightarrow> addr \<times> timerq" where
  "blockTimeout_end cf q F =
     (let winner = resumeInfo (F cf) in if winner = tq_addr q then (0, q) else (winner, tq_erase cf q))"

text \<open>\<^verbatim>\<open>sleepFred\<close> up to the suspension, and its result.\<close>

definition sleepFred_begin :: "time \<Rightarrow> time \<Rightarrow> fid \<Rightarrow> timerq \<Rightarrow> freds \<Rightarrow> (timerq \<times> time option \<times> freds) option" where
  "sleepFred_begin now timeout cf q F =
     do { f \<leftarrow> prepareResumeRace (F cf);
          let (q', arm) = tq_enqueue cf (time_add now timeout) q in Some (q', arm, F(cf := f)) }"

definition sleepFred_end :: "fid \<Rightarrow> timerq \<Rightarrow> freds \<Rightarrow> bool \<times> timerq" where
  "sleepFred_end cf q F = (let (w, q') = blockTimeout_end cf q F in (w = 0, q'))"

section \<open>The multimap and the expiry loop\<close>

lemma set_multimap_insert [simp]: "set (multimap_insert t f q) = insert (t, f) (set q)"
  by (induction q) (auto split: if_splits)

lemma distinct_multimap_insert:
  "distinct (map snd (multimap_insert t f q)) \<longleftrightarrow> f \<notin> snd ` set q \<and> distinct (map snd q)"
proof (induction q)
  case (Cons e q)
  then show ?case by (cases e) (auto simp: image_iff)
qed simp

lemma sorted_multimap_insert: "sorted (map fst q) \<Longrightarrow> sorted (map fst (multimap_insert t f q))"
proof (induction q)
  case (Cons e q)
  then show ?case by (cases e) (fastforce simp: less_imp_le)
qed simp

lemma hd_multimap_insert:
  assumes "sorted (map fst q)" and "f \<notin> snd ` set q"
  shows "fst (multimap_insert t f q ! 0) = (if q = [] then t else min t (fst (hd q)))"
    and "snd (multimap_insert t f q ! 0) = f \<longleftrightarrow> q = [] \<or> t < fst (hd q)"
  using assms by (cases q; force)+

lemma sorted_filter_le:
  assumes "sorted (map fst ((t, f) # q))" and "now < t"
  shows "filter (\<lambda>e. fst e \<le> now) ((t, f) # q) = []" and "filter (\<lambda>e. now < fst e) ((t, f) # q) = (t, f) # q"
  using assms by (auto simp: filter_empty_conv filter_id_conv dest: less_le_trans)

definition tq_due :: "time \<Rightarrow> (time \<times> fid) list \<Rightarrow> fid list" where
  "tq_due now q = map snd (filter (\<lambda>e. fst e \<le> now) q)"

definition tq_open :: "freds \<Rightarrow> fid list \<Rightarrow> fid list" where
  "tq_open F = filter (\<lambda>f. resumeInfo (F f) = 0)"

definition tq_won :: "addr \<Rightarrow> freds \<Rightarrow> fid list \<Rightarrow> freds" where
  "tq_won a F due f = (if f \<in> set due \<and> resumeInfo (F f) = 0 then (F f)\<lparr>resumeInfo := a\<rparr> else F f)"

definition tq_lost :: "freds \<Rightarrow> (fid \<Rightarrow> bool) \<Rightarrow> fid list \<Rightarrow> fid \<Rightarrow> bool" where
  "tq_lost F ex due f \<longleftrightarrow> ex f \<or> f \<in> set due \<and> resumeInfo (F f) \<noteq> 0"

definition tq_rest :: "time \<Rightarrow> (time \<times> fid) list \<Rightarrow> (time \<times> fid) list" where
  "tq_rest now q = filter (\<lambda>e. now < fst e) q"

lemma tq_due_rest_passed:
  assumes "\<not> now < t"
  shows "tq_due now ((t, f) # q) = f # tq_due now q" and "tq_rest now ((t, f) # q) = tq_rest now q"
  using assms by (simp_all add: tq_due_def tq_rest_def not_less)

lemma tq_due_rest_future:
  assumes "sorted (map fst ((t, f) # q))" and "now < t"
  shows "tq_due now ((t, f) # q) = []" and "tq_rest now ((t, f) # q) = (t, f) # q"
  using sorted_filter_le [OF assms] by (simp_all add: tq_due_def tq_rest_def)

lemma tq_due_notin: "f \<notin> snd ` set q \<Longrightarrow> f \<notin> set (tq_due now q)"
  by (auto simp: tq_due_def)

lemma tq_open_upd: "f \<notin> set fs \<Longrightarrow> tq_open (F(f := x)) fs = tq_open F fs"
  by (auto simp: tq_open_def intro!: filter_cong)

lemma tq_won_Cons:
  "f \<notin> set fs \<Longrightarrow> resumeInfo (F f) = 0 \<Longrightarrow> tq_won a (F(f := (F f)\<lparr>resumeInfo := a\<rparr>)) fs = tq_won a F (f # fs)"
  "resumeInfo (F f) \<noteq> 0 \<Longrightarrow> tq_won a F fs = tq_won a F (f # fs)"
  by (auto simp: tq_won_def fun_eq_iff)

lemma tq_lost_Cons:
  "f \<notin> set fs \<Longrightarrow> resumeInfo (F f) = 0 \<Longrightarrow> tq_lost (F(f := x)) ex fs = tq_lost F ex (f # fs)"
  "resumeInfo (F f) \<noteq> 0 \<Longrightarrow> tq_lost F (ex(f := True)) fs = tq_lost F ex (f # fs)"
  by (auto simp: tq_lost_def fun_eq_iff)

text \<open>What one run of \<^verbatim>\<open>checkExpiry\<close> does to the entries whose deadline has passed.\<close>

lemma tq_expire_eq:
  assumes "sorted (map fst q)" and "distinct (map snd q)"
  shows "tq_expire a now q F ex =
     (tq_open F (tq_due now q), tq_rest now q, tq_won a F (tq_due now q), tq_lost F ex (tq_due now q),
      if tq_rest now q = [] then None else Some (fst (hd (tq_rest now q))))"
  using assms
proof (induction q arbitrary: F ex)
  case Nil
  show ?case by (simp add: tq_due_def tq_rest_def tq_open_def tq_won_def tq_lost_def fun_eq_iff)
next
  case (Cons e q)
  obtain t f where e: "e = (t, f)" by fastforce
  have f: "f \<notin> snd ` set q" and prems: "sorted (map fst q)" "distinct (map snd q)"
    using Cons.prems by (simp_all add: e)
  note f' = tq_due_notin [OF f, of now]
  consider (future) "now < t" | (won) "\<not> now < t" "resumeInfo (F f) = 0"
    | (lost) "\<not> now < t" "resumeInfo (F f) \<noteq> 0" by blast
  then show ?case
  proof cases
    case future
    with tq_due_rest_future [OF _ future, of f q] Cons.prems show ?thesis
      by (simp add: e tq_open_def tq_won_def tq_lost_def fun_eq_iff)
  next
    case won
    define F1 where "F1 = F(f := (F f)\<lparr>resumeInfo := a\<rparr>)"
    have "tq_expire a now (e # q) F ex = (let (rs, r) = tq_expire a now q F1 ex in (f # rs, r))"
      using won by (simp add: e raceResume_def F1_def)
    also have "\<dots> = (f # tq_open F (tq_due now q), tq_rest now q, tq_won a F (f # tq_due now q),
        tq_lost F ex (f # tq_due now q),
        if tq_rest now q = [] then None else Some (fst (hd (tq_rest now q))))"
      using Cons.IH [OF prems, of F1 ex] tq_won_Cons(1) [of f _ F a, OF f' won(2), folded F1_def]
        tq_lost_Cons(1) [of f _ F "(F f)\<lparr>resumeInfo := a\<rparr>", OF f' won(2), folded F1_def]
        tq_open_upd [OF f', of F "(F f)\<lparr>resumeInfo := a\<rparr>", folded F1_def] by simp
    finally show ?thesis
      using won by (simp add: e tq_due_rest_passed tq_open_def)
  next
    case lost
    define ex1 where "ex1 = ex(f := True)"
    have "tq_expire a now (e # q) F ex = tq_expire a now q F ex1"
      using lost by (simp add: e raceResume_def ex1_def)
    also have "\<dots> = (tq_open F (tq_due now q), tq_rest now q, tq_won a F (f # tq_due now q),
        tq_lost F ex (f # tq_due now q),
        if tq_rest now q = [] then None else Some (fst (hd (tq_rest now q))))"
      unfolding Cons.IH [OF prems] tq_won_Cons(2) [of F f a "tq_due now q", OF lost(2), symmetric]
        tq_lost_Cons(2) [of F f ex, OF lost(2), symmetric] by (simp add: ex1_def)
    finally show ?thesis
      using lost by (simp add: e tq_due_rest_passed tq_open_def)
  qed
qed

lemmas tq_view_defs = tq_due_def tq_rest_def tq_open_def tq_won_def tq_lost_def

text \<open>C18: \<^verbatim>\<open>TimerQueue::checkExpiry\<close> removes exactly the entries whose deadline has passed,
  resumes in deadline order those whose race nobody else has won, marks the others expired, and
  programs the next timeout for the earliest remaining deadline exactly if there is one.\<close>

theorem checkExpiry_correct:
  assumes "sorted (map fst (tq_queue q))" and "distinct (map snd (tq_queue q))"
  shows "\<exists>q' F'. checkExpiry now q F =
       (filter (\<lambda>f. resumeInfo (F f) = 0) (map snd (filter (\<lambda>e. fst e \<le> now) (tq_queue q))), q', F',
        if tq_queue q' = [] then None else Some (fst (hd (tq_queue q'))))
     \<and> tq_queue q' = filter (\<lambda>e. now < fst e) (tq_queue q)
     \<and> (\<forall>f. tq_expired q' f \<longleftrightarrow> tq_expired q f \<or> resumeInfo (F f) \<noteq> 0 \<and> (\<exists>t\<le>now. (t, f) \<in> set (tq_queue q)))
     \<and> (\<forall>t f. (t, f) \<in> set (tq_queue q) \<and> t \<le> now \<and> resumeInfo (F f) = 0 \<longrightarrow> resumeInfo (F' f) = tq_addr q)"
  using tq_expire_eq [OF assms, of "tq_addr q" now F "tq_expired q"]
  by (force simp: checkExpiry_def tq_view_defs image_iff)

theorem checkExpiry_correct_witness:
  "fst (checkExpiry (Time 5 0)
     \<lparr>tq_addr = 9, tq_queue = [(Time 1 0, 3), (Time 5 0, 4), (Time 7 0, 2)], tq_expired = (\<lambda>_. False)\<rparr>
     (\<lambda>f. new_fred False (if f = 4 then 8 else 0) 0)) = [3]"
  using checkExpiry_correct [of "\<lparr>tq_addr = 9, tq_queue = [(Time 1 0, 3), (Time 5 0, 4), (Time 7 0, 2)],
      tq_expired = (\<lambda>_. False)\<rparr>" "Time 5 0" "\<lambda>f. new_fred False (if f = 4 then 8 else 0) 0"]
  by (auto simp: new_fred_def less_eq_time_def time_le_def)

section \<open>No timeout is missed and no node is left behind\<close>

text \<open>\<open>hw\<close> is the programmed hardware timeout; when it fires, an expiry check is \<open>pending\<close> until
  the master poller has run \<^verbatim>\<open>checkExpiry\<close>. \<open>tin\<close> is the set of freds inside
  \<^verbatim>\<open>blockTimeout\<close>, whose stack frames hold the nodes.\<close>

record timer_sys =
  tm :: timerq
  tF :: freds
  tin :: "fid set"
  hw :: "time option"
  pending :: bool

definition rearm :: "time option \<Rightarrow> time option \<Rightarrow> time option" where
  "rearm new old = (case new of None \<Rightarrow> old | Some t \<Rightarrow> Some t)"

inductive timer_step :: "timer_sys \<Rightarrow> timer_sys \<Rightarrow> bool" where
  sleep: "cf \<notin> tin s \<Longrightarrow> sleepFred_begin now timeout cf (tm s) (tF s) = Some (q, arm, F) \<Longrightarrow>
     timer_step s (s\<lparr>tm := q, tF := F, tin := insert cf (tin s), hw := rearm arm (hw s)\<rparr>)"
| cancel: "a \<noteq> 0 \<Longrightarrow> a \<noteq> tq_addr (tm s) \<Longrightarrow> timer_step s (s\<lparr>tF := race_won a f (tF s)\<rparr>)"
| fire: "hw s = Some t \<Longrightarrow> timer_step s (s\<lparr>hw := None, pending := True\<rparr>)"
| check: "pending s \<Longrightarrow> checkExpiry now (tm s) (tF s) = (rs, q, F, arm) \<Longrightarrow>
     timer_step s (s\<lparr>tm := q, tF := F, hw := rearm arm (hw s), pending := False\<rparr>)"
| wake: "cf \<in> tin s \<Longrightarrow> resumeInfo (tF s cf) \<noteq> 0 \<Longrightarrow> sleepFred_end cf (tm s) (tF s) = (r, q) \<Longrightarrow>
     timer_step s (s\<lparr>tm := q, tin := tin s - {cf}\<rparr>)"

inductive timer_reach :: "addr \<Rightarrow> freds \<Rightarrow> timer_sys \<Rightarrow> bool" for a F0 where
  start: "timer_reach a F0 \<lparr>tm = new_timerq a, tF = F0, tin = {}, hw = None, pending = False\<rparr>"
| step: "timer_reach a F0 s \<Longrightarrow> timer_step s s' \<Longrightarrow> timer_reach a F0 s'"

definition tq_wf :: "timerq \<Rightarrow> freds \<Rightarrow> fid set \<Rightarrow> bool" where
  "tq_wf q F B \<longleftrightarrow> tq_addr q \<noteq> 0 \<and> sorted (map fst (tq_queue q)) \<and> distinct (map snd (tq_queue q))
     \<and> snd ` set (tq_queue q) \<subseteq> B
     \<and> (\<forall>f\<in>B. (f \<in> snd ` set (tq_queue q) \<longleftrightarrow> \<not> tq_expired q f \<and> resumeInfo (F f) \<noteq> tq_addr q)
            \<and> (tq_expired q f \<longrightarrow> resumeInfo (F f) \<noteq> 0 \<and> resumeInfo (F f) \<noteq> tq_addr q))"

definition timer_inv :: "timer_sys \<Rightarrow> bool" where
  "timer_inv s \<longleftrightarrow> tq_wf (tm s) (tF s) (tin s)
     \<and> (tq_queue (tm s) \<noteq> [] \<longrightarrow> pending s \<or> (\<exists>h. hw s = Some h \<and> h \<le> fst (hd (tq_queue (tm s)))))"

lemma tq_enqueue_wf:
  assumes "tq_wf q F B" and "cf \<notin> B" and "tq_enqueue cf t q = (q', arm)"
  shows "tq_wf q' (F(cf := (F cf)\<lparr>resumeInfo := 0\<rparr>)) (insert cf B)" and "tq_queue q' \<noteq> []"
    and "arm = (if tq_queue q = [] \<or> t < fst (hd (tq_queue q)) then Some t else None)"
    and "fst (hd (tq_queue q')) = (if tq_queue q = [] then t else min t (fst (hd (tq_queue q))))"
proof -
  have q: "sorted (map fst (tq_queue q))" "cf \<notin> snd ` set (tq_queue q)"
    using assms(1,2) by (auto simp: tq_wf_def)
  have eq: "q' = q\<lparr>tq_queue := multimap_insert t cf (tq_queue q), tq_expired := (tq_expired q)(cf := False)\<rparr>"
    using assms(3) by (auto simp: tq_enqueue_def Let_def)
  show "tq_queue q' \<noteq> []" by (cases "tq_queue q") (auto simp: eq split: prod.splits if_splits)
  then have "hd (tq_queue q') = multimap_insert t cf (tq_queue q) ! 0" by (simp add: eq hd_conv_nth)
  with hd_multimap_insert [OF q]
  show "fst (hd (tq_queue q')) = (if tq_queue q = [] then t else min t (fst (hd (tq_queue q))))" by metis
  show "arm = (if tq_queue q = [] \<or> t < fst (hd (tq_queue q)) then Some t else None)"
    using assms(3) hd_multimap_insert [OF q, of t] by (auto simp: tq_enqueue_def Let_def)
  show "tq_wf q' (F(cf := (F cf)\<lparr>resumeInfo := 0\<rparr>)) (insert cf B)"
    using assms(1,2) q by (auto simp: tq_wf_def eq sorted_multimap_insert distinct_multimap_insert)
qed

lemma checkExpiry_eq:
  assumes "tq_wf q F B" and "checkExpiry now q F = (rs, q', F', arm)"
  shows "q' = q\<lparr>tq_queue := tq_rest now (tq_queue q), tq_expired := tq_lost F (tq_expired q) (tq_due now (tq_queue q))\<rparr>"
    and "F' = tq_won (tq_addr q) F (tq_due now (tq_queue q))"
    and "arm = (if tq_queue q' = [] then None else Some (fst (hd (tq_queue q'))))"
  using assms tq_expire_eq [of "tq_queue q" "tq_addr q" now F "tq_expired q"]
  by (auto simp: checkExpiry_def tq_wf_def)

lemma checkExpiry_wf:
  assumes "tq_wf q F B" and "checkExpiry now q F = (rs, q', F', arm)"
  shows "tq_wf q' F' B"
proof -
  note eq = checkExpiry_eq(1,2) [OF assms]
  have part: "snd ` set (tq_rest now (tq_queue q)) = snd ` set (tq_queue q) - set (tq_due now (tq_queue q))"
    using assms(1) by (auto simp: tq_rest_def tq_due_def tq_wf_def distinct_map inj_on_def image_iff) (metis fst_conv not_less snd_conv)+
  have due: "set (tq_due now (tq_queue q)) \<subseteq> snd ` set (tq_queue q)"
    by (auto simp: tq_due_def)
  have "sorted (map fst (tq_rest now (tq_queue q)))" "distinct (map snd (tq_rest now (tq_queue q)))"
    using assms(1) by (auto simp: tq_wf_def tq_rest_def sorted_filter distinct_map_filter)
  with assms(1) part due show ?thesis
    by (auto simp: tq_wf_def eq tq_won_def tq_lost_def split: if_splits)
qed

lemma sleepFred_end_wf:
  assumes "tq_wf q F B" and "cf \<in> B" and "resumeInfo (F cf) \<noteq> 0" and "sleepFred_end cf q F = (r, q')"
  shows "tq_wf q' F (B - {cf})" and "cf \<notin> snd ` set (tq_queue q')" and "r \<longleftrightarrow> resumeInfo (F cf) = tq_addr q"
    and "tq_queue q' = filter (\<lambda>e. snd e \<noteq> cf) (tq_queue q)"
proof -
  show q': "tq_queue q' = filter (\<lambda>e. snd e \<noteq> cf) (tq_queue q)"
  proof (cases "tq_expired q cf \<or> resumeInfo (F cf) = tq_addr q")
    case True
    then have "cf \<notin> snd ` set (tq_queue q)" and "q' = q"
      using assms by (auto simp: tq_wf_def sleepFred_end_def blockTimeout_end_def tq_erase_def Let_def split: if_splits)
    then show ?thesis by (force intro!: filter_True [symmetric])
  next
    case False
    then show ?thesis
      using assms(4) by (auto simp: sleepFred_end_def blockTimeout_end_def tq_erase_def Let_def)
  qed
  moreover have "tq_addr q' = tq_addr q" "tq_expired q' = tq_expired q"
    using assms(4) by (auto simp: sleepFred_end_def blockTimeout_end_def tq_erase_def Let_def split: if_splits)
  ultimately show "tq_wf q' F (B - {cf})"
    using assms(1) by (auto simp: tq_wf_def sorted_filter distinct_map_filter)
  show "cf \<notin> snd ` set (tq_queue q')" by (auto simp: q')
  show "r \<longleftrightarrow> resumeInfo (F cf) = tq_addr q"
    using assms(3,4) by (auto simp: sleepFred_end_def blockTimeout_end_def Let_def split: if_splits)
qed

lemma hd_filter_le:
  assumes "sorted (map fst q)" and "filter P q \<noteq> []"
  shows "fst (hd q) \<le> (fst (hd (filter P q)) :: time)"
proof -
  have "hd (filter P q) \<in> set q" using assms(2) hd_in_set [of "filter P q"] by auto
  with assms(1) show ?thesis by (cases q) auto
qed

lemma timer_step_inv: "timer_step s s' \<Longrightarrow> timer_inv s \<Longrightarrow> timer_inv s'"
proof (induction rule: timer_step.induct)
  case (sleep cf s now timeout q arm F)
  then have e: "tq_enqueue cf (time_add now timeout) (tm s) = (q, arm)" and
    F: "F = (tF s)(cf := (tF s cf)\<lparr>resumeInfo := 0\<rparr>)"
    by (auto simp: sleepFred_begin_def bind_eq_Some_conv prepareResumeRace_Some split: prod.splits)
  have wf: "tq_wf (tm s) (tF s) (tin s)" using sleep by (simp add: timer_inv_def)
  from tq_enqueue_wf [OF wf sleep(1) e] sleep(3) show ?case
    by (auto simp: timer_inv_def F rearm_def min_def)
next
  case (cancel a s f)
  then show ?case by (auto simp: timer_inv_def tq_wf_def race_won_def raceResume_def)
next
  case (fire s t)
  then show ?case by (simp add: timer_inv_def)
next
  case (check s now rs q F arm)
  have wf: "tq_wf (tm s) (tF s) (tin s)" using check by (simp add: timer_inv_def)
  from checkExpiry_wf [OF wf check(2)] checkExpiry_eq(3) [OF wf check(2)] show ?case
    by (auto simp: timer_inv_def rearm_def)
next
  case (wake cf s r q)
  have wf: "tq_wf (tm s) (tF s) (tin s)" using wake by (simp add: timer_inv_def)
  note w = sleepFred_end_wf [OF wf wake(1-3)]
  have "tq_queue q \<noteq> [] \<Longrightarrow> tq_queue (tm s) \<noteq> [] \<and> fst (hd (tq_queue (tm s))) \<le> fst (hd (tq_queue q))"
    using hd_filter_le [of "tq_queue (tm s)"] wf w(4) by (auto simp: tq_wf_def)
  with w(1) wake(4) show ?case by (auto simp: timer_inv_def intro: order_trans)
qed

lemma timer_reach_inv: "timer_reach a F0 s \<Longrightarrow> a \<noteq> 0 \<Longrightarrow> timer_inv s"
proof (induction rule: timer_reach.induct)
  case start
  then show ?case by (simp add: timer_inv_def tq_wf_def new_timerq_def)
qed (auto intro: timer_step_inv)

text \<open>Sleeping freds: in every reachable state in which a fred waits with a deadline, either the
  hardware timer is programmed no later than the earliest deadline or an expiry check is about to run,
  so no timeout is missed, however sleeps, cancellations, expiries and wake-ups interleave. A call that
  returns reports true exactly if the timer won, and leaves no reference to its stack frame in the
  queue.\<close>

theorem timer_armed:
  assumes "timer_reach a F0 s" and "a \<noteq> 0"
  shows "(tq_queue (tm s) \<noteq> [] \<longrightarrow> pending s \<or> (\<exists>h. hw s = Some h \<and> h \<le> fst (hd (tq_queue (tm s)))))
    \<and> snd ` set (tq_queue (tm s)) \<subseteq> tin s
    \<and> (cf \<in> tin s \<and> resumeInfo (tF s cf) \<noteq> 0 \<longrightarrow>
        (case sleepFred_end cf (tm s) (tF s) of (r, q) \<Rightarrow>
           (r \<longleftrightarrow> resumeInfo (tF s cf) = tq_addr (tm s)) \<and> cf \<notin> snd ` set (tq_queue q)))"
proof -
  have inv: "timer_inv s" by (rule timer_reach_inv [OF assms])
  then have wf: "tq_wf (tm s) (tF s) (tin s)" by (simp add: timer_inv_def)
  have "cf \<in> tin s \<and> resumeInfo (tF s cf) \<noteq> 0 \<longrightarrow>
        (case sleepFred_end cf (tm s) (tF s) of (r, q) \<Rightarrow>
           (r \<longleftrightarrow> resumeInfo (tF s cf) = tq_addr (tm s)) \<and> cf \<notin> snd ` set (tq_queue q))"
    using sleepFred_end_wf(2,3) [OF wf] by (auto split: prod.splits)
  with inv wf show ?thesis by (simp add: timer_inv_def tq_wf_def)
qed

definition timer_example :: timer_sys where
  "timer_example =
     \<lparr>tm = \<lparr>tq_addr = 9, tq_queue = [(Time 5 0, 1)], tq_expired = (\<lambda>_. False)\<rparr>,
      tF = (\<lambda>f. new_fred False 0 0), tin = {1}, hw = Some (Time 5 0), pending = False\<rparr>"

lemma timer_example_reach: "timer_reach 9 (\<lambda>f. new_fred False 0 0) timer_example"
proof -
  let ?F = "\<lambda>f::fid. new_fred False 0 0"
  have "sleepFred_begin (Time 2 0) (Time 3 0) 1 (new_timerq 9) ?F
      = Some (tm timer_example, Some (Time 5 0), ?F)"
    by (simp add: sleepFred_begin_def tq_enqueue_def new_timerq_def timer_example_def prepareResumeRace_def
        new_fred_def time_add_def NSEC_def fun_eq_iff)
  with timer_reach.step [OF timer_reach.start timer_step.sleep [where cf = 1]]
  show ?thesis by (fastforce simp: timer_example_def rearm_def)
qed

theorem timer_armed_witness:
  "tq_queue (tm timer_example) = [(Time 5 0, 1)] \<and> (\<exists>h. hw timer_example = Some h \<and> h \<le> Time 5 0)"
  using timer_armed [OF timer_example_reach] by (simp add: timer_example_def)

end
