(* ===== verification/Container_Model.thy ===== *)
theory Container_Model
  imports Fred_Model
begin

text \<open>
  \<^verbatim>\<open>src/src/runtime/Container.h\<close> and \<^verbatim>\<open>ContainerLink.h\<close>: the intrusive stack, queue, ring
  and list. The links of the nodes are a heap of addresses; a container is its own pointers plus the
  heap. Following a null or sentinel pointer is a fault (\<open>None\<close>), like a failed assertion. The
  refinement lemmas relate each pointer operation to an operation on lists; the contract of a queue is the
  locale \<open>fifo\<close>, interpreted by the intrusive queue and by the intrusive list.
\<close>

section \<open>Links\<close>

type_synonym links = "addr \<Rightarrow> addr"

definition Sentinel :: addr where
  "Sentinel = 0xdeadbeef"

text \<open>Reading a link of the node at \<open>a\<close>.\<close>

definition deref :: "links \<Rightarrow> addr \<Rightarrow> addr option" where
  "deref h a = do { rassert (a \<noteq> 0 \<and> a \<noteq> Sentinel); Some (h a) }"

lemma Sentinel_nz [simp]: "Sentinel \<noteq> 0" "0 \<noteq> Sentinel" "0 < Sentinel"
  by (simp_all add: Sentinel_def)

text \<open>\<open>lseg h a xs b\<close>: following the links from \<open>a\<close> visits \<open>xs\<close> and then reaches \<open>b\<close>.\<close>

fun lseg :: "links \<Rightarrow> addr \<Rightarrow> addr list \<Rightarrow> addr \<Rightarrow> bool" where
  "lseg h a [] b \<longleftrightarrow> a = b"
| "lseg h a (x # xs) b \<longleftrightarrow> a = x \<and> lseg h (h x) xs b"

definition nodes_ok :: "addr list \<Rightarrow> bool" where
  "nodes_ok xs \<longleftrightarrow> distinct xs \<and> 0 \<notin> set xs \<and> Sentinel \<notin> set xs"

lemma lseg_append: "lseg h a (xs @ ys) b \<longleftrightarrow> (\<exists>c. lseg h a xs c \<and> lseg h c ys b)"
  by (induction xs arbitrary: a) auto

lemma lseg_upd: "x \<notin> set xs \<Longrightarrow> lseg (h(x := y)) a xs b = lseg h a xs b"
  by (induction xs arbitrary: a) auto

lemma lseg_start: "lseg h a (x # xs) b \<Longrightarrow> a = x"
  by simp

lemma lseg_snoc: "lseg h a (xs @ [x]) b \<longleftrightarrow> lseg h a xs x \<and> h x = b"
  by (auto simp: lseg_append)

lemma lseg_close:
  assumes "lseg h a (xs @ [x]) b" and "x \<notin> set xs"
  shows "lseg (h(x := c)) a (xs @ [x]) c"
  using assms by (auto simp: lseg_snoc lseg_upd)

section \<open>Stack\<close>

record stack =
  st_head :: addr
  st_link :: links

definition stack_empty :: "stack \<Rightarrow> bool" where
  "stack_empty s \<longleftrightarrow> st_head s = Sentinel"

definition stack_push :: "addr \<Rightarrow> addr \<Rightarrow> stack \<Rightarrow> stack option" where
  "stack_push first lst s =
     do { n \<leftarrow> deref (st_link s) lst; rassert (n = 0);
          Some (s\<lparr>st_link := (st_link s)(lst := st_head s), st_head := first\<rparr>) }"

definition stack_pop :: "stack \<Rightarrow> (addr \<times> stack) option" where
  "stack_pop s =
     (if stack_empty s then Some (0, s)
      else let lst = st_head s
           in do { n \<leftarrow> deref (st_link s) lst;
                   Some (lst, s\<lparr>st_head := n, st_link := (st_link s)(lst := 0)\<rparr>) })"

text \<open>\<^verbatim>\<open>pop(count)\<close>: the loop runs while \<open>i < count\<close> and sets \<open>count\<close> to stop.\<close>

function stack_walk :: "links \<Rightarrow> nat \<Rightarrow> nat \<Rightarrow> addr \<Rightarrow> (nat \<times> addr) option" where
  "stack_walk h i count lst =
     (if i < count
      then do { n \<leftarrow> deref h lst;
                if n = 0 then Some (i, lst) else stack_walk h (i + 1) count n }
      else Some (count, lst))"
  by pat_completeness auto
termination by (relation "measure (\<lambda>(h, i, count, lst). count - i)") auto

declare stack_walk.simps [simp del]

definition stack_pop_n :: "nat \<Rightarrow> stack \<Rightarrow> (addr \<times> nat \<times> stack) option" where
  "stack_pop_n count s =
     (if stack_empty s then Some (0, count, s)
      else do { (count', lst) \<leftarrow> stack_walk (st_link s) 1 count (st_head s);
                n \<leftarrow> deref (st_link s) lst;
                Some (lst, count', s\<lparr>st_head := n, st_link := (st_link s)(lst := 0)\<rparr>) })"

definition stack_rep :: "stack \<Rightarrow> addr list \<Rightarrow> bool" where
  "stack_rep s xs \<longleftrightarrow> lseg (st_link s) (st_head s) xs Sentinel \<and> nodes_ok xs"

lemma stack_push_rep:
  assumes "stack_rep s xs" and "x \<notin> set xs" and "x \<noteq> 0" and "x \<noteq> Sentinel" and "st_link s x = 0"
  shows "\<exists>s'. stack_push x x s = Some s' \<and> stack_rep s' (x # xs)"
  using assms by (auto simp: stack_push_def stack_rep_def nodes_ok_def deref_def lseg_upd)

lemma stack_pop_rep:
  assumes "stack_rep s (x # xs)"
  shows "\<exists>s'. stack_pop s = Some (x, s') \<and> stack_rep s' xs \<and> st_link s' x = 0"
  using assms by (auto simp: stack_pop_def stack_rep_def stack_empty_def nodes_ok_def deref_def lseg_upd)

lemma stack_walk_enough:
  assumes "lseg h x (x # xs) b" and "nodes_ok (x # xs)" and "count - i \<le> length xs"
  shows "stack_walk h i count x = Some (count, (x # xs) ! (count - i)) \<or> count < i"
  using assms
proof (induction xs arbitrary: x i)
  case Nil
  then show ?case by (auto simp: stack_walk.simps)
next
  case (Cons y ys)
  show ?case
  proof (cases "i < count")
    case True
    with Cons.prems have "h x = y" "y \<noteq> 0" by (auto simp: nodes_ok_def)
    moreover have "stack_walk h (Suc i) count y = Some (count, (y # ys) ! (count - Suc i)) \<or> count < Suc i"
      using Cons.prems True by (intro Cons.IH) (auto simp: nodes_ok_def)
    ultimately show ?thesis
      using True Cons.prems by (auto simp: stack_walk.simps [of h i] deref_def nodes_ok_def nth_Cons' Suc_diff_Suc)
  qed (auto simp: stack_walk.simps)
qed

lemma stack_walk_short:
  assumes "lseg h x (x # xs) Sentinel" and "nodes_ok (x # xs)" and "length xs < count - i"
  shows "stack_walk h i count x \<in> {None, Some (count, Sentinel)}"
  using assms
proof (induction xs arbitrary: x i)
  case Nil
  then have "stack_walk h i count x = stack_walk h (i + 1) count Sentinel"
    by (simp add: stack_walk.simps [of h i] deref_def nodes_ok_def)
  then show ?case using Nil by (cases "i + 1 < count") (auto simp: stack_walk.simps deref_def)
next
  case (Cons y ys)
  have "stack_walk h (Suc i) count y \<in> {None, Some (count, Sentinel)}"
    using Cons.prems by (intro Cons.IH) (auto simp: nodes_ok_def)
  with Cons.prems show ?case by (auto simp: stack_walk.simps [of h i] deref_def nodes_ok_def)
qed

lemma lseg_drop_take:
  assumes "lseg h a xs b" and "k < length xs"
  shows "lseg h a (take (Suc k) xs) (h (xs ! k))" and "lseg h (h (xs ! k)) (drop (Suc k) xs) b"
proof -
  have "lseg h a (take k xs @ xs ! k # drop (Suc k) xs) b"
    using assms by (simp flip: id_take_nth_drop)
  with assms(2) show "lseg h a (take (Suc k) xs) (h (xs ! k))" and "lseg h (h (xs ! k)) (drop (Suc k) xs) b"
    by (auto simp: lseg_append take_Suc_conv_app_nth)
qed

lemma nodes_ok_drop: "nodes_ok xs \<Longrightarrow> nodes_ok (drop n xs)"
  by (auto simp: nodes_ok_def dest: in_set_dropD)

lemma nth_notin_drop: "distinct xs \<Longrightarrow> k < length xs \<Longrightarrow> xs ! k \<notin> set (drop (Suc k) xs)"
  by (metis append_Cons distinct.simps(2) distinct_append id_take_nth_drop)

lemma stack_pop_n_enough:
  assumes "stack_rep s (x # xs)" and "1 \<le> count" and "count \<le> Suc (length xs)"
  shows "\<exists>s'. stack_pop_n count s = Some ((x # xs) ! (count - 1), count, s') \<and> stack_rep s' (drop count (x # xs))"
proof -
  let ?l = "x # xs" and ?y = "(x # xs) ! (count - 1)"
  have seg: "lseg (st_link s) x ?l Sentinel" and ok: "nodes_ok ?l" and hd: "st_head s = x"
    using assms(1) by (simp_all add: stack_rep_def)
  have "x \<noteq> Sentinel" using ok by (auto simp: nodes_ok_def)
  have w: "stack_walk (st_link s) 1 count x = Some (count, ?y)"
    using stack_walk_enough [OF seg ok, of count 1] assms(2,3) by auto
  have k: "count - 1 < length ?l" "Suc (count - 1) = count" using assms(2,3) by auto
  then have y: "?y \<in> set ?l" by (metis nth_mem)
  with ok have "?y \<noteq> 0" "?y \<noteq> Sentinel" unfolding nodes_ok_def by metis+
  with w hd \<open>x \<noteq> Sentinel\<close> have "stack_pop_n count s =
      Some (?y, count, s\<lparr>st_head := st_link s ?y, st_link := (st_link s)(?y := 0)\<rparr>)"
    by (simp add: stack_pop_n_def stack_empty_def deref_def)
  moreover have "?y \<notin> set (drop count ?l)"
    using nth_notin_drop [of ?l "count - 1"] ok k by (simp add: nodes_ok_def)
  ultimately show ?thesis
    using lseg_drop_take(2) [OF seg k(1)] nodes_ok_drop [OF ok, of count] k
    by (auto simp: stack_rep_def lseg_upd)
qed

text \<open>\<^verbatim>\<open>Stack::pop(count)\<close> on a non-empty stack removes exactly the first \<open>count\<close> elements if there
  are that many. With a larger \<open>count\<close> it does not stop at the bottom, because the loop compares the link
  with \<^verbatim>\<open>nullptr\<close> although the bottom element links to \<^verbatim>\<open>Sentinel\<close>: it follows the
  sentinel, which is a fault.\<close>

theorem stack_pop_n_behaviour:
  assumes "stack_rep s (x # xs)" and "1 \<le> count"
  shows "(count \<le> Suc (length xs) \<longrightarrow> (\<exists>s'. stack_pop_n count s = Some ((x # xs) ! (count - 1), count, s')
             \<and> stack_rep s' (drop count (x # xs))))
    \<and> (Suc (length xs) < count \<longrightarrow> stack_pop_n count s = None)"
proof (intro conjI impI)
  have seg: "lseg (st_link s) x (x # xs) Sentinel" and ok: "nodes_ok (x # xs)" and hd: "st_head s = x"
    using assms(1) by (simp_all add: stack_rep_def)
  assume "Suc (length xs) < count"
  then have "stack_walk (st_link s) 1 count x \<in> {None, Some (count, Sentinel)}"
    using stack_walk_short [OF seg ok, of count 1] by simp
  with hd ok show "stack_pop_n count s = None"
    by (auto simp: stack_pop_n_def stack_empty_def nodes_ok_def deref_def)
qed (rule stack_pop_n_enough [OF assms])

definition stack_example :: stack where
  "stack_example = \<lparr>st_head = 16, st_link = (\<lambda>a. if a = 16 then 32 else if a = 32 then Sentinel else 0)\<rparr>"

theorem stack_pop_n_behaviour_witness:
  "(\<exists>s'. stack_pop_n 2 stack_example = Some (32, 2, s') \<and> stack_rep s' []) \<and> stack_pop_n 3 stack_example = None"
  using stack_pop_n_behaviour [of stack_example 16 "[32]" 2] stack_pop_n_behaviour [of stack_example 16 "[32]" 3]
  by (simp add: stack_rep_def stack_example_def nodes_ok_def Sentinel_def)

section \<open>Queue\<close>

record queue =
  q_head :: addr
  q_tail :: addr
  q_link :: links

definition queue_new :: "links \<Rightarrow> queue" where
  "queue_new h = \<lparr>q_head = Sentinel, q_tail = Sentinel, q_link = h\<rparr>"

text \<open>\<^verbatim>\<open>empty<Clean>\<close> asserts that head and tail agree.\<close>

definition queue_empty :: "queue \<Rightarrow> bool option" where
  "queue_empty q =
     do { rassert ((q_head q = Sentinel) = (q_tail q = Sentinel)); Some (q_head q = Sentinel) }"

definition queue_push_seg :: "addr \<Rightarrow> addr \<Rightarrow> queue \<Rightarrow> queue option" where
  "queue_push_seg first lst q =
     do { n \<leftarrow> deref (q_link q) lst; rassert (n = 0);
          let q1 = q\<lparr>q_link := (q_link q)(lst := Sentinel)\<rparr> in do {
          e \<leftarrow> queue_empty q1;
          q2 \<leftarrow> (if e then Some (q1\<lparr>q_head := first\<rparr>)
                else do { _ \<leftarrow> deref (q_link q1) (q_tail q1);
                          Some (q1\<lparr>q_link := (q_link q1)(q_tail q1 := first)\<rparr>) });
          Some (q2\<lparr>q_tail := lst\<rparr>) } }"

definition queue_push :: "addr \<Rightarrow> queue \<Rightarrow> queue option" where
  "queue_push elem q = queue_push_seg elem elem q"

text \<open>\<^verbatim>\<open>popHelper(elem, count)\<close>.\<close>

function popHelper :: "links \<Rightarrow> nat \<Rightarrow> nat \<Rightarrow> addr \<Rightarrow> (nat \<times> addr) option" where
  "popHelper h i count elem =
     (if i < count
      then do { n \<leftarrow> deref h elem;
                if n = Sentinel then Some (i, elem) else popHelper h (i + 1) count n }
      else Some (count, elem))"
  by pat_completeness auto
termination by (relation "measure (\<lambda>(h, i, count, elem). count - i)") auto

declare popHelper.simps [simp del]

text \<open>The rest of \<^verbatim>\<open>pop\<close>, after the element to remove up to has been found.\<close>

definition queue_cut :: "addr \<Rightarrow> queue \<Rightarrow> (addr \<times> queue) option" where
  "queue_cut elem q =
     do { n \<leftarrow> deref (q_link q) elem;
          Some (elem, q\<lparr>q_head := n, q_tail := if q_tail q = elem then Sentinel else q_tail q,
                        q_link := (q_link q)(elem := 0)\<rparr>) }"

definition queue_pop :: "queue \<Rightarrow> (addr \<times> queue) option" where
  "queue_pop q = do { e \<leftarrow> queue_empty q; if e then Some (0, q) else queue_cut (q_head q) q }"

definition queue_pop_n :: "nat \<Rightarrow> queue \<Rightarrow> (addr \<times> nat \<times> queue) option" where
  "queue_pop_n count q =
     do { e \<leftarrow> queue_empty q;
          if e then Some (0, count, q)
          else do { (count', elem) \<leftarrow> popHelper (q_link q) 1 count (q_head q);
                    (r, q') \<leftarrow> queue_cut elem q;
                    Some (r, count', q') } }"

definition queue_rep :: "queue \<Rightarrow> addr list \<Rightarrow> bool" where
  "queue_rep q xs \<longleftrightarrow> lseg (q_link q) (q_head q) xs Sentinel \<and> nodes_ok xs
     \<and> q_tail q = (if xs = [] then Sentinel else last xs)"

text \<open>An element that can be pushed: not null, not the sentinel, link invalidated.\<close>

definition unlinked :: "links \<Rightarrow> addr \<Rightarrow> bool" where
  "unlinked h x \<longleftrightarrow> x \<noteq> 0 \<and> x \<noteq> Sentinel \<and> h x = 0"

lemma queue_rep_empty:
  assumes "queue_rep q xs"
  shows "queue_empty q = Some (xs = [])"
proof (cases xs)
  case (Cons x ys)
  with assms have "q_head q = x" "x \<noteq> Sentinel" "q_tail q \<in> set xs" "Sentinel \<notin> set xs"
    by (auto simp: queue_rep_def nodes_ok_def)
  then have "q_head q \<noteq> Sentinel" "q_tail q \<noteq> Sentinel" by metis+
  with Cons show ?thesis by (simp add: queue_empty_def)
qed (use assms in \<open>simp add: queue_rep_def queue_empty_def\<close>)

lemma queue_rep_unlinked:
  assumes "queue_rep q xs" and "unlinked (q_link q) x"
  shows "x \<notin> set xs"
proof
  assume "x \<in> set xs"
  then obtain ys zs where xs: "xs = ys @ x # zs" by (meson split_list)
  with assms have "lseg (q_link q) 0 zs Sentinel" "0 \<notin> set zs"
    by (auto simp: queue_rep_def lseg_append unlinked_def nodes_ok_def)
  then show False by (cases zs) auto
qed

text \<open>Pushing a chain of linked nodes appends it.\<close>

lemma queue_push_seg_rep:
  assumes rep: "queue_rep q xs" and seg: "lseg (q_link q) y (ys @ [z]) 0"
    and ok: "nodes_ok (xs @ ys @ [z])"
  shows "\<exists>q'. queue_push_seg y z q = Some q' \<and> queue_rep q' (xs @ ys @ [z])
     \<and> (\<forall>a. a \<noteq> z \<and> a \<notin> set xs \<longrightarrow> q_link q' a = q_link q a)"
proof -
  have z: "z \<noteq> 0" "z \<noteq> Sentinel" "z \<notin> set xs" "z \<notin> set ys" "distinct xs"
    using ok by (auto simp: nodes_ok_def)
  have z0: "q_link q z = 0" using seg by (simp add: lseg_snoc)
  define h where "h = (q_link q)(z := Sentinel)"
  have yz: "lseg h y (ys @ [z]) Sentinel" using lseg_close [OF seg z(4)] by (simp add: h_def)
  have xs: "lseg h (q_head q) xs Sentinel" using rep z(3) by (simp add: h_def lseg_upd queue_rep_def)
  have e: "queue_empty (q\<lparr>q_link := h\<rparr>) = Some (xs = [])"
    using queue_rep_empty [OF rep] by (simp add: queue_empty_def)
  show ?thesis
  proof (cases xs rule: rev_cases)
    case Nil
    with e z z0 have "queue_push_seg y z q = Some (q\<lparr>q_link := h, q_head := y, q_tail := z\<rparr>)"
      by (simp add: queue_push_seg_def deref_def h_def)
    with yz ok Nil show ?thesis by (simp add: queue_rep_def h_def)
  next
    case (snoc us t)
    have t: "q_tail q = t" "t \<noteq> 0" "t \<noteq> Sentinel" "t \<noteq> z" "t \<notin> set us" "t \<notin> set ys"
      using rep ok snoc by (auto simp: queue_rep_def nodes_ok_def)
    with e z z0 snoc have "queue_push_seg y z q = Some (q\<lparr>q_link := h(t := y), q_tail := z\<rparr>)"
      by (simp add: queue_push_seg_def deref_def h_def)
    moreover have "lseg (h(t := y)) (q_head q) xs y"
      using xs lseg_close [of h "q_head q" us t Sentinel y] t(5) snoc by simp
    moreover have "lseg (h(t := y)) y (ys @ [z]) Sentinel"
      using yz t(4,6) by (simp add: lseg_upd)
    ultimately show ?thesis
      using ok snoc by (auto simp: queue_rep_def lseg_append h_def)
  qed
qed

lemma queue_cut_rep:
  assumes rep: "queue_rep q xs" and k: "k < length xs"
  shows "\<exists>q'. queue_cut (xs ! k) q = Some (xs ! k, q') \<and> queue_rep q' (drop (Suc k) xs)
     \<and> lseg (q_link q') (q_head q) (take (Suc k) xs) 0
     \<and> (\<forall>a. a \<noteq> xs ! k \<longrightarrow> q_link q' a = q_link q a)"
proof -
  let ?x = "xs ! k" and ?h = "q_link q"
  have seg: "lseg ?h (q_head q) xs Sentinel" and ok: "nodes_ok xs" and tl: "q_tail q = last xs"
    using rep k by (auto simp: queue_rep_def)
  have "?x \<in> set xs" using k by simp
  then have x: "?x \<noteq> 0" "?x \<noteq> Sentinel" using ok unfolding nodes_ok_def by metis+
  have nd: "?x \<notin> set (drop (Suc k) xs)" using nth_notin_drop [OF _ k] ok by (simp add: nodes_ok_def)
  have nt: "?x \<notin> set (take k xs)" using ok k by (auto simp: nodes_ok_def in_set_conv_nth nth_eq_iff_index_eq)
  have last: "last xs = ?x \<longleftrightarrow> drop (Suc k) xs = []"
  proof
    show "drop (Suc k) xs = []" if "last xs = ?x"
    proof (rule ccontr)
      assume ne: "drop (Suc k) xs \<noteq> []"
      then have "last xs \<in> set (drop (Suc k) xs)" using last_in_set [OF ne] by (simp add: last_drop)
      with nd that show False by simp
    qed
    show "last xs = ?x" if "drop (Suc k) xs = []"
      using that k by (cases xs rule: rev_cases) (auto simp: nth_append)
  qed
  define q' where "q' = q\<lparr>q_head := ?h ?x, q_tail := if q_tail q = ?x then Sentinel else q_tail q, q_link := ?h(?x := 0)\<rparr>"
  have "queue_cut ?x q = Some (?x, q')" using x by (simp add: queue_cut_def deref_def q'_def)
  moreover have "lseg (?h(?x := 0)) (?h ?x) (drop (Suc k) xs) Sentinel"
    using lseg_drop_take(2) [OF seg k] nd by (simp add: lseg_upd)
  then have "queue_rep q' (drop (Suc k) xs)"
    using nodes_ok_drop [OF ok] last tl by (auto simp: queue_rep_def q'_def)
  moreover have "lseg (?h(?x := 0)) (q_head q) (take k xs @ [?x]) 0"
    using lseg_drop_take(1) [OF seg k] nt k by (intro lseg_close) (simp_all add: take_Suc_conv_app_nth)
  then have "lseg (q_link q') (q_head q) (take (Suc k) xs) 0"
    using k by (simp add: q'_def take_Suc_conv_app_nth)
  ultimately show ?thesis by (auto simp: q'_def)
qed

lemma popHelper_eq:
  assumes "lseg h x (x # xs) Sentinel" and "nodes_ok (x # xs)" and "i \<le> count"
  shows "popHelper h i count x =
     Some (min count (i + length xs), (x # xs) ! min (count - i) (length xs))"
  using assms
proof (induction xs arbitrary: x i)
  case Nil
  then show ?case by (auto simp: popHelper.simps deref_def nodes_ok_def)
next
  case (Cons y ys)
  show ?case
  proof (cases "i < count")
    case True
    with Cons.prems have "h x = y" "x \<noteq> 0" "x \<noteq> Sentinel" "y \<noteq> Sentinel" by (auto simp: nodes_ok_def)
    moreover have "popHelper h (Suc i) count y = Some (min count (Suc i + length ys), (y # ys) ! min (count - Suc i) (length ys))"
      using Cons.prems True by (intro Cons.IH) (auto simp: nodes_ok_def)
    moreover have "min (count - i) (Suc (length ys)) = Suc (min (count - Suc i) (length ys))"
      using True by linarith
    ultimately show ?thesis using True by (simp add: popHelper.simps [of h i] deref_def)
  qed (use Cons.prems in \<open>simp add: popHelper.simps\<close>)
qed

section \<open>The contract of a FIFO queue\<close>

text \<open>\<open>rep s xs\<close>: the state \<open>s\<close> holds the elements \<open>xs\<close>; \<open>fresh s x\<close>: \<open>x\<close> can be pushed. A pop
  returns 0 (\<^verbatim>\<open>nullptr\<close>) when there is nothing to return.\<close>

fun push_all :: "(addr \<Rightarrow> 's \<Rightarrow> 's option) \<Rightarrow> addr list \<Rightarrow> 's \<Rightarrow> 's option" where
  "push_all push [] s = Some s"
| "push_all push (x # xs) s = do { s' \<leftarrow> push x s; push_all push xs s' }"

fun pops :: "('s \<Rightarrow> (addr \<times> 's) option) \<Rightarrow> nat \<Rightarrow> 's \<Rightarrow> (addr list \<times> 's) option" where
  "pops pop 0 s = Some ([], s)"
| "pops pop (Suc n) s = do { (x, s') \<leftarrow> pop s; (xs, s'') \<leftarrow> pops pop n s'; Some (x # xs, s'') }"

locale fifo =
  fixes rep :: "'s \<Rightarrow> addr list \<Rightarrow> bool"
    and fresh :: "'s \<Rightarrow> addr \<Rightarrow> bool"
    and push :: "addr \<Rightarrow> 's \<Rightarrow> 's option"
    and pop :: "'s \<Rightarrow> (addr \<times> 's) option"
  assumes push_rep: "rep s xs \<Longrightarrow> fresh s x \<Longrightarrow>
      \<exists>s'. push x s = Some s' \<and> rep s' (xs @ [x]) \<and> (\<forall>y. y \<noteq> x \<longrightarrow> fresh s y \<longrightarrow> fresh s' y)"
    and pop_empty: "rep s [] \<Longrightarrow> pop s = Some (0, s)"
    and pop_rep: "rep s (x # xs) \<Longrightarrow>
      \<exists>s'. pop s = Some (x, s') \<and> x \<noteq> 0 \<and> rep s' xs \<and> fresh s' x \<and> (\<forall>y. fresh s y \<longrightarrow> fresh s' y)"
begin

lemma push_all_rep:
  "rep s xs \<Longrightarrow> distinct ys \<Longrightarrow> (\<forall>y\<in>set ys. fresh s y) \<Longrightarrow> \<exists>s'. push_all push ys s = Some s' \<and> rep s' (xs @ ys)"
proof (induction ys arbitrary: s xs)
  case (Cons y ys)
  then obtain s1 where s1: "push y s = Some s1" "rep s1 (xs @ [y])" "\<forall>z. z \<noteq> y \<longrightarrow> fresh s z \<longrightarrow> fresh s1 z"
    using push_rep [of s xs y] by auto
  with Cons.prems have "\<forall>z\<in>set ys. fresh s1 z" by auto
  with Cons.IH [OF s1(2)] Cons.prems(2) s1(1) show ?case by auto
qed simp

lemma pops_rep: "rep s (xs @ ys) \<Longrightarrow> \<exists>s'. pops pop (length xs) s = Some (xs, s') \<and> rep s' ys"
proof (induction xs arbitrary: s)
  case (Cons x xs)
  then obtain s1 where "pop s = Some (x, s1)" "rep s1 (xs @ ys)" using pop_rep [of s x "xs @ ys"] by auto
  with Cons.IH [of s1] show ?case by auto
qed simp

lemma fifo_order:
  assumes "rep s xs" and "distinct ys" and "\<forall>y\<in>set ys. fresh s y"
  shows "\<exists>s' s''. push_all push ys s = Some s' \<and> pops pop (length xs + length ys) s' = Some (xs @ ys, s'') \<and> rep s'' []"
  using push_all_rep [OF assms] pops_rep [of _ "xs @ ys" "[]"] by fastforce

end

lemma queue_pop_rep:
  assumes "queue_rep q (x # xs)"
  shows "\<exists>q'. queue_pop q = Some (x, q') \<and> queue_rep q' xs \<and> q_link q' x = 0
     \<and> (\<forall>a. a \<noteq> x \<longrightarrow> q_link q' a = q_link q a)"
  using queue_cut_rep [OF assms, of 0] queue_rep_empty [OF assms] assms
  by (auto simp: queue_pop_def queue_rep_def)

interpretation iq: fifo queue_rep "\<lambda>q. unlinked (q_link q)" queue_push queue_pop
proof
  fix q xs x
  assume rep: "queue_rep q xs" and un: "unlinked (q_link q) x"
  then have "nodes_ok (xs @ [x])" using queue_rep_unlinked [OF rep un]
    by (auto simp: queue_rep_def nodes_ok_def unlinked_def)
  with queue_push_seg_rep [OF rep, of x "[]" x] un obtain q' where
    q': "queue_push x q = Some q'" "queue_rep q' (xs @ [x])"
    "\<And>a. a \<noteq> x \<and> a \<notin> set xs \<Longrightarrow> q_link q' a = q_link q a"
    by (auto simp: queue_push_def unlinked_def)
  have "unlinked (q_link q') y" if "y \<noteq> x" "unlinked (q_link q) y" for y
    using that q'(3) [of y] queue_rep_unlinked [OF rep that(2)] by (simp add: unlinked_def)
  with q' show "\<exists>q'. queue_push x q = Some q' \<and> queue_rep q' (xs @ [x])
      \<and> (\<forall>y. y \<noteq> x \<longrightarrow> unlinked (q_link q) y \<longrightarrow> unlinked (q_link q') y)" by blast
next
  fix q
  assume "queue_rep q []"
  then show "queue_pop q = Some (0, q)" using queue_rep_empty [of q "[]"] by (simp add: queue_pop_def)
next
  fix q x xs
  assume rep: "queue_rep q (x # xs)"
  then have x: "x \<noteq> 0" "x \<noteq> Sentinel" by (auto simp: queue_rep_def nodes_ok_def)
  from queue_pop_rep [OF rep] obtain q' where q': "queue_pop q = Some (x, q')" "queue_rep q' xs" "q_link q' x = 0"
    "\<And>a. a \<noteq> x \<Longrightarrow> q_link q' a = q_link q a" by blast
  have "unlinked (q_link q') y" if "unlinked (q_link q) y" for y
    using that q'(4) [of y] queue_rep_unlinked [OF rep that] by (simp add: unlinked_def)
  with q' x show "\<exists>q'. queue_pop q = Some (x, q') \<and> x \<noteq> 0 \<and> queue_rep q' xs \<and> unlinked (q_link q') x
      \<and> (\<forall>y. unlinked (q_link q) y \<longrightarrow> unlinked (q_link q') y)" by (auto simp: unlinked_def)
qed

text \<open>The intrusive \<^verbatim>\<open>Queue\<close> implements a FIFO list on the heap of links: whatever is in the queue,
  pushing any chain of distinct unlinked elements and popping everything returns the old elements and then
  the new ones in order, without violating an assertion; \<^verbatim>\<open>pop(count)\<close> detaches the first
  \<open>count\<close> elements (all of them, with \<open>count\<close> corrected, if there are fewer) as a null-terminated chain.\<close>

theorem queue_refines_list:
  assumes rep: "queue_rep q xs"
  shows "(distinct ys \<and> (\<forall>y\<in>set ys. unlinked (q_link q) y) \<longrightarrow>
      (\<exists>q' q''. push_all queue_push ys q = Some q' \<and> pops queue_pop (length xs + length ys) q' = Some (xs @ ys, q'') \<and> queue_rep q'' []))
    \<and> (xs \<noteq> [] \<and> 1 \<le> count \<longrightarrow> (\<exists>q'. queue_pop_n count q =
          Some (last (take count xs), min count (length xs), q')
        \<and> queue_rep q' (drop count xs) \<and> lseg (q_link q') (hd xs) (take count xs) 0))"
proof (intro conjI impI)
  show "\<exists>q' q''. push_all queue_push ys q = Some q' \<and> pops queue_pop (length xs + length ys) q' = Some (xs @ ys, q'') \<and> queue_rep q'' []"
    if "distinct ys \<and> (\<forall>y\<in>set ys. unlinked (q_link q) y)"
    using iq.fifo_order [OF rep] that by blast
  assume c: "xs \<noteq> [] \<and> 1 \<le> count"
  define k where "k = min (count - 1) (length xs - 1)"
  obtain x xs' where xs: "xs = x # xs'" using c by (cases xs) auto
  have hd: "q_head q = x" using rep xs by (simp add: queue_rep_def)
  have walk: "popHelper (q_link q) 1 count x = Some (min count (length xs), xs ! k)"
    using popHelper_eq [of "q_link q" x xs' 1 count] rep c xs by (simp add: queue_rep_def k_def)
  have k: "k < length xs" "Suc k = min count (length xs)" using c by (cases xs; cases count; simp add: k_def)+
  obtain q' where q': "queue_cut (xs ! k) q = Some (xs ! k, q')" "queue_rep q' (drop (Suc k) xs)"
    "lseg (q_link q') x (take (Suc k) xs) 0"
    using queue_cut_rep [OF rep k(1)] hd by blast
  have pop: "queue_pop_n count q = Some (xs ! k, min count (length xs), q')"
    using queue_rep_empty [OF rep] c hd walk q'(1) by (simp add: queue_pop_n_def)
  have tk: "take (Suc k) xs = take count xs" "drop (Suc k) xs = drop count xs"
    by (simp_all add: k(2) min_def)
  have "xs ! k = last (take (Suc k) xs)"
    using k(1) by (simp add: take_Suc_conv_app_nth)
  with pop q'(2,3) tk xs show "\<exists>q'. queue_pop_n count q = Some (last (take count xs), min count (length xs), q')
        \<and> queue_rep q' (drop count xs) \<and> lseg (q_link q') (hd xs) (take count xs) 0"
    by (metis list.sel(1))
qed

theorem queue_refines_list_witness:
  "\<exists>q' q''. push_all queue_push [16, 32] (queue_new (\<lambda>_. 0)) = Some q' \<and> pops queue_pop 2 q' = Some ([16, 32], q'')"
proof -
  have "queue_rep (queue_new (\<lambda>_. 0)) []" by (simp add: queue_rep_def queue_new_def nodes_ok_def)
  moreover have "\<forall>y\<in>set [16, 32]. unlinked (q_link (queue_new (\<lambda>_. 0))) y"
    by (simp add: queue_new_def unlinked_def Sentinel_def)
  ultimately show ?thesis
    using queue_refines_list [of "queue_new (\<lambda>_. 0)" "[]" "[16, 32]" 1] by (auto simp: numeral_2_eq_2 simp del: push_all.simps pops.simps)
qed

end
