(* ===== verification/List_Model.thy ===== *)
theory List_Model
  imports Container_Model
begin

text \<open>
  \<^verbatim>\<open>Ring\<close> and \<^verbatim>\<open>List\<close> of \<^verbatim>\<open>src/src/runtime/Container.h\<close>: doubly linked rings of
  nodes, and the list that is a ring through an anchor. Every operation is translated with the order of its
  pointer assignments. \<open>ring h xs\<close> says that the nodes \<open>xs\<close> form a closed ring in the heap \<open>h\<close>.
\<close>

section \<open>Ring operations\<close>

record dheap =
  Next :: links
  Prev :: links

definition set_Next :: "addr \<Rightarrow> addr \<Rightarrow> dheap \<Rightarrow> dheap" where
  "set_Next a b h = h\<lparr>Next := (Next h)(a := b)\<rparr>"

definition set_Prev :: "addr \<Rightarrow> addr \<Rightarrow> dheap \<Rightarrow> dheap" where
  "set_Prev a b h = h\<lparr>Prev := (Prev h)(a := b)\<rparr>"

definition take_out :: "addr \<Rightarrow> addr \<Rightarrow> dheap \<Rightarrow> dheap option" where
  "take_out first lst h =
     do { rassert (Prev h first \<noteq> 0 \<and> Next h first \<noteq> 0);
          rassert (Prev h lst \<noteq> 0 \<and> Next h lst \<noteq> 0);
          let h1 = set_Next (Prev h first) (Next h lst) h
          in Some (set_Prev (Next h1 lst) (Prev h1 first) h1) }"

definition combine_before :: "addr \<Rightarrow> addr \<Rightarrow> addr \<Rightarrow> dheap \<Rightarrow> dheap option" where
  "combine_before nxt first lst h =
     do { rassert (Prev h nxt \<noteq> 0 \<and> Next h nxt \<noteq> 0);
          let h1 = set_Next lst nxt h;
              h2 = set_Next (Prev h1 nxt) first h1;
              h3 = set_Prev first (Prev h2 nxt) h2
          in Some (set_Prev nxt lst h3) }"

definition combine_after :: "addr \<Rightarrow> addr \<Rightarrow> addr \<Rightarrow> dheap \<Rightarrow> dheap option" where
  "combine_after prv first lst h =
     do { rassert (Prev h prv \<noteq> 0 \<and> Next h prv \<noteq> 0);
          let h1 = set_Prev first prv h;
              h2 = set_Prev (Next h1 prv) lst h1;
              h3 = set_Next lst (Next h2 prv) h2
          in Some (set_Next prv first h3) }"

definition ring_close :: "addr \<Rightarrow> addr \<Rightarrow> dheap \<Rightarrow> dheap" where
  "ring_close first lst h = set_Next lst first (set_Prev first lst h)"

definition insert_before :: "addr \<Rightarrow> addr \<Rightarrow> addr \<Rightarrow> dheap \<Rightarrow> dheap option" where
  "insert_before nxt first lst h =
     do { rassert (Prev h first = 0); rassert (Next h lst = 0); combine_before nxt first lst h }"

definition insert_after :: "bool \<Rightarrow> addr \<Rightarrow> addr \<Rightarrow> addr \<Rightarrow> dheap \<Rightarrow> dheap option" where
  "insert_after force prv first lst h =
     do { rassert (force \<or> Prev h first = 0); rassert (force \<or> Next h lst = 0); combine_after prv first lst h }"

definition ring_remove :: "addr \<Rightarrow> addr \<Rightarrow> dheap \<Rightarrow> (addr \<times> dheap) option" where
  "ring_remove first lst h =
     do { h1 \<leftarrow> take_out first lst h; Some (lst, set_Prev first 0 (set_Next lst 0 h1)) }"

definition join_before :: "addr \<Rightarrow> addr \<Rightarrow> addr \<Rightarrow> dheap \<Rightarrow> dheap option" where
  "join_before nxt first lst h =
     do { rassert (Prev h first = lst); rassert (Next h lst = first); combine_before nxt first lst h }"

definition join_after :: "addr \<Rightarrow> addr \<Rightarrow> addr \<Rightarrow> dheap \<Rightarrow> dheap option" where
  "join_after prv first lst h =
     do { rassert (Prev h first = lst); rassert (Next h lst = first); combine_after prv first lst h }"

definition ring_split :: "addr \<Rightarrow> addr \<Rightarrow> dheap \<Rightarrow> (addr \<times> dheap) option" where
  "ring_split first lst h =
     do { h1 \<leftarrow> take_out first lst h; Some (lst, ring_close first lst h1) }"

section \<open>Rings and segments\<close>

text \<open>\<open>dseg h xs\<close>: neighbours in \<open>xs\<close> are linked both ways.\<close>

fun dseg :: "dheap \<Rightarrow> addr list \<Rightarrow> bool" where
  "dseg h (a # b # xs) \<longleftrightarrow> Next h a = b \<and> Prev h b = a \<and> dseg h (b # xs)"
| "dseg h xs \<longleftrightarrow> True"

definition ring :: "dheap \<Rightarrow> addr list \<Rightarrow> bool" where
  "ring h xs \<longleftrightarrow> xs \<noteq> [] \<and> distinct xs \<and> 0 \<notin> set xs \<and> dseg h (xs @ [hd xs])"

lemma dseg_append: "xs \<noteq> [] \<Longrightarrow> ys \<noteq> [] \<Longrightarrow>
    dseg h (xs @ ys) \<longleftrightarrow> dseg h xs \<and> Next h (last xs) = hd ys \<and> Prev h (hd ys) = last xs \<and> dseg h ys"
proof (induction xs rule: dseg.induct, goal_cases)
  case (1 h a b xs)
  then show ?case by auto
next
  case (3 h a)
  then show ?case by (cases ys) auto
qed simp

lemma dseg_cong:
  assumes "\<And>a. a \<in> set (butlast xs) \<Longrightarrow> Next h' a = Next h a" and "\<And>a. a \<in> set (tl xs) \<Longrightarrow> Prev h' a = Prev h a"
  shows "dseg h' xs = dseg h xs"
  using assms by (induction xs rule: dseg.induct) (auto split: if_splits)

lemma ring_alt:
  "xs \<noteq> [] \<Longrightarrow> ring h xs \<longleftrightarrow> distinct xs \<and> 0 \<notin> set xs \<and> dseg h xs \<and> Next h (last xs) = hd xs \<and> Prev h (hd xs) = last xs"
  by (simp add: ring_def dseg_append)

lemma ring_rotate: "ring h (xs @ ys) \<longleftrightarrow> ring h (ys @ xs)"
proof (cases "xs = [] \<or> ys = []")
  case False
  then show ?thesis by (auto simp: ring_alt dseg_append)
qed auto

lemma ring_links_nz:
  assumes "ring h xs" and "x \<in> set xs"
  shows "Next h x \<noteq> 0" and "Prev h x \<noteq> 0" and "Next h x \<in> set xs" and "Prev h x \<in> set xs"
proof -
  obtain us vs where xs: "xs = us @ x # vs" using assms(2) by (meson split_list)
  with assms(1) have r: "ring h (x # vs @ us)" using ring_rotate [of h us "x # vs"] by simp
  have "Next h x \<in> set (x # vs @ us) \<and> Prev h x \<in> set (x # vs @ us)"
  proof (cases "vs @ us" rule: rev_cases)
    case Nil
    with r show ?thesis by (simp add: ring_alt)
  next
    case (snoc ws w)
    then have "vs @ us \<noteq> []" by simp
    with r have n: "Next h x = hd (vs @ us)" "Prev h x = last (vs @ us)"
      using ring_alt [of "x # vs @ us" h] dseg_append [of "[x]" "vs @ us" h] by auto
    show ?thesis unfolding n using hd_in_set [OF \<open>vs @ us \<noteq> []\<close>] last_in_set [OF \<open>vs @ us \<noteq> []\<close>] by auto
  qed
  then show "Next h x \<in> set xs" "Prev h x \<in> set xs" using xs by auto
  moreover have "0 \<notin> set xs" using assms(1) by (simp add: ring_def)
  ultimately show "Next h x \<noteq> 0" "Prev h x \<noteq> 0" by metis+
qed

lemmas dheap_simps = set_Next_def set_Prev_def

lemma butlast_not_last: "distinct ys \<Longrightarrow> a \<in> set (butlast ys) \<Longrightarrow> a \<noteq> last ys \<and> a \<in> set ys"
  by (cases ys rule: rev_cases) auto

lemma tl_not_hd: "distinct ys \<Longrightarrow> a \<in> set (tl ys) \<Longrightarrow> a \<noteq> hd ys \<and> a \<in> set ys"
  by (cases ys) auto

text \<open>Linking a segment into a ring after its first node, and before it.\<close>

lemma combine_after_ring:
  assumes r: "ring h (p # rest)" and s: "dseg h ys" and ys: "ys \<noteq> []" "distinct (p # rest @ ys)" "0 \<notin> set ys"
  shows "\<exists>h'. combine_after p (hd ys) (last ys) h = Some h' \<and> ring h' (p # ys @ rest)
     \<and> (\<forall>a. a \<notin> set (p # rest @ ys) \<longrightarrow> Next h' a = Next h a \<and> Prev h' a = Prev h a)"
proof -
  have nz: "Prev h p \<noteq> 0" "Next h p \<noteq> 0" using ring_links_nz [OF r] by simp_all
  define n where "n = hd (rest @ [p])"
  have rs: "dseg h (rest @ [p])" and n: "Next h p = n" "Prev h n = p" "n \<in> set (rest @ [p])"
    using r by (cases rest; auto simp: ring_def n_def)+
  have f: "hd ys \<in> set ys" "last ys \<in> set ys" using ys(1) by simp_all
  have ne: "n \<noteq> hd ys" "n \<noteq> last ys" "p \<noteq> hd ys" "p \<noteq> last ys" using f n(3) ys(2) by auto
  define h' where "h' = \<lparr>Next = (Next h)(last ys := n, p := hd ys), Prev = (Prev h)(hd ys := p, n := last ys)\<rparr>"
  have "combine_after p (hd ys) (last ys) h = Some h'"
    using nz n ne by (simp add: combine_after_def dheap_simps h'_def)
  moreover have d: "distinct ys" "distinct (rest @ [p])" using ys(2) by auto
  have "dseg h' ys = dseg h ys"
  proof (rule dseg_cong)
    show "Next h' a = Next h a" if "a \<in> set (butlast ys)" for a
      using butlast_not_last [OF d(1) that] ys(2) by (auto simp: h'_def)
    show "Prev h' a = Prev h a" if "a \<in> set (tl ys)" for a
      using tl_not_hd [OF d(1) that] n(3) ys(2) by (auto simp: h'_def)
  qed
  moreover have "dseg h' (rest @ [p]) = dseg h (rest @ [p])"
  proof (rule dseg_cong)
    show "Next h' a = Next h a" if "a \<in> set (butlast (rest @ [p]))" for a
      using that f ys(2) by (auto simp: h'_def)
    show "Prev h' a = Prev h a" if "a \<in> set (tl (rest @ [p]))" for a
      using tl_not_hd [OF d(2) that] f ys(2) by (auto simp: h'_def n_def)
  qed
  moreover have "Next h' p = hd ys" "Prev h' (hd ys) = p" "Next h' (last ys) = n" "Prev h' n = last ys"
    using ne by (simp_all add: h'_def)
  ultimately have "dseg h' ([p] @ ys @ rest @ [p])"
    using s rs ys(1) dseg_append [of "[p]" "ys @ rest @ [p]" h'] dseg_append [of ys "rest @ [p]" h']
    by (simp add: n_def)
  then have "ring h' (p # ys @ rest)"
    using ys r by (auto simp: ring_def)
  with \<open>combine_after p (hd ys) (last ys) h = Some h'\<close> f n(3) show ?thesis
    by (intro exI [of _ h']) (auto simp: h'_def)
qed

lemma combine_before_ring:
  assumes r: "ring h (n # rest)" and s: "dseg h ys" and ys: "ys \<noteq> []" "distinct (n # rest @ ys)" "0 \<notin> set ys"
  shows "\<exists>h'. combine_before n (hd ys) (last ys) h = Some h' \<and> ring h' (n # rest @ ys)
     \<and> (\<forall>a. a \<notin> set (n # rest @ ys) \<longrightarrow> Next h' a = Next h a \<and> Prev h' a = Prev h a)"
proof -
  have nz: "Prev h n \<noteq> 0" "Next h n \<noteq> 0" using ring_links_nz [OF r] by simp_all
  define p where "p = last (n # rest)"
  have p: "Next h p = n" "Prev h n = p" "p \<in> set (n # rest)" and rs: "dseg h (n # rest)"
    using r ring_alt [of "n # rest" h] by (auto simp: p_def)
  have f: "hd ys \<in> set ys" "last ys \<in> set ys" using ys(1) by simp_all
  have ne: "p \<noteq> hd ys" "p \<noteq> last ys" "n \<noteq> hd ys" "n \<noteq> last ys" using f p(3) ys(2) by auto
  define h' where "h' = \<lparr>Next = (Next h)(last ys := n, p := hd ys), Prev = (Prev h)(hd ys := p, n := last ys)\<rparr>"
  have eq: "combine_before n (hd ys) (last ys) h = Some h'"
    using nz p ne by (simp add: combine_before_def dheap_simps h'_def)
  have d: "distinct ys" "distinct (n # rest)" using ys(2) by auto
  have "dseg h' ys = dseg h ys"
  proof (rule dseg_cong)
    show "Next h' a = Next h a" if "a \<in> set (butlast ys)" for a
      using butlast_not_last [OF d(1) that] p(3) ys(2) by (auto simp: h'_def)
    show "Prev h' a = Prev h a" if "a \<in> set (tl ys)" for a
      using tl_not_hd [OF d(1) that] ys(2) by (auto simp: h'_def)
  qed
  moreover have "dseg h' (n # rest) = dseg h (n # rest)"
  proof (rule dseg_cong)
    show "Next h' a = Next h a" if "a \<in> set (butlast (n # rest))" for a
      using butlast_not_last [OF d(2) that] f ys(2) by (auto simp: h'_def p_def)
    show "Prev h' a = Prev h a" if "a \<in> set (tl (n # rest))" for a
      using that f ys(2) by (auto simp: h'_def)
  qed
  moreover have "Next h' p = hd ys" "Prev h' (hd ys) = p" "Next h' (last ys) = n" "Prev h' n = last ys"
    using ne by (simp_all add: h'_def)
  ultimately have "dseg h' ((n # rest) @ ys @ [n])"
    using s rs ys(1) dseg_append [of "n # rest" "ys @ [n]" h'] dseg_append [of ys "[n]" h']
    by (simp add: p_def)
  then have "ring h' (n # rest @ ys)"
    using ys r by (auto simp: ring_def)
  with eq f p(3) show ?thesis
    by (intro exI [of _ h']) (auto simp: h'_def)
qed

text \<open>Unlinking a segment of a ring.\<close>

lemma take_out_ring:
  assumes r: "ring h (ys @ rest)" and ne: "ys \<noteq> []" "rest \<noteq> []"
  shows "\<exists>h'. take_out (hd ys) (last ys) h = Some h' \<and> ring h' rest \<and> dseg h' ys
     \<and> (\<forall>a. a \<notin> set rest \<longrightarrow> Next h' a = Next h a \<and> Prev h' a = Prev h a)"
proof -
  have f: "hd ys \<in> set ys" "last ys \<in> set ys" "hd rest \<in> set rest" "last rest \<in> set rest" using ne by simp_all
  have nz: "Prev h (hd ys) \<noteq> 0" "Next h (hd ys) \<noteq> 0" "Prev h (last ys) \<noteq> 0" "Next h (last ys) \<noteq> 0"
    using ring_links_nz [OF r] f by auto
  have l: "dseg h ys" "dseg h rest" "Next h (last ys) = hd rest" "Prev h (hd rest) = last ys"
    "Next h (last rest) = hd ys" "Prev h (hd ys) = last rest" and d: "distinct (ys @ rest)" "0 \<notin> set rest"
    using r ne ring_alt [of "ys @ rest" h] by (auto simp: dseg_append)
  define h' where "h' = \<lparr>Next = (Next h)(last rest := hd rest), Prev = (Prev h)(hd rest := last rest)\<rparr>"
  have yr: "last ys \<noteq> last rest" "hd ys \<noteq> hd rest" using f d by auto
  have "take_out (hd ys) (last ys) h = Some h'"
    using nz l yr by (simp add: take_out_def dheap_simps h'_def)
  moreover have "dseg h' ys = dseg h ys"
    using d f by (intro dseg_cong) (auto simp: h'_def dest!: in_set_butlastD list.set_sel(2) [OF ne(1)])
  moreover have "dseg h' rest = dseg h rest"
    using d by (intro dseg_cong) (auto simp: h'_def dest: butlast_not_last tl_not_hd)
  ultimately show ?thesis
    using l d f ne by (intro exI [of _ h']) (auto simp: ring_alt h'_def)
qed

text \<open>The public ring operations.\<close>

lemma insert_after_ring:
  assumes "ring h (p # rest)" and "dseg h ys" and "ys \<noteq> []" "distinct (p # rest @ ys)" "0 \<notin> set ys"
    and "Prev h (hd ys) = 0" and "Next h (last ys) = 0"
  shows "\<exists>h'. insert_after force p (hd ys) (last ys) h = Some h' \<and> ring h' (p # ys @ rest)"
  using combine_after_ring [OF assms(1-5)] assms(6,7) by (auto simp: insert_after_def)

lemma insert_before_ring:
  assumes "ring h (n # rest)" and "dseg h ys" and "ys \<noteq> []" "distinct (n # rest @ ys)" "0 \<notin> set ys"
    and "Prev h (hd ys) = 0" and "Next h (last ys) = 0"
  shows "\<exists>h'. insert_before n (hd ys) (last ys) h = Some h' \<and> ring h' (n # rest @ ys)"
  using combine_before_ring [OF assms(1-5)] assms(6,7) by (auto simp: insert_before_def)

lemma dseg_ends:
  assumes "dseg h ys" and "distinct ys" and "ys \<noteq> []"
    and "\<And>a. a \<noteq> last ys \<Longrightarrow> Next h' a = Next h a" and "\<And>a. a \<noteq> hd ys \<Longrightarrow> Prev h' a = Prev h a"
  shows "dseg h' ys"
  using assms dseg_cong [of ys h' h] by (auto dest: butlast_not_last tl_not_hd)

lemma ring_cong:
  assumes "\<And>a. a \<in> set xs \<Longrightarrow> Next h' a = Next h a \<and> Prev h' a = Prev h a"
  shows "ring h' xs = ring h xs"
proof (cases xs)
  case (Cons x ys)
  have "dseg h' (xs @ [hd xs]) = dseg h (xs @ [hd xs])"
    using assms Cons by (intro dseg_cong) (auto simp: butlast_append split: if_splits)
  then show ?thesis by (simp add: ring_def)
qed (simp add: ring_def)

lemma ring_remove_ring:
  assumes r: "ring h (ys @ rest)" and ne: "ys \<noteq> []" "rest \<noteq> []"
  shows "\<exists>h'. ring_remove (hd ys) (last ys) h = Some (last ys, h') \<and> ring h' rest \<and> dseg h' ys
     \<and> Prev h' (hd ys) = 0 \<and> Next h' (last ys) = 0
     \<and> (\<forall>a. a \<notin> set (ys @ rest) \<longrightarrow> Next h' a = Next h a \<and> Prev h' a = Prev h a)"
proof -
  from take_out_ring [OF assms] obtain h1 where
    h1: "take_out (hd ys) (last ys) h = Some h1" "ring h1 rest" "dseg h1 ys"
      "\<forall>a. a \<notin> set rest \<longrightarrow> Next h1 a = Next h a \<and> Prev h1 a = Prev h a" by blast
  have d: "distinct (ys @ rest)" and f: "hd ys \<in> set ys" "last ys \<in> set ys"
    using r ne by (simp_all add: ring_def)
  define h' where "h' = set_Prev (hd ys) 0 (set_Next (last ys) 0 h1)"
  have "a \<noteq> last ys \<and> a \<noteq> hd ys" if "a \<in> set rest" for a using d f that by auto
  then have "ring h' rest = ring h1 rest" by (intro ring_cong) (simp add: h'_def dheap_simps)
  with h1(2) have "ring h' rest" by simp
  moreover have "dseg h' ys" using dseg_ends [OF h1(3), of h'] d ne by (simp add: h'_def dheap_simps)
  ultimately show ?thesis
    using h1(1,4) f by (intro exI [of _ h']) (auto simp: ring_remove_def h'_def dheap_simps)
qed

lemma ring_split_ring:
  assumes r: "ring h (ys @ rest)" and ne: "ys \<noteq> []" "rest \<noteq> []"
  shows "\<exists>h'. ring_split (hd ys) (last ys) h = Some (last ys, h') \<and> ring h' rest \<and> ring h' ys"
proof -
  from take_out_ring [OF assms] obtain h1 where
    h1: "take_out (hd ys) (last ys) h = Some h1" "ring h1 rest" "dseg h1 ys" by blast
  have d: "distinct (ys @ rest)" "0 \<notin> set ys" and f: "hd ys \<in> set ys" "last ys \<in> set ys"
    using r ne by (simp_all add: ring_def)
  define h' where "h' = ring_close (hd ys) (last ys) h1"
  have "a \<noteq> last ys \<and> a \<noteq> hd ys" if "a \<in> set rest" for a using d f that by auto
  then have "ring h' rest = ring h1 rest" by (intro ring_cong) (simp add: h'_def ring_close_def dheap_simps)
  with h1(2) have "ring h' rest" by simp
  moreover have "dseg h' ys"
    using dseg_ends [OF h1(3), of h'] d ne by (simp add: h'_def ring_close_def dheap_simps)
  then have "ring h' ys"
    using d ne by (simp add: ring_alt) (simp add: h'_def ring_close_def dheap_simps)
  ultimately show ?thesis using h1(1) by (simp add: ring_split_def h'_def)
qed

lemma join_after_ring:
  assumes "ring h (p # rest)" and "ring h ys" and "distinct (p # rest @ ys)"
  shows "\<exists>h'. join_after p (hd ys) (last ys) h = Some h' \<and> ring h' (p # ys @ rest)"
proof -
  have "ys \<noteq> []" using assms(2) by (simp add: ring_def)
  with combine_after_ring [OF assms(1), of ys] assms(2,3) show ?thesis
    by (auto simp: join_after_def ring_alt)
qed

lemma join_before_ring:
  assumes "ring h (n # rest)" and "ring h ys" and "distinct (n # rest @ ys)"
  shows "\<exists>h'. join_before n (hd ys) (last ys) h = Some h' \<and> ring h' (n # rest @ ys)"
proof -
  have "ys \<noteq> []" using assms(2) by (simp add: ring_def)
  with combine_before_ring [OF assms(1), of ys] assms(2,3) show ?thesis
    by (auto simp: join_before_def ring_alt)
qed

section \<open>List\<close>

text \<open>A list is the address of its anchor; its elements are the rest of the ring.\<close>

definition list_new :: "addr \<Rightarrow> dheap \<Rightarrow> dheap" where
  "list_new anchor h = set_Prev anchor anchor (set_Next anchor anchor h)"

definition list_front :: "addr \<Rightarrow> dheap \<Rightarrow> addr" where "list_front anchor h = Next h anchor"
definition list_back :: "addr \<Rightarrow> dheap \<Rightarrow> addr" where "list_back anchor h = Prev h anchor"

definition list_empty :: "addr \<Rightarrow> dheap \<Rightarrow> bool option" where
  "list_empty anchor h =
     do { rassert ((list_front anchor h = anchor) = (list_back anchor h = anchor));
          Some (list_front anchor h = anchor) }"

definition push_front :: "addr \<Rightarrow> addr \<Rightarrow> dheap \<Rightarrow> dheap option" where
  "push_front anchor elem h = insert_before (list_front anchor h) elem elem h"

definition push_back :: "addr \<Rightarrow> addr \<Rightarrow> dheap \<Rightarrow> dheap option" where
  "push_back anchor elem h = insert_after False (list_back anchor h) elem elem h"

definition splice_back :: "addr \<Rightarrow> addr \<Rightarrow> addr \<Rightarrow> dheap \<Rightarrow> dheap option" where
  "splice_back anchor first lst h = insert_after False (list_back anchor h) first lst h"

definition pop_front :: "addr \<Rightarrow> dheap \<Rightarrow> (addr \<times> dheap) option" where
  "pop_front anchor h =
     do { e \<leftarrow> list_empty anchor h; rassert (\<not> e); ring_remove (list_front anchor h) (list_front anchor h) h }"

definition pop_back :: "addr \<Rightarrow> dheap \<Rightarrow> (addr \<times> dheap) option" where
  "pop_back anchor h =
     do { e \<leftarrow> list_empty anchor h; rassert (\<not> e); ring_remove (list_back anchor h) (list_back anchor h) h }"

definition list_remove :: "addr \<Rightarrow> dheap \<Rightarrow> (addr \<times> dheap) option" where
  "list_remove elem h = ring_remove elem elem h"

definition list_removeAll :: "addr \<Rightarrow> dheap \<Rightarrow> (addr \<times> dheap) option" where
  "list_removeAll anchor h = ring_remove (list_front anchor h) (list_back anchor h) h"

text \<open>\<^verbatim>\<open>remove(first, count)\<close>.\<close>

function list_walk :: "addr \<Rightarrow> dheap \<Rightarrow> nat \<Rightarrow> nat \<Rightarrow> addr \<Rightarrow> nat \<times> addr" where
  "list_walk anchor h i count lst =
     (if i < count
      then if Next h lst = anchor then (i, lst) else list_walk anchor h (i + 1) count (Next h lst)
      else (count, lst))"
  by pat_completeness auto
termination by (relation "measure (\<lambda>(anchor, h, i, count, lst). count - i)") auto

declare list_walk.simps [simp del]

definition list_remove_n :: "addr \<Rightarrow> addr \<Rightarrow> nat \<Rightarrow> dheap \<Rightarrow> (addr \<times> nat \<times> dheap) option" where
  "list_remove_n anchor first count h =
     do { rassert (Prev h first \<noteq> 0 \<and> Next h first \<noteq> 0);
          let (count', lst) = list_walk anchor h 1 count first in do {
          (r, h') \<leftarrow> ring_remove first lst h;
          Some (r, count', h') } }"

definition list_rep :: "addr \<Rightarrow> dheap \<Rightarrow> addr list \<Rightarrow> bool" where
  "list_rep anchor h xs \<longleftrightarrow> ring h (anchor # xs)"

lemma list_rep_ends:
  assumes "list_rep anchor h xs"
  shows "list_front anchor h = hd (xs @ [anchor])" and "list_back anchor h = last (anchor # xs)"
    and "list_empty anchor h = Some (xs = [])"
proof -
  have r: "Next h (last (anchor # xs)) = anchor" "Prev h anchor = last (anchor # xs)" "dseg h (anchor # xs)"
    "anchor \<notin> set xs"
    using assms ring_alt [of "anchor # xs" h] by (simp_all add: list_rep_def ring_def)
  then show f: "list_front anchor h = hd (xs @ [anchor])" and b: "list_back anchor h = last (anchor # xs)"
    by (cases xs; simp add: list_front_def list_back_def)+
  show "list_empty anchor h = Some (xs = [])"
  proof (cases xs)
    case (Cons x ys)
    then have "last xs \<in> set xs" "x \<in> set xs" by simp_all
    with r(4) have "last xs \<noteq> anchor" "x \<noteq> anchor" by metis+
    with f b Cons show ?thesis by (simp add: list_empty_def)
  qed (use f b in \<open>simp add: list_empty_def\<close>)
qed

lemma list_push_back:
  assumes rep: "list_rep anchor h xs" and ys: "dseg h ys" "ys \<noteq> []" "distinct (anchor # xs @ ys)" "0 \<notin> set ys"
    and un: "Prev h (hd ys) = 0" "Next h (last ys) = 0"
  shows "\<exists>h'. splice_back anchor (hd ys) (last ys) h = Some h' \<and> list_rep anchor h' (xs @ ys)"
proof -
  define us t where "us = butlast (anchor # xs)" and "t = last (anchor # xs)"
  have ut: "us @ [t] = anchor # xs" by (simp add: us_def t_def del: butlast.simps last.simps)
  have "ring h (t # us)" using rep ring_rotate [of h us "[t]"] by (simp add: list_rep_def ut)
  moreover have "distinct (us @ [t])" "set (us @ [t]) = set (anchor # xs)" using ys(3) unfolding ut by simp_all
  with ys(3) have "distinct (t # us @ ys)" by auto
  ultimately obtain h' where h': "insert_after False t (hd ys) (last ys) h = Some h'" "ring h' (t # ys @ us)"
    using insert_after_ring [of h t us ys False] ys un by auto
  have "ring h' (us @ [t] @ ys)" using h'(2) ring_rotate [of h' "t # ys" us] by simp
  moreover have "us @ [t] @ ys = anchor # xs @ ys" using ut by (metis append.assoc append_Cons)
  ultimately have "list_rep anchor h' (xs @ ys)" unfolding list_rep_def by metis
  moreover have "list_back anchor h = t" using list_rep_ends(2) [OF rep] by (simp only: t_def)
  ultimately show ?thesis using h'(1) by (auto simp: splice_back_def)
qed

lemma list_push_front:
  assumes rep: "list_rep anchor h xs" and "e \<notin> set (anchor # xs)" "e \<noteq> 0" "Prev h e = 0" "Next h e = 0"
  shows "\<exists>h'. push_front anchor e h = Some h' \<and> list_rep anchor h' (e # xs)"
proof -
  define n rest where "n = hd (xs @ [anchor])" and "rest = tl (xs @ [anchor])"
  have nr: "n # rest = xs @ [anchor]" by (simp add: n_def rest_def)
  have "ring h (n # rest)" using rep ring_rotate [of h "[anchor]" xs] by (simp add: list_rep_def nr)
  moreover have "distinct (n # rest)" "set (n # rest) = set (anchor # xs)"
    using rep unfolding nr by (auto simp: list_rep_def ring_def)
  with assms(2) have "distinct (n # rest @ [e])" by auto
  ultimately obtain h' where h': "insert_before n e e h = Some h'" "ring h' (n # rest @ [e])"
    using insert_before_ring [of h n rest "[e]"] assms by auto
  have "n # rest @ [e] = xs @ [anchor] @ [e]" using nr by (metis append_Cons append.assoc)
  with h'(2) have "ring h' ([anchor] @ [e] @ xs)" using ring_rotate [of h' xs "[anchor] @ [e]"] by simp
  with h'(1) list_rep_ends(1) [OF rep] show ?thesis by (auto simp: push_front_def list_rep_def n_def)
qed

lemma list_remove_seg:
  assumes rep: "list_rep anchor h (us @ ys @ vs)" and ys: "ys \<noteq> []"
  shows "\<exists>h'. ring_remove (hd ys) (last ys) h = Some (last ys, h') \<and> list_rep anchor h' (us @ vs)
     \<and> dseg h' ys \<and> Prev h' (hd ys) = 0 \<and> Next h' (last ys) = 0"
proof -
  have "ring h (ys @ vs @ anchor # us)"
    using rep ring_rotate [of h "anchor # us" "ys @ vs"] by (simp add: list_rep_def)
  from ring_remove_ring [OF this ys] obtain h' where
    h': "ring_remove (hd ys) (last ys) h = Some (last ys, h')" "ring h' (vs @ anchor # us)" "dseg h' ys"
      "Prev h' (hd ys) = 0" "Next h' (last ys) = 0" by auto
  moreover have "list_rep anchor h' (us @ vs)"
    using h'(2) ring_rotate [of h' vs "anchor # us"] by (simp add: list_rep_def)
  ultimately show ?thesis by blast
qed

lemma list_walk_eq:
  assumes "list_rep anchor h (us @ x # vs)" and "i \<le> count"
  shows "list_walk anchor h i count x = (min count (i + length vs), (x # vs) ! min (count - i) (length vs))"
  using assms
proof (induction vs arbitrary: us x i)
  case Nil
  then have "ring h (anchor # us @ [x])" by (simp add: list_rep_def)
  then have "Next h x = anchor" using ring_alt [of "anchor # us @ [x]" h] by simp
  with Nil(2) show ?case by (auto simp: list_walk.simps)
next
  case (Cons y vs)
  have r: "ring h ((anchor # us @ [x]) @ y # vs)" using Cons.prems by (simp add: list_rep_def)
  then have "Next h x = y" "y \<noteq> anchor"
    using ring_alt [of "(anchor # us @ [x]) @ y # vs" h] dseg_append [of "anchor # us @ [x]" "y # vs" h] by auto
  moreover have "list_walk anchor h (Suc i) count y = (min count (Suc i + length vs), (y # vs) ! min (count - Suc i) (length vs))"
    if "i < count"
    using Cons.IH [of "us @ [x]" y "Suc i"] Cons.prems(1) that by simp
  moreover have "min (count - i) (Suc (length vs)) = Suc (min (count - Suc i) (length vs))" if "i < count"
    using that by linarith
  ultimately show ?case using Cons.prems(2) by (auto simp: list_walk.simps [of anchor h i])
qed

text \<open>C25: The intrusive \<^verbatim>\<open>List\<close> implements list operations on the heap of links: for a list that holds
  \<open>xs\<close> and an element outside it whose links are invalidated, \<open>push_back\<close> and \<open>push_front\<close> append and prepend it;
  \<open>pop_front\<close>, \<open>pop_back\<close> and \<open>remove\<close> take out the first, the last or the given element and invalidate its
  links; no assertion fails.\<close>

theorem list_refines:
  assumes rep: "list_rep anchor h xs"
  shows "(e \<notin> set (anchor # xs) \<and> e \<noteq> 0 \<and> Prev h e = 0 \<and> Next h e = 0 \<longrightarrow>
       (\<exists>h'. push_back anchor e h = Some h' \<and> list_rep anchor h' (xs @ [e]))
       \<and> (\<exists>h'. push_front anchor e h = Some h' \<and> list_rep anchor h' (e # xs)))
    \<and> (xs \<noteq> [] \<longrightarrow>
       (\<exists>h'. pop_front anchor h = Some (hd xs, h') \<and> list_rep anchor h' (tl xs) \<and> Prev h' (hd xs) = 0 \<and> Next h' (hd xs) = 0)
       \<and> (\<exists>h'. pop_back anchor h = Some (last xs, h') \<and> list_rep anchor h' (butlast xs)
             \<and> Prev h' (last xs) = 0 \<and> Next h' (last xs) = 0))
    \<and> (e \<in> set xs \<longrightarrow>
       (\<exists>h'. list_remove e h = Some (e, h') \<and> list_rep anchor h' (remove1 e xs) \<and> Prev h' e = 0 \<and> Next h' e = 0))"
proof (intro conjI impI)
  assume "e \<notin> set (anchor # xs) \<and> e \<noteq> 0 \<and> Prev h e = 0 \<and> Next h e = 0"
  then show "\<exists>h'. push_back anchor e h = Some h' \<and> list_rep anchor h' (xs @ [e])"
    and "\<exists>h'. push_front anchor e h = Some h' \<and> list_rep anchor h' (e # xs)"
    using list_push_back [OF rep, of "[e]"] list_push_front [OF rep] rep
    by (auto simp: push_back_def splice_back_def list_rep_def ring_def)
next
  assume ne: "xs \<noteq> []"
  then obtain x ys where xs: "xs = x # ys" by (cases xs) auto
  show "\<exists>h'. pop_front anchor h = Some (hd xs, h') \<and> list_rep anchor h' (tl xs) \<and> Prev h' (hd xs) = 0 \<and> Next h' (hd xs) = 0"
    using list_remove_seg [of anchor h "[]" "[x]" ys] rep list_rep_ends(1,3) [OF rep] by (auto simp: pop_front_def xs)
  obtain zs z where xz: "xs = zs @ [z]" using ne by (cases xs rule: rev_cases) auto
  show "\<exists>h'. pop_back anchor h = Some (last xs, h') \<and> list_rep anchor h' (butlast xs) \<and> Prev h' (last xs) = 0 \<and> Next h' (last xs) = 0"
    using list_remove_seg [of anchor h zs "[z]" "[]"] rep list_rep_ends(2,3) [OF rep] by (auto simp: pop_back_def xz)
next
  assume "e \<in> set xs"
  then obtain us vs where xs: "xs = us @ e # vs" "e \<notin> set us" by (meson split_list_first)
  show "\<exists>h'. list_remove e h = Some (e, h') \<and> list_rep anchor h' (remove1 e xs) \<and> Prev h' e = 0 \<and> Next h' e = 0"
    using list_remove_seg [of anchor h us "[e]" vs] rep by (auto simp: list_remove_def xs remove1_append)
qed

definition list_example :: dheap where
  "list_example = list_new 8 \<lparr>Next = (\<lambda>_. 0), Prev = (\<lambda>_. 0)\<rparr>"

theorem list_refines_witness:
  "\<exists>h'. push_back 8 16 list_example = Some h' \<and> list_rep 8 h' [16]"
  using list_refines [of 8 list_example "[]" 16]
  by (simp add: list_rep_def ring_def list_example_def list_new_def dheap_simps)

text \<open>\<^verbatim>\<open>List::remove(first, count)\<close> takes out the \<open>count\<close> elements that start at \<open>first\<close>, or all
  up to the end of the list with \<open>count\<close> corrected, leaves the others in order, and returns the last element
  taken out.\<close>

theorem list_remove_n_correct:
  assumes rep: "list_rep anchor h (us @ x # vs)" and "1 \<le> count"
  shows "\<exists>h'. list_remove_n anchor x count h =
       Some (last (take count (x # vs)), min count (length (x # vs)), h')
     \<and> list_rep anchor h' (us @ drop count (x # vs))
     \<and> dseg h' (take count (x # vs)) \<and> Next h' (last (take count (x # vs))) = 0"
proof -
  define k where "k = min (count - 1) (length vs)"
  have k: "take (Suc k) (x # vs) = take count (x # vs)" "drop (Suc k) (x # vs) = drop count (x # vs)"
    "k < length (x # vs)" using assms(2) by (cases count; auto simp: k_def min_def)+
  have w: "list_walk anchor h 1 count x = (min count (length (x # vs)), (x # vs) ! k)"
    using list_walk_eq [OF rep assms(2)] by (simp add: k_def)
  have last: "(x # vs) ! k = last (take count (x # vs))"
    unfolding k(1) [symmetric] take_Suc_conv_app_nth [OF k(3)] by simp
  have "list_rep anchor h (us @ take count (x # vs) @ drop count (x # vs))" using rep by simp
  from list_remove_seg [OF this] assms(2) obtain h' where
    "ring_remove x (last (take count (x # vs))) h = Some (last (take count (x # vs)), h')"
    "list_rep anchor h' (us @ drop count (x # vs))" "dseg h' (take count (x # vs))"
    "Next h' (last (take count (x # vs))) = 0" by (cases count) auto
  moreover have "Prev h x \<noteq> 0 \<and> Next h x \<noteq> 0"
    using ring_links_nz(1,2) [of h "anchor # us @ x # vs" x] rep by (simp add: list_rep_def)
  ultimately show ?thesis
    using w last by (simp add: list_remove_n_def)
qed

theorem list_remove_n_correct_witness:
  "\<exists>h'. list_remove_n 8 16 3 \<lparr>Next = (\<lambda>a. if a = 8 then 16 else if a = 16 then 32 else 8),
       Prev = (\<lambda>a. if a = 8 then 32 else if a = 16 then 8 else 16)\<rparr> = Some (32, 2, h') \<and> list_rep 8 h' []"
  using list_remove_n_correct [of 8 "\<lparr>Next = (\<lambda>a. if a = 8 then 16 else if a = 16 then 32 else 8),
       Prev = (\<lambda>a. if a = 8 then 32 else if a = 16 then 8 else 16)\<rparr>" "[]" 16 "[32]" 3]
  by (auto simp: list_rep_def ring_def)

end
