(* ===== verification/Ready_Queue.thy ===== *)
theory Ready_Queue
  imports Fred_Model Basics
begin

text \<open>
  \<^verbatim>\<open>ReadyQueue\<close> of \<^verbatim>\<open>src/src/runtime/BaseProcessor.h\<close> and the searches for a ready fred of
  \<^verbatim>\<open>BaseProcessor.cc\<close>, with load balancing. A processor's ready queue has one FIFO per priority;
  the processors of a scheduler form a ring, here the list of processors in ring order.
\<close>

section \<open>Ready queue\<close>

type_synonym readyq = "nat \<Rightarrow> fid list"   \<comment> \<open>\<open>queue[priority]\<close>\<close>

definition rq_empty :: readyq where "rq_empty = (\<lambda>_. [])"

text \<open>The loop of \<^verbatim>\<open>dequeueInternal\<close> from priority \<open>p\<close> on.\<close>

function dequeue_from :: "nat \<Rightarrow> readyq \<Rightarrow> fid option \<times> readyq" where
  "dequeue_from p q =
     (if p < NumPriority
      then case q p of [] \<Rightarrow> dequeue_from (p + 1) q | f # fs \<Rightarrow> (Some f, q(p := fs))
      else (None, q))"
  by pat_completeness auto
termination by (relation "measure (\<lambda>(p, q). NumPriority - p)") auto

declare dequeue_from.simps [simp del]

definition rq_dequeue :: "readyq \<Rightarrow> fid option \<times> readyq" where
  "rq_dequeue q = dequeue_from 0 q"

function probe_from :: "nat \<Rightarrow> readyq \<Rightarrow> bool" where
  "probe_from p q = (if p < NumPriority then if q p \<noteq> [] then True else probe_from (p + 1) q else False)"
  by pat_completeness auto
termination by (relation "measure (\<lambda>(p, q). NumPriority - p)") auto

declare probe_from.simps [simp del]

definition rq_probe :: "readyq \<Rightarrow> bool" where
  "rq_probe q = probe_from 0 q"

text \<open>\<^verbatim>\<open>tryDequeue\<close>: the parameter says whether \<^verbatim>\<open>tryAcquire\<close> gets the lock.\<close>

definition rq_tryDequeue :: "bool \<Rightarrow> readyq \<Rightarrow> fid option \<times> readyq" where
  "rq_tryDequeue locked q =
     (if \<not> rq_probe q then (None, q) else if \<not> locked then (None, q) else dequeue_from 0 q)"

definition rq_enqueue :: "(fid \<Rightarrow> nat) \<Rightarrow> fid \<Rightarrow> readyq \<Rightarrow> readyq option" where
  "rq_enqueue prio f q =
     do { rassert (prio f < NumPriority); Some (q(prio f := q (prio f) @ [f])) }"

text \<open>All freds in the queue, in the order in which they would be dequeued.\<close>

definition rq_all :: "readyq \<Rightarrow> fid list" where
  "rq_all q = concat (map q [0..<NumPriority])"

lemma NumPriority_upt: "[0..<NumPriority] = [0, 1, 2]"
  by (simp add: NumPriority_def upt_conv_Cons)

lemma rq_all_eq: "rq_all q = q 0 @ q 1 @ q 2"
  by (simp add: rq_all_def NumPriority_upt)

lemma rq_dequeue_unfold:
  "rq_dequeue q =
     (case q 0 of f # fs \<Rightarrow> (Some f, q(0 := fs)) | [] \<Rightarrow>
      case q 1 of f # fs \<Rightarrow> (Some f, q(1 := fs)) | [] \<Rightarrow>
      case q 2 of f # fs \<Rightarrow> (Some f, q(2 := fs)) | [] \<Rightarrow> (None, q))"
  by (simp add: rq_dequeue_def dequeue_from.simps NumPriority_def numeral_2_eq_2 split: list.split)

lemma rq_probe_iff: "rq_probe q \<longleftrightarrow> rq_all q \<noteq> []"
  by (auto simp: rq_probe_def probe_from.simps NumPriority_def numeral_2_eq_2 rq_all_eq)

lemma rq_dequeue_spec:
  "rq_dequeue q = (None, q) \<and> rq_all q = [] \<or>
   (\<exists>f fs q'. rq_dequeue q = (Some f, q') \<and> rq_all q = f # fs \<and> rq_all q' = fs)"
  by (auto simp: rq_dequeue_unfold rq_all_eq split: list.split)



section \<open>Search and work stealing\<close>

text \<open>\<^verbatim>\<open>searchSteal\<close> follows the ring from the processor after \<open>me\<close> until it is back. The map
  \<open>locked\<close> says for each victim whether \<^verbatim>\<open>tryAcquire\<close> succeeds. A stolen fred without affinity moves
  to the thief.\<close>

definition ring_after :: "pid \<Rightarrow> pid list \<Rightarrow> pid list" where
  "ring_after me ring = (case dropWhile (\<lambda>p. p \<noteq> me) ring of [] \<Rightarrow> [] | _ # ps \<Rightarrow> ps @ takeWhile (\<lambda>p. p \<noteq> me) ring)"

fun steal_loop :: "(pid \<Rightarrow> bool) \<Rightarrow> pid list \<Rightarrow> (pid \<Rightarrow> readyq) \<Rightarrow> (pid \<times> fid) option \<times> (pid \<Rightarrow> readyq)" where
  "steal_loop locked [] Q = (None, Q)"
| "steal_loop locked (victim # vs) Q =
     (case rq_tryDequeue (locked victim) (Q victim) of
        (Some f, q) \<Rightarrow> (Some (victim, f), Q(victim := q))
      | (None, q) \<Rightarrow> steal_loop locked vs Q)"

definition searchSteal ::
  "(pid \<Rightarrow> bool) \<Rightarrow> pid \<Rightarrow> pid list \<Rightarrow> (pid \<Rightarrow> readyq) \<Rightarrow> (fid \<Rightarrow> fred) \<Rightarrow> fid option \<times> (pid \<Rightarrow> readyq) \<times> (fid \<Rightarrow> fred)" where
  "searchSteal locked me ring Q F =
     (case steal_loop locked (ring_after me ring) Q of
        (Some (victim, f), Q') \<Rightarrow> (Some f, Q', F(f := snd (checkAffinity me (F f))))
      | (None, Q') \<Rightarrow> (None, Q', F))"

definition searchLocal :: "pid \<Rightarrow> (pid \<Rightarrow> readyq) \<Rightarrow> fid option \<times> (pid \<Rightarrow> readyq)" where
  "searchLocal me Q = (let (r, q) = rq_dequeue (Q me) in (r, Q(me := q)))"

text \<open>\<^verbatim>\<open>searchAll\<close>; the poll of the worker (\<^verbatim>\<open>RuntimeWorkerPoll\<close>) may add ready freds and is a
  parameter.\<close>

definition searchAll ::
  "((pid \<Rightarrow> readyq) \<Rightarrow> bool \<times> (pid \<Rightarrow> readyq)) \<Rightarrow> (pid \<Rightarrow> bool) \<Rightarrow> pid \<Rightarrow> pid list \<Rightarrow> (pid \<Rightarrow> readyq) \<Rightarrow> (fid \<Rightarrow> fred) \<Rightarrow>
     fid option \<times> (pid \<Rightarrow> readyq) \<times> (fid \<Rightarrow> fred)" where
  "searchAll poll locked me ring Q F =
     (case searchLocal me Q of
        (Some f, Q1) \<Rightarrow> (Some f, Q1, F)
      | (None, Q1) \<Rightarrow>
          let (polled, Q2) = poll Q1 in
          (case (if polled then searchLocal me Q2 else (None, Q2)) of
             (Some f, Q3) \<Rightarrow> (Some f, Q3, F)
           | (None, Q3) \<Rightarrow> searchSteal locked me ring Q3 F))"

lemma set_ring_after:
  assumes "distinct ring" and "me \<in> set ring"
  shows "set (ring_after me ring) = set ring - {me}" and "distinct (ring_after me ring)"
proof -
  obtain us vs where r: "ring = us @ me # vs" "me \<notin> set us" using assms(2) by (meson split_list_first)
  have "takeWhile (\<lambda>p. p \<noteq> me) ring = us" "dropWhile (\<lambda>p. p \<noteq> me) ring = me # vs"
    unfolding r(1) using r(2) by (induction us) auto
  then have "ring_after me ring = vs @ us" by (simp add: ring_after_def)
  with assms(1) r show "set (ring_after me ring) = set ring - {me}" "distinct (ring_after me ring)" by auto
qed

lemma rq_tryDequeue_None: "rq_tryDequeue l q = (None, q') \<Longrightarrow> q' = q"
  using rq_dequeue_spec [of q] by (auto simp: rq_tryDequeue_def rq_dequeue_def split: if_splits)

lemma rq_tryDequeue_Some:
  "rq_tryDequeue l q = (Some f, q') \<longleftrightarrow> l \<and> rq_all q \<noteq> [] \<and> rq_dequeue q = (Some f, q')"
  using rq_dequeue_spec [of q] by (auto simp: rq_tryDequeue_def rq_dequeue_def rq_probe_iff)

lemma steal_loop_spec:
  "(\<exists>v us vs f q. ps = us @ v # vs \<and> steal_loop locked ps Q = (Some (v, f), Q(v := q)) \<and> rq_dequeue (Q v) = (Some f, q)
      \<and> locked v \<and> (\<forall>u\<in>set us. locked u \<longrightarrow> rq_all (Q u) = []))
   \<or> steal_loop locked ps Q = (None, Q) \<and> (\<forall>u\<in>set ps. locked u \<longrightarrow> rq_all (Q u) = [])"
proof (induction ps)
  case (Cons p ps)
  obtain r q where t: "rq_tryDequeue (locked p) (Q p) = (r, q)" by fastforce
  show ?case
  proof (cases r)
    case (Some f)
    with t have "locked p" "rq_dequeue (Q p) = (Some f, q)" by (simp_all add: rq_tryDequeue_Some)
    with Some t show ?thesis 
      by (intro disjI1 exI [of _ p] exI [of _ "[]"] exI [of _ ps] exI [of _ f] exI [of _ q]) auto
  next
    case None
    then have e: "locked p \<Longrightarrow> rq_all (Q p) = []"
      using t rq_dequeue_spec [of "Q p"] by (auto simp: rq_tryDequeue_def rq_dequeue_def rq_probe_iff split: if_splits)
    have s: "steal_loop locked (p # ps) Q = steal_loop locked ps Q" using None t by simp
    from Cons.IH show ?thesis
    proof
      assume "\<exists>v us vs f q. ps = us @ v # vs \<and> steal_loop locked ps Q = (Some (v, f), Q(v := q))
        \<and> rq_dequeue (Q v) = (Some f, q) \<and> locked v \<and> (\<forall>u\<in>set us. locked u \<longrightarrow> rq_all (Q u) = [])"
      then obtain v us vs f q where "ps = us @ v # vs" "steal_loop locked ps Q = (Some (v, f), Q(v := q))"
        "rq_dequeue (Q v) = (Some f, q)" "locked v" "\<forall>u\<in>set us. locked u \<longrightarrow> rq_all (Q u) = []" by blast
      with e s show ?thesis 
        by (intro disjI1 exI [of _ v] exI [of _ "p # us"] exI [of _ vs] exI [of _ f] exI [of _ q]) auto
    qed (use e s in auto)
  qed
qed simp

lemma searchLocal_spec:
  "searchLocal me Q = (None, Q) \<and> rq_all (Q me) = [] \<or>
   (\<exists>f q. searchLocal me Q = (Some f, Q(me := q)) \<and> rq_all (Q me) = f # rq_all q)"
  using rq_dequeue_spec [of "Q me"] by (auto simp: searchLocal_def)

lemma searchAll_effect:
  assumes "distinct ring" and "me \<in> set ring" and "searchAll (\<lambda>Q. (False, Q)) locked me ring Q F = (r, Q', F')"
  shows "(r = None \<longleftrightarrow> rq_all (Q me) = [] \<and> (\<forall>v\<in>set ring - {me}. locked v \<longrightarrow> rq_all (Q v) = []))
    \<and> (\<forall>f. r = Some f \<longrightarrow> (\<exists>v\<in>set ring. rq_all (Q v) = f # rq_all (Q' v) \<and> (\<forall>u. u \<noteq> v \<longrightarrow> Q' u = Q u)
          \<and> (v \<noteq> me \<longrightarrow> processor (F' f) = (if affinity (F f) then processor (F f) else me))))"
proof (cases "rq_all (Q me) = []")
  case False
  then obtain f q where s: "searchLocal me Q = (Some f, Q(me := q))" "rq_all (Q me) = f # rq_all q"
    using searchLocal_spec [of me Q] by auto
  with assms have "r = Some f" "Q' = Q(me := q)" by (simp_all add: searchAll_def)
  with s assms(2) show ?thesis by auto
next
  case True
  then have s: "searchLocal me Q = (None, Q)" using searchLocal_spec [of me Q] by auto
  have st: "searchSteal locked me ring Q F = (r, Q', F')" using assms(3) s by (simp add: searchAll_def)
  note ra = set_ring_after [OF assms(1,2)]
  from steal_loop_spec [of "ring_after me ring" locked Q] show ?thesis
  proof (elim disjE exE conjE)
    fix v us vs f q
    assume l: "ring_after me ring = us @ v # vs" "steal_loop locked (ring_after me ring) Q = (Some (v, f), Q(v := q))"
      "rq_dequeue (Q v) = (Some f, q)" "locked v"
    then have "v \<in> set ring - {me}" using ra(1) by auto
    moreover have "r = Some f" "Q' = Q(v := q)" "F' = F(f := snd (checkAffinity me (F f)))"
      using st l(2) by (simp_all add: searchSteal_def)
    moreover have "rq_all (Q v) = f # rq_all q" using rq_dequeue_spec [of "Q v"] l(3) by auto
    ultimately show ?thesis using l(4) by (auto simp: checkAffinity_def)
  next
    assume l: "steal_loop locked (ring_after me ring) Q = (None, Q)"
      "\<forall>u\<in>set (ring_after me ring). locked u \<longrightarrow> rq_all (Q u) = []"
    then have "r = None" using st by (simp add: searchSteal_def)
    with l(2) True ra(1) show ?thesis by auto
  qed
qed

text \<open>C17: Search for work (\<^verbatim>\<open>searchAll\<close> with work stealing, no worker poll): a processor comes back without a
  fred only if its own queue and every queue it could lock on the ring are empty. Otherwise it removes
  exactly one fred, the first in dequeue order of one queue, and leaves every other queue unchanged; a
  stolen fred is moved to the thief unless it has affinity.\<close>

theorem searchAll_finds_work:
  assumes "distinct ring" and "me \<in> set ring" and "searchAll (\<lambda>Q. (False, Q)) locked me ring Q F = (r, Q', F')"
  shows "(r = None \<longleftrightarrow> rq_all (Q me) = [] \<and> (\<forall>v\<in>set ring - {me}. locked v \<longrightarrow> rq_all (Q v) = []))
    \<and> (\<forall>f. r = Some f \<longrightarrow> (\<exists>v\<in>set ring. rq_all (Q v) = f # rq_all (Q' v) \<and> (\<forall>u. u \<noteq> v \<longrightarrow> Q' u = Q u)
          \<and> (v \<noteq> me \<longrightarrow> processor (F' f) = (if affinity (F f) then processor (F f) else me))))"
  by (rule searchAll_effect [OF assms])

definition search_example :: "pid \<Rightarrow> readyq" where
  "search_example = (\<lambda>v. if v = 2 then (\<lambda>p. if p = 1 then [9, 8] else []) else rq_empty)"

theorem searchAll_finds_work_witness:
  "fst (searchAll (\<lambda>Q. (False, Q)) (\<lambda>_. True) 1 [1, 3, 2] search_example (\<lambda>f. new_fred False 0 2)) = Some 9"
proof -
  let ?r = "searchAll (\<lambda>Q. (False, Q)) (\<lambda>_. True) 1 [1, 3, 2] search_example (\<lambda>f. new_fred False 0 2)"
  have "?r = (fst ?r, fst (snd ?r), snd (snd ?r))" by simp
  from searchAll_finds_work [OF _ _ this] have
    "fst ?r \<noteq> None" "\<forall>f. fst ?r = Some f \<longrightarrow> (\<exists>v\<in>{1, 3, 2}. \<exists>q. rq_all (search_example v) = f # q)"
    by (auto simp: search_example_def rq_all_eq)
  then show ?thesis by (auto simp: search_example_def rq_all_eq rq_empty_def)
qed

end
