(* ===== verification/Idle_Manager.thy ===== *)
theory Idle_Manager
  imports Ready_Queue
begin

text \<open>
  The counting \<^verbatim>\<open>IdleManager\<close> of \<^verbatim>\<open>src/src/runtime/Scheduler.h\<close> (load balancing without
  \<^verbatim>\<open>TESTING_GO_IDLEMANAGER\<close>) and the parts of \<^verbatim>\<open>BaseProcessor.cc\<close> that use it. The fred
  counter is updated without a lock before either side enters the queue or the critical section; the step
  relation interleaves all of these, and its invariant shows that the counter never promises a fred that is
  not there and never lets a processor sleep through one that is.
\<close>

section \<open>State and operations\<close>

record idlemgr =
  fredCounter :: int
  waitingProcs :: "pid list"
  waitingFreds :: "fid list"
  halting :: "pid \<Rightarrow> bool"     \<comment> \<open>\<open>BaseProcessor::halting\<close>\<close>

definition new_idlemgr :: idlemgr where
  "new_idlemgr = \<lparr>fredCounter = 0, waitingProcs = [], waitingFreds = [], halting = (\<lambda>_. False)\<rparr>"

text \<open>\<^verbatim>\<open>setHalting\<close> and \<^verbatim>\<open>isHalting\<close> do nothing without \<^verbatim>\<open>TESTING_WAKE_FRED_WORKER\<close>
  (parameter \<open>wake\<close>).\<close>

definition setHalting :: "bool \<Rightarrow> bool \<Rightarrow> pid \<Rightarrow> idlemgr \<Rightarrow> idlemgr" where
  "setHalting wake h p i = (if wake then i\<lparr>halting := (halting i)(p := h)\<rparr> else i)"

definition isHalting :: "bool \<Rightarrow> pid \<Rightarrow> idlemgr \<Rightarrow> bool" where
  "isHalting wake p i = (wake \<and> halting i p)"

text \<open>\<^verbatim>\<open>block\<close> with the lock held: the processor takes a waiting fred, or joins the waiting
  processors and halts. The list insertion requires that the processor is not in a list already.\<close>

definition idle_block :: "bool \<Rightarrow> pid \<Rightarrow> idlemgr \<Rightarrow> (fid option \<times> idlemgr) option" where
  "idle_block wake p i =
     (case waitingFreds i of
        [] \<Rightarrow> do { rassert (p \<notin> set (waitingProcs i));
                    Some (None, (setHalting wake True p i)\<lparr>waitingProcs := p # waitingProcs i\<rparr>) }
      | f # fs \<Rightarrow> Some (Some f, i\<lparr>waitingFreds := fs\<rparr>))"

text \<open>\<^verbatim>\<open>unblock\<close> with the lock held: the result is the processor to wake with the fred.\<close>

definition idle_unblock :: "bool \<Rightarrow> fid \<Rightarrow> pid \<Rightarrow> idlemgr \<Rightarrow> (pid option \<times> idlemgr) option" where
  "idle_unblock wake f nextProc i =
     (case waitingProcs i of
        [] \<Rightarrow> Some (None, i\<lparr>waitingFreds := waitingFreds i @ [f]\<rparr>)
      | p # ps \<Rightarrow>
          if isHalting wake nextProc i
          then do { rassert (nextProc \<in> set (waitingProcs i));
                    Some (Some nextProc, (setHalting wake False nextProc i)\<lparr>waitingProcs := remove1 nextProc (waitingProcs i)\<rparr>) }
          else Some (Some p, (setHalting wake False p i)\<lparr>waitingProcs := ps\<rparr>))"

text \<open>The counter updates of \<^verbatim>\<open>tryGetReadyFred\<close>, \<^verbatim>\<open>getReadyFred\<close> and
  \<^verbatim>\<open>addReadyFred\<close>. True from the first two: a fred is ready; true from the last: a processor must be
  unblocked.\<close>

definition tryGetReadyFred :: "idlemgr \<Rightarrow> bool \<times> idlemgr" where
  "tryGetReadyFred i =
     (if fredCounter i > 0 then (True, i\<lparr>fredCounter := fredCounter i - 1\<rparr>) else (False, i))"

definition getReadyFred :: "idlemgr \<Rightarrow> bool \<times> idlemgr" where
  "getReadyFred i = (fredCounter i > 0, i\<lparr>fredCounter := fredCounter i - 1\<rparr>)"

definition addReadyFred :: "idlemgr \<Rightarrow> bool \<times> idlemgr" where
  "addReadyFred i =
     (let c = fredCounter i + 1 in (\<not> c > 0, i\<lparr>fredCounter := c\<rparr>))"

section \<open>Step relation\<close>

text \<open>
  \<open>ready\<close>: freds in the ready queues. \<open>enqPend\<close>: freds that somebody is about to enqueue
  (\<^verbatim>\<open>enqueueResume\<close> after the counter, or a yielding fred between \<^verbatim>\<open>dequeue\<close> and
  \<^verbatim>\<open>postYield\<close>). \<open>claims\<close>: processors in \<^verbatim>\<open>scheduleBlocking\<close>. \<open>blkPend\<close> and \<open>unbPend\<close>:
  callers on their way into \<open>block\<close> and \<open>unblock\<close>. \<open>delivered\<close>: freds handed to a processor.
\<close>

record idle_sys =
  mgr :: idlemgr
  ready :: nat
  enqPend :: nat
  claims :: nat
  blkPend :: "pid list"
  unbPend :: "(fid \<times> pid) list"
  delivered :: nat

inductive idle_step :: "bool \<Rightarrow> idle_sys \<Rightarrow> idle_sys \<Rightarrow> bool" for wake where
  try_get: "tryGetReadyFred (mgr s) = (True, i) \<Longrightarrow> idle_step wake s (s\<lparr>mgr := i, claims := claims s + 1\<rparr>)"
| get_ready: "getReadyFred (mgr s) = (True, i) \<Longrightarrow> idle_step wake s (s\<lparr>mgr := i, claims := claims s + 1\<rparr>)"
| get_block: "getReadyFred (mgr s) = (False, i) \<Longrightarrow> p \<notin> set (blkPend s) \<Longrightarrow> p \<notin> set (waitingProcs (mgr s)) \<Longrightarrow>
     idle_step wake s (s\<lparr>mgr := i, blkPend := p # blkPend s\<rparr>)"
| block_halt: "p \<in> set (blkPend s) \<Longrightarrow> idle_block wake p (mgr s) = Some (None, i) \<Longrightarrow>
     idle_step wake s (s\<lparr>mgr := i, blkPend := remove1 p (blkPend s)\<rparr>)"
| block_take: "p \<in> set (blkPend s) \<Longrightarrow> idle_block wake p (mgr s) = Some (Some f, i) \<Longrightarrow>
     idle_step wake s (s\<lparr>mgr := i, blkPend := remove1 p (blkPend s), delivered := delivered s + 1\<rparr>)"
| add_enqueue: "addReadyFred (mgr s) = (False, i) \<Longrightarrow> idle_step wake s (s\<lparr>mgr := i, enqPend := enqPend s + 1\<rparr>)"
| add_unblock: "addReadyFred (mgr s) = (True, i) \<Longrightarrow> idle_step wake s (s\<lparr>mgr := i, unbPend := (f, p) # unbPend s\<rparr>)"
| unblock_keep: "(f, p) \<in> set (unbPend s) \<Longrightarrow> idle_unblock wake f p (mgr s) = Some (None, i) \<Longrightarrow>
     idle_step wake s (s\<lparr>mgr := i, unbPend := remove1 (f, p) (unbPend s)\<rparr>)"
| unblock_wake: "(f, p) \<in> set (unbPend s) \<Longrightarrow> idle_unblock wake f p (mgr s) = Some (Some v, i) \<Longrightarrow>
     idle_step wake s (s\<lparr>mgr := i, unbPend := remove1 (f, p) (unbPend s), delivered := delivered s + 1\<rparr>)"
| enqueue: "0 < enqPend s \<Longrightarrow> idle_step wake s (s\<lparr>enqPend := enqPend s - 1, ready := ready s + 1\<rparr>)"
| dequeue: "0 < claims s \<Longrightarrow> 0 < ready s \<Longrightarrow> idle_step wake s (s\<lparr>claims := claims s - 1, ready := ready s - 1\<rparr>)"
| yield_dequeue: "0 < ready s \<Longrightarrow> idle_step wake s (s\<lparr>ready := ready s - 1, enqPend := enqPend s + 1\<rparr>)"

definition idle_init :: idle_sys where
  "idle_init = \<lparr>mgr = new_idlemgr, ready = 0, enqPend = 0, claims = 0, blkPend = [], unbPend = [], delivered = 0\<rparr>"

inductive idle_reach :: "bool \<Rightarrow> idle_sys \<Rightarrow> bool" for wake where
  start: "idle_reach wake idle_init"
| step: "idle_reach wake s \<Longrightarrow> idle_step wake s s' \<Longrightarrow> idle_reach wake s'"

definition idle_lists :: "bool \<Rightarrow> idle_sys \<Rightarrow> bool" where
  "idle_lists wake s \<longleftrightarrow>
     (waitingProcs (mgr s) = [] \<or> waitingFreds (mgr s) = [])
     \<and> distinct (blkPend s @ waitingProcs (mgr s))
     \<and> (wake \<longrightarrow> (\<forall>p. halting (mgr s) p \<longleftrightarrow> p \<in> set (waitingProcs (mgr s))))"

definition idle_balance :: "idle_sys \<Rightarrow> bool" where
  "idle_balance s \<longleftrightarrow>
     int (ready s) + int (enqPend s) - int (claims s) = max (fredCounter (mgr s)) 0
     \<and> int (length (blkPend s)) + int (length (waitingProcs (mgr s)))
        - int (length (unbPend s)) - int (length (waitingFreds (mgr s))) = max (- fredCounter (mgr s)) 0"

lemmas idle_op_defs = tryGetReadyFred_def getReadyFred_def addReadyFred_def Let_def

lemma idle_block_None:
  "idle_block wake p i = Some (None, i') \<longleftrightarrow> waitingFreds i = [] \<and> p \<notin> set (waitingProcs i)
     \<and> i' = (setHalting wake True p i)\<lparr>waitingProcs := p # waitingProcs i\<rparr>"
  by (auto simp: idle_block_def split: list.splits)

lemma idle_block_Some:
  "idle_block wake p i = Some (Some f, i') \<longleftrightarrow>
     (\<exists>fs. waitingFreds i = f # fs \<and> i' = i\<lparr>waitingFreds := fs\<rparr>)"
  by (auto simp: idle_block_def split: list.splits)

lemma idle_unblock_None:
  "idle_unblock wake f p i = Some (None, i') \<longleftrightarrow>
     waitingProcs i = [] \<and> i' = i\<lparr>waitingFreds := waitingFreds i @ [f]\<rparr>"
  by (auto simp: idle_unblock_def split: list.splits if_splits)

lemma idle_unblock_Some:
  "idle_unblock wake f p i = Some (Some v, i') \<longleftrightarrow>
     v \<in> set (waitingProcs i) \<and> (if isHalting wake p i then v = p else v = hd (waitingProcs i))
     \<and> i' = (setHalting wake False v i)\<lparr>waitingProcs := remove1 v (waitingProcs i)\<rparr>"
  by (auto simp: idle_unblock_def split: list.splits if_splits)

lemma setHalting_sel [simp]:
  "fredCounter (setHalting wake h p i) = fredCounter i" "waitingProcs (setHalting wake h p i) = waitingProcs i"
  "waitingFreds (setHalting wake h p i) = waitingFreds i"
  "halting (setHalting wake h p i) = (if wake then (halting i)(p := h) else halting i)"
  by (simp_all add: setHalting_def)

lemma length_remove1_in: "x \<in> set xs \<Longrightarrow> int (length (remove1 x xs)) = int (length xs) - 1"
  using length_pos_if_in_set [of x xs] by (simp add: length_remove1 of_nat_diff Suc_leI)

lemma idle_step_lists: "idle_step wake s s' \<Longrightarrow> idle_lists wake s \<Longrightarrow> idle_lists wake s'"
proof (induction rule: idle_step.induct)
  case (unblock_wake f p s v i)
  then show ?case by (auto simp: idle_unblock_Some idle_lists_def set_remove1_eq dest: in_set_remove1)
qed (auto simp: idle_op_defs idle_block_None idle_block_Some idle_unblock_None idle_lists_def split: if_splits)

lemma idle_step_balance: "idle_step wake s s' \<Longrightarrow> idle_balance s \<Longrightarrow> idle_balance s'"
proof (induction rule: idle_step.induct)
  case (unblock_wake f p s v i)
  then show ?case by (auto simp: idle_unblock_Some idle_balance_def length_remove1_in)
qed (auto simp: idle_op_defs idle_block_None idle_block_Some idle_unblock_None idle_balance_def
    length_remove1_in max_def split: if_splits)

lemma idle_reach_inv: "idle_reach wake s \<Longrightarrow> idle_lists wake s \<and> idle_balance s"
proof (induction rule: idle_reach.induct)
  case start
  show ?case by (simp add: idle_lists_def idle_balance_def idle_init_def new_idlemgr_def)
next
  case (step s s')
  then show ?case using idle_step_lists idle_step_balance by blast
qed

text \<open>The idle manager, under every interleaving of processors looking for work and freds becoming ready:
  a processor that was promised a fred (and spins in \<^verbatim>\<open>scheduleBlocking\<close>) is always backed by a
  fred that is in a ready queue or about to be enqueued; a fred parked in the idle manager is always backed
  by a processor about to pick it up; and while there are more ready freds than promises, every processor
  that sleeps or is about to has somebody on the way to wake it with a fred.\<close>

theorem idle_manager_tokens:
  assumes "idle_reach wake s"
  shows "claims s \<le> ready s + enqPend s
    \<and> (waitingFreds (mgr s) \<noteq> [] \<longrightarrow> length (waitingFreds (mgr s)) + length (unbPend s) \<le> length (blkPend s))
    \<and> (claims s < ready s + enqPend s \<longrightarrow>
         length (blkPend s) + length (waitingProcs (mgr s)) = length (unbPend s) + length (waitingFreds (mgr s)))"
  using idle_reach_inv [OF assms] by (auto simp: idle_lists_def idle_balance_def)

text \<open>The critical sections of the idle manager never violate an assertion: a processor enters the list of
  waiting processors only when it is in no list, and a processor marked as halting is in the list when it is
  removed.\<close>

theorem idle_manager_no_abort:
  assumes "idle_reach wake s"
  shows "(p \<in> set (blkPend s) \<longrightarrow> idle_block wake p (mgr s) \<noteq> None) \<and> idle_unblock wake f q (mgr s) \<noteq> None"
  using idle_reach_inv [OF assms]
  by (auto simp: idle_lists_def idle_block_def idle_unblock_def isHalting_def split: list.splits)

text \<open>A run: processor 1 finds nothing and halts, a fred becomes ready and wakes it.\<close>

definition idle_example :: idle_sys where
  "idle_example = idle_init\<lparr>mgr := new_idlemgr\<lparr>fredCounter := 0, waitingProcs := [1], halting := (\<lambda>_. False)(1 := True)\<rparr>,
     unbPend := [(5, 1)]\<rparr>"

lemma idle_example_reach: "idle_reach True idle_example"
proof -
  have 1: "idle_reach True (idle_init\<lparr>mgr := new_idlemgr\<lparr>fredCounter := -1\<rparr>, blkPend := [1]\<rparr>)"
    using idle_reach.step [OF idle_reach.start idle_step.get_block [of idle_init "new_idlemgr\<lparr>fredCounter := -1\<rparr>" 1]]
    by (simp add: idle_init_def new_idlemgr_def getReadyFred_def)
  have 2: "idle_reach True (idle_init\<lparr>mgr := new_idlemgr\<lparr>fredCounter := -1, waitingProcs := [1], halting := (\<lambda>_. False)(1 := True)\<rparr>\<rparr>)"
    using idle_reach.step [OF 1 idle_step.block_halt
      [of 1 _ True "new_idlemgr\<lparr>fredCounter := -1, waitingProcs := [1], halting := (\<lambda>_. False)(1 := True)\<rparr>"]]
    by (simp add: idle_block_None idle_init_def new_idlemgr_def setHalting_def)
  show ?thesis
    using idle_reach.step [OF 2 idle_step.add_unblock
      [of _ "new_idlemgr\<lparr>fredCounter := 0, waitingProcs := [1], halting := (\<lambda>_. False)(1 := True)\<rparr>" True 5 1]]
    by (simp add: idle_example_def idle_init_def new_idlemgr_def addReadyFred_def)
qed

theorem idle_manager_tokens_witness:
  "claims idle_example \<le> ready idle_example + enqPend idle_example"
  using idle_manager_tokens [OF idle_example_reach] by simp

theorem idle_manager_no_abort_witness:
  "idle_unblock True 5 1 (mgr idle_example) \<noteq> None"
  using idle_manager_no_abort [OF idle_example_reach] by blast

end
