(* ===== verification/Benaphore_Sync.thy ===== *)
theory Benaphore_Sync
  imports Locked_Sync
begin

text \<open>
  \<^verbatim>\<open>Benaphore\<close> (\<^verbatim>\<open>src/src/runtime/Benaphore.h\<close>) and the synchronization types of
  \<^verbatim>\<open>src/src/runtime/BlockingSync.h\<close> built from it: \<^verbatim>\<open>LimitedSemaphore0\<close>, \<^verbatim>\<open>SimpleMutex0\<close>,
  \<^verbatim>\<open>FredBenaphore\<close> and \<^verbatim>\<open>SpinSemMutex\<close>, the default \<^verbatim>\<open>FastMutex\<close>. The lock-free queue behind
  \<^verbatim>\<open>LimitedSemaphore0\<close> is the list of its elements (theory \<open>Lock_Free\<close>); a fred is suspended from its
  push until it is popped and resumed.
\<close>

section \<open>Benaphore\<close>

definition ben_P :: "int \<Rightarrow> bool \<times> int" where
  "ben_P c = (c > 0, c - 1)"

definition ben_tryP :: "int \<Rightarrow> bool \<times> int" where
  "ben_tryP c = (if c \<ge> 1 then (True, c - 1) else (False, c))"

text \<open>\<^verbatim>\<open>V\<close>: counting, and binary (the counter never exceeds 1).\<close>

definition ben_V :: "bool \<Rightarrow> int \<Rightarrow> (bool \<times> int) option" where
  "ben_V binary c =
     (if \<not> binary then Some (c + 1 > 0, c + 1)
      else if c = 0 then Some (True, 1)
      else if c < 0 then Some (False, c + 1)
      else do { rassert (c = 1); Some (True, c) })"

section \<open>LimitedSemaphore0 and the semaphore interface\<close>

text \<open>\<^verbatim>\<open>P\<close> enqueues the caller and suspends it; a call with a deadline aborts. One round of \<^verbatim>\<open>V\<close> is
  \<^verbatim>\<open>tryV\<close>: it returns the fred that is resumed, or nothing, and then \<^verbatim>\<open>V\<close> tries again.\<close>

definition ls0_P :: "wait_arg \<Rightarrow> fid \<Rightarrow> fid list \<Rightarrow> fid list option" where
  "ls0_P arg cf q = do { rassert (arg = Wait); Some (q @ [cf]) }"

definition ls0_tryV :: "fid list \<Rightarrow> fid option \<times> fid list" where
  "ls0_tryV q = (case q of [] \<Rightarrow> (None, []) | f # fs \<Rightarrow> (Some f, fs))"

section \<open>Counting freds\<close>

definition cnt :: "(fid \<Rightarrow> 'p) \<Rightarrow> 'p \<Rightarrow> int" where
  "cnt pc c = int (card {f. pc f = c})"

lemma cnt_upd:
  assumes "finite {g. pc g = c}"
  shows "cnt (pc(f := d)) c = cnt pc c + of_bool (d = c) - of_bool (pc f = c)"
proof -
  have "{g. (pc(f := d)) g = c} = (if d = c then insert f {g. pc g = c} else {g. pc g = c} - {f})" by auto
  then show ?thesis
    using assms card_Suc_Diff1 [OF assms, of f] by (auto simp: cnt_def insert_absorb)
qed

lemma cnt_pos: "finite {g. pc g = c} \<Longrightarrow> 0 < cnt pc c \<longleftrightarrow> (\<exists>f. pc f = c)"
  by (auto simp: cnt_def card_gt_0_iff)

lemma cnt_nonneg [simp]: "0 \<le> cnt pc c"
  by (simp add: cnt_def)

lemma cnt_le1_unique:
  assumes "cnt pc c \<le> 1" and "finite {g. pc g = c}" and "pc f = c" and "pc h = c"
  shows "f = h"
  using assms by (auto simp: cnt_def card_le_Suc0_iff_eq)

lemma finite_upd_stage:
  assumes "finite {g. pc g \<noteq> z}"
  shows "finite {g. (pc(f := d)) g \<noteq> z}"
  by (rule finite_subset [OF _ finite.insertI [OF assms, of f]]) auto

lemma finite_stage: "finite {g. pc g \<noteq> z} \<Longrightarrow> c \<noteq> z \<Longrightarrow> finite {g. pc g = c}"
  by (erule rev_finite_subset) auto

section \<open>SimpleMutex0\<close>

record smutex0 =
  sm_ben :: int
  sm_queue :: "fid list"

definition new_smutex0 :: smutex0 where
  "new_smutex0 = \<lparr>sm_ben = 1, sm_queue = []\<rparr>"

definition sm_reset :: "smutex0 \<Rightarrow> smutex0 option" where
  "sm_reset m = do { rassert (sm_ben m = 1); rassert (sm_queue m = []); Some m }"

text \<open>\<^verbatim>\<open>acquire\<close>: the benaphore (true: acquired), then the entry into the semaphore's queue. \<^verbatim>\<open>release\<close>: the
  benaphore (true: done), then rounds of \<^verbatim>\<open>V\<close> that pass the mutex to the first fred.\<close>

definition sm_acquire1 :: "smutex0 \<Rightarrow> bool \<times> smutex0" where
  "sm_acquire1 m = (let (r, c) = ben_P (sm_ben m) in (r, m\<lparr>sm_ben := c\<rparr>))"

definition sm_acquire2 :: "fid \<Rightarrow> smutex0 \<Rightarrow> smutex0 option" where
  "sm_acquire2 cf m = do { q \<leftarrow> ls0_P Wait cf (sm_queue m); Some (m\<lparr>sm_queue := q\<rparr>) }"

definition sm_tryAcquire :: "smutex0 \<Rightarrow> bool \<times> smutex0" where
  "sm_tryAcquire m = (let (r, c) = ben_tryP (sm_ben m) in (r, m\<lparr>sm_ben := c\<rparr>))"

definition sm_release1 :: "smutex0 \<Rightarrow> (bool \<times> smutex0) option" where
  "sm_release1 m = do { (r, c) \<leftarrow> ben_V False (sm_ben m); Some (r, m\<lparr>sm_ben := c\<rparr>) }"

definition sm_release2 :: "smutex0 \<Rightarrow> fid option \<times> smutex0" where
  "sm_release2 m = (let (r, q) = ls0_tryV (sm_queue m) in (r, m\<lparr>sm_queue := q\<rparr>))"

datatype sm_pc = SmOut | SmPush | SmWait | SmHold | SmPop

record sm_sys =
  smx :: smutex0
  smpc :: "fid \<Rightarrow> sm_pc"

inductive sm_step :: "sm_sys \<Rightarrow> sm_sys \<Rightarrow> bool" where
  acquire1: "smpc s cf = SmOut \<Longrightarrow> sm_acquire1 (smx s) = (r, m) \<Longrightarrow>
     sm_step s (s\<lparr>smx := m, smpc := (smpc s)(cf := if r then SmHold else SmPush)\<rparr>)"
| acquire2: "smpc s cf = SmPush \<Longrightarrow> sm_acquire2 cf (smx s) = Some m \<Longrightarrow>
     sm_step s (s\<lparr>smx := m, smpc := (smpc s)(cf := SmWait)\<rparr>)"
| try_ok: "smpc s cf = SmOut \<Longrightarrow> sm_tryAcquire (smx s) = (True, m) \<Longrightarrow>
     sm_step s (s\<lparr>smx := m, smpc := (smpc s)(cf := SmHold)\<rparr>)"
| release1: "smpc s cf = SmHold \<Longrightarrow> sm_release1 (smx s) = Some (r, m) \<Longrightarrow>
     sm_step s (s\<lparr>smx := m, smpc := (smpc s)(cf := if r then SmOut else SmPop)\<rparr>)"
| release2: "smpc s cf = SmPop \<Longrightarrow> sm_release2 (smx s) = (Some f, m) \<Longrightarrow>
     sm_step s (s\<lparr>smx := m, smpc := (smpc s)(cf := SmOut, f := SmHold)\<rparr>)"

inductive sm_reach :: "sm_sys \<Rightarrow> bool" where
  start: "sm_reach \<lparr>smx = new_smutex0, smpc = (\<lambda>_. SmOut)\<rparr>"
| step: "sm_reach s \<Longrightarrow> sm_step s s' \<Longrightarrow> sm_reach s'"

text \<open>The counter is one less for each fred that holds the mutex or is committed to wait for it.\<close>

definition sm_inv :: "sm_sys \<Rightarrow> bool" where
  "sm_inv s \<longleftrightarrow> finite {f. smpc s f \<noteq> SmOut} \<and> distinct (sm_queue (smx s)) \<and> set (sm_queue (smx s)) = {f. smpc s f = SmWait}
     \<and> sm_ben (smx s) = 1 - cnt (smpc s) SmHold - cnt (smpc s) SmPush - cnt (smpc s) SmWait
     \<and> cnt (smpc s) SmPop \<le> cnt (smpc s) SmPush + cnt (smpc s) SmWait
     \<and> cnt (smpc s) SmHold + cnt (smpc s) SmPop \<le> 1
     \<and> (cnt (smpc s) SmHold + cnt (smpc s) SmPop = 0 \<longrightarrow> cnt (smpc s) SmPush + cnt (smpc s) SmWait = 0)"

lemma sm_invD:
  assumes "sm_inv s"
  shows "finite {f. smpc s f \<noteq> SmOut}" and "distinct (sm_queue (smx s))" and "f \<in> set (sm_queue (smx s)) \<longleftrightarrow> smpc s f = SmWait"
    and "sm_ben (smx s) = 1 - cnt (smpc s) SmHold - cnt (smpc s) SmPush - cnt (smpc s) SmWait"
    and "cnt (smpc s) SmPop \<le> cnt (smpc s) SmPush + cnt (smpc s) SmWait"
    and "cnt (smpc s) SmHold + cnt (smpc s) SmPop \<le> 1"
    and "c \<noteq> SmOut \<Longrightarrow> cnt ((smpc s)(f := d)) c = cnt (smpc s) c + of_bool (d = c) - of_bool (smpc s f = c)"
    and "cnt (smpc s) SmHold + cnt (smpc s) SmPop = 0 \<longrightarrow> cnt (smpc s) SmPush + cnt (smpc s) SmWait = 0"
proof -
  show fin: "finite {f. smpc s f \<noteq> SmOut}" using assms by (simp add: sm_inv_def)
  show "cnt ((smpc s)(f := d)) c = cnt (smpc s) c + of_bool (d = c) - of_bool (smpc s f = c)" if "c \<noteq> SmOut"
    by (rule cnt_upd [OF finite_stage [OF fin that]])
qed (use assms in \<open>auto simp: sm_inv_def\<close>)

text \<open>A change of one fred's stage, given the effect on the counts.\<close>

lemma sm_inv_move:
  assumes inv: "sm_inv s" and f: "smpc s f = c" and q: "distinct (sm_queue m)"
    and qs: "\<And>g. g \<in> set (sm_queue m) \<longleftrightarrow> ((smpc s)(f := d)) g = SmWait"
    and b: "sm_ben m + of_bool (d \<in> {SmHold, SmPush, SmWait}) = sm_ben (smx s) + of_bool (c \<in> {SmHold, SmPush, SmWait})"
    and k: "d = SmPop \<Longrightarrow> c = SmHold \<and> sm_ben m \<le> 0" and h: "d = SmHold \<Longrightarrow> sm_ben (smx s) > 0"
    and g: "d = SmPush \<Longrightarrow> sm_ben (smx s) \<le> 0" "d = SmOut \<Longrightarrow> sm_ben m > 0"
    and c: "c = SmOut \<and> d \<in> {SmHold, SmPush} \<or> c = SmPush \<and> d = SmWait \<or> c = SmHold \<and> d \<in> {SmOut, SmPop}"
  shows "sm_inv (s\<lparr>smx := m, smpc := (smpc s)(f := d)\<rparr>)"
proof -
  note D = sm_invD [OF inv]
  have nn: "0 \<le> cnt (smpc s) SmHold" "0 \<le> cnt (smpc s) SmPush" "0 \<le> cnt (smpc s) SmWait" "0 \<le> cnt (smpc s) SmPop"
    by simp_all
  have hp: "c = SmHold \<Longrightarrow> 1 \<le> cnt (smpc s) SmHold"
    using cnt_pos [OF finite_stage [OF D(1)], of SmHold] f by force
  note u = D(7) [of SmHold f d] D(7) [of SmPush f d] D(7) [of SmWait f d] D(7) [of SmPop f d]
  have "sm_ben m = 1 - cnt ((smpc s)(f := d)) SmHold - cnt ((smpc s)(f := d)) SmPush - cnt ((smpc s)(f := d)) SmWait
    \<and> cnt ((smpc s)(f := d)) SmPop \<le> cnt ((smpc s)(f := d)) SmPush + cnt ((smpc s)(f := d)) SmWait
    \<and> cnt ((smpc s)(f := d)) SmHold + cnt ((smpc s)(f := d)) SmPop \<le> 1
    \<and> (cnt ((smpc s)(f := d)) SmHold + cnt ((smpc s)(f := d)) SmPop = 0
        \<longrightarrow> cnt ((smpc s)(f := d)) SmPush + cnt ((smpc s)(f := d)) SmWait = 0)"
    using c b k h g hp D(4-6,8) nn f u by (auto simp del: fun_upd_apply cnt_nonneg)
  moreover have "set (sm_queue m) = {g. ((smpc s)(f := d)) g = SmWait}" using qs by blast
  ultimately show ?thesis
    using finite_upd_stage [OF D(1), of f d] q unfolding sm_inv_def by (simp del: fun_upd_apply)
qed

lemma sm_inv_pass:
  assumes inv: "sm_inv s" and cf: "smpc s cf = SmPop" and r: "sm_release2 (smx s) = (Some f, m)"
  shows "sm_inv (s\<lparr>smx := m, smpc := (smpc s)(cf := SmOut, f := SmHold)\<rparr>)"
proof -
  note D = sm_invD [OF inv]
  define pc where "pc = (smpc s)(cf := SmOut)"
  obtain fs where q: "sm_queue (smx s) = f # fs" "m = (smx s)\<lparr>sm_queue := fs\<rparr>"
    using r by (auto simp: sm_release2_def ls0_tryV_def split: list.splits)
  have f: "smpc s f = SmWait" using D(3) [of f] q by simp
  have pf: "pc f = SmWait" using f cf by (auto simp: pc_def)
  have fin: "finite {g. pc g \<noteq> SmOut}" unfolding pc_def by (rule finite_upd_stage [OF D(1)])
  have u: "cnt (pc(f := SmHold)) c = cnt (smpc s) c - of_bool (c = SmPop) + of_bool (c = SmHold) - of_bool (c = SmWait)"
    if "c \<noteq> SmOut" for c
    using cnt_upd [OF finite_stage [OF fin that], of f SmHold] D(7) [OF that, of cf SmOut] that cf pf
    by (auto simp: pc_def simp del: fun_upd_apply)
  have "g \<in> set fs \<longleftrightarrow> (pc(f := SmHold)) g = SmWait" for g
    using D(2) D(3) [of g] q(1) cf by (auto simp: pc_def)
  then have "set fs = {g. (pc(f := SmHold)) g = SmWait}" by blast
  moreover have "finite {g. (pc(f := SmHold)) g \<noteq> SmOut}" by (rule finite_upd_stage [OF fin])
  moreover have "cnt (smpc s) SmPop > 0" using cnt_pos [OF finite_stage [OF D(1)], of SmPop] cf by auto
  moreover have "0 \<le> cnt (smpc s) SmHold" by simp
  ultimately show ?thesis
    using D(2,4-6,8) u unfolding sm_inv_def q(2) by (simp add: q(1) flip: pc_def del: fun_upd_apply cnt_nonneg)
qed

lemma sm_step_inv:
  assumes "sm_step s s'" and inv: "sm_inv s"
  shows "sm_inv s'"
  using assms(1)
proof (cases rule: sm_step.cases)
  case (acquire1 cf r m)
  have m: "m = (smx s)\<lparr>sm_ben := sm_ben (smx s) - 1\<rparr>" "r \<longleftrightarrow> sm_ben (smx s) > 0"
    using acquire1(3) by (auto simp: sm_acquire1_def ben_P_def)
  have "sm_inv (s\<lparr>smx := m, smpc := (smpc s)(cf := if r then SmHold else SmPush)\<rparr>)"
    using sm_invD(2,3) [OF inv] acquire1(2) m
    by (intro sm_inv_move [OF inv acquire1(2)]) auto
  with acquire1(1) show ?thesis by simp
next
  case (acquire2 cf m)
  have m: "m = (smx s)\<lparr>sm_queue := sm_queue (smx s) @ [cf]\<rparr>"
    using acquire2(3) by (simp add: sm_acquire2_def ls0_P_def)
  have "cf \<notin> set (sm_queue (smx s))" using sm_invD(3) [OF inv, of cf] acquire2(2) by simp
  then have "sm_inv (s\<lparr>smx := m, smpc := (smpc s)(cf := SmWait)\<rparr>)"
    using sm_invD(2,3) [OF inv] acquire2(2) m
    by (intro sm_inv_move [OF inv acquire2(2)]) auto
  with acquire2(1) show ?thesis by simp
next
  case (try_ok cf m)
  have m: "m = (smx s)\<lparr>sm_ben := sm_ben (smx s) - 1\<rparr>" "sm_ben (smx s) > 0"
    using try_ok(3) by (auto simp: sm_tryAcquire_def ben_tryP_def split: if_splits)
  have "sm_inv (s\<lparr>smx := m, smpc := (smpc s)(cf := SmHold)\<rparr>)"
    using sm_invD(2,3) [OF inv] try_ok(2) m by (intro sm_inv_move [OF inv try_ok(2)]) auto
  with try_ok(1) show ?thesis by simp
next
  case (release1 cf r m)
  have m: "m = (smx s)\<lparr>sm_ben := sm_ben (smx s) + 1\<rparr>" "r \<longleftrightarrow> sm_ben m > 0"
    using release1(3) by (auto simp: sm_release1_def ben_V_def)
  have "sm_inv (s\<lparr>smx := m, smpc := (smpc s)(cf := if r then SmOut else SmPop)\<rparr>)"
    using sm_invD(2,3) [OF inv] release1(2) m
    by (intro sm_inv_move [OF inv release1(2)]) auto
  with release1(1) show ?thesis by simp
next
  case (release2 cf f m)
  then show ?thesis using sm_inv_pass [OF inv release2(2,3)] by simp
qed

lemma sm_reach_inv: "sm_reach s \<Longrightarrow> sm_inv s"
proof (induction rule: sm_reach.induct)
  case start
  then show ?case by (simp add: sm_inv_def new_smutex0_def cnt_def)
qed (rule sm_step_inv)

interpretation smx: mutex sm_reach sm_step "\<lambda>s f. smpc s f = SmHold"
proof
  fix s f g assume "sm_reach s" and h: "smpc s f = SmHold" "smpc s g = SmHold"
  then have "sm_inv s" by (intro sm_reach_inv)
  note D = sm_invD [OF this]
  have "cnt (smpc s) SmHold \<le> 1" using D(6) cnt_nonneg [of "smpc s" SmPop] by linarith
  then show "f = g" using cnt_le1_unique [OF _ finite_stage [OF D(1)] h] by simp
qed (rule sm_reach.step)

text \<open>\<^verbatim>\<open>SimpleMutex0\<close>, after any interleaving: at most one fred holds the mutex or is passing it on; a fred
  that passes the mutex on never does so in vain, because some fred is committed to wait; freds only wait
  while another one holds or passes the mutex; and the mutex goes to the fred at the front of the queue.\<close>

theorem simple_mutex_exclusion:
  assumes "sm_reach s"
  shows "(\<forall>f g. smpc s f \<in> {SmHold, SmPop} \<and> smpc s g \<in> {SmHold, SmPop} \<longrightarrow> f = g)
    \<and> (\<forall>f. smpc s f = SmPop \<longrightarrow> (\<exists>g. smpc s g \<in> {SmPush, SmWait}))
    \<and> ((\<exists>g. smpc s g \<in> {SmPush, SmWait}) \<longrightarrow> (\<exists>f. smpc s f \<in> {SmHold, SmPop}))
    \<and> (sm_queue (smx s) \<noteq> [] \<longrightarrow> fst (sm_release2 (smx s)) = Some (hd (sm_queue (smx s))))"
proof -
  have inv: "sm_inv s" by (rule sm_reach_inv [OF assms])
  note D = sm_invD [OF inv]
  have ex: "0 < cnt (smpc s) c \<longleftrightarrow> (\<exists>f. smpc s f = c)" if "c \<noteq> SmOut" for c
    by (rule cnt_pos [OF finite_stage [OF D(1) that]])
  have uniq: "f = g" if "smpc s f = c" "smpc s g = c" "c = SmHold \<or> c = SmPop" for f g c
  proof -
    have "cnt (smpc s) SmHold \<le> 1" "cnt (smpc s) SmPop \<le> 1"
      using D(6) cnt_nonneg [of "smpc s" SmHold] cnt_nonneg [of "smpc s" SmPop] by linarith+
    with that show ?thesis by (intro cnt_le1_unique [of "smpc s" c] finite_stage [OF D(1)]) auto
  qed
  have not_both: "\<not> ((\<exists>f. smpc s f = SmHold) \<and> (\<exists>f. smpc s f = SmPop))"
    using ex [of SmHold] ex [of SmPop] D(6) by auto
  have c1: "f = g" if "smpc s f \<in> {SmHold, SmPop}" "smpc s g \<in> {SmHold, SmPop}" for f g
    using that uniq not_both by blast
  have c2: "\<exists>g. smpc s g \<in> {SmPush, SmWait}" if "smpc s f = SmPop" for f
  proof -
    have "0 < cnt (smpc s) SmPush + cnt (smpc s) SmWait" using ex [of SmPop] that D(5) by force
    then have "0 < cnt (smpc s) SmPush \<or> 0 < cnt (smpc s) SmWait" by linarith
    then show ?thesis using ex by blast
  qed
  have c3: "\<exists>f. smpc s f \<in> {SmHold, SmPop}" if "smpc s g \<in> {SmPush, SmWait}" for g
  proof -
    have "0 < cnt (smpc s) SmPush \<or> 0 < cnt (smpc s) SmWait" using ex that by blast
    then have "0 < cnt (smpc s) SmHold \<or> 0 < cnt (smpc s) SmPop"
      using D(8) cnt_nonneg [of "smpc s"] by (metis add_nonneg_eq_0_iff order_le_less)
    then show ?thesis using ex by blast
  qed
  have c4: "fst (sm_release2 (smx s)) = Some (hd (sm_queue (smx s)))" if "sm_queue (smx s) \<noteq> []"
    using that by (auto simp: sm_release2_def ls0_tryV_def split: list.splits)
  show ?thesis by (intro conjI, use c1 in blast, use c2 in blast, use c3 in blast, use c4 in blast)
qed

text \<open>A run: fred 4 takes the mutex, fred 5 waits for it.\<close>

definition sm_example :: sm_sys where
  "sm_example = \<lparr>smx = \<lparr>sm_ben = -1, sm_queue = [5]\<rparr>, smpc = (\<lambda>_. SmOut)(4 := SmHold, 5 := SmWait)\<rparr>"

lemma sm_example_reach: "sm_reach sm_example"
proof -
  let ?s0 = "\<lparr>smx = new_smutex0, smpc = (\<lambda>_. SmOut)\<rparr>"
  let ?s1 = "\<lparr>smx = \<lparr>sm_ben = 0, sm_queue = []\<rparr>, smpc = (\<lambda>_. SmOut)(4 := SmHold)\<rparr>"
  let ?s2 = "\<lparr>smx = \<lparr>sm_ben = -1, sm_queue = []\<rparr>, smpc = (\<lambda>_. SmOut)(4 := SmHold, 5 := SmPush)\<rparr>"
  have "sm_reach ?s1"
    by (rule sm_reach.step [OF sm_reach.start])
      (use sm_step.acquire1 [of ?s0 4 True "smx ?s1"] in \<open>simp add: sm_acquire1_def ben_P_def new_smutex0_def\<close>)
  then have "sm_reach ?s2"
    by (rule sm_reach.step) (use sm_step.acquire1 [of ?s1 5 False "smx ?s2"] in \<open>simp add: sm_acquire1_def ben_P_def\<close>)
  then show ?thesis
    by (rule sm_reach.step)
      (use sm_step.acquire2 [of ?s2 5 "smx sm_example"] in \<open>simp add: sm_acquire2_def ls0_P_def sm_example_def\<close>)
qed

theorem simple_mutex_exclusion_witness:
  "fst (sm_release2 (smx sm_example)) = Some 5 \<and> (\<exists>f. smpc sm_example f \<in> {SmHold, SmPop})"
proof -
  have "smpc sm_example 5 = SmWait" "sm_queue (smx sm_example) = [5]" by (simp_all add: sm_example_def)
  with simple_mutex_exclusion [OF sm_example_reach] show ?thesis by auto
qed

end
