(* ===== verification/Go_Idle.thy ===== *)
theory Go_Idle
  imports Benaphore_Sync Ready_Queue
begin

text \<open>
  The \<^verbatim>\<open>IdleManager\<close> selected by \<^verbatim>\<open>TESTING_GO_IDLEMANAGER\<close> (the setting of
  \<^verbatim>\<open>src/src/runtime/testoptions.h\<close>), in \<^verbatim>\<open>src/src/runtime/Scheduler.h\<close>, with \<^verbatim>\<open>scheduleIdle\<close>,
  \<^verbatim>\<open>halt\<close>, \<^verbatim>\<open>wake\<close> and \<^verbatim>\<open>enqueueResume\<close> of \<^verbatim>\<open>BaseProcessor\<close>. Each atomic access, critical section and
  visit of a ready queue is one step; any number of resuming threads run \<^verbatim>\<open>unblock\<close> at the same time.
\<close>

section \<open>The idle manager\<close>

record goidle =
  spinCounter :: int
  waitCounter :: int
  goProcs :: "pid list"          \<comment> \<open>\<open>waitingProcs\<close>\<close>
  goHalting :: "pid \<Rightarrow> bool"    \<comment> \<open>\<open>BaseProcessor::halting\<close>\<close>

definition new_goidle :: goidle where
  "new_goidle = \<lparr>spinCounter = 0, waitCounter = 0, goProcs = [], goHalting = (\<lambda>_. False)\<rparr>"

definition incSpinning :: "goidle \<Rightarrow> goidle" where "incSpinning i = i\<lparr>spinCounter := spinCounter i + 1\<rparr>"
definition decSpinning :: "goidle \<Rightarrow> goidle" where "decSpinning i = i\<lparr>spinCounter := spinCounter i - 1\<rparr>"
definition incWaiting :: "goidle \<Rightarrow> goidle" where "incWaiting i = i\<lparr>waitCounter := waitCounter i + 1\<rparr>"
definition decWaiting :: "goidle \<Rightarrow> goidle" where "decWaiting i = i\<lparr>waitCounter := waitCounter i - 1\<rparr>"

text \<open>\<^verbatim>\<open>unblockSpin\<close>: true when the caller was the last spinning processor and goes on to \<^verbatim>\<open>unblock\<close>.\<close>

definition unblockSpin :: "goidle \<Rightarrow> bool \<times> goidle" where
  "unblockSpin i = (spinCounter i - 1 = 0, i\<lparr>spinCounter := spinCounter i - 1\<rparr>)"

definition goHalt :: "bool \<Rightarrow> bool \<Rightarrow> pid \<Rightarrow> goidle \<Rightarrow> goidle" where
  "goHalt wfw h p i = (if wfw then i\<lparr>goHalting := (goHalting i)(p := h)\<rparr> else i)"

text \<open>\<^verbatim>\<open>block\<close> with the lock held; the list insertion requires that the processor is in no list.\<close>

definition go_block :: "bool \<Rightarrow> pid \<Rightarrow> goidle \<Rightarrow> goidle option" where
  "go_block wfw p i =
     do { rassert (p \<notin> set (goProcs i)); Some ((goHalt wfw True p i)\<lparr>goProcs := p # goProcs i\<rparr>) }"

text \<open>One round of the loop of \<^verbatim>\<open>unblock\<close> whose attempt at the lock succeeds: the loop is left without a
  wake-up, tried again, or a processor has been taken off the list and must be woken.\<close>

datatype unblock_round = UDone | UAgain | UWake pid

definition go_pick :: "bool \<Rightarrow> pid option \<Rightarrow> pid \<Rightarrow> goidle \<Rightarrow> pid" where
  "go_pick wfw nextProc first i =
     (case nextProc of None \<Rightarrow> first | Some q \<Rightarrow> if wfw \<and> goHalting i q then q else first)"

definition go_unblock :: "bool \<Rightarrow> pid option \<Rightarrow> goidle \<Rightarrow> (unblock_round \<times> goidle) option" where
  "go_unblock wfw nextProc i =
     (if \<not> waitCounter i > 0 then Some (UDone, i)
      else if goProcs i = [] then Some (UAgain, i)
      else let v = go_pick wfw nextProc (hd (goProcs i)) i in
        do { rassert (v \<in> set (goProcs i));
             Some (UWake v, (goHalt wfw False v i)\<lparr>goProcs := remove1 v (goProcs i)\<rparr>) })"

section \<open>Processors\<close>

text \<open>
  The position of a processor: \<open>GOff\<close> not part of the cluster; \<open>GBusy\<close> running a fred; in \<^verbatim>\<open>scheduleIdle\<close>:
  \<open>GSpin\<close> counted as spinning, \<open>GFound\<close> with a fred found there, \<open>GIdle\<close> no longer counted as spinning,
  \<open>GScan\<close> counted as waiting and searching a last time, \<open>GFoundW\<close> with a fred found there, \<open>GBlk\<close> before
  \<^verbatim>\<open>block\<close>, \<open>GHalt\<close> on the list, \<open>GWake\<close> taken off the list, \<open>GPost\<close> no longer counted as waiting and
  before the \<^verbatim>\<open>V\<close> on its semaphore.

  \<open>scan p\<close>: the ready queues that the last search of \<open>p\<close> has not visited. \<open>rq q\<close>: freds in the ready queue
  of \<open>q\<close>. \<open>unb\<close>: the \<^verbatim>\<open>unblock\<close> calls in their loop.
\<close>

datatype go_pc = GOff | GBusy | GSpin | GFound | GIdle | GScan | GFoundW | GBlk | GHalt | GWake | GPost

record go_sys =
  goi :: goidle
  gopc :: "pid \<Rightarrow> go_pc"
  scan :: "pid \<Rightarrow> pid set"
  rq :: "pid \<Rightarrow> nat"
  unb :: nat

abbreviation "go_at s i p c \<equiv> s\<lparr>goi := i, gopc := (gopc s)(p := c)\<rparr>"
abbreviation "go_take s q \<equiv> s\<lparr>rq := (rq s)(q := rq s q - 1)\<rparr>"

text \<open>A processor that may hold the lock of ready queue \<open>q\<close>, so that \<^verbatim>\<open>tryDequeue\<close> of another one fails.\<close>

definition go_visits :: "go_sys \<Rightarrow> pid \<Rightarrow> pid \<Rightarrow> bool" where
  "go_visits s p q \<longleftrightarrow> gopc s p \<in> {GBusy, GSpin} \<or> gopc s p = GScan \<and> q \<in> scan s p"

inductive go_step :: "bool \<Rightarrow> go_sys \<Rightarrow> go_sys \<Rightarrow> bool" for wfw where
  enqueueResume: "gopc s q \<noteq> GOff \<Longrightarrow> go_step wfw s (s\<lparr>rq := (rq s)(q := rq s q + 1), unb := unb s + 1\<rparr>)"
| enqueueYield: "gopc s p = GBusy \<Longrightarrow> gopc s q \<noteq> GOff \<Longrightarrow> go_step wfw s (s\<lparr>rq := (rq s)(q := rq s q + 1)\<rparr>)"
| schedule: "gopc s p = GBusy \<Longrightarrow> 0 < rq s q \<Longrightarrow> go_step wfw s (go_take s q)"
| spin: "gopc s p = GBusy \<Longrightarrow> go_step wfw s (go_at s (incSpinning (goi s)) p GSpin)"
| spin_found: "gopc s p = GSpin \<Longrightarrow> 0 < rq s q \<Longrightarrow> go_step wfw s (go_at (go_take s q) (goi s) p GFound)"
| spin_last: "gopc s p = GFound \<Longrightarrow> unblockSpin (goi s) = (r, i) \<Longrightarrow>
     go_step wfw s ((go_at s i p GBusy)\<lparr>unb := unb s + (if r then 1 else 0)\<rparr>)"
| spin_end: "gopc s p = GSpin \<Longrightarrow> go_step wfw s (go_at s (decSpinning (goi s)) p GIdle)"
| waiting: "gopc s p = GIdle \<Longrightarrow>
     go_step wfw s ((go_at s (incWaiting (goi s)) p GScan)\<lparr>scan := (scan s)(p := {q. gopc s q \<noteq> GOff})\<rparr>)"
| scan_empty: "gopc s p = GScan \<Longrightarrow> q \<in> scan s p \<Longrightarrow> rq s q = 0 \<or> (\<exists>p'. p' \<noteq> p \<and> q \<noteq> p \<and> go_visits s p' q) \<Longrightarrow>
     go_step wfw s (s\<lparr>scan := (scan s)(p := scan s p - {q})\<rparr>)"
| scan_found: "gopc s p = GScan \<Longrightarrow> q \<in> scan s p \<Longrightarrow> 0 < rq s q \<Longrightarrow> go_step wfw s (go_at (go_take s q) (goi s) p GFoundW)"
| scan_return: "gopc s p = GFoundW \<Longrightarrow> go_step wfw s (go_at s (decWaiting (goi s)) p GBusy)"
| scan_end: "gopc s p = GScan \<Longrightarrow> scan s p = {} \<Longrightarrow> go_step wfw s (go_at s (goi s) p GBlk)"
| block: "gopc s p = GBlk \<Longrightarrow> go_block wfw p (goi s) = Some i \<Longrightarrow> go_step wfw s (go_at s i p GHalt)"
| unblock_done: "0 < unb s \<Longrightarrow> go_unblock wfw np (goi s) = Some (UDone, i) \<Longrightarrow> go_step wfw s (s\<lparr>goi := i, unb := unb s - 1\<rparr>)"
| unblock_again: "0 < unb s \<Longrightarrow> go_unblock wfw np (goi s) = Some (UAgain, i) \<Longrightarrow> go_step wfw s (s\<lparr>goi := i\<rparr>)"
| unblock_pop: "0 < unb s \<Longrightarrow> go_unblock wfw np (goi s) = Some (UWake p, i) \<Longrightarrow>
     go_step wfw s ((go_at s i p GWake)\<lparr>unb := unb s - 1\<rparr>)"
| unblock_dec: "gopc s p = GWake \<Longrightarrow> go_step wfw s (go_at s (decWaiting (goi s)) p GPost)"
| wake: "gopc s p = GPost \<Longrightarrow> go_step wfw s (go_at s (goi s) p GBusy)"

text \<open>A cluster starts with a finite, non-empty set of processors, all of them running.\<close>

definition go_init :: "pid set \<Rightarrow> go_sys" where
  "go_init P = \<lparr>goi = new_goidle, gopc = (\<lambda>p. if p \<in> P then GBusy else GOff), scan = (\<lambda>_. {}), rq = (\<lambda>_. 0), unb = 0\<rparr>"

inductive go_reach :: "bool \<Rightarrow> go_sys \<Rightarrow> bool" for wfw where
  start: "finite P \<Longrightarrow> P \<noteq> {} \<Longrightarrow> go_reach wfw (go_init P)"
| step: "go_reach wfw s \<Longrightarrow> go_step wfw s s' \<Longrightarrow> go_reach wfw s'"

section \<open>Invariant\<close>

definition go_waits :: "go_pc set" where "go_waits = {GScan, GFoundW, GBlk, GHalt, GWake}"
definition go_spins :: "go_pc set" where "go_spins = {GSpin, GFound}"
definition go_awake :: "go_pc set" where "go_awake = {GBusy, GSpin, GFound, GIdle, GFoundW, GWake, GPost}"

definition number :: "go_pc set \<Rightarrow> (pid \<Rightarrow> go_pc) \<Rightarrow> int" where
  "number C pc = int (card {p. pc p \<in> C})"

text \<open>The counters are exact, the list holds the halting processors, and freds are queued on processors of
  the cluster only.\<close>

definition go_counts :: "go_sys \<Rightarrow> bool" where
  "go_counts s \<longleftrightarrow> finite {p. gopc s p \<noteq> GOff} \<and> (\<exists>p. gopc s p \<noteq> GOff)
     \<and> waitCounter (goi s) = number go_waits (gopc s) \<and> spinCounter (goi s) = number go_spins (gopc s)"

definition go_lists :: "bool \<Rightarrow> go_sys \<Rightarrow> bool" where
  "go_lists wfw s \<longleftrightarrow> distinct (goProcs (goi s)) \<and> (\<forall>p. p \<in> set (goProcs (goi s)) \<longleftrightarrow> gopc s p = GHalt)
     \<and> (wfw \<longrightarrow> (\<forall>p. goHalting (goi s) p \<longleftrightarrow> gopc s p = GHalt)) \<and> (\<forall>q. 0 < rq s q \<longrightarrow> gopc s q \<noteq> GOff)"

text \<open>While a fred is queued, somebody is awake or will look at it.\<close>

definition go_work :: "go_sys \<Rightarrow> bool" where
  "go_work s \<longleftrightarrow> (\<forall>q. 0 < rq s q \<longrightarrow> 0 < unb s \<or> (\<exists>p. gopc s p \<in> go_awake)
     \<or> (\<exists>p q. gopc s p = GScan \<and> q \<in> scan s p \<and> 0 < rq s q))"

lemma number_upd:
  assumes "finite {p. pc p \<noteq> GOff}" and "GOff \<notin> C"
  shows "number C (pc(p := d)) = number C pc + of_bool (d \<in> C) - of_bool (pc p \<in> C)"
proof -
  have fin: "finite {q. pc q \<in> C}" by (rule finite_subset [OF _ assms(1)]) (use assms(2) in auto)
  have "{q. (pc(p := d)) q \<in> C} = (if d \<in> C then insert p {q. pc q \<in> C} else {q. pc q \<in> C} - {p})" by auto
  then show ?thesis
    using fin card_Suc_Diff1 [OF fin, of p] by (auto simp: number_def insert_absorb)
qed

lemma go_counts_move:
  assumes "go_counts s" and "gopc s p \<noteq> GOff" and "d \<noteq> GOff"
    and "waitCounter i = waitCounter (goi s) + of_bool (d \<in> go_waits) - of_bool (gopc s p \<in> go_waits)"
    and "spinCounter i = spinCounter (goi s) + of_bool (d \<in> go_spins) - of_bool (gopc s p \<in> go_spins)"
    and "goi s' = i" and "gopc s' = (gopc s)(p := d)"
  shows "go_counts s'"
proof -
  have fin: "finite {p. gopc s p \<noteq> GOff}" using assms(1) by (simp add: go_counts_def)
  have "finite {q. ((gopc s)(p := d)) q \<noteq> GOff}" by (rule finite_upd_stage [OF fin])
  moreover have "\<exists>q. ((gopc s)(p := d)) q \<noteq> GOff" using assms(3) by (intro exI [of _ p]) simp
  moreover have "GOff \<notin> go_waits" "GOff \<notin> go_spins" by (simp_all add: go_waits_def go_spins_def)
  then have "waitCounter i = number go_waits ((gopc s)(p := d))" "spinCounter i = number go_spins ((gopc s)(p := d))"
    using assms(1) number_upd [OF fin, of go_waits p d] number_upd [OF fin, of go_spins p d] assms(4,5)
    unfolding go_counts_def by linarith+
  ultimately show ?thesis unfolding go_counts_def assms(6,7) by blast
qed

lemma go_unblock_wakeD:
  assumes "go_unblock wfw np i = Some (UWake p, i')"
  shows "p \<in> set (goProcs i) \<and> goProcs i' = remove1 p (goProcs i) \<and> waitCounter i' = waitCounter i
     \<and> spinCounter i' = spinCounter i \<and> goHalting i' = (if wfw then (goHalting i)(p := False) else goHalting i)
     \<and> 0 < waitCounter i"
  using assms(1) by (auto simp: go_unblock_def goHalt_def Let_def split: if_splits)

lemma go_unblock_UDone [simp]: "go_unblock wfw np i = Some (UDone, i') \<longleftrightarrow> i' = i \<and> waitCounter i \<le> 0"
  by (auto simp: go_unblock_def Let_def)

lemma go_unblock_UAgain [simp]:
  "go_unblock wfw np i = Some (UAgain, i') \<longleftrightarrow> i' = i \<and> 0 < waitCounter i \<and> goProcs i = []"
  by (auto simp: go_unblock_def Let_def)

text \<open>A round of \<^verbatim>\<open>unblock\<close> never aborts, and wakes a processor whenever one is on the list and counted.\<close>

lemma go_unblock_total:
  assumes "go_lists wfw s"
  shows "\<exists>r i. go_unblock wfw np (goi s) = Some (r, i)
    \<and> (0 < waitCounter (goi s) \<longrightarrow> goProcs (goi s) \<noteq> [] \<longrightarrow> (\<exists>p. r = UWake p \<and> p \<in> set (goProcs (goi s))))"
proof -
  have "go_pick wfw np (hd (goProcs (goi s))) (goi s) \<in> set (goProcs (goi s))" if "goProcs (goi s) \<noteq> []"
    using assms that by (auto simp: go_lists_def go_pick_def split: option.split)
  then show ?thesis by (simp add: go_unblock_def Let_def)
qed

lemmas go_ops = incSpinning_def decSpinning_def incWaiting_def decWaiting_def unblockSpin_def go_block_def goHalt_def

lemmas go_sets = go_waits_def go_spins_def

lemma go_step_counts:
  assumes "go_step wfw s s'" and "go_counts s" and "go_lists wfw s"
  shows "go_counts s'"
  using assms(1)
proof cases
  case (spin p)
  then show ?thesis by (intro go_counts_move [OF assms(2), of p GSpin]) (auto simp: go_ops go_sets)
next
  case (spin_found p q)
  then show ?thesis by (intro go_counts_move [OF assms(2), of p GFound]) (auto simp: go_ops go_sets)
next
  case (spin_last p r i)
  then show ?thesis by (intro go_counts_move [OF assms(2), of p GBusy]) (auto simp: go_ops go_sets)
next
  case (spin_end p)
  then show ?thesis by (intro go_counts_move [OF assms(2), of p GIdle]) (auto simp: go_ops go_sets)
next
  case (waiting p)
  then show ?thesis by (intro go_counts_move [OF assms(2), of p GScan]) (auto simp: go_ops go_sets)
next
  case (scan_found p q)
  then show ?thesis by (intro go_counts_move [OF assms(2), of p GFoundW]) (auto simp: go_ops go_sets)
next
  case (scan_return p)
  then show ?thesis by (intro go_counts_move [OF assms(2), of p GBusy]) (auto simp: go_ops go_sets)
next
  case (scan_end p)
  then show ?thesis by (intro go_counts_move [OF assms(2), of p GBlk]) (auto simp: go_ops go_sets)
next
  case (block p i)
  then show ?thesis
    by (intro go_counts_move [OF assms(2), of p GHalt]) (auto simp: go_ops go_sets split: if_splits)
next
  case (unblock_pop np p i)
  then have "gopc s p = GHalt" using go_unblock_wakeD [OF unblock_pop(3)] assms(3) by (simp add: go_lists_def)
  with unblock_pop go_unblock_wakeD [OF unblock_pop(3)] show ?thesis
    by (intro go_counts_move [OF assms(2), of p GWake]) (auto simp: go_sets)
next
  case (unblock_dec p)
  then show ?thesis by (intro go_counts_move [OF assms(2), of p GPost]) (auto simp: go_ops go_sets)
next
  case (wake p)
  then show ?thesis by (intro go_counts_move [OF assms(2), of p GBusy]) (auto simp: go_ops go_sets)
qed (use assms(2) in \<open>simp_all add: go_counts_def\<close>)

text \<open>The list part: moves that neither enter nor leave \<open>GHalt\<close>.\<close>

lemma go_lists_move:
  assumes "go_lists wfw s" and "gopc s p \<noteq> GHalt" and "d \<noteq> GHalt" and "d \<noteq> GOff" and "gopc s' = (gopc s)(p := d)"
    and "goProcs (goi s') = goProcs (goi s)" and "goHalting (goi s') = goHalting (goi s)"
    and "\<And>q. 0 < rq s' q \<Longrightarrow> 0 < rq s q"
  shows "go_lists wfw s'"
  using assms(1-4) assms(8) unfolding go_lists_def assms(5-7) by auto

lemma go_step_lists:
  assumes "go_step wfw s s'" and "go_lists wfw s"
  shows "go_lists wfw s'"
  using assms(1)
proof cases
  case (block p i)
  then show ?thesis using assms(2) by (auto simp: go_ops go_lists_def split: if_splits)
next
  case (unblock_pop np p i)
  note w = go_unblock_wakeD [OF unblock_pop(3)]
  have "distinct (goProcs (goi s))" using assms(2) by (simp add: go_lists_def)
  with w assms(2) unblock_pop(1) show ?thesis by (auto simp: go_lists_def)
next
  case (spin p)
  then show ?thesis by (intro go_lists_move [OF assms(2), of p GSpin]) (auto simp: go_ops)
next
  case (spin_found p q)
  then show ?thesis by (intro go_lists_move [OF assms(2), of p GFound]) (auto split: if_splits)
next
  case (spin_last p r i)
  then show ?thesis by (intro go_lists_move [OF assms(2), of p GBusy]) (auto simp: go_ops)
next
  case (spin_end p)
  then show ?thesis by (intro go_lists_move [OF assms(2), of p GIdle]) (auto simp: go_ops)
next
  case (waiting p)
  then show ?thesis by (intro go_lists_move [OF assms(2), of p GScan]) (auto simp: go_ops)
next
  case (scan_found p q)
  then show ?thesis by (intro go_lists_move [OF assms(2), of p GFoundW]) (auto split: if_splits)
next
  case (scan_return p)
  then show ?thesis by (intro go_lists_move [OF assms(2), of p GBusy]) (auto simp: go_ops)
next
  case (scan_end p)
  then show ?thesis by (intro go_lists_move [OF assms(2), of p GBlk]) auto
next
  case (unblock_dec p)
  then show ?thesis by (intro go_lists_move [OF assms(2), of p GPost]) (auto simp: go_ops)
next
  case (wake p)
  then show ?thesis by (intro go_lists_move [OF assms(2), of p GBusy]) auto
qed (use assms(2) in \<open>auto simp: go_lists_def split: if_splits\<close>)

text \<open>The work part: a step that leaves somebody awake or an \<^verbatim>\<open>unblock\<close> call in its loop keeps it.\<close>

lemma go_workI:
  assumes "0 < unb s \<or> (\<exists>p. gopc s p \<in> go_awake)"
  shows "go_work s"
  using assms by (auto simp: go_work_def)

lemma go_work_at:
  assumes "d \<in> go_awake"
  shows "go_work (go_at s i p d)" and "go_work ((go_at s i p d)\<lparr>unb := u\<rparr>)"
  using assms by (auto intro!: go_workI exI [of _ p])

lemma go_workD:
  assumes "go_work s" and "0 < rq s q"
  obtains "0 < unb s" | p where "gopc s p \<in> go_awake" | p q where "gopc s p = GScan" "q \<in> scan s p" "0 < rq s q"
  using assms(1) [unfolded go_work_def, rule_format, OF assms(2)] by auto

lemma go_work_scan:
  assumes "go_work s" and "q \<in> scan s p" and "rq s q = 0 \<or> (\<exists>p'. p' \<noteq> p \<and> q \<noteq> p \<and> go_visits s p' q)"
  shows "go_work (s\<lparr>scan := (scan s)(p := scan s p - {q})\<rparr>)" (is "go_work ?s")
  unfolding go_work_def
proof (intro allI impI)
  fix q0 assume "0 < rq ?s q0"
  then have "0 < rq s q0" by simp
  with assms(1) show "0 < unb ?s \<or> (\<exists>p. gopc ?s p \<in> go_awake) \<or> (\<exists>p q. gopc ?s p = GScan \<and> q \<in> scan ?s p \<and> 0 < rq ?s q)"
  proof (cases rule: go_workD)
    case (3 p1 q1)
    show ?thesis
    proof (cases "q1 = q \<and> p1 = p")
      case True
      then obtain p' where p': "p' \<noteq> p" "go_visits s p' q" using assms(3) 3 by auto
      then show ?thesis using 3 True by (auto simp: go_visits_def go_awake_def)
    next
      case False
      with 3 have "gopc ?s p1 = GScan \<and> q1 \<in> scan ?s p1 \<and> 0 < rq ?s q1" by auto
      then show ?thesis by blast
    qed
  qed auto
qed

lemma go_work_sleep:
  assumes "go_work s" and "gopc s p = GBlk \<or> gopc s p = GScan \<and> scan s p = {}" and "d \<in> {GBlk, GHalt}"
  shows "go_work (go_at s i p d)"
proof -
  have "g \<noteq> p" if "gopc s g \<in> go_awake" for g using that assms(2) by (auto simp: go_awake_def)
  moreover have "g \<noteq> p" if "gopc s g = GScan" "q \<in> scan s g" for g q using that assms(2) by auto
  ultimately show ?thesis
    using assms(1) unfolding go_work_def by (simp add: fun_upd_def) metis
qed

lemma number_pos:
  assumes "finite {p. pc p \<noteq> GOff}" and "GOff \<notin> C" and "number C pc \<le> 0"
  shows "pc p \<notin> C"
proof -
  have "finite {q. pc q \<in> C}" by (rule finite_subset [OF _ assms(1)]) (use assms(2) in auto)
  with assms(3) show ?thesis by (auto simp: number_def)
qed

lemma go_all_awake:
  assumes "go_counts s" and "waitCounter (goi s) \<le> 0"
  shows "\<exists>p. gopc s p \<in> go_awake"
proof -
  obtain p where p: "gopc s p \<noteq> GOff" using assms(1) by (auto simp: go_counts_def)
  have "finite {p. gopc s p \<noteq> GOff}" "number go_waits (gopc s) \<le> 0"
    using assms by (simp_all add: go_counts_def)
  moreover have "GOff \<notin> go_waits" by (simp add: go_waits_def)
  ultimately have "gopc s p \<notin> go_waits" by (metis number_pos)
  with p have "gopc s p \<in> go_awake" by (cases "gopc s p") (simp_all add: go_awake_def go_waits_def)
  then show ?thesis by blast
qed

lemma go_step_work:
  assumes "go_step wfw s s'" and "go_counts s" and "go_lists wfw s" and "go_work s"
  shows "go_work s'"
  using assms(1)
proof cases
  case (waiting p)
  have "q \<in> scan s' p" if "0 < rq s' q" for q using that assms(3) waiting by (auto simp: go_lists_def)
  moreover have "gopc s' p = GScan" using waiting by simp
  ultimately show ?thesis by (auto simp: go_work_def)
next
  case (scan_empty p q)
  then show ?thesis using go_work_scan [OF assms(4)] by simp
next
  case (scan_end p)
  then show ?thesis using go_work_sleep [OF assms(4), of p GBlk "goi s"] by simp
next
  case (block p i)
  then show ?thesis using go_work_sleep [OF assms(4), of p GHalt] by simp
next
  case (unblock_done np i)
  then show ?thesis using go_all_awake [OF assms(2)] by (intro go_workI) simp
next
  case (enqueueYield p q)
  then show ?thesis by (auto intro!: go_workI simp: go_awake_def)
next
  case (schedule p q)
  then show ?thesis by (auto intro!: go_workI simp: go_awake_def)
next
  case (spin_found p q)
  then show ?thesis using go_work_at(1) [of GFound "go_take s q" p "goi s"] by (simp add: go_awake_def)
next
  case (scan_found p q)
  then show ?thesis using go_work_at(1) [of GFoundW "go_take s q" p "goi s"] by (simp add: go_awake_def)
next
  case (wake p)
  then show ?thesis using go_work_at(1) [of GBusy s p "goi s"] by (simp add: go_awake_def)
qed (auto intro: go_work_at go_workI simp: go_awake_def simp del: fun_upd_apply)

lemma go_reach_inv:
  assumes "go_reach wfw s"
  shows "go_counts s \<and> go_lists wfw s \<and> go_work s"
  using assms
proof (induction rule: go_reach.induct)
  case (start P)
  then show ?case
    by (auto simp: go_counts_def go_lists_def go_work_def go_init_def new_goidle_def number_def go_sets)
next
  case (step s s')
  then show ?case using go_step_counts go_step_lists go_step_work by blast
qed

section \<open>Properties\<close>

text \<open>C8: The Go-style idle manager loses no wake-up. In every reachable state of a cluster: when all its
  processors have gone to sleep (they are before \<^verbatim>\<open>block\<close> or halted) and a fred is in a ready queue, some
  \<^verbatim>\<open>unblock\<close> call is still in its loop and does not leave it; once every processor has halted, its next
  round takes one off the list and wakes it. The counters are exact: \<^verbatim>\<open>waitCounter\<close> counts the processors
  between \<^verbatim>\<open>incWaiting\<close> and \<^verbatim>\<open>decWaiting\<close>, \<^verbatim>\<open>spinCounter\<close> those in the spin phase. No round of \<^verbatim>\<open>unblock\<close> and
  no \<^verbatim>\<open>block\<close> violates the precondition of the processor list.\<close>

theorem go_idle_no_lost_wakeup:
  assumes "go_reach wfw s"
  shows "(0 < rq s q \<longrightarrow> (\<forall>p. gopc s p \<in> {GOff, GBlk, GHalt}) \<longrightarrow>
            0 < unb s \<and> 0 < waitCounter (goi s)
            \<and> ((\<forall>p. gopc s p \<noteq> GBlk) \<longrightarrow> (\<exists>p i. go_unblock wfw np (goi s) = Some (UWake p, i) \<and> gopc s p = GHalt)))
    \<and> waitCounter (goi s) = int (card {p. gopc s p \<in> {GScan, GFoundW, GBlk, GHalt, GWake}})
    \<and> spinCounter (goi s) = int (card {p. gopc s p \<in> {GSpin, GFound}})
    \<and> go_unblock wfw np (goi s) \<noteq> None \<and> (gopc s p = GBlk \<longrightarrow> go_block wfw p (goi s) \<noteq> None)"
proof -
  have c: "go_counts s" and l: "go_lists wfw s" and w: "go_work s" using go_reach_inv [OF assms] by auto
  obtain r i where ri: "go_unblock wfw np (goi s) = Some (r, i)"
    "0 < waitCounter (goi s) \<Longrightarrow> goProcs (goi s) \<noteq> [] \<Longrightarrow> \<exists>p. r = UWake p \<and> p \<in> set (goProcs (goi s))"
    using go_unblock_total [OF l] by blast
  have 1: "0 < unb s \<and> 0 < waitCounter (goi s)
      \<and> ((\<forall>p. gopc s p \<noteq> GBlk) \<longrightarrow> (\<exists>p i. go_unblock wfw np (goi s) = Some (UWake p, i) \<and> gopc s p = GHalt))"
    if q: "0 < rq s q" and sleep: "\<forall>p. gopc s p \<in> {GOff, GBlk, GHalt}"
  proof -
    have notin: "gopc s p \<notin> go_awake" "gopc s p \<noteq> GScan" for p
      using sleep [rule_format, of p] by (auto simp: go_awake_def)
    then have u: "0 < unb s" using w q by (auto elim: go_workD)
    have wc: "0 < waitCounter (goi s)" using go_all_awake [OF c] notin(1) by force
    have "\<exists>p i. go_unblock wfw np (goi s) = Some (UWake p, i) \<and> gopc s p = GHalt" if nb: "\<forall>p. gopc s p \<noteq> GBlk"
    proof -
      obtain p where "gopc s p \<noteq> GOff" using c by (auto simp: go_counts_def)
      then have "gopc s p = GHalt" using sleep nb by auto
      then have "goProcs (goi s) \<noteq> []" using l by (auto simp: go_lists_def)
      with ri wc l show ?thesis by (auto simp: go_lists_def)
    qed
    with u wc show ?thesis by blast
  qed
  moreover have "p \<notin> set (goProcs (goi s))" if "gopc s p = GBlk" using l that by (auto simp: go_lists_def)
  then have "gopc s p = GBlk \<longrightarrow> go_block wfw p (goi s) \<noteq> None" by (simp add: go_block_def)
  ultimately show ?thesis
    using ri(1) c unfolding go_counts_def number_def go_sets by blast
qed

text \<open>Witness: one processor goes idle and halts, then a fred is resumed.\<close>

lemma go_example: "go_reach False \<lparr>goi = \<lparr>spinCounter = 0, waitCounter = 1, goProcs = [0], goHalting = (\<lambda>_. False)\<rparr>,
    gopc = (\<lambda>_. GOff)(0 := GHalt), scan = (\<lambda>_. {}), rq = (\<lambda>_. 0)(0 := 1), unb = 1\<rparr>"
proof -
  let ?st = "\<lambda>a b ps pc sc r u. \<lparr>goi = \<lparr>spinCounter = a, waitCounter = b, goProcs = ps, goHalting = (\<lambda>_. False)\<rparr>,
    gopc = (\<lambda>_. GOff)(0 := pc), scan = sc, rq = (\<lambda>_. 0)(0 := r), unb = u\<rparr>"
  have go: "go_reach False s \<Longrightarrow> go_step False s t \<Longrightarrow> t = s' \<Longrightarrow> go_reach False s'" for s t s'
    using go_reach.step by blast
  have "go_reach False (?st 0 0 [] GBusy (\<lambda>_. {}) 0 0)"
    using go_reach.start [of "{0}" False] by (simp add: go_init_def new_goidle_def fun_upd_def)
  then have "go_reach False (?st 1 0 [] GSpin (\<lambda>_. {}) 0 0)"
    by (rule go [OF _ go_step.spin [of _ 0]]) (simp_all add: go_ops)
  then have "go_reach False (?st 0 0 [] GIdle (\<lambda>_. {}) 0 0)"
    by (rule go [OF _ go_step.spin_end [of _ 0]]) (simp_all add: go_ops)
  then have "go_reach False (?st 0 1 [] GScan ((\<lambda>_. {})(0 := {0})) 0 0)"
    by (rule go [OF _ go_step.waiting [of _ 0]]) (simp_all add: go_ops)
  then have "go_reach False (?st 0 1 [] GScan (\<lambda>_. {}) 0 0)"
    by (rule go [OF _ go_step.scan_empty [of _ 0 0]]) (simp_all add: fun_upd_idem)
  then have "go_reach False (?st 0 1 [] GBlk (\<lambda>_. {}) 0 0)"
    by (rule go [OF _ go_step.scan_end [of _ 0]]) simp_all
  then have "go_reach False (?st 0 1 [0] GHalt (\<lambda>_. {}) 0 0)"
    by (rule go [OF _ go_step.block [of _ 0]]) (simp_all add: go_ops)
  then show ?thesis
    by (rule go [OF _ go_step.enqueueResume [of _ 0]]) simp_all
qed

theorem go_idle_no_lost_wakeup_witness:
  "\<exists>s. go_reach False s \<and> 0 < rq s 0 \<and> gopc s 0 = GHalt \<and> 0 < unb s
     \<and> (\<exists>p i. go_unblock False None (goi s) = Some (UWake p, i) \<and> gopc s p = GHalt)"
  by (rule exI, rule conjI, rule go_example)
    (use go_idle_no_lost_wakeup [OF go_example, of 0 None 0] in \<open>simp split: if_splits\<close>)

end
