(* ===== verification/Scheduler_Ring.thy ===== *)
theory Scheduler_Ring
  imports List_Model
begin

text \<open>
  The class \<^verbatim>\<open>Scheduler\<close> of \<^verbatim>\<open>src/src/runtime/Scheduler.h\<close>: the ring of processors and round-robin
  placement of new freds, on the pointer-level ring of theory \<open>List_Model\<close>.
\<close>

section \<open>State and operations\<close>

record sched =
  ringCount :: nat
  placeProc :: addr      \<comment> \<open>0 is \<open>nullptr\<close>\<close>
  ringHeap :: dheap

definition new_sched :: "dheap \<Rightarrow> sched" where
  "new_sched h = \<lparr>ringCount = 0, placeProc = 0, ringHeap = h\<rparr>"

definition addProcessor :: "addr \<Rightarrow> sched \<Rightarrow> sched option" where
  "addProcessor proc s =
     (if placeProc s = 0
      then Some (s\<lparr>ringHeap := ring_close proc proc (ringHeap s), placeProc := proc, ringCount := ringCount s + 1\<rparr>)
      else do { h \<leftarrow> insert_after False (placeProc s) proc proc (ringHeap s);
                Some (s\<lparr>ringHeap := h, ringCount := ringCount s + 1\<rparr>) })"

definition removeProcessor :: "addr \<Rightarrow> sched \<Rightarrow> sched option" where
  "removeProcessor proc s =
     do { rassert (placeProc s \<noteq> 0);
          let p1 = (if placeProc s = proc then Next (ringHeap s) (placeProc s) else placeProc s);
              p2 = (if p1 = proc then 0 else p1) in do {
          (_, h) \<leftarrow> ring_remove proc proc (ringHeap s);
          Some (s\<lparr>placeProc := p2, ringHeap := h, ringCount := ringCount s - 1\<rparr>) } }"

definition placement :: "sched \<Rightarrow> (addr \<times> sched) option" where
  "placement s =
     do { rassert (placeProc s \<noteq> 0);
          let p = Next (ringHeap s) (placeProc s) in Some (p, s\<lparr>placeProc := p\<rparr>) }"

text \<open>\<open>n\<close> successive placements.\<close>

fun placements :: "nat \<Rightarrow> sched \<Rightarrow> (addr list \<times> sched) option" where
  "placements 0 s = Some ([], s)"
| "placements (Suc n) s = do { (p, s1) \<leftarrow> placement s; (ps, s2) \<leftarrow> placements n s1; Some (p # ps, s2) }"

section \<open>Representation\<close>

text \<open>The ring, read from \<open>placeProc\<close> on; removed processors have invalidated links.\<close>

definition sched_rep :: "sched \<Rightarrow> addr list \<Rightarrow> bool" where
  "sched_rep s ps \<longleftrightarrow> ringCount s = length ps
     \<and> (if ps = [] then placeProc s = 0 else placeProc s = hd ps \<and> ring (ringHeap s) ps)"

lemma ring_single_remove:
  assumes "ring h [p]"
  shows "\<exists>h'. ring_remove p p h = Some (p, h') \<and> Prev h' p = 0 \<and> Next h' p = 0"
  using assms by (simp add: ring_def ring_remove_def take_out_def set_Next_def set_Prev_def)

lemma addProcessor_rep:
  assumes rep: "sched_rep s ps" and new: "proc \<notin> set ps" "proc \<noteq> 0" "Prev (ringHeap s) proc = 0" "Next (ringHeap s) proc = 0"
  shows "\<exists>s'. addProcessor proc s = Some s' \<and> sched_rep s' (if ps = [] then [proc] else hd ps # proc # tl ps)"
proof (cases ps)
  case Nil
  with rep new show ?thesis
    by (simp add: sched_rep_def addProcessor_def ring_close_def ring_def set_Next_def set_Prev_def)
next
  case (Cons p qs)
  then have r: "ring (ringHeap s) (p # qs)" "placeProc s = p" "p \<noteq> 0" "ringCount s = Suc (length qs)"
    using rep by (auto simp: sched_rep_def ring_def)
  from insert_after_ring [OF r(1), of "[proc]" False] new Cons r obtain h' where
    "insert_after False p proc proc (ringHeap s) = Some h'" "ring h' (p # proc # qs)"
    by (auto simp: ring_def)
  with r Cons show ?thesis by (simp add: addProcessor_def sched_rep_def)
qed

lemma removeProcessor_rep:
  assumes rep: "sched_rep s ps" and "proc \<in> set ps"
  shows "\<exists>s' qs. removeProcessor proc s = Some s' \<and> sched_rep s' qs \<and> set qs = set ps - {proc}
     \<and> Prev (ringHeap s') proc = 0 \<and> Next (ringHeap s') proc = 0"
proof -
  obtain us vs where ps: "ps = us @ proc # vs" using assms(2) by (meson split_list)
  have r: "ring (ringHeap s) (us @ proc # vs)" and pl: "placeProc s = hd (us @ proc # vs)"
    and cnt: "ringCount s = Suc (length us + length vs)"
    using rep ps by (simp_all add: sched_rep_def)
  have d: "distinct (us @ proc # vs)" "0 \<notin> set (us @ proc # vs)" using r by (simp_all add: ring_def)
  moreover have "placeProc s \<in> set (us @ proc # vs)" unfolding pl by (rule hd_in_set) simp
  ultimately have nz: "placeProc s \<noteq> 0" by metis
  show ?thesis
  proof (cases "us @ vs = []")
    case True
    then have one: "ring (ringHeap s) [proc]" "placeProc s = proc" "Next (ringHeap s) proc = proc"
      using r pl by (simp_all add: ring_def)
    from ring_single_remove [OF one(1)] obtain h' where
      h': "ring_remove proc proc (ringHeap s) = Some (proc, h')" "Prev h' proc = 0" "Next h' proc = 0" by blast
    with one nz have "removeProcessor proc s = Some (s\<lparr>placeProc := 0, ringHeap := h', ringCount := ringCount s - 1\<rparr>)"
      by (simp add: removeProcessor_def)
    with h' True ps cnt show ?thesis by (intro exI conjI) (auto simp: sched_rep_def intro!: exI [of _ "[]"])
  next
    case False
    have "ring (ringHeap s) ([proc] @ (vs @ us))" using r ring_rotate [of "ringHeap s" us "proc # vs"] by simp
    from ring_remove_ring [OF this] False obtain h' where
      h': "ring_remove proc proc (ringHeap s) = Some (proc, h')" "ring h' (vs @ us)" "Prev h' proc = 0" "Next h' proc = 0"
      by auto
    define p where "p = (if placeProc s = proc then Next (ringHeap s) proc else placeProc s)"
    have p: "p = hd (us @ vs)" "p \<noteq> proc"
      using r pl d False by (cases us; cases vs; auto simp: p_def ring_def)+
    have "removeProcessor proc s = Some (s\<lparr>placeProc := p, ringHeap := h', ringCount := ringCount s - 1\<rparr>)"
      using h'(1) nz p(2) by (auto simp: removeProcessor_def p_def Let_def split: if_splits)
    moreover have "ring h' (us @ vs)" using h'(2) ring_rotate [of h' vs us] by simp
    then have "sched_rep (s\<lparr>placeProc := p, ringHeap := h', ringCount := ringCount s - 1\<rparr>) (us @ vs)"
      using p(1) cnt False unfolding sched_rep_def by auto
    moreover have "set (us @ vs) = set ps - {proc}" using d(1) by (auto simp: ps)
    ultimately show ?thesis using h'(3,4)
      by (intro exI [of _ "s\<lparr>placeProc := p, ringHeap := h', ringCount := ringCount s - 1\<rparr>"] exI [of _ "us @ vs"]) simp
  qed
qed

lemma placement_rep:
  assumes "sched_rep s (p # ps)"
  shows "\<exists>s'. placement s = Some (hd (ps @ [p]), s') \<and> sched_rep s' (ps @ [p])"
proof -
  have r: "ring (ringHeap s) (p # ps)" "placeProc s = p" "p \<noteq> 0" "ringCount s = Suc (length ps)"
    using assms by (auto simp: sched_rep_def ring_def)
  have "Next (ringHeap s) p = hd (ps @ [p])" using r(1) by (cases ps) (auto simp: ring_def)
  moreover have "ring (ringHeap s) (ps @ [p])" using r(1) ring_rotate [of "ringHeap s" "[p]" ps] by simp
  ultimately show ?thesis using r by (simp add: placement_def sched_rep_def Let_def)
qed

lemma placements_rotate:
  "sched_rep s (ps @ qs) \<Longrightarrow> ps \<noteq> [] \<Longrightarrow>
     \<exists>s'. placements (length ps) s = Some (tl (ps @ hd (qs @ ps) # []), s') \<and> sched_rep s' (qs @ ps)"
proof (induction ps arbitrary: s qs)
  case (Cons p ps)
  obtain s1 where s1: "placement s = Some (hd (ps @ qs @ [p]), s1)" "sched_rep s1 (ps @ qs @ [p])"
    using placement_rep [of s p "ps @ qs"] Cons.prems(1) by auto
  show ?case
  proof (cases "ps = []")
    case True
    with s1 show ?thesis by auto
  next
    case False
    with Cons.IH [of s1 "qs @ [p]"] s1(2) obtain s2 where
      s2: "placements (length ps) s1 = Some (tl (ps @ [hd (qs @ p # ps)]), s2)" "sched_rep s2 (qs @ p # ps)" by auto
    have "placements (length (p # ps)) s = Some (hd ps # tl (ps @ [hd (qs @ p # ps)]), s2)"
      using s1(1) s2(1) False by simp
    moreover have "hd ps # tl (ps @ [hd (qs @ p # ps)]) = tl ((p # ps) @ [hd (qs @ p # ps)])"
      using False by (cases ps) simp_all
    ultimately show ?thesis using s2(2) by metis
  qed
qed simp

section \<open>Properties\<close>

text \<open>\<^verbatim>\<open>Scheduler\<close>: adding and removing processors keeps the ring, its count and the placement pointer
  consistent and violates no assertion; a removed processor can be added again; and as many consecutive
  placements as there are processors use every processor exactly once and return to where they started.\<close>

theorem scheduler_ring:
  assumes rep: "sched_rep s ps"
  shows "(proc \<notin> set ps \<and> proc \<noteq> 0 \<and> Prev (ringHeap s) proc = 0 \<and> Next (ringHeap s) proc = 0 \<longrightarrow>
        (\<exists>s' qs. addProcessor proc s = Some s' \<and> sched_rep s' qs \<and> set qs = insert proc (set ps)))
    \<and> (proc \<in> set ps \<longrightarrow> (\<exists>s' qs. removeProcessor proc s = Some s' \<and> sched_rep s' qs \<and> set qs = set ps - {proc}
          \<and> Prev (ringHeap s') proc = 0 \<and> Next (ringHeap s') proc = 0))
    \<and> (ps \<noteq> [] \<longrightarrow> (\<exists>s'. placements (length ps) s = Some (tl ps @ [hd ps], s') \<and> sched_rep s' ps))"
proof (intro conjI impI)
  assume "proc \<notin> set ps \<and> proc \<noteq> 0 \<and> Prev (ringHeap s) proc = 0 \<and> Next (ringHeap s) proc = 0"
  then obtain s' where s': "addProcessor proc s = Some s'" "sched_rep s' (if ps = [] then [proc] else hd ps # proc # tl ps)"
    using addProcessor_rep [OF rep] by blast
  moreover have "set (if ps = [] then [proc] else hd ps # proc # tl ps) = insert proc (set ps)"
    by (cases ps) auto
  ultimately show "\<exists>s' qs. addProcessor proc s = Some s' \<and> sched_rep s' qs \<and> set qs = insert proc (set ps)" by blast
next
  assume "ps \<noteq> []"
  with placements_rotate [of s ps "[]"] rep show "\<exists>s'. placements (length ps) s = Some (tl ps @ [hd ps], s') \<and> sched_rep s' ps"
    by (cases ps) auto
qed (rule removeProcessor_rep [OF rep])

definition sched_example :: sched where
  "sched_example = \<lparr>ringCount = 2, placeProc = 16, ringHeap =
     \<lparr>Next = (\<lambda>a. if a = 16 then 32 else if a = 32 then 16 else 0), Prev = (\<lambda>a. if a = 16 then 32 else if a = 32 then 16 else 0)\<rparr>\<rparr>"

theorem scheduler_ring_witness:
  "(\<exists>s'. placements 2 sched_example = Some ([32, 16], s')) \<and> (\<exists>s'. removeProcessor 16 sched_example = Some s' \<and> Next (ringHeap s') 16 = 0)"
  using scheduler_ring [of sched_example "[16, 32]" 16]
  by (auto simp: sched_rep_def sched_example_def ring_def numeral_2_eq_2 simp del: placements.simps)

end
