(* ===== verification/Switching.thy ===== *)
theory Switching
  imports Idle_Manager "HOL-Library.Multiset"
begin

text \<open>
  Switching between freds: \<^verbatim>\<open>src/src/runtime/Fred.cc\<close> and the scheduling calls of
  \<^verbatim>\<open>BaseProcessor.cc\<close> on one processor, with load balancing and the counting idle manager (theory
  \<open>Idle_Manager\<close>). The stack switch itself is assembly; a switch is the change of the current fred followed by the
  post-switch routine of the previous one.
\<close>

section \<open>State\<close>

record cpu =
  cur :: fid                      \<comment> \<open>\<open>Context::CurrFred()\<close>\<close>
  me :: pid                       \<comment> \<open>\<open>Context::CurrProcessor()\<close>\<close>
  idleFred :: fid
  procs :: "pid list"             \<comment> \<open>the scheduler's ring\<close>
  Q :: "pid \<Rightarrow> readyq"
  FF :: "fid \<Rightarrow> fred"
  im :: idlemgr
  woken :: "(pid \<times> fid) list"    \<comment> \<open>calls of \<open>wake\<close>\<close>
  destroyed :: "fid list"         \<comment> \<open>calls of \<open>RuntimeFredDestroy\<close>\<close>

datatype SwitchCode = Idle | Yield | Resume | Suspend | Terminate

section \<open>Enqueueing\<close>

definition enqueueFred :: "pid \<Rightarrow> fid \<Rightarrow> cpu \<Rightarrow> cpu option" where
  "enqueueFred p f s = do { q \<leftarrow> rq_enqueue (\<lambda>f. priority (FF s f)) f (Q s p); Some (s\<lparr>Q := (Q s)(p := q)\<rparr>) }"

text \<open>\<^verbatim>\<open>enqueueResume\<close>: hand the fred to a waiting processor if the counter says that one is waiting,
  otherwise put it on the ready queue of its processor.\<close>

definition enqueueResume :: "bool \<Rightarrow> pid \<Rightarrow> fid \<Rightarrow> cpu \<Rightarrow> cpu option" where
  "enqueueResume wake p f s =
     (let (unb, i) = addReadyFred (im s) in
      if unb
      then do { (v, i') \<leftarrow> idle_unblock wake f p i;
                Some (s\<lparr>im := i', woken := (case v of None \<Rightarrow> woken s | Some w \<Rightarrow> woken s @ [(w, f)])\<rparr>) }
      else enqueueFred p f (s\<lparr>im := i\<rparr>))"

definition resumeInternal :: "bool \<Rightarrow> fid \<Rightarrow> cpu \<Rightarrow> cpu option" where
  "resumeInternal wake f s = enqueueResume wake (processor (FF s f)) f s"

section \<open>Switching\<close>

definition post_switch :: "bool \<Rightarrow> SwitchCode \<Rightarrow> fid \<Rightarrow> cpu \<Rightarrow> cpu option" where
  "post_switch wake code prev s =
     (case code of
        Idle \<Rightarrow> Some s
      | Yield \<Rightarrow> enqueueFred (processor (FF s prev)) prev s
      | Resume \<Rightarrow> resumeInternal wake prev s
      | Suspend \<Rightarrow> do { (enq, f) \<leftarrow> postSuspend (FF s prev);
                       let s1 = s\<lparr>FF := (FF s)(prev := f)\<rparr>
                       in if enq then resumeInternal wake prev s1 else Some s1 }
      | Terminate \<Rightarrow> Some (s\<lparr>destroyed := destroyed s @ [prev]\<rparr>))"

definition switchFred :: "bool \<Rightarrow> SwitchCode \<Rightarrow> fid \<Rightarrow> cpu \<Rightarrow> cpu option" where
  "switchFred wake code nxt s =
     do { rassert (cur s \<noteq> nxt); post_switch wake code (cur s) (s\<lparr>cur := nxt\<rparr>) }"

text \<open>\<^verbatim>\<open>scheduleFull\<close>: with a promise from the counter the processor searches (one round of the
  loop in \<^verbatim>\<open>scheduleBlocking\<close> here; result \<open>None\<close> if the round found nothing and the loop goes on),
  otherwise it runs its idle fred.\<close>

definition search_round :: "(pid \<Rightarrow> bool) \<Rightarrow> cpu \<Rightarrow> fid option \<times> cpu" where
  "search_round locked s =
     (let (r, Q', F') = searchAll (\<lambda>Q. (False, Q)) locked (me s) (procs s) (Q s) (FF s) in (r, s\<lparr>Q := Q', FF := F'\<rparr>))"

definition scheduleFull :: "(pid \<Rightarrow> bool) \<Rightarrow> cpu \<Rightarrow> (fid \<times> cpu) option" where
  "scheduleFull locked s =
     (let (got, i) = tryGetReadyFred (im s); s1 = s\<lparr>im := i\<rparr> in
      if got then (case search_round locked s1 of (None, _) \<Rightarrow> None | (Some f, s2) \<Rightarrow> Some (f, s2))
      else Some (idleFred s, s1))"

definition suspendInternal :: "bool \<Rightarrow> (pid \<Rightarrow> bool) \<Rightarrow> cpu \<Rightarrow> cpu option" where
  "suspendInternal wake locked s = do { (f, s1) \<leftarrow> scheduleFull locked s; switchFred wake Suspend f s1 }"

definition fred_terminate :: "bool \<Rightarrow> (pid \<Rightarrow> bool) \<Rightarrow> cpu \<Rightarrow> cpu option" where
  "fred_terminate wake locked s = do { (f, s1) \<leftarrow> scheduleFull locked s; switchFred wake Terminate f s1 }"

definition yieldTo :: "bool \<Rightarrow> fid \<Rightarrow> cpu \<Rightarrow> cpu option" where
  "yieldTo wake nxt s = switchFred wake Yield nxt s"

definition yieldResume :: "bool \<Rightarrow> fid \<Rightarrow> cpu \<Rightarrow> cpu option" where
  "yieldResume wake nxt s = switchFred wake Resume nxt s"

text \<open>\<^verbatim>\<open>yield\<close>: take the next fred from the local queue, without touching the counter; the source
  inlines the switch without the check that the fred does not switch to itself.\<close>

definition fred_yield :: "cpu \<Rightarrow> (bool \<times> cpu) option" where
  "fred_yield s =
     (case rq_dequeue (Q s (me s)) of
        (None, q) \<Rightarrow> Some (False, s)
      | (Some nxt, q) \<Rightarrow>
          do { s' \<leftarrow> post_switch True Yield (cur s) (s\<lparr>Q := (Q s)(me s := q), cur := nxt\<rparr>); Some (True, s') })"

definition yieldGlobal :: "bool \<Rightarrow> (pid \<Rightarrow> bool) \<Rightarrow> cpu \<Rightarrow> (bool \<times> cpu) option" where
  "yieldGlobal wake locked s =
     do { (y, s1) \<leftarrow> fred_yield s;
          if y then Some (True, s1)
          else (case searchSteal locked (me s1) (procs s1) (Q s1) (FF s1) of
                  (None, Q', F') \<Rightarrow> Some (False, s1\<lparr>Q := Q', FF := F'\<rparr>)
                | (Some nxt, Q', F') \<Rightarrow> do { s2 \<leftarrow> yieldTo wake nxt (s1\<lparr>Q := Q', FF := F'\<rparr>); Some (True, s2) }) }"

text \<open>\<^verbatim>\<open>preempt\<close> dereferences the result of \<^verbatim>\<open>tryScheduleGlobal\<close> without a check.\<close>

definition fred_preempt :: "bool \<Rightarrow> (pid \<Rightarrow> bool) \<Rightarrow> cpu \<Rightarrow> cpu option" where
  "fred_preempt wake locked s =
     (case search_round locked s of
        (None, _) \<Rightarrow> None
      | (Some nxt, s1) \<Rightarrow> if cur s1 \<noteq> nxt then switchFred wake Yield nxt s1 else Some s1)"

text \<open>\<^verbatim>\<open>migrate(proc)\<close>; whether the target belongs to the same scheduler is a parameter.\<close>

definition fred_migrate :: "bool \<Rightarrow> (pid \<Rightarrow> bool) \<Rightarrow> bool \<Rightarrow> pid \<Rightarrow> cpu \<Rightarrow> (pid \<times> cpu) option" where
  "fred_migrate wake locked same proc s =
     (let f = cur s; cproc = processor (FF s f); s1 = s\<lparr>FF := (FF s)(f := (FF s f)\<lparr>processor := proc\<rparr>)\<rparr> in do {
      (y, s2) \<leftarrow> (if same then yieldGlobal wake locked s1 else Some (False, s1));
      if y then Some (cproc, s2)
      else do { (nxt, s3) \<leftarrow> scheduleFull locked s2; s4 \<leftarrow> yieldResume wake nxt s3; Some (cproc, s4) } })"

section \<open>Yielding\<close>

text \<open>All freds that are running or on a ready queue of the scheduler, as a multiset.\<close>

definition population :: "cpu \<Rightarrow> fid multiset" where
  "population s = {#cur s#} + (\<Sum>p\<in>set (procs s). mset (rq_all (Q s p)))"

lemma mset_rq_enqueue:
  "rq_enqueue prio f q = Some q' \<Longrightarrow> mset (rq_all q') = mset (rq_all q) + {#f#}"
  by (auto simp: rq_enqueue_def rq_all_eq NumPriority_def less_Suc_eq numeral_3_eq_3 numeral_2_eq_2 split: if_splits)

lemma mset_rq_dequeue:
  "rq_dequeue q = (Some f, q') \<Longrightarrow> mset (rq_all q) = mset (rq_all q') + {#f#}"
  using rq_dequeue_spec [of q] by auto

lemma population_upd:
  assumes "p \<in> set ps" and "mset (rq_all q) + A = mset (rq_all (QQ p)) + B"
  shows "(\<Sum>u\<in>set ps. mset (rq_all ((QQ(p := q)) u))) + A = (\<Sum>u\<in>set ps. mset (rq_all (QQ u))) + B"
proof -
  have "(\<Sum>u\<in>set ps - {p}. mset (rq_all ((QQ(p := q)) u))) = (\<Sum>u\<in>set ps - {p}. mset (rq_all (QQ u)))"
    by (intro sum.cong) auto
  then show ?thesis
    using assms(2) by (simp add: sum.remove [OF finite_set assms(1)] ac_simps)
qed

lemma enqueueFred_population:
  assumes "enqueueFred p f s = Some s'" and "p \<in> set (procs s)"
  shows "cur s' = cur s" and "procs s' = procs s" and "me s' = me s" and "population s' = population s + {#f#}"
proof -
  obtain q where q: "rq_enqueue (\<lambda>f. priority (FF s f)) f (Q s p) = Some q" "s' = s\<lparr>Q := (Q s)(p := q)\<rparr>"
    using assms(1) by (auto simp: enqueueFred_def bind_eq_Some_conv)
  then show "cur s' = cur s" "procs s' = procs s" "me s' = me s" by simp_all
  show "population s' = population s + {#f#}"
    using population_upd [OF assms(2), of q "{#}" "Q s" "{#f#}"] mset_rq_enqueue [OF q(1)]
    by (simp add: population_def q(2))
qed

lemma rq_enqueue_Some: "prio f < NumPriority \<Longrightarrow> rq_enqueue prio f q = Some (q(prio f := q (prio f) @ [f]))"
  by (simp add: rq_enqueue_def)

text \<open>\<^verbatim>\<open>Fred::yield\<close> returns false exactly if the local ready queue is empty, and then changes
  nothing. Otherwise the best ready fred runs next, the yielding fred goes behind all freds of its priority
  on its own processor, the idle manager's counter is not touched, and no fred of the scheduler is lost or
  duplicated.\<close>

theorem yield_swaps:
  assumes "me s \<in> set (procs s)" and "processor (FF s (cur s)) \<in> set (procs s)"
    and "priority (FF s (cur s)) < NumPriority"
  shows "(rq_all (Q s (me s)) = [] \<longrightarrow> fred_yield s = Some (False, s))
    \<and> (rq_all (Q s (me s)) \<noteq> [] \<longrightarrow> (\<exists>s'. fred_yield s = Some (True, s') \<and> cur s' = hd (rq_all (Q s (me s)))
         \<and> last (Q s' (processor (FF s (cur s))) (priority (FF s (cur s)))) = cur s
         \<and> fredCounter (im s') = fredCounter (im s) \<and> population s' = population s))"
proof (intro conjI impI)
  assume "rq_all (Q s (me s)) = []"
  then show "fred_yield s = Some (False, s)"
    using rq_dequeue_spec [of "Q s (me s)"] by (auto simp: fred_yield_def)
next
  assume "rq_all (Q s (me s)) \<noteq> []"
  then obtain nxt q where d: "rq_dequeue (Q s (me s)) = (Some nxt, q)" "rq_all (Q s (me s)) = nxt # rq_all q"
    using rq_dequeue_spec [of "Q s (me s)"] by auto
  define s1 where "s1 = s\<lparr>Q := (Q s)(me s := q), cur := nxt\<rparr>"
  define p pr where "p = processor (FF s (cur s))" and "pr = priority (FF s (cur s))"
  define s2 where "s2 = s1\<lparr>Q := (Q s1)(p := (Q s1 p)(pr := Q s1 p pr @ [cur s]))\<rparr>"
  have e: "enqueueFred p (cur s) s1 = Some s2"
    using assms(3) by (simp add: enqueueFred_def rq_enqueue_Some s2_def s1_def pr_def)
  have "population s1 + {#cur s#} = population s"
    using population_upd [OF assms(1), of q "{#nxt#}" "Q s" "{#}"] d(2) by (simp add: population_def s1_def)
  moreover have "cur s1 = nxt" "procs s1 = procs s" "FF s1 = FF s" by (simp_all add: s1_def)
  ultimately have "population s2 = population s"
    using enqueueFred_population [OF e] assms(2) by (simp add: p_def)
  moreover have "fred_yield s = Some (True, s2)"
    using d(1) e by (simp add: fred_yield_def post_switch_def p_def s1_def)
  ultimately show "\<exists>s'. fred_yield s = Some (True, s') \<and> cur s' = hd (rq_all (Q s (me s)))
         \<and> last (Q s' (processor (FF s (cur s))) (priority (FF s (cur s)))) = cur s
         \<and> fredCounter (im s') = fredCounter (im s) \<and> population s' = population s"
    using d(2) by (intro exI [of _ s2]) (simp add: s2_def s1_def p_def pr_def)
qed

definition cpu_example :: "fid list \<Rightarrow> cpu" where
  "cpu_example fs = \<lparr>cur = 1, me = 0, idleFred = 9, procs = [0], Q = (\<lambda>_ p. if p = 1 then fs else []),
     FF = (\<lambda>_. new_fred False 0 0), im = new_idlemgr, woken = [], destroyed = []\<rparr>"

theorem yield_swaps_witness:
  "(\<exists>s'. fred_yield (cpu_example [2, 3]) = Some (True, s') \<and> cur s' = 2 \<and> population s' = {#1, 2, 3#})"
  using yield_swaps [of "cpu_example [2, 3]"]
  by (auto simp: cpu_example_def rq_all_eq population_def new_fred_def DefaultPriority_def NumPriority_def add_mset_commute)

text \<open>\<^verbatim>\<open>Fred::preempt\<close> dereferences a null pointer when no other fred is ready: the result of
  \<^verbatim>\<open>tryScheduleGlobal\<close> is compared with the current fred but not checked for null.\<close>

theorem preempt_null:
  assumes "distinct (procs s)" and "me s \<in> set (procs s)" and "\<forall>p\<in>set (procs s). rq_all (Q s p) = []"
  shows "fred_preempt wake locked s = None"
proof -
  obtain r Q' F' where e: "searchAll (\<lambda>Q. (False, Q)) locked (me s) (procs s) (Q s) (FF s) = (r, Q', F')"
    by (metis surj_pair)
  with searchAll_effect [OF assms(1,2) e] assms(2,3) show ?thesis
    by (simp add: fred_preempt_def search_round_def)
qed

theorem preempt_null_witness: "fred_preempt True (\<lambda>_. True) (cpu_example []) = None"
  using preempt_null [of "cpu_example []"] by (simp add: cpu_example_def rq_all_eq)

end
