(* ===== verification/Spin_Locks.thy ===== *)
theory Spin_Locks
  imports Lock_Contract
begin

text \<open>
  \<^verbatim>\<open>src/src/runtime/SpinLocks.h\<close>: the spinning locks. One atomic access of the source is one
  function; \<open>TicketLock\<close> and \<open>SpinBarrier\<close> keep their counters at 64 bits, so that wrap-around is part of the
  theorems. The interleavings of any number of threads are step relations.
\<close>

section \<open>BinaryLock and BinaryOwnerLock\<close>

text \<open>\<^verbatim>\<open>__atomic_test_and_set\<close>: the old value and the new one.\<close>

definition bl_test_and_set :: "bool \<Rightarrow> bool \<times> bool" where
  "bl_test_and_set locked = (locked, True)"

definition bl_tryAcquire :: "bool \<Rightarrow> bool \<times> bool" where
  "bl_tryAcquire locked = (if locked then (False, locked) else let (old, l) = bl_test_and_set locked in (\<not> old, l))"

text \<open>One round of the acquisition loop (true: the lock is taken).\<close>

definition bl_acquire_round :: "bool \<Rightarrow> bool \<times> bool" where
  "bl_acquire_round locked = (let (old, l) = bl_test_and_set locked in (\<not> old, l))"

definition bl_release :: "bool \<Rightarrow> bool option" where
  "bl_release locked = do { rassert locked; Some False }"

text \<open>Any number of threads; \<open>bl_in\<close>: those that have acquired the lock and not released it.\<close>

record bl_sys =
  bls :: bool
  bl_in :: "nat set"

inductive bl_step :: "bl_sys \<Rightarrow> bl_sys \<Rightarrow> bool" where
  tryAcquire: "t \<notin> bl_in s \<Longrightarrow> bl_tryAcquire (bls s) = (r, l) \<Longrightarrow>
     bl_step s (s\<lparr>bls := l, bl_in := if r then insert t (bl_in s) else bl_in s\<rparr>)"
| acquire: "t \<notin> bl_in s \<Longrightarrow> bl_acquire_round (bls s) = (r, l) \<Longrightarrow>
     bl_step s (s\<lparr>bls := l, bl_in := if r then insert t (bl_in s) else bl_in s\<rparr>)"
| release: "t \<in> bl_in s \<Longrightarrow> bl_release (bls s) = Some l \<Longrightarrow> bl_step s (s\<lparr>bls := l, bl_in := bl_in s - {t}\<rparr>)"

inductive bl_reach :: "bl_sys \<Rightarrow> bool" where
  start: "bl_reach \<lparr>bls = False, bl_in = {}\<rparr>"
| step: "bl_reach s \<Longrightarrow> bl_step s s' \<Longrightarrow> bl_reach s'"

definition bl_inv :: "bl_sys \<Rightarrow> bool" where
  "bl_inv s \<longleftrightarrow> (if bls s then \<exists>t. bl_in s = {t} else bl_in s = {})"

lemma bl_reach_inv: "bl_reach s \<Longrightarrow> bl_inv s"
proof (induction rule: bl_reach.induct)
  case start
  then show ?case by (simp add: bl_inv_def)
next
  case (step s s')
  from step(2,3) show ?case
    by cases (auto simp: bl_inv_def bl_tryAcquire_def bl_acquire_round_def bl_test_and_set_def bl_release_def split: if_splits)
qed

interpretation bl: mutex bl_reach bl_step "\<lambda>s t. t \<in> bl_in s"
proof
  fix s t u assume "bl_reach s" "t \<in> bl_in s" "u \<in> bl_in s"
  then show "t = u" using bl_reach_inv [of s] by (auto simp: bl_inv_def split: if_splits)
qed (rule bl_reach.step)

record owner_lock =
  ol_owner :: mword
  ol_counter :: mword

definition noOwner :: mword where "noOwner = -1"

definition new_owner_lock :: owner_lock where
  "new_owner_lock = \<lparr>ol_owner = noOwner, ol_counter = 0\<rparr>"

definition ol_tryAcquire :: "mword \<Rightarrow> owner_lock \<Rightarrow> mword \<times> owner_lock" where
  "ol_tryAcquire caller l =
     (if ol_owner l \<noteq> caller \<and> ol_owner l \<noteq> noOwner then (0, l)
      else (ol_counter l + 1, \<lparr>ol_owner = caller, ol_counter = ol_counter l + 1\<rparr>))"

text \<open>One round of \<^verbatim>\<open>acquire\<close>; no result means that the caller keeps spinning.\<close>

definition ol_acquire_round :: "mword \<Rightarrow> owner_lock \<Rightarrow> mword option \<times> owner_lock" where
  "ol_acquire_round caller l =
     (if ol_owner l \<noteq> caller \<and> ol_owner l \<noteq> noOwner then (None, l)
      else (Some (ol_counter l + 1), \<lparr>ol_owner = caller, ol_counter = ol_counter l + 1\<rparr>))"

definition ol_release :: "bool \<Rightarrow> mword \<Rightarrow> owner_lock \<Rightarrow> (mword \<times> owner_lock) option" where
  "ol_release full caller l =
     do { rassert (ol_owner l = caller);
          let c = (if full then 0 else ol_counter l - 1)
          in Some (c, \<lparr>ol_owner = if c = 0 then noOwner else ol_owner l, ol_counter = c\<rparr>) }"

section \<open>TicketLock\<close>

record ticket_lock =
  serving :: mword
  ticket :: mword

definition new_ticket_lock :: ticket_lock where
  "new_ticket_lock = \<lparr>serving = 0, ticket = 0\<rparr>"

definition tl_tryAcquire :: "ticket_lock \<Rightarrow> bool \<times> ticket_lock" where
  "tl_tryAcquire l = (if serving l \<noteq> ticket l then (False, l) else (True, l\<lparr>ticket := ticket l + 1\<rparr>))"

text \<open>\<^verbatim>\<open>acquire\<close>: drawing a ticket, and the test of the spin loop.\<close>

definition tl_draw :: "ticket_lock \<Rightarrow> mword \<times> ticket_lock" where
  "tl_draw l = (ticket l, l\<lparr>ticket := ticket l + 1\<rparr>)"

definition tl_served :: "mword \<Rightarrow> ticket_lock \<Rightarrow> bool" where
  "tl_served my l \<longleftrightarrow> my = serving l"

definition tl_release :: "ticket_lock \<Rightarrow> ticket_lock option" where
  "tl_release l = do { rassert (sint (ticket l - serving l) > 0); Some (l\<lparr>serving := serving l + 1\<rparr>) }"

text \<open>\<open>line\<close>: the tickets drawn and not yet released, oldest first, with their threads; \<open>inside\<close>: the threads
  that hold the lock. At most \<open>n\<close> threads use the lock.\<close>

record ticket_sys =
  tls :: ticket_lock
  line :: "(nat \<times> mword) list"
  inside :: "nat set"

inductive ticket_step :: "nat \<Rightarrow> ticket_sys \<Rightarrow> ticket_sys \<Rightarrow> bool" for n where
  draw: "t < n \<Longrightarrow> t \<notin> fst ` set (line s) \<Longrightarrow> tl_draw (tls s) = (my, l) \<Longrightarrow>
     ticket_step n s (s\<lparr>tls := l, line := line s @ [(t, my)]\<rparr>)"
| try_enter: "t < n \<Longrightarrow> t \<notin> fst ` set (line s) \<Longrightarrow> tl_tryAcquire (tls s) = (True, l) \<Longrightarrow>
     ticket_step n s (s\<lparr>tls := l, line := line s @ [(t, ticket (tls s))], inside := insert t (inside s)\<rparr>)"
| enter: "(t, my) \<in> set (line s) \<Longrightarrow> tl_served my (tls s) \<Longrightarrow>
     ticket_step n s (s\<lparr>inside := insert t (inside s)\<rparr>)"
| release: "t \<in> inside s \<Longrightarrow> tl_release (tls s) = Some l \<Longrightarrow>
     ticket_step n s (s\<lparr>tls := l, line := filter (\<lambda>e. fst e \<noteq> t) (line s), inside := inside s - {t}\<rparr>)"

inductive ticket_reach :: "nat \<Rightarrow> ticket_sys \<Rightarrow> bool" for n where
  start: "ticket_reach n \<lparr>tls = \<lparr>serving = w, ticket = w\<rparr>, line = [], inside = {}\<rparr>"
| step: "ticket_reach n s \<Longrightarrow> ticket_step n s s' \<Longrightarrow> ticket_reach n s'"

definition ticket_inv :: "nat \<Rightarrow> ticket_sys \<Rightarrow> bool" where
  "ticket_inv n s \<longleftrightarrow>
     distinct (map fst (line s)) \<and> fst ` set (line s) \<subseteq> {..<n}
     \<and> ticket (tls s) = serving (tls s) + of_nat (length (line s))
     \<and> (\<forall>i < length (line s). snd (line s ! i) = serving (tls s) + of_nat i)
     \<and> inside s \<subseteq> (case line s of [] \<Rightarrow> {} | e # _ \<Rightarrow> {fst e})"

lemma ticket_line_bound: "ticket_inv n s \<Longrightarrow> length (line s) \<le> n"
proof -
  assume inv: "ticket_inv n s"
  then have "card (fst ` set (line s)) \<le> card {..<n}" by (intro card_mono) (auto simp: ticket_inv_def)
  moreover have "card (fst ` set (line s)) = length (line s)"
    using inv distinct_card [of "map fst (line s)"] by (simp add: ticket_inv_def)
  ultimately show ?thesis by simp
qed

lemma of_nat_word_inj: "(of_nat i :: mword) = of_nat j \<Longrightarrow> i < 2 ^ 64 \<Longrightarrow> j < 2 ^ 64 \<Longrightarrow> i = j"
proof -
  assume "(of_nat i :: mword) = of_nat j" and "i < 2 ^ 64" and "j < 2 ^ 64"
  then have "unat (of_nat i :: mword) = unat (of_nat j :: mword)" by simp
  with \<open>i < 2 ^ 64\<close> \<open>j < 2 ^ 64\<close> show ?thesis by (simp add: unat_of_nat)
qed

lemma ticket_served_first:
  assumes inv: "ticket_inv n s" and "n < 2 ^ 63" and "(t, my) \<in> set (line s)" and "tl_served my (tls s)"
  shows "\<exists>es. line s = (t, my) # es"
proof -
  obtain i where i: "i < length (line s)" "line s ! i = (t, my)" using assms(3) by (auto simp: in_set_conv_nth)
  with inv have "my = serving (tls s) + of_nat i" by (auto simp: ticket_inv_def)
  with assms(4) have "(of_nat i :: mword) = of_nat 0" by (simp add: tl_served_def)
  moreover have "i < 2 ^ 64" using i(1) ticket_line_bound [OF inv] assms(2) by simp
  ultimately have "i = 0" by (intro of_nat_word_inj) simp_all
  with i show ?thesis by (cases "line s") auto
qed

lemma ticket_try_empty:
  assumes inv: "ticket_inv n s" and "n < 2 ^ 63" and "tl_tryAcquire (tls s) = (True, l)"
  shows "line s = []"
proof -
  have "(of_nat (length (line s)) :: mword) = of_nat 0"
    using inv assms(3) by (auto simp: ticket_inv_def tl_tryAcquire_def split: if_splits)
  moreover have "length (line s) < 2 ^ 64" using ticket_line_bound [OF inv] assms(2) by simp
  ultimately have "length (line s) = 0" by (intro of_nat_word_inj) simp_all
  then show ?thesis by simp
qed

lemma ticket_step_inv:
  assumes "ticket_step n s s'" and "n < 2 ^ 63" and "ticket_inv n s"
  shows "ticket_inv n s'"
  using assms
proof (induction rule: ticket_step.induct)
  case (draw t s my l)
  then show ?case
    by (cases "line s") (auto simp: ticket_inv_def tl_draw_def nth_append nth_Cons' less_Suc_eq split: if_splits)
next
  case (try_enter t s l)
  with ticket_try_empty [OF try_enter(5,4,3)] show ?case
    by (auto simp: ticket_inv_def tl_tryAcquire_def split: if_splits)
next
  case (enter t my s)
  with ticket_served_first [OF enter(4,3,1,2)] show ?case by (auto simp: ticket_inv_def)
next
  case (release t s l')
  obtain my es where l: "line s = (t, my) # es"
    using release(1,4) by (auto simp: ticket_inv_def split: list.splits)
  have nt: "t \<notin> fst ` set es" using release(4) l by (auto simp: ticket_inv_def)
  then have f: "filter (\<lambda>e. fst e \<noteq> t) (line s) = es" by (auto simp: l filter_id_conv)
  have "snd (es ! i) = serving (tls s) + 1 + of_nat i" if "i < length es" for i
    using release(4) that l by (auto simp: ticket_inv_def dest: spec [of _ "Suc i"])
  moreover have "serving l' = serving (tls s) + 1" "ticket l' = ticket (tls s)"
    using release(2) by (auto simp: tl_release_def split: if_splits)
  moreover have "inside s - {t} = {}" using release(4) l by (auto simp: ticket_inv_def)
  ultimately show ?case using release(4) l f by (auto simp: ticket_inv_def)
qed

lemma ticket_reach_inv: "ticket_reach n s \<Longrightarrow> n < 2 ^ 63 \<Longrightarrow> ticket_inv n s"
proof (induction rule: ticket_reach.induct)
  case (start w)
  then show ?case by (simp add: ticket_inv_def)
qed (auto intro: ticket_step_inv)

interpretation tl: mutex "\<lambda>s. ticket_reach n s \<and> n < 2 ^ 63" "ticket_step n" "\<lambda>s t. t \<in> inside s" for n
proof
  fix s t u assume s: "ticket_reach n s \<and> n < 2 ^ 63" and t: "t \<in> inside s" "u \<in> inside s"
  have "ticket_inv n s" using ticket_reach_inv s by blast
  then have "inside s \<subseteq> (case line s of [] \<Rightarrow> {} | e # _ \<Rightarrow> {fst e})" by (simp add: ticket_inv_def)
  then obtain e where "inside s \<subseteq> {e}" using t by (cases "line s") auto
  then show "t = u" using t by blast
qed (blast intro: ticket_reach.step)


definition ticket_example :: ticket_sys where
  "ticket_example = \<lparr>tls = \<lparr>serving = -1, ticket = 0\<rparr>, line = [(3, -1)], inside = {3}\<rparr>"

lemma ticket_example_reach: "ticket_reach 8 ticket_example"
proof -
  let ?s = "\<lparr>tls = \<lparr>serving = -1, ticket = -1\<rparr>, line = [], inside = {}\<rparr>"
  have "ticket_step 8 ?s ticket_example"
    using ticket_step.try_enter [of 3 8 ?s "\<lparr>serving = -1, ticket = 0\<rparr>"]
    by (simp add: ticket_example_def tl_tryAcquire_def)
  then show ?thesis using ticket_reach.step [OF ticket_reach.start] by blast
qed


end
