(* ===== verification/Spin_RW.thy ===== *)
theory Spin_RW
  imports Spin_Locks
begin

text \<open>
  \<^verbatim>\<open>SpinLockRW\<close> and \<^verbatim>\<open>SpinBarrier\<close> of \<^verbatim>\<open>src/src/runtime/SpinLocks.h\<close>, with their 64-bit state.
  A compare-and-swap is modelled with the value the caller read before (\<open>seen\<close>).
\<close>

section \<open>SpinLockRW\<close>

definition srw_tryAcquireRead :: "mword \<Rightarrow> mword \<Rightarrow> bool \<times> mword" where
  "srw_tryAcquireRead seen state = (if sint seen \<ge> 0 \<and> state = seen then (True, seen + 1) else (False, state))"

definition srw_tryAcquireWrite :: "mword \<Rightarrow> mword \<Rightarrow> bool \<times> mword" where
  "srw_tryAcquireWrite seen state = (if seen = 0 \<and> state = seen then (True, seen - 1) else (False, state))"

text \<open>\<^verbatim>\<open>release\<close> reads the state again before it updates it: the test and the update.\<close>

definition srw_release :: "mword \<Rightarrow> mword option" where
  "srw_release state = do { rassert (state \<noteq> 0); Some (if sint state < 0 then state + 1 else state - 1) }"

record srw_sys =
  rwstate :: mword
  rd_in :: "nat set"
  wr_in :: "nat set"

text \<open>The threads are numbered below \<open>n\<close>; a thread that holds the lock does not acquire it again.\<close>

inductive srw_step :: "nat \<Rightarrow> srw_sys \<Rightarrow> srw_sys \<Rightarrow> bool" for n where
  read: "t < n \<Longrightarrow> t \<notin> rd_in s \<union> wr_in s \<Longrightarrow> srw_tryAcquireRead seen (rwstate s) = (True, w) \<Longrightarrow>
     srw_step n s (s\<lparr>rwstate := w, rd_in := insert t (rd_in s)\<rparr>)"
| wr: "t < n \<Longrightarrow> t \<notin> rd_in s \<union> wr_in s \<Longrightarrow> srw_tryAcquireWrite seen (rwstate s) = (True, w) \<Longrightarrow>
     srw_step n s (s\<lparr>rwstate := w, wr_in := insert t (wr_in s)\<rparr>)"
| leave: "t \<in> rd_in s \<union> wr_in s \<Longrightarrow> srw_release (rwstate s) = Some w \<Longrightarrow>
     srw_step n s (s\<lparr>rwstate := w, rd_in := rd_in s - {t}, wr_in := wr_in s - {t}\<rparr>)"

inductive srw_reach :: "nat \<Rightarrow> srw_sys \<Rightarrow> bool" for n where
  start: "srw_reach n \<lparr>rwstate = 0, rd_in = {}, wr_in = {}\<rparr>"
| step: "srw_reach n s \<Longrightarrow> srw_step n s s' \<Longrightarrow> srw_reach n s'"

definition srw_inv :: "nat \<Rightarrow> srw_sys \<Rightarrow> bool" where
  "srw_inv n s \<longleftrightarrow> rd_in s \<subseteq> {..<n} \<and>
     (wr_in s = {} \<and> rwstate s = of_nat (card (rd_in s)) \<or> (\<exists>t. wr_in s = {t}) \<and> rd_in s = {} \<and> rwstate s = -1)"

lemma sint_of_nat_small: "k < 2 ^ 63 \<Longrightarrow> sint (of_nat k :: mword) = int k"
  by (simp add: signed_of_nat signed_take_bit_int_eq_self)

lemma srw_reader_count:
  assumes "srw_inv n s" and "n < 2 ^ 63"
  shows "finite (rd_in s)" and "card (rd_in s) < 2 ^ 63"
proof -
  have sub: "rd_in s \<subseteq> {..<n}" using assms by (simp add: srw_inv_def)
  then show "finite (rd_in s)" by (rule finite_subset) simp
  have "card (rd_in s) \<le> n" using card_mono [OF _ sub] by simp
  with assms(2) show "card (rd_in s) < 2 ^ 63" by simp
qed

lemma srw_step_inv:
  assumes "srw_step n s s'" and "n < 2 ^ 63" and "srw_inv n s"
  shows "srw_inv n s'"
  using assms
proof (induction rule: srw_step.induct)
  case (read t s seen w)
  note c = srw_reader_count [OF read(5,4)]
  from read have "wr_in s = {}" "rwstate s = of_nat (card (rd_in s))" "w = rwstate s + 1"
    by (auto simp: srw_inv_def srw_tryAcquireRead_def split: if_splits)
  with read c show ?case by (auto simp: srw_inv_def add.commute)
next
  case (wr t s seen w)
  note c = srw_reader_count [OF wr(5,4)]
  have w: "rwstate s = 0" "w = -1" using wr(3) by (auto simp: srw_tryAcquireWrite_def split: if_splits)
  then have "wr_in s = {}" "(of_nat (card (rd_in s)) :: mword) = of_nat 0" using wr(5) by (auto simp: srw_inv_def)
  moreover from this(2) have "card (rd_in s) = 0" using c(2) by (intro of_nat_word_inj) auto
  ultimately show ?case using w c by (auto simp: srw_inv_def)
next
  case (leave t s w)
  note c = srw_reader_count [OF leave(4,3)]
  show ?case
  proof (cases "wr_in s = {}")
    case True
    then have r: "t \<in> rd_in s" "rwstate s = of_nat (card (rd_in s))" using leave by (auto simp: srw_inv_def)
    have "\<not> sint (rwstate s) < 0" using r(2) c(2) by (simp add: sint_of_nat_small)
    then have "w = rwstate s - 1" using leave(2) by (auto simp: srw_release_def split: if_splits)
    moreover have "card (rd_in s) = Suc (card (rd_in s - {t}))" using card_Suc_Diff1 [OF c(1) r(1)] by simp
    ultimately have "w = of_nat (card (rd_in s - {t}))" using r(2) by simp
    moreover have "rd_in s - {t} \<subseteq> {..<n}" using leave(4) by (auto simp: srw_inv_def)
    ultimately show ?thesis using True by (simp add: srw_inv_def)
  next
    case False
    then obtain u where u: "wr_in s = {u}" "rd_in s = {}" "rwstate s = -1" using leave(4) by (auto simp: srw_inv_def)
    then have "w = 0" "t = u" using leave(1,2) by (auto simp: srw_release_def split: if_splits)
    with u show ?thesis by (simp add: srw_inv_def)
  qed
qed

lemma srw_reach_inv: "srw_reach n s \<Longrightarrow> n < 2 ^ 63 \<Longrightarrow> srw_inv n s"
proof (induction rule: srw_reach.induct)
  case start
  then show ?case by (simp add: srw_inv_def)
qed (auto intro: srw_step_inv)

interpretation srw: rw_mutex "\<lambda>s. srw_reach n s \<and> n < 2 ^ 63" "srw_step n" "\<lambda>s t. t \<in> rd_in s" "\<lambda>s t. t \<in> wr_in s" for n
proof
  fix s t u assume s: "srw_reach n s \<and> n < 2 ^ 63" and t: "t \<in> wr_in s"
  have inv: "srw_inv n s" using srw_reach_inv s by blast
  show "t = u" if "u \<in> wr_in s" using inv t that by (auto simp: srw_inv_def)
  show "u \<notin> rd_in s" using inv t by (auto simp: srw_inv_def)
qed (blast intro: srw_reach.step)

text \<open>\<^verbatim>\<open>SpinLockRW\<close> with fewer than \<open>2 ^ 63\<close> threads: a writer excludes readers and other writers;
  the state counts the readers; a release by a holder violates no assertion; a reader that reads the current
  value gets in exactly when no writer is in, a writer exactly when nobody is in.\<close>

theorem spin_rw_exclusion:
  assumes "srw_reach n s" and "n < 2 ^ 63"
  shows "(\<forall>t\<in>wr_in s. wr_in s = {t} \<and> rd_in s = {})
    \<and> (rd_in s \<union> wr_in s \<noteq> {} \<longrightarrow> srw_release (rwstate s) \<noteq> None)
    \<and> (fst (srw_tryAcquireRead (rwstate s) (rwstate s)) \<longleftrightarrow> wr_in s = {})
    \<and> (fst (srw_tryAcquireWrite (rwstate s) (rwstate s)) \<longleftrightarrow> rd_in s = {} \<and> wr_in s = {})"
proof -
  have inv: "srw_inv n s" by (rule srw_reach_inv [OF assms])
  note c = srw_reader_count [OF inv assms(2)]
  have z: "(of_nat (card (rd_in s)) :: mword) = 0 \<longleftrightarrow> rd_in s = {}"
    using of_nat_word_inj [of "card (rd_in s)" 0] c by auto
  show ?thesis
  proof (cases "wr_in s = {}")
    case True
    then have "rwstate s = of_nat (card (rd_in s))" using inv by (auto simp: srw_inv_def)
    with True z c(2) show ?thesis
      by (auto simp: srw_release_def srw_tryAcquireRead_def srw_tryAcquireWrite_def sint_of_nat_small)
  next
    case False
    with inv show ?thesis by (auto simp: srw_inv_def srw_release_def srw_tryAcquireRead_def srw_tryAcquireWrite_def)
  qed
qed

lemma srw_example_reach: "srw_reach 4 \<lparr>rwstate = 2, rd_in = {1, 3}, wr_in = {}\<rparr>"
proof -
  let ?s1 = "\<lparr>rwstate = 1, rd_in = {3}, wr_in = {}\<rparr>"
  have "srw_reach 4 ?s1"
    by (rule srw_reach.step [OF srw_reach.start])
      (use srw_step.read [of 3 4 "\<lparr>rwstate = 0, rd_in = {}, wr_in = {}\<rparr>" 0 1] in \<open>simp add: srw_tryAcquireRead_def\<close>)
  then show ?thesis
    by (rule srw_reach.step) (use srw_step.read [of 1 4 ?s1 1 2] in \<open>simp add: srw_tryAcquireRead_def\<close>)
qed

theorem spin_rw_exclusion_witness:
  "srw_release 2 \<noteq> None \<and> \<not> fst (srw_tryAcquireWrite 2 2) \<and> fst (srw_tryAcquireRead 2 2)"
  using spin_rw_exclusion [OF srw_example_reach] by simp

section \<open>SpinBarrier\<close>

record spin_barrier =
  sb_target :: mword
  sb_counter :: mword

definition sb_init :: "mword \<Rightarrow> spin_barrier" where
  "sb_init t = \<lparr>sb_target = t, sb_counter = 0\<rparr>"

text \<open>\<^verbatim>\<open>wait\<close>: the arrival draws a number and computes the value of the counter it waits for; the test of the
  spin loop; the result.\<close>

definition sb_arrive :: "spin_barrier \<Rightarrow> (mword \<times> mword) \<times> spin_barrier" where
  "sb_arrive b = (let cnt = sb_counter b; tgt = cnt + sb_target b - (cnt mod sb_target b)
                  in ((cnt, tgt), b\<lparr>sb_counter := cnt + 1\<rparr>))"

definition sb_spins :: "mword \<Rightarrow> spin_barrier \<Rightarrow> bool" where
  "sb_spins tgt b \<longleftrightarrow> sint (tgt - sb_counter b) > 0"

definition sb_result :: "mword \<Rightarrow> mword \<Rightarrow> bool" where
  "sb_result cnt tgt \<longleftrightarrow> cnt = tgt - 1"

definition sb_after :: "nat \<Rightarrow> nat \<Rightarrow> spin_barrier" where
  "sb_after T c = ((\<lambda>b. snd (sb_arrive b)) ^^ c) (sb_init (of_nat T))"

lemma sb_after_eq: "sb_after T c = \<lparr>sb_target = of_nat T, sb_counter = of_nat c\<rparr>"
  by (induction c) (simp_all add: sb_after_def sb_init_def sb_arrive_def Let_def add.commute)

lemma sb_number:
  assumes "0 < T" and "T < 2 ^ 63" and "T dvd 2 ^ 64 \<or> a < 2 ^ 64"
  shows "fst (sb_arrive (sb_after T a)) = (of_nat a, of_nat (a div T * T + T))"
proof -
  have "(of_nat a :: mword) mod of_nat T = of_nat (a mod T)"
  proof -
    have "unat ((of_nat a :: mword) mod of_nat T) = a mod 2 ^ 64 mod T"
      using assms(2) by (simp add: unat_mod_distrib unat_of_nat)
    also have "\<dots> = a mod T"
    proof (cases "T dvd 2 ^ 64")
      case True
      then show ?thesis by (simp only: mod_mod_cancel)
    next
      case False
      with assms(3) show ?thesis by simp
    qed
    finally show ?thesis by (metis of_nat_unat ucast_id)
  qed
  moreover have "a + T - a mod T = a div T * T + T" by (simp add: minus_mod_eq_div_mult [symmetric])
  then have "(of_nat a :: mword) + of_nat T - of_nat (a mod T) = of_nat (a div T * T + T)"
    by (metis of_nat_add of_nat_diff mod_less_eq_dividend le_add1 le_trans)
  ultimately show ?thesis by (simp add: sb_arrive_def sb_after_eq Let_def)
qed

lemma sb_spins_iff:
  assumes "tgt \<le> c + 2 ^ 62" and "c \<le> tgt + 2 ^ 62"
  shows "sb_spins (of_nat tgt) (sb_after T c) \<longleftrightarrow> c < tgt"
proof -
  have "(of_nat tgt :: mword) - of_nat c = of_int (int tgt - int c)" by simp
  then have "sint ((of_nat tgt :: mword) - of_nat c) = signed_take_bit 63 (int tgt - int c)"
    by (simp only: signed_of_int) simp
  also have "\<dots> = int tgt - int c" using assms by (intro signed_take_bit_int_eq_self) auto
  finally show ?thesis by (simp add: sb_spins_def sb_after_eq)
qed

text \<open>C35: \<^verbatim>\<open>SpinBarrier\<close>: as long as the counter has not wrapped around, or for ever when the target divides
  \<open>2 ^ 64\<close>, the arrival number \<open>a\<close> waits exactly until its group of \<open>T\<close> arrivals is complete, and exactly the
  last of each group gets the result true. For other targets the comment \<open>works with overflow\<close> does not hold:
  with three threads, the group that begins at \<open>2 ^ 64 - 1\<close> releases its first thread after three arrivals,
  while the other two, whose numbers wrapped, keep spinning.\<close>

theorem spin_barrier_groups:
  assumes "0 < T" and "T < 2 ^ 62" and "T dvd 2 ^ 64 \<or> c + T < 2 ^ 64" and "a < c" and "c \<le> a + 2 ^ 62"
    and "sb_arrive (sb_after T a) = ((cnt, tgt), b)"
  shows "(sb_spins tgt (sb_after T c) \<longleftrightarrow> c < (a div T + 1) * T) \<and> (sb_result cnt tgt \<longleftrightarrow> a mod T = T - 1)
      \<and> sb_arrive \<lparr>sb_target = 3, sb_counter = - 1\<rparr> = ((- 1, 2), \<lparr>sb_target = 3, sb_counter = 0\<rparr>)
      \<and> fst (sb_arrive \<lparr>sb_target = 3, sb_counter = 0\<rparr>) = (0, 3) \<and> fst (sb_arrive \<lparr>sb_target = 3, sb_counter = 1\<rparr>) = (1, 3)
      \<and> \<not> sb_spins 2 \<lparr>sb_target = 3, sb_counter = 2\<rparr> \<and> sb_spins 3 \<lparr>sb_target = 3, sb_counter = 2\<rparr>"
proof -
  have e: "cnt = of_nat a" "tgt = of_nat (a div T * T + T)"
    using sb_number [of T a] assms by auto
  have am: "a div T * T + a mod T = a" "a mod T < T" using assms(1) by simp_all
  have "a div T * T + T \<le> c + 2 ^ 62" "c \<le> a div T * T + T + 2 ^ 62" using am assms(2,4,5) by linarith+
  then have "sb_spins tgt (sb_after T c) \<longleftrightarrow> c < (a div T + 1) * T"
    unfolding e by (subst sb_spins_iff) (simp_all add: algebra_simps)
  moreover have "sb_result cnt tgt \<longleftrightarrow> a mod T = T - 1"
  proof -
    have "a div T * T + T = a + (T - a mod T)" using am by linarith
    then have "tgt = of_nat a + of_nat (T - a mod T)" unfolding e(2) by (metis of_nat_add)
    then have "sb_result cnt tgt \<longleftrightarrow> (of_nat (T - a mod T) :: mword) = of_nat 1"
      unfolding sb_result_def e(1) by (auto simp: algebra_simps)
    also have "\<dots> \<longleftrightarrow> T - a mod T = 1"
      using of_nat_word_inj [of "T - a mod T" 1] assms(2) by auto
    also have "\<dots> \<longleftrightarrow> a mod T = T - 1" using am(2) by linarith
    finally show ?thesis .
  qed
  ultimately show ?thesis by (simp add: sb_arrive_def sb_spins_def)
qed

theorem spin_barrier_groups_witness:
  "sb_spins 4 (sb_after 4 3) \<and> \<not> sb_spins 4 (sb_after 4 4) \<and> \<not> sb_result 2 4"
  using spin_barrier_groups [of 4 3 2 2 4 "\<lparr>sb_target = 4, sb_counter = 3\<rparr>"]
    spin_barrier_groups [of 4 4 2 2 4 "\<lparr>sb_target = 4, sb_counter = 3\<rparr>"]
  by (simp add: sb_after_eq sb_arrive_def)

end
