(* ===== verification/MCS_Lock.thy ===== *)
theory MCS_Lock
  imports Lock_Contract
begin

text \<open>
  \<^verbatim>\<open>MCSLock\<close> of \<^verbatim>\<open>src/src/runtime/SpinLocks.h\<close>: the queueing spin lock. Addresses of nodes are
  non-zero numbers, every thread uses its own node. One function per atomic access to shared memory; the
  program counters of the threads and a ghost queue of the threads that have swapped the tail make the step
  relation.
\<close>

section \<open>The lock and its atomic accesses\<close>

record mcs =
  mcs_tail :: nat
  mcs_next :: "nat \<Rightarrow> nat"
  mcs_wait :: "nat \<Rightarrow> bool"

definition mcs_tryAcquire :: "nat \<Rightarrow> mcs \<Rightarrow> bool \<times> mcs" where
  "mcs_tryAcquire n l =
     (let l1 = l\<lparr>mcs_next := (mcs_next l)(n := 0)\<rparr>
      in if mcs_tail l1 = 0 then (True, l1\<lparr>mcs_tail := n\<rparr>) else (False, l1))"

text \<open>\<^verbatim>\<open>acquire\<close>: clear the own link and swap the tail; then, with a predecessor, set the own flag and
  link behind the predecessor; then spin.\<close>

definition mcs_swap :: "nat \<Rightarrow> mcs \<Rightarrow> nat \<times> mcs" where
  "mcs_swap n l = (mcs_tail l, l\<lparr>mcs_next := (mcs_next l)(n := 0), mcs_tail := n\<rparr>)"

definition mcs_mark :: "nat \<Rightarrow> mcs \<Rightarrow> mcs" where
  "mcs_mark n l = l\<lparr>mcs_wait := (mcs_wait l)(n := True)\<rparr>"

definition mcsl_link :: "nat \<Rightarrow> nat \<Rightarrow> mcs \<Rightarrow> mcs" where
  "mcsl_link prev n l = l\<lparr>mcs_next := (mcs_next l)(prev := n)\<rparr>"

definition mcs_granted :: "nat \<Rightarrow> mcs \<Rightarrow> bool" where
  "mcs_granted n l \<longleftrightarrow> \<not> mcs_wait l n"

text \<open>\<^verbatim>\<open>release\<close>: the first part tries to reset the tail (true: no successor); the second waits for the
  link of the successor (none: it keeps spinning) and passes the lock on.\<close>

definition mcs_release :: "nat \<Rightarrow> mcs \<Rightarrow> (bool \<times> mcs) option" where
  "mcs_release n l =
     do { rassert (mcs_tail l \<noteq> 0);
          Some (if mcs_tail l = n then (True, l\<lparr>mcs_tail := 0\<rparr>) else (False, l)) }"

definition mcs_pass :: "nat \<Rightarrow> mcs \<Rightarrow> mcs option" where
  "mcs_pass n l = (if mcs_next l n = 0 then None else Some (l\<lparr>mcs_wait := (mcs_wait l)(mcs_next l n := False)\<rparr>))"

section \<open>Interleavings\<close>

datatype mcs_pc = MIdle | MSwapped nat | MMarked nat | MSpin | MInside | MReleasing

record mcs_sys =
  mlock :: mcs
  mpc :: "nat \<Rightarrow> mcs_pc"
  mqueue :: "nat list"

inductive mcs_step :: "mcs_sys \<Rightarrow> mcs_sys \<Rightarrow> bool" where
  try_ok: "t \<noteq> 0 \<Longrightarrow> mpc s t = MIdle \<Longrightarrow> mcs_tryAcquire t (mlock s) = (True, l) \<Longrightarrow>
     mcs_step s (s\<lparr>mlock := l, mpc := (mpc s)(t := MInside), mqueue := mqueue s @ [t]\<rparr>)"
| try_fail: "t \<noteq> 0 \<Longrightarrow> mpc s t = MIdle \<Longrightarrow> mcs_tryAcquire t (mlock s) = (False, l) \<Longrightarrow>
     mcs_step s (s\<lparr>mlock := l\<rparr>)"
| swap: "t \<noteq> 0 \<Longrightarrow> mpc s t = MIdle \<Longrightarrow> mcs_swap t (mlock s) = (prev, l) \<Longrightarrow>
     mcs_step s (s\<lparr>mlock := l, mpc := (mpc s)(t := if prev = 0 then MInside else MSwapped prev), mqueue := mqueue s @ [t]\<rparr>)"
| mark: "mpc s t = MSwapped prev \<Longrightarrow>
     mcs_step s (s\<lparr>mlock := mcs_mark t (mlock s), mpc := (mpc s)(t := MMarked prev)\<rparr>)"
| link: "mpc s t = MMarked prev \<Longrightarrow>
     mcs_step s (s\<lparr>mlock := mcsl_link prev t (mlock s), mpc := (mpc s)(t := MSpin)\<rparr>)"
| enter: "mpc s t = MSpin \<Longrightarrow> mcs_granted t (mlock s) \<Longrightarrow>
     mcs_step s (s\<lparr>mpc := (mpc s)(t := MInside)\<rparr>)"
| release_last: "mpc s t = MInside \<Longrightarrow> mcs_release t (mlock s) = Some (True, l) \<Longrightarrow>
     mcs_step s (s\<lparr>mlock := l, mpc := (mpc s)(t := MIdle), mqueue := removeAll t (mqueue s)\<rparr>)"
| release_more: "mpc s t = MInside \<Longrightarrow> mcs_release t (mlock s) = Some (False, l) \<Longrightarrow>
     mcs_step s (s\<lparr>mlock := l, mpc := (mpc s)(t := MReleasing)\<rparr>)"
| pass: "mpc s t = MReleasing \<Longrightarrow> mcs_pass t (mlock s) = Some l \<Longrightarrow>
     mcs_step s (s\<lparr>mlock := l, mpc := (mpc s)(t := MIdle), mqueue := removeAll t (mqueue s)\<rparr>)"

inductive mcs_reach :: "mcs_sys \<Rightarrow> bool" where
  start: "mcs_reach \<lparr>mlock = \<lparr>mcs_tail = 0, mcs_next = nx, mcs_wait = w\<rparr>, mpc = (\<lambda>_. MIdle), mqueue = []\<rparr>"
| step: "mcs_reach s \<Longrightarrow> mcs_step s s' \<Longrightarrow> mcs_reach s'"

section \<open>Invariant\<close>

text \<open>\<open>mcs_behind s a b\<close>: \<open>b\<close> queues directly behind \<open>a\<close>, at one of the stages of its arrival.\<close>

definition mcs_behind :: "mcs_sys \<Rightarrow> nat \<Rightarrow> nat \<Rightarrow> bool" where
  "mcs_behind s a b \<longleftrightarrow>
     (mpc s b = MSwapped a \<and> mcs_next (mlock s) a = 0)
     \<or> (mpc s b = MMarked a \<and> mcs_next (mlock s) a = 0 \<and> mcs_wait (mlock s) b)
     \<or> (mpc s b = MSpin \<and> mcs_next (mlock s) a = b \<and> mcs_wait (mlock s) b)"

definition mcs_front :: "mcs_sys \<Rightarrow> nat \<Rightarrow> bool" where
  "mcs_front s a \<longleftrightarrow> mpc s a = MInside \<or> mpc s a = MReleasing \<or> (mpc s a = MSpin \<and> \<not> mcs_wait (mlock s) a)"

definition mcs_inv :: "mcs_sys \<Rightarrow> bool" where
  "mcs_inv s \<longleftrightarrow> distinct (mqueue s) \<and> 0 \<notin> set (mqueue s) \<and> set (mqueue s) = {t. mpc s t \<noteq> MIdle}
     \<and> mcs_tail (mlock s) = (if mqueue s = [] then 0 else last (mqueue s))
     \<and> successively (mcs_behind s) (mqueue s) \<and> (\<forall>t. mpc s t = MReleasing \<longrightarrow> mcs_tail (mlock s) \<noteq> t)
     \<and> (mqueue s \<noteq> [] \<longrightarrow> mcs_next (mlock s) (last (mqueue s)) = 0 \<and> mcs_front s (hd (mqueue s)))"

lemma mcs_invD:
  assumes "mcs_inv s"
  shows "distinct (mqueue s)" and "0 \<notin> set (mqueue s)" and "t \<in> set (mqueue s) \<longleftrightarrow> mpc s t \<noteq> MIdle"
    and "mqueue s = [] \<Longrightarrow> mcs_tail (mlock s) = 0" and "mqueue s \<noteq> [] \<Longrightarrow> mcs_tail (mlock s) = last (mqueue s)"
    and "successively (mcs_behind s) (mqueue s)"
    and "mqueue s \<noteq> [] \<Longrightarrow> mcs_next (mlock s) (last (mqueue s)) = 0" and "mqueue s \<noteq> [] \<Longrightarrow> mcs_front s (hd (mqueue s))"
    and "mpc s t = MReleasing \<Longrightarrow> mcs_tail (mlock s) \<noteq> t"
  using assms by (auto simp: mcs_inv_def)

lemma mcs_invI:
  assumes "distinct (mqueue s)" and "0 \<notin> set (mqueue s)" and "\<And>t. t \<in> set (mqueue s) \<longleftrightarrow> mpc s t \<noteq> MIdle"
    and "mqueue s = [] \<Longrightarrow> mcs_tail (mlock s) = 0" and "mqueue s \<noteq> [] \<Longrightarrow> mcs_tail (mlock s) = last (mqueue s)"
    and "successively (mcs_behind s) (mqueue s)"
    and "mqueue s \<noteq> [] \<Longrightarrow> mcs_next (mlock s) (last (mqueue s)) = 0" and "mqueue s \<noteq> [] \<Longrightarrow> mcs_front s (hd (mqueue s))"
    and "\<And>t. mpc s t = MReleasing \<Longrightarrow> mcs_tail (mlock s) \<noteq> t"
  shows "mcs_inv s"
  using assms(1,2,4-) by (auto simp: mcs_inv_def simp flip: assms(3))

text \<open>A thread in the queue is first, or directly behind the thread its stage names.\<close>

lemma mcs_pos:
  assumes inv: "mcs_inv s" and t: "mpc s t \<noteq> MIdle" "\<not> mcs_front s t"
  shows "\<exists>j. Suc j < length (mqueue s) \<and> mqueue s ! Suc j = t \<and> mcs_behind s (mqueue s ! j) t"
proof -
  obtain i where i: "i < length (mqueue s)" "mqueue s ! i = t"
    using mcs_invD(3) [OF inv, of t] t by (auto simp: in_set_conv_nth)
  then have "mqueue s \<noteq> []" by auto
  then have "i \<noteq> 0" using i t mcs_invD(8) [OF inv] by (metis hd_conv_nth)
  then obtain j where "i = Suc j" by (cases i) auto
  with i mcs_invD(6) [OF inv] show ?thesis by (auto simp: successively_conv_nth)
qed

lemma mcs_front_first:
  assumes inv: "mcs_inv s" and t: "mpc s t \<noteq> MIdle" "mcs_front s t"
  shows "\<exists>q. mqueue s = t # q"
proof -
  obtain i where i: "i < length (mqueue s)" "mqueue s ! i = t"
    using mcs_invD(3) [OF inv, of t] t by (auto simp: in_set_conv_nth)
  have "i = 0"
  proof (rule ccontr)
    assume "i \<noteq> 0"
    then obtain j where "i = Suc j" by (cases i) auto
    then have "mcs_behind s (mqueue s ! j) t" using i mcs_invD(6) [OF inv] by (auto simp: successively_conv_nth)
    with t show False by (auto simp: mcs_behind_def mcs_front_def)
  qed
  with i show ?thesis by (cases "mqueue s") auto
qed

text \<open>Arrivals.\<close>

lemma mcs_arrive_inv:
  assumes inv: "mcs_inv s" and t: "t \<noteq> 0" "mpc s t = MIdle"
    and l: "mcs_tail l = t" "mcs_next l = (mcs_next (mlock s))(t := 0)" "mcs_wait l = mcs_wait (mlock s)"
    and c: "c = (if mqueue s = [] then MInside else MSwapped (last (mqueue s)))"
  shows "mcs_inv (s\<lparr>mlock := l, mpc := (mpc s)(t := c), mqueue := mqueue s @ [t]\<rparr>)" (is "mcs_inv ?s")
proof -
  note d = mcs_invD [OF inv]
  have nt: "t \<notin> set (mqueue s)" using d(3) t by auto
  have "mcs_behind ?s a b" if "a \<in> set (mqueue s)" "b \<in> set (mqueue s)" "mcs_behind s a b" for a b
  proof -
    have "a \<noteq> t" "b \<noteq> t" using that nt by auto
    with that(3) l show ?thesis by (simp add: mcs_behind_def)
  qed
  then have s1: "successively (mcs_behind ?s) (mqueue s)" by (rule successively_mono [OF d(6)])
  have s2: "mcs_behind ?s (last (mqueue s)) t" if "mqueue s \<noteq> []"
  proof -
    have "last (mqueue s) \<noteq> t" using last_in_set [OF that] nt by metis
    with d(7) [OF that] l c that show ?thesis by (simp add: mcs_behind_def)
  qed
  have cs: "c \<noteq> MIdle" "c \<noteq> MReleasing" using c by simp_all
  have fr: "mcs_front ?s (hd (mqueue s @ [t]))"
  proof (cases "mqueue s")
    case (Cons a q)
    then have "mcs_front s a" "a \<noteq> t" using nt d(8) by auto
    with Cons l show ?thesis by (simp add: mcs_front_def)
  qed (use c in \<open>simp add: mcs_front_def\<close>)
  show ?thesis
  proof (rule mcs_invI)
    show "distinct (mqueue ?s)" "0 \<notin> set (mqueue ?s)" using d(1,2) nt t(1) by simp_all
    show "u \<in> set (mqueue ?s) \<longleftrightarrow> mpc ?s u \<noteq> MIdle" for u using mcs_invD(3) [OF inv, of u] cs(1) by simp
    show "successively (mcs_behind ?s) (mqueue ?s)"
      using s1 s2 by (cases "mqueue s = []") (simp_all add: successively_append_iff)
    show "mcs_tail (mlock ?s) = last (mqueue ?s)" "mcs_next (mlock ?s) (last (mqueue ?s)) = 0" using l by simp_all
    show "mcs_front ?s (hd (mqueue ?s))" using fr by simp
    show "mcs_tail (mlock ?s) \<noteq> u" if "mpc ?s u = MReleasing" for u using that l(1) cs(2) by (auto split: if_splits)
  qed simp
qed

lemma mcs_idle_write_inv:
  assumes inv: "mcs_inv s" and t: "mpc s t = MIdle"
    and l: "mcs_tail l = mcs_tail (mlock s)" "mcs_next l = (mcs_next (mlock s))(t := 0)" "mcs_wait l = mcs_wait (mlock s)"
  shows "mcs_inv (s\<lparr>mlock := l\<rparr>)" (is "mcs_inv ?s")
proof -
  note d = mcs_invD [OF inv]
  have nt: "t \<notin> set (mqueue s)" using d(3) t by auto
  have "successively (mcs_behind ?s) (mqueue s)"
    by (rule successively_mono [OF d(6)]) (use nt l in \<open>auto simp: mcs_behind_def\<close>)
  moreover have "mcs_front ?s (hd (mqueue s))" if "mqueue s \<noteq> []" using d(8) [OF that] l by (simp add: mcs_front_def)
  ultimately show ?thesis using inv l by (auto simp: mcs_inv_def)
qed

text \<open>Steps that change the stage of one queued thread only.\<close>

lemma mcs_stage_inv:
  assumes inv: "mcs_inv s" and "mpc s t \<noteq> MIdle" and "c \<noteq> MIdle" and "c = MReleasing \<Longrightarrow> mcs_tail (mlock s) \<noteq> t"
    and l: "mcs_tail l = mcs_tail (mlock s)"
    and beh: "\<And>i. Suc i < length (mqueue s) \<Longrightarrow> mcs_behind s (mqueue s ! i) (mqueue s ! Suc i) \<Longrightarrow>
        mcs_behind (s\<lparr>mlock := l, mpc := (mpc s)(t := c)\<rparr>) (mqueue s ! i) (mqueue s ! Suc i)"
    and lst: "mcs_next l (last (mqueue s)) = mcs_next (mlock s) (last (mqueue s))"
    and fr: "\<And>a. mcs_front s a \<Longrightarrow> mcs_front (s\<lparr>mlock := l, mpc := (mpc s)(t := c)\<rparr>) a"
  shows "mcs_inv (s\<lparr>mlock := l, mpc := (mpc s)(t := c)\<rparr>)"
proof -
  have "\<forall>u. mpc (s\<lparr>mlock := l, mpc := (mpc s)(t := c)\<rparr>) u = MReleasing \<longrightarrow> mcs_tail l \<noteq> u"
    using assms(4) l mcs_invD(9) [OF inv] by auto
  with assms(1-3,5-) mcs_invD(1-8) [OF inv] show ?thesis by (auto simp: mcs_inv_def successively_conv_nth)
qed

lemma mcs_pass_inv:
  assumes inv: "mcs_inv s" and t: "mpc s t = MReleasing" and pass: "mcs_pass t (mlock s) = Some l"
  shows "mcs_inv (s\<lparr>mlock := l, mpc := (mpc s)(t := MIdle), mqueue := removeAll t (mqueue s)\<rparr>)" (is "mcs_inv ?s")
proof -
  note d = mcs_invD [OF inv]
  obtain q where q: "mqueue s = t # q" using mcs_front_first [OF inv, of t] t by (auto simp: mcs_front_def)
  have nz: "mcs_next (mlock s) t \<noteq> 0" using pass by (auto simp: mcs_pass_def split: if_splits)
  then obtain b r where b: "q = b # r" using d(7) q by (cases q) auto
  then have "mcs_behind s t b" using d(6) q by simp
  with nz have beh: "mpc s b = MSpin" "mcs_next (mlock s) t = b" by (auto simp: mcs_behind_def)
  then have l: "l = (mlock s)\<lparr>mcs_wait := (mcs_wait (mlock s))(b := False)\<rparr>"
    using pass by (auto simp: mcs_pass_def split: if_splits)
  have rm: "removeAll t (mqueue s) = b # r" using q b d(1) by simp
  have succ: "successively (mcs_behind s) (b # r)" using d(6) q b by simp
  have dist: "distinct (t # b # r)" using d(1) q b by simp
  have "successively (mcs_behind ?s) (b # r)"
    unfolding successively_conv_nth
  proof (intro allI impI)
    fix i assume i: "Suc i < length (b # r)"
    then have "(b # r) ! Suc i \<in> set r" by simp
    then have "(b # r) ! Suc i \<noteq> b" "(b # r) ! Suc i \<noteq> t" using dist by auto
    with i succ show "mcs_behind ?s ((b # r) ! i) ((b # r) ! Suc i)"
      by (auto simp: successively_conv_nth mcs_behind_def l)
  qed
  moreover have "mcs_front ?s b" using beh dist by (auto simp: mcs_front_def l)
  moreover have "set (b # r) = {u. mpc ?s u \<noteq> MIdle}" using d(3) q b dist by auto
  moreover have "0 \<notin> set (b # r)" "mcs_tail l = last (b # r)" "mcs_next l (last (b # r)) = 0"
    using d(2,5,7) q b l by auto
  moreover have "\<forall>u. mpc ?s u = MReleasing \<longrightarrow> mcs_tail l \<noteq> u" using d(9) l by auto
  ultimately show ?thesis unfolding mcs_inv_def using rm dist by simp
qed

lemma mcs_step_inv:
  assumes "mcs_step s s'" and "mcs_inv s"
  shows "mcs_inv s'"
  using assms
proof (cases rule: mcs_step.cases)
  case (try_ok t l)
  have "mcs_tail (mlock s) = 0" using try_ok(4) by (auto simp: mcs_tryAcquire_def Let_def split: if_splits)
  then have "mqueue s = []" using mcs_invD(2,5) [OF assms(2)] last_in_set by metis
  then show ?thesis unfolding try_ok(1)
    using try_ok by (intro mcs_arrive_inv assms(2)) (auto simp: mcs_tryAcquire_def Let_def split: if_splits)
next
  case (try_fail t l)
  then show ?thesis
    using assms(2) mcs_idle_write_inv [of s t l] by (auto simp: mcs_tryAcquire_def Let_def split: if_splits)
next
  case (swap t prev l)
  have "prev = (if mqueue s = [] then 0 else last (mqueue s))"
    using swap(4) mcs_invD(4,5) [OF assms(2)] by (auto simp: mcs_swap_def)
  moreover have "last (mqueue s) \<noteq> 0" if "mqueue s \<noteq> []" using mcs_invD(2) [OF assms(2)] last_in_set [OF that] by metis
  ultimately have "(if prev = 0 then MInside else MSwapped prev) = (if mqueue s = [] then MInside else MSwapped (last (mqueue s)))"
    by (cases "mqueue s = []") simp_all
  then show ?thesis unfolding swap(1)
    using swap(2-) by (intro mcs_arrive_inv assms(2)) (auto simp: mcs_swap_def)
next
  case (mark t prev)
  have "mcs_inv (s\<lparr>mlock := mcs_mark t (mlock s), mpc := (mpc s)(t := MMarked prev)\<rparr>)"
    using mark(2) assms(2) by (intro mcs_stage_inv) (auto simp: mcs_mark_def mcs_behind_def mcs_front_def)
  with mark(1) show ?thesis by simp
next
  case (link t prev)
  obtain j where j: "Suc j < length (mqueue s)" "mqueue s ! Suc j = t" "mcs_behind s (mqueue s ! j) t"
    using mcs_pos [OF assms(2), of t] link(2) by (auto simp: mcs_front_def)
  then have p: "mqueue s ! j = prev" "mcs_wait (mlock s) t" using link(2) by (auto simp: mcs_behind_def)
  have uniq: "mqueue s ! i = prev \<longleftrightarrow> i = j" if "i < length (mqueue s)" for i
    using that j(1) p(1) mcs_invD(1) [OF assms(2)] by (auto simp: nth_eq_iff_index_eq)
  have "last (mqueue s) \<noteq> prev"
  proof -
    have "last (mqueue s) = mqueue s ! (length (mqueue s) - 1)" using j(1) by (intro last_conv_nth) auto
    with j(1) uniq [of "length (mqueue s) - 1"] show ?thesis by auto
  qed
  moreover have "mcs_behind (s\<lparr>mlock := mcsl_link prev t (mlock s), mpc := (mpc s)(t := MSpin)\<rparr>) (mqueue s ! i) (mqueue s ! Suc i)"
    if i: "Suc i < length (mqueue s)" "mcs_behind s (mqueue s ! i) (mqueue s ! Suc i)" for i
  proof (cases "i = j")
    case True
    with p j show ?thesis by (simp add: mcs_behind_def mcsl_link_def)
  next
    case False
    then have "mqueue s ! i \<noteq> prev" "mqueue s ! Suc i \<noteq> t"
      using i(1) uniq [of i] j(1,2) mcs_invD(1) [OF assms(2)] by (auto simp: nth_eq_iff_index_eq)
    with i(2) show ?thesis by (auto simp: mcs_behind_def mcsl_link_def)
  qed
  ultimately have "mcs_inv (s\<lparr>mlock := mcsl_link prev t (mlock s), mpc := (mpc s)(t := MSpin)\<rparr>)"
    using link(2) assms(2) by (intro mcs_stage_inv) (auto simp: mcsl_link_def mcs_front_def)
  with link(1) show ?thesis by simp
next
  case (enter t)
  have "mcs_inv (s\<lparr>mlock := mlock s, mpc := (mpc s)(t := MInside)\<rparr>)"
    using enter(2,3) assms(2) by (intro mcs_stage_inv) (auto simp: mcs_granted_def mcs_behind_def mcs_front_def)
  with enter(1) show ?thesis by simp
next
  case (release_last t l)
  obtain q where q: "mqueue s = t # q" using mcs_front_first [OF assms(2), of t] release_last(2) by (auto simp: mcs_front_def)
  have "last (mqueue s) = t" using release_last(3) mcs_invD(5) [OF assms(2)] q by (auto simp: mcs_release_def split: if_splits)
  then have "q = []" using q mcs_invD(1) [OF assms(2)] last_in_set [of q] by (auto split: if_splits)
  then show ?thesis
    using release_last q mcs_invD(3) [OF assms(2)] by (auto simp: mcs_inv_def mcs_release_def split: if_splits)
next
  case (release_more t l)
  have "l = mlock s" using release_more(3) by (auto simp: mcs_release_def split: if_splits)
  moreover have "mcs_tail (mlock s) \<noteq> t" using release_more(3) by (auto simp: mcs_release_def split: if_splits)
  then have "mcs_inv (s\<lparr>mlock := mlock s, mpc := (mpc s)(t := MReleasing)\<rparr>)"
    using release_more(2) assms(2) by (intro mcs_stage_inv) (auto simp: mcs_behind_def mcs_front_def)
  ultimately show ?thesis using release_more(1) by simp
next
  case (pass t l)
  then show ?thesis using mcs_pass_inv [OF assms(2) pass(2,3)] by simp
qed

lemma mcs_reach_inv: "mcs_reach s \<Longrightarrow> mcs_inv s"
proof (induction rule: mcs_reach.induct)
  case (start nx w)
  then show ?case by (simp add: mcs_inv_def)
qed (rule mcs_step_inv)

interpretation mcsl: mutex mcs_reach mcs_step "\<lambda>s t. mpc s t = MInside"
proof
  fix s t u assume "mcs_reach s" "mpc s t = MInside" "mpc s u = MInside"
  moreover have "mcs_inv s" by (rule mcs_reach_inv) fact
  ultimately show "t = u" using mcs_front_first [of s t] mcs_front_first [of s u] by (auto simp: mcs_front_def)
qed (rule mcs_reach.step)

text \<open>C32: \<^verbatim>\<open>MCSLock\<close>, for every interleaving of the atomic accesses of any number of threads: at most one
  thread holds the lock (is inside or about to pass it on), and it is the one that swapped the tail first
  among those queued; no release violates its assertion; the lock is never lost: when threads are queued,
  the first of them holds the lock or finds its flag cleared, and a releasing thread that still waits for a
  link has a successor that is about to set it.\<close>

theorem mcs_lock_fifo:
  assumes "mcs_reach s"
  shows "(\<forall>t. mpc s t \<in> {MInside, MReleasing} \<longrightarrow> mqueue s \<noteq> [] \<and> hd (mqueue s) = t)
    \<and> (\<forall>t. mpc s t = MInside \<longrightarrow> mcs_release t (mlock s) \<noteq> None)
    \<and> (mqueue s \<noteq> [] \<longrightarrow> mpc s (hd (mqueue s)) \<in> {MInside, MReleasing}
        \<or> (mpc s (hd (mqueue s)) = MSpin \<and> mcs_granted (hd (mqueue s)) (mlock s)))
    \<and> (\<forall>t. mpc s t = MReleasing \<longrightarrow> mcs_pass t (mlock s) \<noteq> None
        \<or> (\<exists>u. mpc s u = MSwapped t \<or> mpc s u = MMarked t))"
proof -
  have inv: "mcs_inv s" by (rule mcs_reach_inv [OF assms])
  have first: "\<exists>q. mqueue s = t # q" if "mpc s t \<in> {MInside, MReleasing}" for t
    using mcs_front_first [OF inv, of t] that by (auto simp: mcs_front_def)
  have "mcs_tail (mlock s) \<noteq> 0" if "mqueue s \<noteq> []"
    using that mcs_invD(2,5) [OF inv] last_in_set by metis
  then have "mcs_release t (mlock s) \<noteq> None" if "mpc s t = MInside" for t
    using first [of t] that by (auto simp: mcs_release_def)
  moreover have "mcs_pass t (mlock s) \<noteq> None \<or> (\<exists>u. mpc s u = MSwapped t \<or> mpc s u = MMarked t)"
    if t: "mpc s t = MReleasing" for t
  proof -
    obtain q where q: "mqueue s = t # q" using first [of t] t by auto
    show ?thesis
    proof (cases q)
      case Nil
      with q mcs_invD(5) [OF inv] mcs_invD(9) [OF inv t] show ?thesis by simp
    next
      case (Cons b r)
      with q mcs_invD(2,6) [OF inv] have "mcs_behind s t b" "b \<noteq> 0" by auto
      then show ?thesis by (auto simp: mcs_behind_def mcs_pass_def)
    qed
  qed
  ultimately show ?thesis
    using first mcs_invD(8) [OF inv] by (fastforce simp: mcs_front_def mcs_granted_def)
qed

text \<open>Thread 7 is inside and thread 8 has linked behind it.\<close>

definition mcs_example :: mcs_sys where
  "mcs_example = \<lparr>mlock = \<lparr>mcs_tail = 8, mcs_next = (\<lambda>_. 0)(8 := 0, 7 := 8), mcs_wait = (\<lambda>_. False)(8 := True)\<rparr>,
     mpc = (\<lambda>_. MIdle)(7 := MInside, 8 := MSpin), mqueue = [7, 8]\<rparr>"

lemma mcs_example_reach: "mcs_reach mcs_example"
proof -
  let ?s0 = "\<lparr>mlock = \<lparr>mcs_tail = 0, mcs_next = (\<lambda>_. 0), mcs_wait = (\<lambda>_. False)\<rparr>, mpc = (\<lambda>_. MIdle), mqueue = []\<rparr>"
  let ?s1 = "?s0\<lparr>mlock := snd (mcs_swap 7 (mlock ?s0)), mpc := (\<lambda>_. MIdle)(7 := MInside), mqueue := [7]\<rparr>"
  let ?s2 = "?s1\<lparr>mlock := snd (mcs_swap 8 (mlock ?s1)), mpc := (\<lambda>_. MIdle)(7 := MInside, 8 := MSwapped 7), mqueue := [7, 8]\<rparr>"
  let ?s3 = "?s2\<lparr>mlock := mcs_mark 8 (mlock ?s2), mpc := (\<lambda>_. MIdle)(7 := MInside, 8 := MMarked 7)\<rparr>"
  have "mcs_reach ?s1"
    by (rule mcs_reach.step [OF mcs_reach.start]) (use mcs_step.swap [of 7 ?s0] in \<open>simp add: mcs_swap_def\<close>)
  then have "mcs_reach ?s2"
    by (rule mcs_reach.step) (use mcs_step.swap [of 8 ?s1] in \<open>simp add: mcs_swap_def\<close>)
  then have "mcs_reach ?s3"
    by (rule mcs_reach.step) (use mcs_step.mark [of ?s2 8 7] in \<open>simp add: mcs_swap_def\<close>)
  then show ?thesis
    by (rule mcs_reach.step) (use mcs_step.link [of ?s3 8 7] in \<open>simp add: mcs_swap_def mcs_mark_def mcsl_link_def mcs_example_def\<close>)
qed

theorem mcs_lock_fifo_witness:
  "hd (mqueue mcs_example) = 7 \<and> mpc mcs_example 7 = MInside \<and> mcs_release 7 (mlock mcs_example) \<noteq> None"
  using mcs_lock_fifo [OF mcs_example_reach] by (simp add: mcs_example_def)

end
