(* ===== verification/Lock_Free.thy ===== *)
theory Lock_Free
  imports Fred_Model
begin

text \<open>
  \<^verbatim>\<open>src/src/runtime/LockFreeQueues.h\<close>: the Nemesis queue (on top of the MCS queue), used for the ready
  queues and the semaphores. Every access to shared memory is one step; any number of producers push
  concurrently with one consumer (the consumer side is serialised by its caller). The invariant relates
  head, tail and links to the list of queued elements through all intermediate states.
\<close>

section \<open>Operations\<close>

record nqueue =
  nq_tail :: addr
  nq_head :: addr
  nq_next :: "addr \<Rightarrow> addr"

definition new_nqueue :: nqueue where
  "new_nqueue = \<lparr>nq_tail = 0, nq_head = 0, nq_next = (\<lambda>_. 0)\<rparr>"

definition mcs_empty :: "nqueue \<Rightarrow> bool" where
  "mcs_empty q \<longleftrightarrow> nq_tail q = 0"

text \<open>\<^verbatim>\<open>tryPushEmpty\<close>: the assertion and the compare-and-swap.\<close>

definition mcs_tryPushEmpty :: "addr \<Rightarrow> nqueue \<Rightarrow> (bool \<times> nqueue) option" where
  "mcs_tryPushEmpty x q =
     do { rassert (nq_next q x = 0);
          Some (if mcs_empty q then (True, q\<lparr>nq_tail := x\<rparr>) else (False, q)) }"

text \<open>\<^verbatim>\<open>push\<close>: the exchange of the tail returns the previous tail; then either the link of the
  previous tail is set, or (Nemesis) the head.\<close>

definition mcs_exchange :: "addr \<Rightarrow> nqueue \<Rightarrow> (addr \<times> nqueue) option" where
  "mcs_exchange x q = do { rassert (nq_next q x = 0); Some (nq_tail q, q\<lparr>nq_tail := x\<rparr>) }"

definition mcs_link :: "addr \<Rightarrow> addr \<Rightarrow> nqueue \<Rightarrow> nqueue" where
  "mcs_link prev x q = q\<lparr>nq_next := (nq_next q)(prev := x)\<rparr>"

definition nem_set_head :: "addr \<Rightarrow> nqueue \<Rightarrow> nqueue" where
  "nem_set_head x q = q\<lparr>nq_head := x\<rparr>"

text \<open>\<^verbatim>\<open>QueueMCS::pop\<close>: the compare-and-swap on the tail, and the invalidation of the link.\<close>

definition mcs_cas_tail :: "addr \<Rightarrow> nqueue \<Rightarrow> bool \<times> nqueue" where
  "mcs_cas_tail e q = (if nq_tail q = e then (True, q\<lparr>nq_tail := 0\<rparr>) else (False, q))"

definition nem_clear :: "addr \<Rightarrow> nqueue \<Rightarrow> nqueue" where
  "nem_clear e q = q\<lparr>nq_next := (nq_next q)(e := 0)\<rparr>"

text \<open>The program counter of \<^verbatim>\<open>QueueNemesis::pop\<close> with its local variables \<open>elem\<close> and \<open>next\<close>.\<close>

datatype pop_pc =
    PopIdle
  | PopHave addr            \<comment> \<open>\<open>head\<close> loaded, not null\<close>
  | PopRead addr addr       \<comment> \<open>\<open>next = Next(*elem)\<close> done\<close>
  | PopClear addr           \<comment> \<open>\<open>head = next\<close> done, \<open>next\<close> not null\<close>
  | PopCas addr             \<comment> \<open>\<open>head = nullptr\<close> done, in the base class\<close>
  | PopWait addr            \<comment> \<open>waiting for a producer to set the link\<close>
  | PopGot addr addr        \<comment> \<open>link read\<close>
  | PopCleared addr addr    \<comment> \<open>link invalidated, before the final \<open>head = next\<close>\<close>

record nem_sys =
  nq :: nqueue
  pc :: pop_pc
  pendLink :: "(addr \<times> addr) set"   \<comment> \<open>producers between exchange and link: previous tail, element\<close>
  pendHead :: "addr set"            \<comment> \<open>producers between exchange and store to head\<close>
  elems :: "addr list"              \<comment> \<open>queued elements, in the order of the exchanges\<close>
  pushed :: "addr list"             \<comment> \<open>all elements ever exchanged in, in order\<close>
  popped :: "addr list"             \<comment> \<open>all elements taken out, in order\<close>

definition held :: "pop_pc \<Rightarrow> addr set" where
  "held c = (case c of PopClear e \<Rightarrow> {e} | _ \<Rightarrow> {})"

definition nem_init :: nem_sys where
  "nem_init = \<lparr>nq = new_nqueue, pc = PopIdle, pendLink = {}, pendHead = {}, elems = [], pushed = [], popped = []\<rparr>"

text \<open>The element at the front has been taken out.\<close>

definition take_front :: "nem_sys \<Rightarrow> nem_sys" where
  "take_front s = s\<lparr>elems := tl (elems s), popped := popped s @ [hd (elems s)]\<rparr>"

inductive nem_step :: "nem_sys \<Rightarrow> nem_sys \<Rightarrow> bool" where
  push_behind: "x \<noteq> 0 \<Longrightarrow> x \<notin> set (elems s) \<Longrightarrow> x \<notin> held (pc s) \<Longrightarrow> mcs_exchange x (nq s) = Some (prev, q) \<Longrightarrow> prev \<noteq> 0 \<Longrightarrow>
     nem_step s (s\<lparr>nq := q, pendLink := insert (prev, x) (pendLink s), elems := elems s @ [x], pushed := pushed s @ [x]\<rparr>)"
| push_first: "x \<noteq> 0 \<Longrightarrow> x \<notin> set (elems s) \<Longrightarrow> x \<notin> held (pc s) \<Longrightarrow> mcs_exchange x (nq s) = Some (0, q) \<Longrightarrow>
     nem_step s (s\<lparr>nq := q, pendHead := insert x (pendHead s), elems := elems s @ [x], pushed := pushed s @ [x]\<rparr>)"
| link: "(prev, x) \<in> pendLink s \<Longrightarrow>
     nem_step s (s\<lparr>nq := mcs_link prev x (nq s), pendLink := pendLink s - {(prev, x)}\<rparr>)"
| set_head: "x \<in> pendHead s \<Longrightarrow> nem_step s (s\<lparr>nq := nem_set_head x (nq s), pendHead := pendHead s - {x}\<rparr>)"
| load_head: "pc s = PopIdle \<Longrightarrow> nq_head (nq s) = e \<Longrightarrow> e \<noteq> 0 \<Longrightarrow> nem_step s (s\<lparr>pc := PopHave e\<rparr>)"
| read_next: "pc s = PopHave e \<Longrightarrow> nem_step s (s\<lparr>pc := PopRead e (nq_next (nq s) e)\<rparr>)"
| head_next: "pc s = PopRead e n \<Longrightarrow> n \<noteq> 0 \<Longrightarrow>
     nem_step s (take_front (s\<lparr>nq := nem_set_head n (nq s), pc := PopClear e\<rparr>))"
| clear: "pc s = PopClear e \<Longrightarrow> nem_step s (s\<lparr>nq := nem_clear e (nq s), pc := PopIdle\<rparr>)"
| head_null: "pc s = PopRead e 0 \<Longrightarrow> nem_step s (s\<lparr>nq := nem_set_head 0 (nq s), pc := PopCas e\<rparr>)"
| cas_last: "pc s = PopCas e \<Longrightarrow> mcs_cas_tail e (nq s) = (True, q) \<Longrightarrow>
     nem_step s (take_front (s\<lparr>nq := q, pc := PopIdle\<rparr>))"
| cas_fail: "pc s = PopCas e \<Longrightarrow> mcs_cas_tail e (nq s) = (False, q) \<Longrightarrow> nem_step s (s\<lparr>nq := q, pc := PopWait e\<rparr>)"
| wait_link: "pc s = PopWait e \<Longrightarrow> nq_next (nq s) e = n \<Longrightarrow> n \<noteq> 0 \<Longrightarrow> nem_step s (s\<lparr>pc := PopGot e n\<rparr>)"
| clear_link: "pc s = PopGot e n \<Longrightarrow> nem_step s (s\<lparr>nq := nem_clear e (nq s), pc := PopCleared e n\<rparr>)"
| head_final: "pc s = PopCleared e n \<Longrightarrow>
     nem_step s (take_front (s\<lparr>nq := nem_set_head n (nq s), pc := PopIdle\<rparr>))"

inductive nem_reach :: "nem_sys \<Rightarrow> bool" where
  start: "nem_reach nem_init"
| step: "nem_reach s \<Longrightarrow> nem_step s s' \<Longrightarrow> nem_reach s'"

section \<open>Invariant\<close>

text \<open>Along the queue each element links to the next one, unless the producer of the next one has yet to set
  the link.\<close>

fun nchain :: "(addr \<Rightarrow> addr) \<Rightarrow> (addr \<times> addr) set \<Rightarrow> addr list \<Rightarrow> bool" where
  "nchain h L (a # b # xs) \<longleftrightarrow> h a = (if (a, b) \<in> L then 0 else b) \<and> nchain h L (b # xs)"
| "nchain h L [a] \<longleftrightarrow> h a = 0"
| "nchain h L [] \<longleftrightarrow> True"

fun pairs :: "addr list \<Rightarrow> (addr \<times> addr) set" where
  "pairs (a # b # xs) = insert (a, b) (pairs (b # xs))"
| "pairs _ = {}"

definition front_ok :: "pop_pc \<Rightarrow> nqueue \<Rightarrow> addr set \<Rightarrow> addr list \<Rightarrow> (addr \<times> addr) set \<Rightarrow> bool" where
  "front_ok c q PH xs L \<longleftrightarrow> (case c of
      PopIdle \<Rightarrow> if xs = [] then nq_head q = 0 \<and> PH = {}
                else nq_head q = hd xs \<and> PH = {} \<or> nq_head q = 0 \<and> PH = {hd xs}
    | PopHave e \<Rightarrow> xs \<noteq> [] \<and> e = hd xs \<and> nq_head q = e \<and> PH = {}
    | PopRead e n \<Rightarrow> xs \<noteq> [] \<and> e = hd xs \<and> nq_head q = e \<and> PH = {} \<and> (n \<noteq> 0 \<longrightarrow> nq_next q e = n)
    | PopClear e \<Rightarrow> xs \<noteq> [] \<and> e \<notin> set xs \<and> e \<noteq> 0 \<and> nq_head q = hd xs \<and> PH = {}
    | PopCas e \<Rightarrow> xs \<noteq> [] \<and> e = hd xs \<and> nq_head q = 0 \<and> PH = {}
    | PopWait e \<Rightarrow> xs \<noteq> [] \<and> tl xs \<noteq> [] \<and> e = hd xs \<and> nq_head q = 0 \<and> PH = {}
    | PopGot e n \<Rightarrow> xs \<noteq> [] \<and> tl xs \<noteq> [] \<and> e = hd xs \<and> nq_head q = 0 \<and> PH = {} \<and> n \<noteq> 0 \<and> nq_next q e = n
    | PopCleared e n \<Rightarrow> xs \<noteq> [] \<and> tl xs \<noteq> [] \<and> e = hd xs \<and> nq_head q = 0 \<and> PH = {} \<and> n = hd (tl xs)
        \<and> nq_next q e = 0 \<and> (e, n) \<notin> L)"

definition linked_part :: "pop_pc \<Rightarrow> addr list \<Rightarrow> addr list" where
  "linked_part c xs = (case c of PopCleared e n \<Rightarrow> tl xs | _ \<Rightarrow> xs)"

definition nem_inv :: "nem_sys \<Rightarrow> bool" where
  "nem_inv s \<longleftrightarrow>
     distinct (elems s) \<and> 0 \<notin> set (elems s)
     \<and> nq_tail (nq s) = (if elems s = [] then 0 else last (elems s))
     \<and> nchain (nq_next (nq s)) (pendLink s) (linked_part (pc s) (elems s))
     \<and> pendLink s \<subseteq> pairs (elems s)
     \<and> (\<forall>x. x \<notin> set (elems s) \<and> x \<notin> held (pc s) \<longrightarrow> nq_next (nq s) x = 0)
     \<and> front_ok (pc s) (nq s) (pendHead s) (elems s) (pendLink s)
     \<and> pushed s = popped s @ elems s"

lemma pairs_in: "(a, b) \<in> pairs xs \<Longrightarrow> a \<in> set xs \<and> b \<in> set xs"
  by (induction xs rule: pairs.induct) auto

lemma pairs_snoc: "pairs (xs @ [p, x]) = insert (p, x) (pairs (xs @ [p]))"
  by (induction xs rule: pairs.induct) auto

lemma nchain_upd: "a \<notin> set xs \<Longrightarrow> nchain (h(a := v)) L xs = nchain h L xs"
  by (induction h L xs rule: nchain.induct) auto

lemma nchain_cong: "(\<And>a b. (a, b) \<in> pairs xs \<Longrightarrow> (a, b) \<in> L' \<longleftrightarrow> (a, b) \<in> L) \<Longrightarrow> nchain h L' xs = nchain h L xs"
  by (induction h L xs rule: nchain.induct) auto

lemma nchain_tl: "nchain h L xs \<Longrightarrow> nchain h L (tl xs)"
  by (induction h L xs rule: nchain.induct) auto

lemma nchain_push:
  assumes "nchain h L (xs @ [p])" and "distinct (xs @ [p])" and "x \<notin> set (xs @ [p])" and "h x = 0"
  shows "nchain h (insert (p, x) L) (xs @ [p, x])"
  using assms
proof (induction xs rule: pairs.induct, goal_cases)
  case (1 a b xs)
  then show ?case by auto
next
  case (3 a)
  then show ?case by auto
qed simp

lemma nchain_link:
  assumes "nchain h L xs" and "distinct xs" and "(p, x) \<in> pairs xs" and "(p, x) \<in> L"
  shows "nchain (h(p := x)) (L - {(p, x)}) xs"
  using assms
proof (induction h L xs rule: nchain.induct)
  case (1 h L a b xs)
  show ?case
  proof (cases "(p, x) = (a, b)")
    case True
    have "nchain (h(a := b)) (L - {(a, b)}) (b # xs) = nchain h L (b # xs)"
      using 1(3) pairs_in [of a b "b # xs"] by (subst nchain_upd) (auto intro!: nchain_cong)
    moreover have "p = a" "x = b" using True by simp_all
    ultimately show ?thesis using 1(2) by (simp only: nchain.simps) simp
  next
    case False
    then have "(p, x) \<in> pairs (b # xs)" using 1 by auto
    moreover from this have "p \<noteq> a" using 1(3) pairs_in [of p x "b # xs"] by auto
    ultimately show ?thesis using 1 by auto
  qed
qed simp_all

lemma nchain_second:
  assumes "nchain h L xs" and "xs \<noteq> []" and "h (hd xs) \<noteq> 0"
  shows "tl xs \<noteq> [] \<and> h (hd xs) = hd (tl xs) \<and> (hd xs, hd (tl xs)) \<notin> L"
  using assms by (induction h L xs rule: nchain.induct) (auto split: if_splits)

lemma nchain_pair_zero: "nchain h L xs \<Longrightarrow> (p, x) \<in> pairs xs \<Longrightarrow> (p, x) \<in> L \<Longrightarrow> h p = 0"
  by (induction h L xs rule: nchain.induct) auto

lemma pairs_tl: "distinct xs \<Longrightarrow> pairs (tl xs) = pairs xs - {(hd xs, hd (tl xs))}"
proof (induction xs rule: pairs.induct)
  case (1 a b xs)
  then have "(a, b) \<notin> pairs (b # xs)" using pairs_in [of a b "b # xs"] by auto
  then show ?case by auto
qed simp_all

lemma pairs_hd_notin: "distinct xs \<Longrightarrow> (hd xs, b) \<in> pairs xs \<Longrightarrow> b = hd (tl xs)"
proof (induction xs rule: pairs.induct)
  case (1 a c xs)
  then show ?case using pairs_in [of a b "c # xs"] by auto
qed simp_all

lemma take_front_sel [simp]:
  "nq (take_front s) = nq s" "pc (take_front s) = pc s" "pendLink (take_front s) = pendLink s"
  "pendHead (take_front s) = pendHead s" "elems (take_front s) = tl (elems s)" "pushed (take_front s) = pushed s"
  "popped (take_front s) = popped s @ [hd (elems s)]"
  by (simp_all add: take_front_def)

lemmas nem_op_defs = mcs_exchange_def mcs_link_def nem_set_head_def mcs_cas_tail_def nem_clear_def

lemma nem_inv_push_behind:
  assumes inv: "nem_inv s" and x: "x \<noteq> 0" "x \<notin> set (elems s)" "x \<notin> held (pc s)"
    and e: "mcs_exchange x (nq s) = Some (prev, q)" and "prev \<noteq> 0"
  shows "nem_inv (s\<lparr>nq := q, pendLink := insert (prev, x) (pendLink s), elems := elems s @ [x], pushed := pushed s @ [x]\<rparr>)"
proof -
  have q: "prev = nq_tail (nq s)" "q = (nq s)\<lparr>nq_tail := x\<rparr>" "nq_next (nq s) x = 0"
    using e by (auto simp: mcs_exchange_def split: if_splits)
  obtain ys where ys: "elems s = ys @ [prev]"
    using inv \<open>prev \<noteq> 0\<close> q(1) by (cases "elems s" rule: rev_cases) (auto simp: nem_inv_def)
  have d: "distinct (ys @ [prev])" "x \<notin> set (ys @ [prev])" using inv x(2) ys by (auto simp: nem_inv_def)
  have ch: "nchain (nq_next (nq s)) (insert (prev, x) (pendLink s)) (linked_part (pc s) (ys @ [prev, x]))"
  proof (cases "\<exists>e n. pc s = PopCleared e n")
    case True
    then obtain e n where pc: "pc s = PopCleared e n" by blast
    then have "tl (ys @ [prev]) \<noteq> []" "nchain (nq_next (nq s)) (pendLink s) (tl (ys @ [prev]))"
      using inv ys by (auto simp: nem_inv_def front_ok_def linked_part_def)
    moreover from this obtain z zs where "ys = z # zs" by (cases ys) auto
    ultimately show ?thesis using nchain_push [of _ _ zs prev x] d q(3) pc by (simp add: linked_part_def)
  next
    case False
    then have lp: "linked_part (pc s) zs = zs" for zs by (cases "pc s") (auto simp: linked_part_def)
    then have "nchain (nq_next (nq s)) (pendLink s) (ys @ [prev])" using inv ys by (simp add: nem_inv_def)
    from nchain_push [OF this d q(3)] lp show ?thesis by simp
  qed
  have fr: "front_ok (pc s) (nq s) (pendHead s) (ys @ [prev]) (pendLink s)" using inv ys by (simp add: nem_inv_def)
  have "front_ok (pc s) q (pendHead s) (ys @ [prev, x]) (insert (prev, x) (pendLink s))"
  proof (cases "pc s")
    case (PopCleared e n)
    then have "tl ys \<noteq> [] \<or> ys \<noteq> []" using fr by (cases ys) (auto simp: front_ok_def)
    with fr PopCleared d q(2) show ?thesis
      by (cases ys; cases "tl ys") (auto simp: front_ok_def split: if_splits)
  qed (use fr d q(2) x in \<open>cases ys; auto simp: front_ok_def held_def split: if_splits\<close>)+
  moreover have "insert (prev, x) (pendLink s) \<subseteq> pairs (ys @ [prev, x])"
    using inv ys by (auto simp: nem_inv_def pairs_snoc)
  ultimately show ?thesis
    using inv ys q x ch d by (auto simp: nem_inv_def)
qed

lemma nem_inv_push_first:
  assumes inv: "nem_inv s" and x: "x \<noteq> 0" "x \<notin> set (elems s)" "x \<notin> held (pc s)"
    and e: "mcs_exchange x (nq s) = Some (0, q)"
  shows "nem_inv (s\<lparr>nq := q, pendHead := insert x (pendHead s), elems := elems s @ [x], pushed := pushed s @ [x]\<rparr>)"
proof -
  have q: "nq_tail (nq s) = 0" "q = (nq s)\<lparr>nq_tail := x\<rparr>" "nq_next (nq s) x = 0"
    using e by (auto simp: mcs_exchange_def split: if_splits)
  have el: "elems s = []"
    using inv q(1) by (cases "elems s" rule: rev_cases) (auto simp: nem_inv_def)
  then have "pc s = PopIdle" using inv by (cases "pc s") (auto simp: nem_inv_def front_ok_def)
  with inv el q x show ?thesis by (auto simp: nem_inv_def front_ok_def linked_part_def)
qed

lemma nem_inv_link:
  assumes inv: "nem_inv s" and l: "(p, x) \<in> pendLink s"
  shows "nem_inv (s\<lparr>nq := mcs_link p x (nq s), pendLink := pendLink s - {(p, x)}\<rparr>)"
proof -
  have pr: "(p, x) \<in> pairs (elems s)" "distinct (elems s)" using inv l by (auto simp: nem_inv_def)
  then have p: "p \<in> set (elems s)" using pairs_in by blast
  have fr: "front_ok (pc s) (nq s) (pendHead s) (elems s) (pendLink s)"
    and ch: "nchain (nq_next (nq s)) (pendLink s) (linked_part (pc s) (elems s))"
    using inv by (simp_all add: nem_inv_def)
  have clr: "(p, x) \<in> pairs (tl (elems s)) \<and> p \<noteq> e" if "pc s = PopCleared e n" for e n
  proof -
    have "p \<noteq> hd (elems s)" using fr that pr l pairs_hd_notin [OF pr(2)] by (auto simp: front_ok_def)
    with fr that pr show ?thesis by (auto simp: pairs_tl front_ok_def)
  qed
  have z: "nq_next (nq s) p = 0"
    using ch pr l clr by (cases "pc s") (auto simp: linked_part_def dest: nchain_pair_zero)
  have "nchain ((nq_next (nq s))(p := x)) (pendLink s - {(p, x)}) (linked_part (pc s) (elems s))"
    using ch pr l clr by (cases "pc s") (auto simp: linked_part_def distinct_tl intro!: nchain_link)
  moreover have "front_ok (pc s) (mcs_link p x (nq s)) (pendHead s) (elems s) (pendLink s - {(p, x)})"
    using fr z clr by (cases "pc s") (auto simp: front_ok_def mcs_link_def)
  ultimately show ?thesis
    using inv p by (auto simp: nem_inv_def mcs_link_def)
qed

lemma nem_inv_set_head:
  assumes inv: "nem_inv s" and "x \<in> pendHead s"
  shows "nem_inv (s\<lparr>nq := nem_set_head x (nq s), pendHead := pendHead s - {x}\<rparr>)"
proof -
  have "pc s = PopIdle" "elems s \<noteq> []" "pendHead s = {x}" "x = hd (elems s)"
    using assms by (cases "pc s"; auto simp: nem_inv_def front_ok_def split: if_splits)+
  with inv show ?thesis by (auto simp: nem_inv_def front_ok_def linked_part_def nem_set_head_def)
qed

lemma nem_inv_head_next:
  assumes inv: "nem_inv s" and pc: "pc s = PopRead e n" and n: "n \<noteq> 0"
  shows "nem_inv (take_front (s\<lparr>nq := nem_set_head n (nq s), pc := PopClear e\<rparr>))"
proof -
  have f: "elems s \<noteq> []" "e = hd (elems s)" "pendHead s = {}" "nq_next (nq s) e = n"
    "nchain (nq_next (nq s)) (pendLink s) (elems s)" "distinct (elems s)" "0 \<notin> set (elems s)"
    using inv pc n by (auto simp: nem_inv_def front_ok_def linked_part_def)
  then obtain b xs where el: "elems s = e # b # xs" "n = b" "(e, b) \<notin> pendLink s"
    using nchain_second [of "nq_next (nq s)" "pendLink s" "elems s"] n
    by (cases "elems s"; cases "tl (elems s)") auto
  have i: "distinct (e # b # xs)" "0 \<notin> set (e # b # xs)" "nq_tail (nq s) = last (b # xs)"
    "pendLink s \<subseteq> pairs (e # b # xs)" "\<forall>x. x \<notin> set (e # b # xs) \<longrightarrow> nq_next (nq s) x = 0" "pushed s = popped s @ e # b # xs"
    using inv pc by (simp_all add: nem_inv_def el held_def)
  moreover have "pendLink s \<subseteq> pairs (b # xs)" using i(4) el(3) by auto
  moreover have "nchain (nq_next (nq s)) (pendLink s) (b # xs)" using f(5) by (simp add: el)
  ultimately show ?thesis
    using f(3) el(2) by (simp add: nem_inv_def front_ok_def linked_part_def nem_set_head_def held_def el(1))
qed

lemma nem_inv_cas_last:
  assumes inv: "nem_inv s" and pc: "pc s = PopCas e" and c: "mcs_cas_tail e (nq s) = (True, q)"
  shows "nem_inv (take_front (s\<lparr>nq := q, pc := PopIdle\<rparr>))"
proof -
  have f: "elems s \<noteq> []" "e = hd (elems s)" "pendHead s = {}" "nq_head (nq s) = 0" "distinct (elems s)" "last (elems s) = e"
    and q: "q = (nq s)\<lparr>nq_tail := 0\<rparr>"
    using inv pc c by (auto simp: nem_inv_def front_ok_def mcs_cas_tail_def split: if_splits)
  then have "elems s = [e]"
    using last_in_set [of "tl (elems s)"] by (cases "elems s") (auto split: if_splits)
  then have el: "elems s = [e]" .
  have "pendLink s = {}" "e \<noteq> 0" "nq_next (nq s) e = 0" "\<forall>x. x \<noteq> e \<longrightarrow> nq_next (nq s) x = 0" "pushed s = popped s @ [e]"
    using inv pc by (simp_all add: nem_inv_def el held_def linked_part_def)
  moreover from this have "nq_next (nq s) x = 0" for x by (cases "x = e") simp_all
  ultimately show ?thesis
    using f(3,4) q by (simp add: nem_inv_def front_ok_def linked_part_def held_def el)
qed

lemma nem_inv_cas_fail:
  assumes inv: "nem_inv s" and pc: "pc s = PopCas e" and c: "mcs_cas_tail e (nq s) = (False, q)"
  shows "nem_inv (s\<lparr>nq := q, pc := PopWait e\<rparr>)"
proof -
  have "elems s \<noteq> []" "e = hd (elems s)" "last (elems s) \<noteq> e" "q = nq s"
    using inv pc c by (auto simp: nem_inv_def front_ok_def mcs_cas_tail_def split: if_splits)
  moreover from this have "tl (elems s) \<noteq> []" by (cases "elems s") (auto split: if_splits)
  ultimately show ?thesis
    using inv pc by (auto simp: nem_inv_def front_ok_def linked_part_def held_def)
qed

lemma nem_inv_clear_link:
  assumes inv: "nem_inv s" and pc: "pc s = PopGot e n"
  shows "nem_inv (s\<lparr>nq := nem_clear e (nq s), pc := PopCleared e n\<rparr>)"
proof -
  have f: "elems s \<noteq> []" "tl (elems s) \<noteq> []" "e = hd (elems s)" "n \<noteq> 0" "nq_next (nq s) e = n"
    "nchain (nq_next (nq s)) (pendLink s) (elems s)" "distinct (elems s)"
    using inv pc by (auto simp: nem_inv_def front_ok_def linked_part_def)
  from nchain_second [OF f(6,1)] f have s2: "n = hd (tl (elems s))" "(e, n) \<notin> pendLink s" by auto
  have "e \<notin> set (tl (elems s))" using f(1,3,7) by (cases "elems s") auto
  then have "nchain ((nq_next (nq s))(e := 0)) (pendLink s) (tl (elems s))"
    using nchain_tl [OF f(6)] by (simp add: nchain_upd)
  with inv pc f s2 show ?thesis
    by (auto simp: nem_inv_def front_ok_def linked_part_def held_def nem_clear_def)
qed

lemma nem_inv_head_final:
  assumes inv: "nem_inv s" and pc: "pc s = PopCleared e n"
  shows "nem_inv (take_front (s\<lparr>nq := nem_set_head n (nq s), pc := PopIdle\<rparr>))"
proof -
  have f: "elems s \<noteq> []" "tl (elems s) \<noteq> []" "e = hd (elems s)" "n = hd (tl (elems s))" "nq_next (nq s) e = 0"
    "nchain (nq_next (nq s)) (pendLink s) (tl (elems s))" "(e, n) \<notin> pendLink s" "pendHead s = {}"
    using inv pc by (auto simp: nem_inv_def front_ok_def linked_part_def)
  then obtain xs where el: "elems s = e # n # xs" by (cases "elems s"; cases "tl (elems s)") auto
  have i: "distinct (e # n # xs)" "0 \<notin> set (e # n # xs)" "nq_tail (nq s) = last (n # xs)"
    "pendLink s \<subseteq> pairs (e # n # xs)" "\<forall>x. x \<notin> set (e # n # xs) \<longrightarrow> nq_next (nq s) x = 0" "pushed s = popped s @ e # n # xs"
    using inv pc by (simp_all add: nem_inv_def el held_def)
  moreover have "pendLink s \<subseteq> pairs (n # xs)" using i(4) f(7) by auto
  moreover have "\<forall>x. x \<notin> set (n # xs) \<longrightarrow> nq_next (nq s) x = 0" using i(5) f(5) by (metis set_ConsD)
  moreover have "nchain (nq_next (nq s)) (pendLink s) (n # xs)" using f(6) by (simp add: el)
  ultimately show ?thesis
    using f(8) by (simp add: nem_inv_def front_ok_def linked_part_def nem_set_head_def held_def el)
qed

lemma nem_step_inv: "nem_step s s' \<Longrightarrow> nem_inv s \<Longrightarrow> nem_inv s'"
proof (induction rule: nem_step.induct)
  case (push_behind x s prev q)
  then show ?case by (intro nem_inv_push_behind)
next
  case (push_first x s q)
  then show ?case by (intro nem_inv_push_first)
next
  case (link prev x s)
  then show ?case by (intro nem_inv_link)
next
  case (set_head x s)
  then show ?case by (intro nem_inv_set_head)
next
  case (load_head s e)
  then show ?case by (auto simp: nem_inv_def front_ok_def linked_part_def held_def split: if_splits)
next
  case (read_next s e)
  then show ?case by (auto simp: nem_inv_def front_ok_def linked_part_def held_def)
next
  case (head_next s e n)
  then show ?case by (intro nem_inv_head_next)
next
  case (clear s e)
  then have "e \<notin> set (elems s)" by (auto simp: nem_inv_def front_ok_def)
  with clear show ?case
    by (auto simp: nem_inv_def front_ok_def linked_part_def held_def nem_clear_def nchain_upd)
next
  case (head_null s e)
  then show ?case by (auto simp: nem_inv_def front_ok_def linked_part_def held_def nem_set_head_def)
next
  case (cas_last s e q)
  then show ?case by (intro nem_inv_cas_last)
next
  case (cas_fail s e q)
  then show ?case by (intro nem_inv_cas_fail)
next
  case (wait_link s e n)
  then show ?case by (auto simp: nem_inv_def front_ok_def linked_part_def held_def)
next
  case (clear_link s e n)
  then show ?case by (intro nem_inv_clear_link)
next
  case (head_final s e n)
  then show ?case by (intro nem_inv_head_final)
qed

lemma nem_reach_inv: "nem_reach s \<Longrightarrow> nem_inv s"
proof (induction rule: nem_reach.induct)
  case start
  show ?case by (simp add: nem_inv_def nem_init_def new_nqueue_def front_ok_def linked_part_def)
qed (rule nem_step_inv)


text \<open>A run: a push is followed by the exchange of a second producer.\<close>

definition nem_example :: nem_sys where
  "nem_example = \<lparr>nq = \<lparr>nq_tail = 32, nq_head = 0, nq_next = (\<lambda>_. 0)\<rparr>, pc = PopIdle, pendLink = {(16, 32)},
     pendHead = {16}, elems = [16, 32], pushed = [16, 32], popped = []\<rparr>"

lemma nem_example_reach: "nem_reach nem_example"
proof -
  let ?q = "new_nqueue\<lparr>nq_tail := 16\<rparr>"
  have 1: "nem_reach (nem_init\<lparr>nq := ?q, pendHead := {16}, elems := [16], pushed := [16]\<rparr>)"
    using nem_reach.step [OF nem_reach.start nem_step.push_first [of 16 nem_init ?q]]
    by (simp add: nem_init_def new_nqueue_def mcs_exchange_def held_def)
  show ?thesis
    using nem_reach.step [OF 1 nem_step.push_behind [of 32 _ 16 "?q\<lparr>nq_tail := 32\<rparr>"]]
    by (simp add: nem_init_def new_nqueue_def mcs_exchange_def held_def nem_example_def)
qed


end
