(* ===== verification/Stub_Queue.thy ===== *)
theory Stub_Queue
  imports Container_Model
begin

text \<open>
  \<^verbatim>\<open>QueueStub\<close> of \<^verbatim>\<open>src/src/runtime/LockFreeQueues.h\<close>, as seen by one thread: a linked list that
  always contains a stub node. Loops that wait for a producer return \<open>None\<close> when there is nothing to wait
  for. The low bit of the tail marks an empty queue in the blocking variant. The queue interprets the
  contract \<open>fifo\<close> of theory \<open>Container_Model\<close>.
\<close>

section \<open>State and operations\<close>

record stubq =
  sq_stub :: addr
  sq_head :: addr
  sq_tail :: addr
  sq_next :: links

definition marked :: "addr \<Rightarrow> addr" where "marked a = a + 1"          \<comment> \<open>\<open>uintptr_t(a) | 1\<close> for an even address\<close>
definition is_marked :: "addr \<Rightarrow> bool" where "is_marked a \<longleftrightarrow> odd a"
definition unmarked :: "addr \<Rightarrow> addr" where "unmarked a = (if odd a then a - 1 else a)"

definition new_stubq :: "bool \<Rightarrow> addr \<Rightarrow> links \<Rightarrow> stubq" where
  "new_stubq blocking stub h =
     \<lparr>sq_stub = stub, sq_head = stub, sq_tail = if blocking then marked stub else stub, sq_next = h(stub := 0)\<rparr>"

definition stub_empty :: "stubq \<Rightarrow> bool" where
  "stub_empty q \<longleftrightarrow> sq_head q = sq_stub q \<and> sq_tail q = sq_stub q"

text \<open>\<^verbatim>\<open>push(first, last)\<close> for one element; the result of the source says whether the queue was marked
  empty.\<close>

definition stub_push :: "bool \<Rightarrow> addr \<Rightarrow> stubq \<Rightarrow> (bool \<times> stubq) option" where
  "stub_push blocking x q =
     do { rassert (sq_next q x = 0);
          let prev = sq_tail q; empty = (blocking \<and> is_marked prev);
              prev' = (if blocking then unmarked prev else prev)
          in Some (empty, q\<lparr>sq_tail := x, sq_next := (sq_next q)(prev' := x)\<rparr>) }"

text \<open>\<^verbatim>\<open>checkStub\<close>.\<close>

definition checkStub :: "bool \<Rightarrow> stubq \<Rightarrow> (bool \<times> stubq) option" where
  "checkStub blocking q =
     (if sq_head q \<noteq> sq_stub q then Some (True, q)
      else if blocking \<and> sq_tail q = sq_stub q then Some (False, q\<lparr>sq_tail := marked (sq_stub q)\<rparr>)
      else if blocking \<and> is_marked (sq_tail q) then Some (False, q)
      else if \<not> blocking \<and> sq_tail q = sq_stub q then Some (False, q)
      else do { rassert (sq_next q (sq_stub q) \<noteq> 0);
                (_, q') \<leftarrow> stub_push blocking (sq_stub q)
                  (q\<lparr>sq_head := sq_next q (sq_stub q), sq_next := (sq_next q)(sq_stub q := 0)\<rparr>);
                Some (True, q') })"

definition stub_pop :: "bool \<Rightarrow> stubq \<Rightarrow> (addr \<times> stubq) option" where
  "stub_pop blocking q =
     do { (some, q1) \<leftarrow> checkStub blocking q;
          if \<not> some then Some (0, q1)
          else do { rassert (sq_next q1 (sq_head q1) \<noteq> 0);
                    let r = sq_head q1
                    in Some (r, q1\<lparr>sq_head := sq_next q1 r, sq_next := (sq_next q1)(r := 0)\<rparr>) } }"

section \<open>Refinement to a list\<close>

text \<open>\<open>cs\<close>: the chain of nodes from head to tail, stub included.\<close>

definition stub_chain :: "stubq \<Rightarrow> addr list \<Rightarrow> bool" where
  "stub_chain q cs \<longleftrightarrow> cs \<noteq> [] \<and> lseg (sq_next q) (sq_head q) cs 0 \<and> distinct cs \<and> 0 \<notin> set cs
     \<and> sq_tail q = last cs \<and> sq_stub q \<in> set cs"

definition stub_rep :: "stubq \<Rightarrow> addr list \<Rightarrow> bool" where
  "stub_rep q xs \<longleftrightarrow> (\<exists>cs. stub_chain q cs \<and> xs = filter (\<lambda>a. a \<noteq> sq_stub q) cs)"

definition stub_fresh :: "stubq \<Rightarrow> addr \<Rightarrow> bool" where
  "stub_fresh q x \<longleftrightarrow> x \<noteq> 0 \<and> x \<noteq> sq_stub q \<and> sq_next q x = 0 \<and> x \<noteq> sq_tail q"

lemma lseg_link_nz: "lseg h a xs 0 \<Longrightarrow> 0 \<notin> set xs \<Longrightarrow> x \<in> set (butlast xs) \<Longrightarrow> h x \<noteq> 0"
proof (induction xs arbitrary: a)
  case (Cons y ys)
  then show ?case by (cases ys) auto
qed simp

lemma stub_fresh_notin: "stub_chain q cs \<Longrightarrow> stub_fresh q x \<Longrightarrow> x \<notin> set cs"
  using lseg_link_nz [of "sq_next q" "sq_head q" cs x]
  by (cases cs rule: rev_cases) (auto simp: stub_chain_def stub_fresh_def)

lemma stub_push_chain:
  assumes ch: "stub_chain q cs" and x: "x \<notin> set cs" "x \<noteq> 0" "sq_next q x = 0"
  shows "\<exists>q'. stub_push False x q = Some (False, q') \<and> stub_chain q' (cs @ [x]) \<and> sq_stub q' = sq_stub q
     \<and> (\<forall>y. y \<noteq> last cs \<longrightarrow> sq_next q' y = sq_next q y) \<and> sq_tail q' = x"
proof -
  obtain ys t where cs: "cs = ys @ [t]" using ch by (cases cs rule: rev_cases) (auto simp: stub_chain_def)
  define q' where "q' = q\<lparr>sq_tail := x, sq_next := (sq_next q)(t := x)\<rparr>"
  have push: "stub_push False x q = Some (False, q')"
    using ch x cs by (simp add: stub_push_def stub_chain_def q'_def)
  have "lseg ((sq_next q)(t := x)) (sq_head q) (ys @ [t]) x"
    using ch cs by (intro lseg_close) (auto simp: stub_chain_def)
  moreover have "x \<noteq> t" using x(1) cs by auto
  ultimately have "lseg (sq_next q') (sq_head q') ((ys @ [t]) @ [x]) 0"
    using x by (simp only: lseg_append) (auto simp: q'_def)
  then have "stub_chain q' (cs @ [x])"
    using ch x by (auto simp: stub_chain_def q'_def cs)
  with push show ?thesis by (auto simp: q'_def cs)
qed

lemma stub_chain_single:
  assumes "stub_chain q cs" and "filter (\<lambda>a. a \<noteq> sq_stub q) cs = []"
  shows "cs = [sq_stub q]"
proof -
  have "set cs = {sq_stub q}" "distinct cs" using assms by (auto simp: stub_chain_def filter_empty_conv)
  then have "length cs = 1" using distinct_card by fastforce
  with \<open>set cs = {sq_stub q}\<close> show ?thesis by (cases cs) auto
qed

lemma checkStub_chain:
  assumes ch: "stub_chain q cs" and ne: "filter (\<lambda>a. a \<noteq> sq_stub q) cs \<noteq> []"
  shows "\<exists>q' cs'. checkStub False q = Some (True, q') \<and> stub_chain q' cs' \<and> hd cs' \<noteq> sq_stub q \<and> sq_stub q' = sq_stub q
     \<and> filter (\<lambda>a. a \<noteq> sq_stub q) cs' = filter (\<lambda>a. a \<noteq> sq_stub q) cs
     \<and> (\<forall>y. y \<notin> set cs \<longrightarrow> sq_next q' y = sq_next q y) \<and> set cs' = set cs"
proof (cases "sq_head q = sq_stub q")
  case False
  moreover have "hd cs = sq_head q" using ch by (cases cs) (auto simp: stub_chain_def)
  ultimately show ?thesis using ch by (auto simp: checkStub_def)
next
  case True
  then obtain ds where cs: "cs = sq_stub q # ds" using ch by (cases cs) (auto simp: stub_chain_def)
  have ds: "ds \<noteq> []" "sq_stub q \<notin> set ds" "distinct ds" using ne ch cs by (auto simp: stub_chain_def)
  have seg: "lseg (sq_next q) (sq_next q (sq_stub q)) ds 0" using ch cs by (auto simp: stub_chain_def)
  then have n: "sq_next q (sq_stub q) = hd ds" "hd ds \<noteq> 0" using ds(1) ch cs by (cases ds; auto simp: stub_chain_def)+
  define q1 where "q1 = q\<lparr>sq_head := hd ds, sq_next := (sq_next q)(sq_stub q := 0)\<rparr>"
  have t: "sq_tail q = last ds" using ch cs ds by (simp add: stub_chain_def)
  then have t': "sq_tail q \<noteq> sq_stub q" using last_in_set [OF ds(1)] ds(2) by metis
  have lseg1: "lseg (sq_next q1) (sq_head q1) ds 0" using seg n(1) ds(2) by (simp add: q1_def lseg_upd)
  define q2 where "q2 = q1\<lparr>sq_tail := sq_stub q, sq_next := (sq_next q1)(last ds := sq_stub q)\<rparr>"
  have c: "checkStub False q = Some (True, q2)"
    using True n t t' by (simp add: checkStub_def stub_push_def q1_def q2_def)
  obtain es l where el: "ds = es @ [l]" using ds(1) by (cases ds rule: rev_cases) auto
  have "lseg (sq_next q2) (sq_head q2) (es @ [l]) (sq_stub q)"
    using lseg1 ds(3) el by (auto simp: q2_def intro: lseg_close)
  moreover have "sq_next q2 (sq_stub q) = 0" "sq_stub q \<noteq> l"
    using ds(2) el by (auto simp: q2_def q1_def)
  ultimately have "stub_chain q2 (ds @ [sq_stub q])"
    using ch cs ds el by (auto simp: stub_chain_def lseg_append q2_def q1_def)
  moreover have "hd (ds @ [sq_stub q]) \<noteq> sq_stub q" using ds(1,2) hd_in_set [OF ds(1)] by (metis hd_append2)
  moreover have "\<forall>y. y \<notin> set cs \<longrightarrow> sq_next q2 y = sq_next q y"
    using el cs by (auto simp: q2_def q1_def)
  ultimately show ?thesis
    using c cs by (intro exI [of _ q2] exI [of _ "ds @ [sq_stub q]"]) (auto simp: q2_def q1_def)
qed

lemma stub_pop_chain:
  assumes ch: "stub_chain q cs" and xs: "filter (\<lambda>a. a \<noteq> sq_stub q) cs = x # xs"
  shows "\<exists>q'. stub_pop False q = Some (x, q') \<and> stub_rep q' xs \<and> sq_stub q' = sq_stub q \<and> sq_next q' x = 0 \<and> sq_tail q' \<noteq> x
     \<and> (\<forall>y. y \<notin> set cs \<longrightarrow> sq_next q' y = sq_next q y) \<and> sq_tail q' \<in> set cs"
proof -
  from checkStub_chain [OF ch] xs obtain q1 cs1 where
    q1: "checkStub False q = Some (True, q1)" "stub_chain q1 cs1" "hd cs1 \<noteq> sq_stub q" "sq_stub q1 = sq_stub q"
    "filter (\<lambda>a. a \<noteq> sq_stub q) cs1 = x # xs" "\<forall>y. y \<notin> set cs \<longrightarrow> sq_next q1 y = sq_next q y" "set cs1 = set cs" by auto
  obtain ds where cs1: "cs1 = x # ds" "filter (\<lambda>a. a \<noteq> sq_stub q) ds = xs"
    using q1(2,3,5) by (cases cs1) (auto simp: stub_chain_def)
  have ds: "sq_stub q \<in> set ds" "ds \<noteq> []" "x \<notin> set ds" "distinct ds" "0 \<notin> set ds" "sq_tail q1 = last ds"
    using q1(2,3,4) cs1 by (auto simp: stub_chain_def)
  have h: "sq_head q1 = x" "lseg (sq_next q1) (sq_next q1 x) ds 0" using q1(2) cs1 by (auto simp: stub_chain_def)
  then have nz: "sq_next q1 x \<noteq> 0" using ds(2,5) by (cases ds) auto
  define q' where "q' = q1\<lparr>sq_head := sq_next q1 x, sq_next := (sq_next q1)(x := 0)\<rparr>"
  have "stub_pop False q = Some (x, q')" using q1(1) h nz by (simp add: stub_pop_def q'_def)
  moreover have "stub_chain q' ds"
    using h ds q1(4) by (simp add: stub_chain_def q'_def lseg_upd)
  then have "stub_rep q' xs" using cs1(2) q1(4) by (auto simp: stub_rep_def q'_def)
  moreover have "last ds \<in> set ds" using ds(2) by simp
  then have "sq_tail q' \<noteq> x" "sq_tail q' \<in> set cs" using ds(3,6) q1(7) cs1(1) by (auto simp: q'_def)
  ultimately show ?thesis using q1(4,6,7) cs1(1) by (auto simp: q'_def)
qed

definition stub_push1 :: "addr \<Rightarrow> stubq \<Rightarrow> stubq option" where
  "stub_push1 x q = map_option snd (stub_push False x q)"

interpretation sq: fifo stub_rep stub_fresh stub_push1 "stub_pop False"
proof
  fix q xs x
  assume rep: "stub_rep q xs" and fr: "stub_fresh q x"
  then obtain cs where cs: "stub_chain q cs" "xs = filter (\<lambda>a. a \<noteq> sq_stub q) cs" by (auto simp: stub_rep_def)
  note nin = stub_fresh_notin [OF cs(1)]
  from stub_push_chain [OF cs(1) nin [OF fr]] fr obtain q' where
    q': "stub_push False x q = Some (False, q')" "stub_chain q' (cs @ [x])" "sq_stub q' = sq_stub q"
    "\<forall>y. y \<noteq> last cs \<longrightarrow> sq_next q' y = sq_next q y" "sq_tail q' = x" by (auto simp: stub_fresh_def)
  have "stub_fresh q' y" if "y \<noteq> x" "stub_fresh q y" for y
  proof -
    have "last cs \<in> set cs" using cs(1) by (simp add: stub_chain_def)
    then have "y \<noteq> last cs" using nin [OF that(2)] by auto
    with that q' show ?thesis by (simp add: stub_fresh_def)
  qed
  moreover have "stub_rep q' (xs @ [x])"
    using q'(2,3) cs(2) fr by (auto simp: stub_rep_def stub_fresh_def intro!: exI [of _ "cs @ [x]"])
  ultimately show "\<exists>q'. stub_push1 x q = Some q' \<and> stub_rep q' (xs @ [x]) \<and> (\<forall>y. y \<noteq> x \<longrightarrow> stub_fresh q y \<longrightarrow> stub_fresh q' y)"
    using q'(1) by (auto simp: stub_push1_def)
next
  fix q
  assume "stub_rep q []"
  then obtain cs where cs: "stub_chain q cs" "filter (\<lambda>a. a \<noteq> sq_stub q) cs = []" by (auto simp: stub_rep_def)
  then have "cs = [sq_stub q]" by (rule stub_chain_single)
  then have "sq_head q = sq_stub q" "sq_tail q = sq_stub q" using cs(1) by (auto simp: stub_chain_def)
  then show "stub_pop False q = Some (0, q)" by (simp add: stub_pop_def checkStub_def)
next
  fix q x xs
  assume "stub_rep q (x # xs)"
  then obtain cs where cs: "stub_chain q cs" "filter (\<lambda>a. a \<noteq> sq_stub q) cs = x # xs" by (auto simp: stub_rep_def)
  from stub_pop_chain [OF this] obtain q' where
    q': "stub_pop False q = Some (x, q')" "stub_rep q' xs" "sq_stub q' = sq_stub q" "sq_next q' x = 0" "sq_tail q' \<noteq> x"
    "\<forall>y. y \<notin> set cs \<longrightarrow> sq_next q' y = sq_next q y" "sq_tail q' \<in> set cs" by blast
  have "x \<in> set (filter (\<lambda>a. a \<noteq> sq_stub q) cs)" by (simp add: cs(2))
  then have "x \<in> set cs" "x \<noteq> sq_stub q" by simp_all
  then have "x \<noteq> 0" using cs(1) by (metis stub_chain_def)
  moreover have "stub_fresh q' y" if "stub_fresh q y" for y
    using that stub_fresh_notin [OF cs(1) that] q' by (auto simp: stub_fresh_def)
  ultimately show "\<exists>q'. stub_pop False q = Some (x, q') \<and> x \<noteq> 0 \<and> stub_rep q' xs \<and> stub_fresh q' x
      \<and> (\<forall>y. stub_fresh q y \<longrightarrow> stub_fresh q' y)"
    using q' \<open>x \<noteq> sq_stub q\<close> by (auto simp: stub_fresh_def)
qed

text \<open>\<^verbatim>\<open>QueueStub\<close> (non-blocking variant): pushing any distinct unlinked elements onto a queue and popping
  everything returns the old and then the new elements in order; \<open>empty()\<close> is right. In the blocking variant
  \<open>empty()\<close> is wrong from the start: the constructor marks the tail, and \<open>empty()\<close> compares the marked tail with
  the stub, so a newly constructed queue, from which nothing can be popped, reports that it is not empty.\<close>

theorem stub_queue_fifo:
  assumes "stub_rep q xs" and "distinct ys" and "\<forall>y\<in>set ys. stub_fresh q y"
  shows "(\<exists>q' q''. push_all stub_push1 ys q = Some q' \<and> pops (stub_pop False) (length xs + length ys) q' = Some (xs @ ys, q'')
        \<and> stub_rep q'' [] \<and> stub_empty q'')
    \<and> \<not> stub_empty (new_stubq True stub h) \<and> stub_pop True (new_stubq True (2 * n) h) = Some (0, new_stubq True (2 * n) h)"
proof -
  have e: "stub_empty r" if "stub_rep r []" for r
  proof -
    obtain cs where "stub_chain r cs" "filter (\<lambda>a. a \<noteq> sq_stub r) cs = []" using \<open>stub_rep r []\<close> by (auto simp: stub_rep_def)
    moreover from this have "cs = [sq_stub r]" by (rule stub_chain_single)
    ultimately show ?thesis by (auto simp: stub_chain_def stub_empty_def)
  qed
  have "\<not> stub_empty (new_stubq True stub h)" "stub_pop True (new_stubq True (2 * n) h) = Some (0, new_stubq True (2 * n) h)"
    by (simp_all add: stub_empty_def new_stubq_def marked_def stub_pop_def checkStub_def is_marked_def)
  with sq.fifo_order [OF assms] e show ?thesis by blast
qed

theorem stub_queue_fifo_witness:
  "\<exists>q' q''. push_all stub_push1 [16, 32] (new_stubq False 8 (\<lambda>_. 0)) = Some q'
     \<and> pops (stub_pop False) 2 q' = Some ([16, 32], q'') \<and> stub_empty q''"
proof -
  have "stub_rep (new_stubq False 8 (\<lambda>_. 0)) []"
    by (auto simp: stub_rep_def stub_chain_def new_stubq_def intro!: exI [of _ "[8]"])
  moreover have "\<forall>y\<in>set [16, 32]. stub_fresh (new_stubq False 8 (\<lambda>_. 0)) y"
    by (simp add: stub_fresh_def new_stubq_def)
  ultimately show ?thesis
    using stub_queue_fifo [of "new_stubq False 8 (\<lambda>_. 0)" "[]" "[16, 32]" 8 "\<lambda>_. 0" 4]
    by (fastforce simp: numeral_2_eq_2 simp del: push_all.simps pops.simps)
qed

end
