(* ===== verification/Cond_Mutex.thy ===== *)
theory Cond_Mutex
  imports Locked_Sync
begin

text \<open>
  \<^verbatim>\<open>SpinCondMutex\<close> on top of \<^verbatim>\<open>ConditionalQueue\<close> (\<^verbatim>\<open>src/src/runtime/BlockingSync.h\<close>), the default
  \<^verbatim>\<open>FredMutex\<close>: a word with the values 0 (free), 1 (locked) and 2 (locked, possibly with waiters), and a
  queue whose own lock protects the test of the word together with the entry into the queue. The word itself
  is changed without that lock, so every atomic access is a separate step.
\<close>

section \<open>Operations\<close>

record scmutex =
  sc_value :: mword
  sc_owner :: "fid option"
  sc_bq :: bqueue
  sc_qlock :: "fid option"   \<comment> \<open>holder of the lock of the conditional queue\<close>

definition new_scmutex :: "addr \<Rightarrow> scmutex" where
  "new_scmutex a = \<lparr>sc_value = 0, sc_owner = None, sc_bq = queue_init a, sc_qlock = None\<rparr>"

text \<open>The start of \<^verbatim>\<open>internalAcquire\<close>: true when the caller is already the owner (recursive use).\<close>

definition sc_enter :: "bool \<Rightarrow> fid \<Rightarrow> scmutex \<Rightarrow> bool option" where
  "sc_enter ownerLock cf m =
     (if ownerLock \<and> sc_owner m = Some cf then Some True
      else do { rassert (sc_owner m \<noteq> Some cf); Some False })"

text \<open>The atomic accesses of \<^verbatim>\<open>tryLock1\<close> (with the value that \<open>exp\<close> has afterwards) and \<^verbatim>\<open>tryLock2\<close>; the
  owner is written after either has succeeded.\<close>

definition tryLock1 :: "scmutex \<Rightarrow> bool \<times> mword \<times> scmutex" where
  "tryLock1 m = (if sc_value m = 0 then (True, 0, m\<lparr>sc_value := 1\<rparr>) else (False, sc_value m, m))"

definition tryLock2 :: "scmutex \<Rightarrow> bool \<times> scmutex" where
  "tryLock2 m = (sc_value m = 0, m\<lparr>sc_value := 2\<rparr>)"

definition sc_set_owner :: "fid \<Rightarrow> scmutex \<Rightarrow> scmutex" where
  "sc_set_owner cf m = m\<lparr>sc_owner := Some cf\<rparr>"

text \<open>\<^verbatim>\<open>ConditionalQueue::block\<close>: take the lock and test the condition (\<open>Inl r\<close>: the call returns \<open>r\<close>;
  \<open>Inr\<close>: the lock is held and the caller goes on to enter the queue); enter the queue.\<close>

definition cq_check :: "wait_arg \<Rightarrow> time \<Rightarrow> fid \<Rightarrow> scmutex \<Rightarrow> (bool + scmutex) option" where
  "cq_check arg now cf m =
     (if sc_qlock m \<noteq> None then None
      else if sc_value m \<noteq> 2 then Some (Inl True)
      else if \<not> bq_will_block arg now then Some (Inl False)
      else Some (Inr (m\<lparr>sc_qlock := Some cf\<rparr>)))"

definition cq_enqueue :: "fid \<Rightarrow> scmutex \<Rightarrow> freds \<Rightarrow> (scmutex \<times> freds) option" where
  "cq_enqueue cf m F =
     do { (q, F') \<leftarrow> bq_block_begin cf (sc_bq m) F; Some (m\<lparr>sc_bq := q, sc_qlock := None\<rparr>, F') }"

text \<open>\<^verbatim>\<open>ConditionalQueue::unblock\<close>; no result: the lock of the queue is taken.\<close>

definition cq_unblock :: "scmutex \<Rightarrow> freds \<Rightarrow> (fid option \<times> scmutex \<times> freds) option" where
  "cq_unblock m F =
     (if sc_qlock m \<noteq> None then None
      else let (r, q, F') = bq_unblock (sc_bq m) F in Some (r, m\<lparr>sc_bq := q\<rparr>, F'))"

text \<open>\<^verbatim>\<open>release\<close>: clear the owner; swap the word (true: no waiters to wake).\<close>

definition sc_release1 :: "scmutex \<Rightarrow> scmutex option" where
  "sc_release1 m = do { rassert (sc_value m > 0); Some (m\<lparr>sc_owner := None\<rparr>) }"

definition sc_release2 :: "scmutex \<Rightarrow> bool \<times> scmutex" where
  "sc_release2 m = (sc_value m = 1, m\<lparr>sc_value := 0\<rparr>)"

section \<open>Interleavings\<close>

datatype cm_pc = CmOut | CmSpin | CmTry | CmBlock | CmEnq | CmWait | CmGot | CmHold | CmRel | CmWake

record cm_sys =
  cmx :: scmutex
  cmF :: freds
  cmpc :: "fid \<Rightarrow> cm_pc"

abbreviation "cm_set s m cf c \<equiv> s\<lparr>cmx := m, cmpc := (cmpc s)(cf := c)\<rparr>"

inductive cm_step :: "cm_sys \<Rightarrow> cm_sys \<Rightarrow> bool" where
  enter: "cmpc s cf = CmOut \<Longrightarrow> sc_enter ownerLock cf (cmx s) = Some False \<Longrightarrow>
     cm_step s (cm_set s (cmx s) cf CmSpin)"
| lock1: "cmpc s cf = CmSpin \<Longrightarrow> tryLock1 (cmx s) = (True, e, m) \<Longrightarrow> cm_step s (cm_set s m cf CmGot)"
| fail1: "cmpc s cf = CmSpin \<Longrightarrow> tryLock1 (cmx s) = (False, e, m) \<Longrightarrow> c \<in> {CmOut, CmSpin, CmTry} \<Longrightarrow>
     cm_step s (cm_set s m cf c)"
| lock2: "cmpc s cf = CmTry \<Longrightarrow> tryLock2 (cmx s) = (True, m) \<Longrightarrow> cm_step s (cm_set s m cf CmGot)"
| fail2: "cmpc s cf = CmTry \<Longrightarrow> tryLock2 (cmx s) = (False, m) \<Longrightarrow> c \<in> {CmTry, CmBlock} \<Longrightarrow>
     cm_step s (cm_set s m cf c)"
| check_ret: "cmpc s cf = CmBlock \<Longrightarrow> cq_check arg now cf (cmx s) = Some (Inl r) \<Longrightarrow>
     cm_step s (cm_set s (cmx s) cf (if r then CmTry else CmOut))"
| check_go: "cmpc s cf = CmBlock \<Longrightarrow> cq_check arg now cf (cmx s) = Some (Inr m) \<Longrightarrow>
     cm_step s (cm_set s m cf CmEnq)"
| enqueue: "cmpc s cf = CmEnq \<Longrightarrow> cq_enqueue cf (cmx s) (cmF s) = Some (m, F) \<Longrightarrow>
     cm_step s ((cm_set s m cf CmWait)\<lparr>cmF := F\<rparr>)"
| woken: "cmpc s cf = CmWait \<Longrightarrow> resumeInfo (cmF s cf) \<noteq> 0 \<Longrightarrow> bq_block_end cf (sc_bq (cmx s)) (cmF s) = (won, q) \<Longrightarrow>
     won \<or> sc_qlock (cmx s) = None \<Longrightarrow>
     cm_step s (cm_set s ((cmx s)\<lparr>sc_bq := q\<rparr>) cf (if won then CmTry else CmOut))"
| owned: "cmpc s cf = CmGot \<Longrightarrow> cm_step s (cm_set s (sc_set_owner cf (cmx s)) cf CmHold)"
| release1: "cmpc s cf = CmHold \<Longrightarrow> sc_release1 (cmx s) = Some m \<Longrightarrow> cm_step s (cm_set s m cf CmRel)"
| release2: "cmpc s cf = CmRel \<Longrightarrow> sc_release2 (cmx s) = (quiet, m) \<Longrightarrow>
     cm_step s (cm_set s m cf (if quiet then CmOut else CmWake))"
| wake: "cmpc s cf = CmWake \<Longrightarrow> cq_unblock (cmx s) (cmF s) = Some (r, m, F) \<Longrightarrow>
     cm_step s ((cm_set s m cf CmOut)\<lparr>cmF := F\<rparr>)"
| timer: "t \<noteq> 0 \<Longrightarrow> t \<noteq> bq_addr (sc_bq (cmx s)) \<Longrightarrow> cm_step s (s\<lparr>cmF := race_won t f (cmF s)\<rparr>)"

inductive cm_reach :: "addr \<Rightarrow> freds \<Rightarrow> cm_sys \<Rightarrow> bool" for a F0 where
  start: "cm_reach a F0 \<lparr>cmx = new_scmutex a, cmF = F0, cmpc = (\<lambda>_. CmOut)\<rparr>"
| step: "cm_reach a F0 s \<Longrightarrow> cm_step s s' \<Longrightarrow> cm_reach a F0 s'"

section \<open>Invariant\<close>

text \<open>Freds past a successful attempt and before the word is swapped back; freds in the queue.\<close>

fun cm_locks :: "cm_pc \<Rightarrow> bool" where
  "cm_locks CmGot = True" | "cm_locks CmHold = True" | "cm_locks CmRel = True" | "cm_locks _ = False"

definition cm_holding :: "(fid \<Rightarrow> cm_pc) \<Rightarrow> fid set" where "cm_holding pc = {f. cm_locks (pc f)}"
definition cm_waiting :: "(fid \<Rightarrow> cm_pc) \<Rightarrow> fid set" where "cm_waiting pc = {f. pc f = CmWait}"

lemma cm_holding_upd [simp]:
  "cm_holding (pc(f := c)) = (if cm_locks c then insert f (cm_holding pc) else cm_holding pc - {f})"
  by (auto simp: cm_holding_def)

lemma cm_waiting_upd [simp]:
  "cm_waiting (pc(f := c)) = (if c = CmWait then insert f (cm_waiting pc) else cm_waiting pc - {f})"
  by (auto simp: cm_waiting_def)

lemma cm_holding_iff [simp]: "f \<in> cm_holding pc \<longleftrightarrow> cm_locks (pc f)"
  by (simp add: cm_holding_def)

lemma cm_waiting_iff [simp]: "f \<in> cm_waiting pc \<longleftrightarrow> pc f = CmWait"
  by (simp add: cm_waiting_def)

lemma cm_sets_other: "\<not> cm_locks (pc f) \<Longrightarrow> cm_holding pc - {f} = cm_holding pc"
  "pc f \<noteq> CmWait \<Longrightarrow> cm_waiting pc - {f} = cm_waiting pc"
  by auto

text \<open>The word is 0 exactly when nobody has it, and only one fred can have it.\<close>

definition cm_excl :: "scmutex \<Rightarrow> (fid \<Rightarrow> cm_pc) \<Rightarrow> bool" where
  "cm_excl m pc \<longleftrightarrow> sc_value m \<in> {0, 1, 2}
     \<and> (if sc_value m = 0 then cm_holding pc = {} else \<exists>f. cm_holding pc = {f})
     \<and> (\<forall>f. sc_owner m = Some f \<longleftrightarrow> pc f = CmHold)"

definition cm_queue :: "scmutex \<Rightarrow> freds \<Rightarrow> (fid \<Rightarrow> cm_pc) \<Rightarrow> bool" where
  "cm_queue m F pc \<longleftrightarrow> bq_ok (sc_bq m) F (cm_waiting pc) \<and> (\<forall>f. sc_qlock m = Some f \<longleftrightarrow> pc f = CmEnq)"

text \<open>Whoever waits or is about to wait is noticed: the word is 2, or a fred is about to wake one, or a fred
  is about to write 2.\<close>

definition cm_cover :: "scmutex \<Rightarrow> freds \<Rightarrow> (fid \<Rightarrow> cm_pc) \<Rightarrow> bool" where
  "cm_cover m F pc \<longleftrightarrow>
     (bq_waiters (sc_bq m) F \<noteq> [] \<or> (\<exists>f. pc f = CmEnq)
      \<longrightarrow> sc_value m = 2 \<or> (\<exists>f. pc f = CmWake) \<or> (\<exists>f. pc f = CmTry) \<or> granted (sc_bq m) F (cm_waiting pc) \<noteq> {})"

definition cm_inv :: "cm_sys \<Rightarrow> bool" where
  "cm_inv s \<longleftrightarrow> cm_excl (cmx s) (cmpc s) \<and> cm_queue (cmx s) (cmF s) (cmpc s) \<and> cm_cover (cmx s) (cmF s) (cmpc s)"

lemma cm_excl_free: "cm_excl m pc \<Longrightarrow> sc_value m = 0 \<Longrightarrow> \<not> cm_locks (pc f)"
  by (auto simp: cm_excl_def)

lemma cm_excl_one:
  assumes "cm_excl m pc" and "cm_locks (pc f)"
  shows "cm_holding pc = {f}" and "sc_value m \<noteq> 0"
proof -
  have "f \<in> cm_holding pc" using assms(2) by simp
  then have "cm_holding pc \<noteq> {}" by blast
  then obtain g where "sc_value m \<noteq> 0" "cm_holding pc = {g}" using assms(1) unfolding cm_excl_def by presburger
  with \<open>f \<in> cm_holding pc\<close> show "cm_holding pc = {f}" by (metis singletonD)
  show "sc_value m \<noteq> 0" by fact
qed

text \<open>Changes of stage that neither take nor give up the mutex; taking it.\<close>

lemma cm_excl_move:
  assumes "cm_excl m pc" and "\<not> cm_locks (pc f)" and "\<not> cm_locks c"
    and "sc_value m' = sc_value m \<or> sc_value m \<noteq> 0 \<and> sc_value m' = 2" and "sc_owner m' = sc_owner m"
  shows "cm_excl m' (pc(f := c))"
proof -
  have "cm_holding (pc(f := c)) = cm_holding pc" using assms(2,3) by auto
  moreover have "(pc(f := c)) g = CmHold \<longleftrightarrow> pc g = CmHold" for g using assms(2,3) by auto
  moreover have "sc_value m' \<in> {0, 1, 2}" using assms(1,4) by (auto simp: cm_excl_def)
  moreover have "sc_value m' = 0 \<longleftrightarrow> sc_value m = 0" using assms(4) by auto
  ultimately show ?thesis using assms(1,5) unfolding cm_excl_def by presburger
qed

lemma cm_excl_take:
  assumes "cm_excl m pc" and "sc_value m = 0" and "sc_value m' \<in> {1, 2}" and "sc_owner m' = sc_owner m"
  shows "cm_excl m' (pc(f := CmGot))"
proof -
  have "cm_holding (pc(f := CmGot)) = {f}" using assms(1,2) by (auto simp: cm_excl_def)
  moreover have "(pc(f := CmGot)) g = CmHold \<longleftrightarrow> pc g = CmHold" for g
    using cm_excl_free [OF assms(1,2), of f] by auto
  ultimately show ?thesis using assms by (auto simp: cm_excl_def)
qed

lemma cm_excl_keep:
  assumes ex: "cm_excl m pc" and "cm_locks (pc f)" and "cm_locks c"
    and "sc_value m' = sc_value m" and "sc_owner m' = (if c = CmHold then Some f else None)"
  shows "cm_excl m' (pc(f := c))"
proof -
  note one = cm_excl_one [OF ex assms(2)]
  have "cm_holding (pc(f := c)) = {f}" using one(1) assms(3) by auto
  moreover have "pc g \<noteq> CmHold" if "g \<noteq> f" for g
    using one(1) that cm_holding_iff [of g pc] by (metis cm_locks.simps(2) singletonD)
  ultimately show ?thesis using assms one(2) by (auto simp: cm_excl_def)
qed

lemma cm_excl_drop:
  assumes ex: "cm_excl m pc" and "cm_locks (pc f)" and "pc f \<noteq> CmHold" and "\<not> cm_locks c"
    and "sc_value m' = 0" and "sc_owner m' = sc_owner m"
  shows "cm_excl m' (pc(f := c))"
proof -
  have "cm_holding (pc(f := c)) = {}" using cm_excl_one(1) [OF ex assms(2)] assms(4) by auto
  moreover have "(pc(f := c)) g = CmHold \<longleftrightarrow> pc g = CmHold" for g using assms(3,4) by auto
  ultimately show ?thesis using assms by (simp add: cm_excl_def del: fun_upd_apply)
qed

lemma cm_step_excl:
  assumes "cm_step s s'" and ex: "cm_excl (cmx s) (cmpc s)"
  shows "cm_excl (cmx s') (cmpc s')"
  using assms(1)
proof (cases rule: cm_step.cases)
  case (enter cf ownerLock)
  then show ?thesis using cm_excl_move [OF ex, of cf CmSpin "cmx s"] by simp
next
  case (lock1 cf e m)
  then show ?thesis using cm_excl_take [OF ex, of m cf] by (auto simp: tryLock1_def split: if_splits)
next
  case (fail1 cf e m c)
  then show ?thesis using cm_excl_move [OF ex, of cf c m] by (auto simp: tryLock1_def split: if_splits)
next
  case (lock2 cf m)
  then show ?thesis using cm_excl_take [OF ex, of m cf] by (auto simp: tryLock2_def)
next
  case (fail2 cf m c)
  then show ?thesis using cm_excl_move [OF ex, of cf c m] by (auto simp: tryLock2_def)
next
  case (check_ret cf arg now r)
  then show ?thesis using cm_excl_move [OF ex, of cf "if r then CmTry else CmOut" "cmx s"] by (cases r) simp_all
next
  case (check_go cf arg now m)
  then show ?thesis using cm_excl_move [OF ex, of cf CmEnq m] by (auto simp: cq_check_def split: if_splits)
next
  case (enqueue cf m F)
  then show ?thesis using cm_excl_move [OF ex, of cf CmWait m] by (auto simp: cq_enqueue_def bind_eq_Some_conv)
next
  case (woken cf won q)
  then show ?thesis
    using cm_excl_move [OF ex, of cf "if won then CmTry else CmOut" "(cmx s)\<lparr>sc_bq := q\<rparr>"] by (cases won) simp_all
next
  case (owned cf)
  then show ?thesis using cm_excl_keep [OF ex, of cf CmHold "sc_set_owner cf (cmx s)"] by (simp add: sc_set_owner_def)
next
  case (release1 cf m)
  then show ?thesis using cm_excl_keep [OF ex, of cf CmRel m] by (auto simp: sc_release1_def split: if_splits)
next
  case (release2 cf quiet m)
  then show ?thesis
    using cm_excl_drop [OF ex, of cf "if quiet then CmOut else CmWake" m] by (cases quiet) (auto simp: sc_release2_def)
next
  case (wake cf r m F)
  then show ?thesis
    using cm_excl_move [OF ex, of cf CmOut m] by (auto simp: cq_unblock_def split: if_splits prod.splits)
next
  case (timer t f)
  with ex show ?thesis by simp
qed

text \<open>Steps that leave the queue alone.\<close>

lemma cm_queue_move:
  assumes q: "cm_queue m F pc" and "pc f \<noteq> CmWait" and "c \<noteq> CmWait" and "pc f \<noteq> CmEnq"
    and "sc_bq m' = sc_bq m" and "sc_qlock m' = (if c = CmEnq then Some f else sc_qlock m)"
    and "c = CmEnq \<Longrightarrow> sc_qlock m = None"
  shows "cm_queue m' F (pc(f := c))" and "granted (sc_bq m') F (cm_waiting (pc(f := c))) = granted (sc_bq m) F (cm_waiting pc)"
proof -
  have "cm_waiting (pc(f := c)) = cm_waiting pc" using assms(2,3) by auto
  moreover have "sc_qlock m = Some g \<longleftrightarrow> pc g = CmEnq" for g using q by (simp add: cm_queue_def)
  then have "sc_qlock m' = Some g \<longleftrightarrow> (pc(f := c)) g = CmEnq" for g
    using assms(4,6,7) by (metis fun_upd_apply option.distinct(1) option.inject)
  ultimately show "cm_queue m' F (pc(f := c))" "granted (sc_bq m') F (cm_waiting (pc(f := c))) = granted (sc_bq m) F (cm_waiting pc)"
    using q assms(5) unfolding cm_queue_def by simp_all
qed

lemma cm_queue_enqueue:
  assumes q: "cm_queue m F pc" and "pc f = CmEnq" and e: "cq_enqueue f m F = Some (m', F')"
  shows "cm_queue m' F' (pc(f := CmWait))" and "granted (sc_bq m') F' (cm_waiting (pc(f := CmWait))) = granted (sc_bq m) F (cm_waiting pc)"
proof -
  obtain q' where q': "bq_block_begin f (sc_bq m) F = Some (q', F')" "m' = m\<lparr>sc_bq := q', sc_qlock := None\<rparr>"
    using e by (auto simp: cq_enqueue_def bind_eq_Some_conv)
  have ok: "bq_ok (sc_bq m) F (cm_waiting pc)" using q by (simp add: cm_queue_def)
  have nf: "f \<notin> cm_waiting pc" using assms(2) by simp
  note b = bq_ok_enter [OF ok nf q'(1)]
  have "sc_qlock m = Some g \<longleftrightarrow> pc g = CmEnq" for g using q by (simp add: cm_queue_def)
  then have "pc g \<noteq> CmEnq" if "g \<noteq> f" for g using that assms(2) by (metis option.inject)
  then have "(pc(f := CmWait)) g \<noteq> CmEnq" for g by simp
  then show "cm_queue m' F' (pc(f := CmWait))" "granted (sc_bq m') F' (cm_waiting (pc(f := CmWait))) = granted (sc_bq m) F (cm_waiting pc)"
    using b(1,2) unfolding cm_queue_def by (simp_all add: q'(2) del: fun_upd_apply)
qed

lemma cm_queue_woken:
  assumes q: "cm_queue m F pc" and "pc f = CmWait" and "resumeInfo (F f) \<noteq> 0" and e: "bq_block_end f (sc_bq m) F = (won, q')"
    and c: "c \<noteq> CmWait" "c \<noteq> CmEnq"
  shows "cm_queue (m\<lparr>sc_bq := q'\<rparr>) F (pc(f := c))"
    and "granted q' F (cm_waiting (pc(f := c))) = granted (sc_bq m) F (cm_waiting pc) - {f}"
    and "bq_waiters q' F = bq_waiters (sc_bq m) F" and "won \<longleftrightarrow> f \<in> granted (sc_bq m) F (cm_waiting pc)"
proof -
  have ok: "bq_ok (sc_bq m) F (cm_waiting pc)" using q by (simp add: cm_queue_def)
  have nf: "f \<in> cm_waiting pc" using assms(2) by simp
  note b = bq_ok_leave [OF ok nf assms(3) e]
  have "sc_qlock m = Some g \<longleftrightarrow> (pc(f := c)) g = CmEnq" for g using q c(2) assms(2) by (auto simp: cm_queue_def)
  then show "cm_queue (m\<lparr>sc_bq := q'\<rparr>) F (pc(f := c))"
    using b(1) c(1) unfolding cm_queue_def by simp
  show "granted q' F (cm_waiting (pc(f := c))) = granted (sc_bq m) F (cm_waiting pc) - {f}"
    and "bq_waiters q' F = bq_waiters (sc_bq m) F" and "won \<longleftrightarrow> f \<in> granted (sc_bq m) F (cm_waiting pc)"
    using b c(1) by simp_all
qed

lemma cm_queue_wake:
  assumes q: "cm_queue m F pc" and "pc f = CmWake" and u: "cq_unblock m F = Some (r, m', F')"
  shows "cm_queue m' F' (pc(f := CmOut))"
    and "bq_waiters (sc_bq m') F' \<noteq> [] \<Longrightarrow> granted (sc_bq m') F' (cm_waiting (pc(f := CmOut))) \<noteq> {}"
    and "pc g \<noteq> CmEnq"
proof -
  obtain q' where q': "bq_unblock (sc_bq m) F = (r, q', F')" "m' = m\<lparr>sc_bq := q'\<rparr>" "sc_qlock m = None"
    using u by (auto simp: cq_unblock_def split: if_splits prod.splits)
  have ok: "bq_ok (sc_bq m) F (cm_waiting pc)" using q by (simp add: cm_queue_def)
  note b = bq_ok_unblock [OF ok q'(1)]
  have w: "cm_waiting (pc(f := CmOut)) = cm_waiting pc" using assms(2) by auto
  have "sc_qlock m = Some g \<longleftrightarrow> pc g = CmEnq" for g using q by (simp add: cm_queue_def)
  then have ne: "pc g \<noteq> CmEnq" for g using q'(3) by (metis option.distinct(1))
  then show "cm_queue m' F' (pc(f := CmOut))" using b(1) w q'(2,3) unfolding cm_queue_def by simp
  show "pc g \<noteq> CmEnq" by (rule ne)
  show "granted (sc_bq m') F' (cm_waiting (pc(f := CmOut))) \<noteq> {}" if "bq_waiters (sc_bq m') F' \<noteq> []"
    using b(3,5) that w q'(2) by (cases r) auto
qed

text \<open>The cover survives a step that keeps the queue and does not leave the stages that cover.\<close>

lemma cm_cover_move:
  assumes cov: "cm_cover m F pc" and "pc f \<noteq> CmWake" and "pc f \<noteq> CmTry \<or> c = CmTry" and "c \<noteq> CmEnq"
    and "bq_waiters (sc_bq m') F = bq_waiters (sc_bq m) F"
    and "granted (sc_bq m') F (cm_waiting (pc(f := c))) = granted (sc_bq m) F (cm_waiting pc)"
    and "sc_value m = 2 \<Longrightarrow> sc_value m' = 2"
  shows "cm_cover m' F (pc(f := c))"
proof -
  have *: "\<exists>g. (pc(f := c)) g = CmWake" if "\<exists>g. pc g = CmWake" using that assms(2) by (metis fun_upd_other)
  moreover have "\<exists>g. (pc(f := c)) g = CmTry" if "\<exists>g. pc g = CmTry" using that assms(3) by (metis fun_upd_apply)
  moreover have "\<exists>g. pc g = CmEnq" if "\<exists>g. (pc(f := c)) g = CmEnq" using that assms(4) by (metis fun_upd_apply)
  ultimately show ?thesis using cov assms(5-7) unfolding cm_cover_def by (metis (no_types, lifting))
qed

lemma cm_cover_value: "sc_value m = 2 \<Longrightarrow> cm_cover m F pc"
  by (simp add: cm_cover_def)

lemma cm_cover_stage: "pc f = CmWake \<or> pc f = CmTry \<Longrightarrow> cm_cover m F pc"
  by (auto simp: cm_cover_def)

lemma cm_step_inv:
  assumes "cm_step s s'" and inv: "cm_inv s"
  shows "cm_inv s'"
proof -
  have ex: "cm_excl (cmx s) (cmpc s)" and q: "cm_queue (cmx s) (cmF s) (cmpc s)" and cov: "cm_cover (cmx s) (cmF s) (cmpc s)"
    using inv by (simp_all add: cm_inv_def)
  have "cm_queue (cmx s') (cmF s') (cmpc s') \<and> cm_cover (cmx s') (cmF s') (cmpc s')"
    using assms(1)
  proof (cases rule: cm_step.cases)
    case (enter cf ownerLock)
    then show ?thesis
      using cm_queue_move [OF q, of cf CmSpin "cmx s"] cm_cover_move [OF cov, of cf CmSpin "cmx s"] by simp
  next
    case (lock1 cf e m)
    then have m: "m = (cmx s)\<lparr>sc_value := 1\<rparr>" "sc_value (cmx s) = 0" by (auto simp: tryLock1_def split: if_splits)
    with lock1 show ?thesis
      using cm_queue_move [OF q, of cf CmGot m] cm_cover_move [OF cov, of cf CmGot m] by simp
  next
    case (fail1 cf e m c)
    then have "m = cmx s" by (auto simp: tryLock1_def split: if_splits)
    with fail1 show ?thesis
      using cm_queue_move [OF q, of cf c m] cm_cover_move [OF cov, of cf c m] by auto
  next
    case (lock2 cf m)
    then have m: "m = (cmx s)\<lparr>sc_value := 2\<rparr>" by (simp add: tryLock2_def)
    with lock2 show ?thesis using cm_queue_move [OF q, of cf CmGot m] by (simp add: cm_cover_value)
  next
    case (fail2 cf m c)
    then have m: "m = (cmx s)\<lparr>sc_value := 2\<rparr>" by (simp add: tryLock2_def)
    with fail2 show ?thesis using cm_queue_move [OF q, of cf c m] by (auto simp: cm_cover_value)
  next
    case (check_ret cf arg now r)
    define c where "c = (if r then CmTry else CmOut)"
    have c: "c \<noteq> CmEnq" "c \<noteq> CmWait" by (simp_all add: c_def)
    then show ?thesis using check_ret(1,2)
      using cm_queue_move [OF q, of cf c "cmx s"] cm_cover_move [OF cov, of cf c "cmx s"]
      by (simp flip: c_def)
  next
    case (check_go cf arg now m)
    then have m: "m = (cmx s)\<lparr>sc_qlock := Some cf\<rparr>" "sc_qlock (cmx s) = None" "sc_value (cmx s) = 2"
      by (auto simp: cq_check_def split: if_splits)
    with check_go show ?thesis using cm_queue_move [OF q, of cf CmEnq m] by (simp add: cm_cover_value)
  next
    case (enqueue cf m F)
    note e = cm_queue_enqueue [OF q enqueue(2,3)]
    have "sc_value m = sc_value (cmx s)" using enqueue(3) by (auto simp: cq_enqueue_def bind_eq_Some_conv)
    moreover have "sc_value (cmx s) = 2 \<or> (\<exists>f. cmpc s f = CmWake) \<or> (\<exists>f. cmpc s f = CmTry)
        \<or> granted (sc_bq (cmx s)) (cmF s) (cm_waiting (cmpc s)) \<noteq> {}"
      using cov enqueue(2) unfolding cm_cover_def by blast
    moreover have "\<exists>f. ((cmpc s)(cf := CmWait)) f = c" if "\<exists>f. cmpc s f = c" "c \<noteq> CmEnq" for c
      using that enqueue(2) by (metis fun_upd_other)
    ultimately have "cm_cover m F ((cmpc s)(cf := CmWait))"
      unfolding cm_cover_def e(2) by fastforce
    with e(1) enqueue(1) show ?thesis by simp
  next
    case (woken cf won q')
    define c where "c = (if won then CmTry else CmOut)"
    have c: "c \<noteq> CmWait" "c \<noteq> CmEnq" by (simp_all add: c_def)
    note w = cm_queue_woken [OF q woken(2,3,4) c]
    have "cm_cover ((cmx s)\<lparr>sc_bq := q'\<rparr>) (cmF s) ((cmpc s)(cf := c))"
    proof (cases won)
      case True
      then show ?thesis by (intro cm_cover_stage [of _ cf]) (simp add: c_def)
    next
      case False
      then show ?thesis using w(2-4) woken(2) c by (intro cm_cover_move [OF cov]) simp_all
    qed
    with w(1) woken(1) show ?thesis by (simp flip: c_def)
  next
    case (owned cf)
    then show ?thesis
      using cm_queue_move [OF q, of cf CmHold "sc_set_owner cf (cmx s)"]
        cm_cover_move [OF cov, of cf CmHold "sc_set_owner cf (cmx s)"] by (simp add: sc_set_owner_def)
  next
    case (release1 cf m)
    then have "m = (cmx s)\<lparr>sc_owner := None\<rparr>" by (auto simp: sc_release1_def split: if_splits)
    with release1 show ?thesis
      using cm_queue_move [OF q, of cf CmRel m] cm_cover_move [OF cov, of cf CmRel m] by simp
  next
    case (release2 cf quiet m)
    then have m: "m = (cmx s)\<lparr>sc_value := 0\<rparr>" "quiet \<longleftrightarrow> sc_value (cmx s) = 1" by (auto simp: sc_release2_def)
    have v: "sc_value (cmx s) \<in> {0, 1, 2}" using ex by (simp add: cm_excl_def)
    define c where "c = (if quiet then CmOut else CmWake)"
    have c: "c \<noteq> CmWait" "c \<noteq> CmEnq" by (simp_all add: c_def)
    have "cm_cover m (cmF s) ((cmpc s)(cf := c))"
    proof (cases quiet)
      case True
      with m release2(2) c cm_queue_move(2) [OF q, of cf c m] show ?thesis
        by (intro cm_cover_move [OF cov]) simp_all
    next
      case False
      then show ?thesis by (intro cm_cover_stage [of _ cf]) (simp add: c_def)
    qed
    moreover have "cm_queue m (cmF s) ((cmpc s)(cf := c))" using cm_queue_move(1) [OF q, of cf c m] m(1) c release2(2) by simp
    ultimately show ?thesis using release2(1) by (simp flip: c_def)
  next
    case (wake cf r m F)
    note w = cm_queue_wake [OF q wake(2,3)]
    have "(\<exists>f. ((cmpc s)(cf := CmOut)) f = CmEnq) \<longleftrightarrow> False" using w(3) by simp
    then have "cm_cover m F ((cmpc s)(cf := CmOut))" unfolding cm_cover_def using w(2) by blast
    with w(1) wake(1) show ?thesis by simp
  next
    case (timer t f)
    have ok: "bq_ok (sc_bq (cmx s)) (cmF s) (cm_waiting (cmpc s))" using q by (simp add: cm_queue_def)
    note b = bq_ok_timer [OF ok timer(2,3), of f]
    have "bq_waiters (sc_bq (cmx s)) (cmF s) \<noteq> []" if "bq_waiters (sc_bq (cmx s)) (race_won t f (cmF s)) \<noteq> []"
      using b(3) that by auto
    then have "cm_cover (cmx s) (race_won t f (cmF s)) (cmpc s)" using cov b(2) unfolding cm_cover_def by metis
    with b(1) q timer(1) show ?thesis by (simp add: cm_queue_def)
  qed
  with cm_step_excl [OF assms(1) ex] show ?thesis by (simp add: cm_inv_def)
qed

lemma cm_reach_inv: "cm_reach a F0 s \<Longrightarrow> a \<noteq> 0 \<Longrightarrow> cm_inv s"
proof (induction rule: cm_reach.induct)
  case start
  then show ?case
    by (simp add: cm_inv_def cm_excl_def cm_queue_def cm_cover_def new_scmutex_def cm_holding_def cm_waiting_def bq_ok_init bq_waiters_def)
qed (rule cm_step_inv)

interpretation scm: mutex "\<lambda>s. cm_reach a F0 s \<and> a \<noteq> 0" cm_step "\<lambda>s f. cmpc s f = CmHold" for a F0
proof
  fix s f g assume "cm_reach a F0 s \<and> a \<noteq> 0" and h: "cmpc s f = CmHold" "cmpc s g = CmHold"
  then have "cm_inv s" using cm_reach_inv by blast
  then have "sc_owner (cmx s) = Some f" "sc_owner (cmx s) = Some g" using h unfolding cm_inv_def cm_excl_def by blast+
  then show "f = g" by simp
qed (blast intro: cm_reach.step)

text \<open>C1: \<^verbatim>\<open>SpinCondMutex\<close> (the default \<^verbatim>\<open>FredMutex\<close>), after any interleaving of the atomic accesses of any
  number of freds, with time-outs: at most one fred is between a successful attempt and its release, the word
  is then non-zero, and the owner field names exactly the fred that holds the mutex; the assertions of
  \<^verbatim>\<open>acquire\<close> and \<^verbatim>\<open>release\<close> hold; and no wake-up is lost: when a fred waits in the queue and the mutex is free,
  some fred is about to try again or to wake one, and while the mutex is held and nobody is on the way, the
  word is 2, so that the release wakes the fred that has waited longest.\<close>

theorem cond_mutex_correct:
  assumes "cm_reach a F0 s" and "a \<noteq> 0"
  shows "(\<forall>f. cmpc s f \<in> {CmGot, CmHold, CmRel} \<longrightarrow> {g. cmpc s g \<in> {CmGot, CmHold, CmRel}} = {f} \<and> sc_value (cmx s) \<in> {1, 2})
    \<and> (\<forall>f. sc_owner (cmx s) = Some f \<longleftrightarrow> cmpc s f = CmHold)
    \<and> (\<forall>f. cmpc s f = CmOut \<longrightarrow> sc_enter False f (cmx s) = Some False)
    \<and> (\<forall>f. cmpc s f = CmHold \<longrightarrow> sc_release1 (cmx s) \<noteq> None)
    \<and> (bq_waiters (sc_bq (cmx s)) (cmF s) \<noteq> [] \<and> (\<forall>f. cmpc s f \<notin> {CmWake, CmTry})
         \<and> (\<forall>f. cmpc s f = CmWait \<longrightarrow> resumeInfo (cmF s f) \<noteq> bq_addr (sc_bq (cmx s)))
        \<longrightarrow> sc_value (cmx s) = 2 \<and> \<not> fst (sc_release2 (cmx s)))
    \<and> (\<forall>f fs. sc_qlock (cmx s) = None \<and> bq_waiters (sc_bq (cmx s)) (cmF s) = f # fs \<longrightarrow>
         (\<exists>m F. cq_unblock (cmx s) (cmF s) = Some (Some f, m, F)))"
proof -
  have ex: "cm_excl (cmx s) (cmpc s)" and q: "cm_queue (cmx s) (cmF s) (cmpc s)" and cov: "cm_cover (cmx s) (cmF s) (cmpc s)"
    using cm_reach_inv [OF assms] by (simp_all add: cm_inv_def)
  have lk: "cm_locks c \<longleftrightarrow> c \<in> {CmGot, CmHold, CmRel}" for c by (cases c) auto
  have v: "sc_value (cmx s) \<in> {0, 1, 2}" using ex by (simp add: cm_excl_def)
  have c1: "{g. cmpc s g \<in> {CmGot, CmHold, CmRel}} = {f} \<and> sc_value (cmx s) \<in> {1, 2}"
    if "cmpc s f \<in> {CmGot, CmHold, CmRel}" for f
    using cm_excl_one [OF ex, of f] that v unfolding lk cm_holding_def by blast
  have ow: "sc_owner (cmx s) = Some f \<longleftrightarrow> cmpc s f = CmHold" for f using ex by (simp add: cm_excl_def)
  have c3: "sc_enter False f (cmx s) = Some False" if "cmpc s f = CmOut" for f
    using ow [of f] that by (simp add: sc_enter_def)
  have c4: "sc_release1 (cmx s) \<noteq> None" if "cmpc s f = CmHold" for f
    using cm_excl_one(2) [OF ex, of f] that by (simp add: sc_release1_def word_neq_0_conv)
  have c5: "sc_value (cmx s) = 2 \<and> \<not> fst (sc_release2 (cmx s))"
    if "bq_waiters (sc_bq (cmx s)) (cmF s) \<noteq> []" and "\<forall>f. cmpc s f \<notin> {CmWake, CmTry}"
      and "\<forall>f. cmpc s f = CmWait \<longrightarrow> resumeInfo (cmF s f) \<noteq> bq_addr (sc_bq (cmx s))"
  proof -
    have "granted (sc_bq (cmx s)) (cmF s) (cm_waiting (cmpc s)) = {}" using that(3) by (auto simp: granted_def)
    with cov that(1,2) have "sc_value (cmx s) = 2" by (auto simp: cm_cover_def)
    then show ?thesis by (simp add: sc_release2_def)
  qed
  have c6: "\<exists>m F. cq_unblock (cmx s) (cmF s) = Some (Some f, m, F)"
    if "sc_qlock (cmx s) = None" "bq_waiters (sc_bq (cmx s)) (cmF s) = f # fs" for f fs
    using that bq_unblock_some [OF that(2)] by (simp add: cq_unblock_def)
  show ?thesis
    by (intro conjI, use c1 in blast, use ow in blast, use c3 in blast, use c4 in blast, use c5 in blast, use c6 in blast)
qed

text \<open>A run: fred 1 takes the free mutex.\<close>

definition cm_example :: cm_sys where
  "cm_example = \<lparr>cmx = (new_scmutex 100)\<lparr>sc_value := 1, sc_owner := Some 1\<rparr>, cmF = (\<lambda>f. new_fred False 0 0),
     cmpc = (\<lambda>_. CmOut)(1 := CmHold)\<rparr>"

lemma cm_example_reach: "cm_reach 100 (\<lambda>f. new_fred False 0 0) cm_example"
proof -
  let ?F = "\<lambda>f::fid. new_fred False 0 0"
  let ?s0 = "\<lparr>cmx = new_scmutex 100, cmF = ?F, cmpc = (\<lambda>_. CmOut)\<rparr>"
  let ?s1 = "cm_set ?s0 (new_scmutex 100) 1 CmSpin"
  let ?s2 = "cm_set ?s1 ((new_scmutex 100)\<lparr>sc_value := 1\<rparr>) 1 CmGot"
  have "cm_reach 100 ?F ?s1"
    by (rule cm_reach.step [OF cm_reach.start]) (use cm_step.enter [of ?s0 1 False] in \<open>simp add: sc_enter_def new_scmutex_def\<close>)
  then have "cm_reach 100 ?F ?s2"
    by (rule cm_reach.step)
      (use cm_step.lock1 [of ?s1 1 0 "(new_scmutex 100)\<lparr>sc_value := 1\<rparr>"] in \<open>simp add: tryLock1_def new_scmutex_def\<close>)
  then have "cm_reach 100 ?F (cm_set ?s2 (sc_set_owner 1 (cmx ?s2)) 1 CmHold)"
    by (rule cm_reach.step) (rule cm_step.owned, simp)
  then show ?thesis by (simp add: cm_example_def sc_set_owner_def)
qed

theorem cond_mutex_correct_witness:
  "{g. cmpc cm_example g \<in> {CmGot, CmHold, CmRel}} = {1} \<and> sc_release1 (cmx cm_example) \<noteq> None
    \<and> sc_enter False 2 (cmx cm_example) = Some False"
proof -
  have "cmpc cm_example 1 = CmHold" "cmpc cm_example 2 = CmOut" by (simp_all add: cm_example_def)
  with cond_mutex_correct [OF cm_example_reach] show ?thesis by auto
qed

end
