(* ===== verification/Sem_Mutex.thy ===== *)
theory Sem_Mutex
  imports Benaphore_Sync
begin

text \<open>
  \<^verbatim>\<open>FredBenaphore\<close>, the bounded \<^verbatim>\<open>Spin\<close> loop and \<^verbatim>\<open>SpinSemMutex\<close> of \<^verbatim>\<open>src/src/runtime/BlockingSync.h\<close>. The
  mutex is modelled in its default form \<^verbatim>\<open>FastMutex\<close>: a binary \<^verbatim>\<open>FredBenaphore\<close> over \<^verbatim>\<open>LimitedSemaphore0\<close>.
\<close>

section \<open>FredBenaphore\<close>

record fredben =
  fb_ben :: int
  fb_queue :: "fid list"

definition new_fredben :: "int \<Rightarrow> fredben" where
  "new_fredben c = \<lparr>fb_ben = c, fb_queue = []\<rparr>"

definition fb_reset :: "int \<Rightarrow> fredben \<Rightarrow> fredben option" where
  "fb_reset c b = do { rassert (fb_queue b = []); Some (b\<lparr>fb_ben := c\<rparr>) }"

definition fb_tryP :: "fredben \<Rightarrow> SemaphoreResult \<times> fredben" where
  "fb_tryP b = (let (r, c) = ben_tryP (fb_ben b) in (if r then SemaphoreWasOpen else SemaphoreTimeout, b\<lparr>fb_ben := c\<rparr>))"

text \<open>\<^verbatim>\<open>P\<close>: the benaphore (the result is known, or the caller goes on to the semaphore), then the semaphore's
  queue. \<^verbatim>\<open>V\<close>: the benaphore (true: nobody to resume), then the semaphore's \<^verbatim>\<open>V\<close>.\<close>

definition fb_P1 :: "fredben \<Rightarrow> SemaphoreResult option \<times> fredben" where
  "fb_P1 b = (let (r, c) = ben_P (fb_ben b) in (if r then Some SemaphoreWasOpen else None, b\<lparr>fb_ben := c\<rparr>))"

definition fb_P2 :: "wait_arg \<Rightarrow> fid \<Rightarrow> fredben \<Rightarrow> fredben option" where
  "fb_P2 arg cf b = do { q \<leftarrow> ls0_P arg cf (fb_queue b); Some (b\<lparr>fb_queue := q\<rparr>) }"

definition fb_V1 :: "bool \<Rightarrow> fredben \<Rightarrow> (bool \<times> fredben) option" where
  "fb_V1 binary b = do { (r, c) \<leftarrow> ben_V binary (fb_ben b); Some (r, b\<lparr>fb_ben := c\<rparr>) }"

definition fb_V2 :: "fredben \<Rightarrow> fid option \<times> fredben" where
  "fb_V2 b = (let (r, q) = ls0_tryV (fb_queue b) in (r, b\<lparr>fb_queue := q\<rparr>))"

section \<open>The bounded spin loop\<close>

text \<open>\<^verbatim>\<open>Spin\<close>: \<open>try k\<close> is the outcome of attempt \<open>k\<close>. The result with the number of attempts made.\<close>

fun Spin :: "nat \<Rightarrow> int \<Rightarrow> int \<Rightarrow> int \<Rightarrow> (nat \<Rightarrow> bool) \<Rightarrow> int \<Rightarrow> int \<Rightarrow> int \<Rightarrow> nat \<Rightarrow> (bool \<times> nat) option" where
  "Spin 0 SpinEnd SpinCount YieldCount att spin scnt ycnt k = None"
| "Spin (Suc fuel) SpinEnd SpinCount YieldCount att spin scnt ycnt k =
     (if att k then Some (True, Suc k)
      else if scnt < SpinCount
      then if spin < SpinEnd then Spin fuel SpinEnd SpinCount YieldCount att (spin + spin) scnt ycnt (Suc k)
           else Spin fuel SpinEnd SpinCount YieldCount att spin (scnt + 1) ycnt (Suc k)
      else if ycnt < YieldCount then Spin fuel SpinEnd SpinCount YieldCount att spin scnt (ycnt + 1) (Suc k)
      else Some (False, Suc k))"

text \<open>\<open>n\<close> attempts were made in all, at most \<open>b + 1\<close> of them after the first \<open>k\<close>; the last one decides.\<close>

definition spin_post :: "(nat \<Rightarrow> bool) \<Rightarrow> nat \<Rightarrow> nat \<Rightarrow> bool \<Rightarrow> nat \<Rightarrow> bool" where
  "spin_post att k b r n \<longleftrightarrow> k < n \<and> n \<le> k + b + 1 \<and> (r \<longleftrightarrow> att (n - 1)) \<and> (\<forall>j. k \<le> j \<and> j < n - 1 \<longrightarrow> \<not> att j)"

lemma spin_post_step: "spin_post att (Suc k) b r n \<Longrightarrow> \<not> att k \<Longrightarrow> b < b' \<Longrightarrow> spin_post att k b' r n"
proof -
  assume p: "spin_post att (Suc k) b r n" and k: "\<not> att k" and b: "b < b'"
  have "\<not> att j" if "k \<le> j" "j < n - 1" for j
    using p k that by (cases "j = k") (auto simp: spin_post_def)
  with p b show ?thesis by (auto simp: spin_post_def)
qed

lemma Spin_terminates:
  assumes "0 < spin" and "nat (SpinEnd - spin) + nat (SpinCount - scnt) + nat (YieldCount - ycnt) < fuel"
  shows "\<exists>r n. Spin fuel SpinEnd SpinCount YieldCount att spin scnt ycnt k = Some (r, n)
     \<and> spin_post att k (nat (SpinEnd - spin) + nat (SpinCount - scnt) + nat (YieldCount - ycnt)) r n"
  using assms
proof (induction fuel arbitrary: spin scnt ycnt k)
  case (Suc fuel)
  let ?b = "\<lambda>sp sc yc. nat (SpinEnd - sp) + nat (SpinCount - sc) + nat (YieldCount - yc)"
  have rec: "\<exists>r n. Spin (Suc fuel) SpinEnd SpinCount YieldCount att spin scnt ycnt k = Some (r, n) \<and> spin_post att k (?b spin scnt ycnt) r n"
    if "\<not> att k" "0 < sp" "?b sp sc yc < ?b spin scnt ycnt"
      "Spin (Suc fuel) SpinEnd SpinCount YieldCount att spin scnt ycnt k = Spin fuel SpinEnd SpinCount YieldCount att sp sc yc (Suc k)"
    for sp sc yc
  proof -
    have "?b sp sc yc < fuel" using that(3) Suc.prems(2) by linarith
    with Suc.IH [OF that(2)] that(1,3,4) show ?thesis by (metis spin_post_step)
  qed
  consider (ok) "att k" | (double) "\<not> att k" "scnt < SpinCount" "spin < SpinEnd" | (count) "\<not> att k" "scnt < SpinCount" "\<not> spin < SpinEnd"
    | (yielding) "\<not> att k" "\<not> scnt < SpinCount" "ycnt < YieldCount" | (give_up) "\<not> att k" "\<not> scnt < SpinCount" "\<not> ycnt < YieldCount" by blast
  then show ?case
  proof cases
    case double
    then show ?thesis using rec [of "spin + spin" scnt ycnt] Suc.prems(1) by simp
  next
    case count
    then show ?thesis using rec [of spin "scnt + 1" ycnt] Suc.prems(1) by simp
  next
    case yielding
    then show ?thesis using rec [of spin scnt "ycnt + 1"] Suc.prems(1) by simp
  qed (auto simp: spin_post_def)
qed simp

section \<open>SpinSemMutex\<close>

record ssmutex =
  ss_owner :: "fid option"
  ss_sem :: fredben

definition new_ssmutex :: ssmutex where
  "new_ssmutex = \<lparr>ss_owner = None, ss_sem = new_fredben 1\<rparr>"

definition ss_reset :: "ssmutex \<Rightarrow> ssmutex option" where
  "ss_reset m = do { rassert (ss_owner m = None); b \<leftarrow> fb_reset 1 (ss_sem m); Some (m\<lparr>ss_sem := b\<rparr>) }"

definition ss_tryLock :: "fid \<Rightarrow> ssmutex \<Rightarrow> bool \<times> ssmutex" where
  "ss_tryLock cf m = (if ss_owner m = None then (True, m\<lparr>ss_owner := Some cf\<rparr>) else (False, m))"

definition ss_enter :: "bool \<Rightarrow> fid \<Rightarrow> ssmutex \<Rightarrow> bool option" where
  "ss_enter ownerLock cf m =
     (if ownerLock \<and> ss_owner m = Some cf then Some True
      else do { rassert (ss_owner m \<noteq> Some cf); Some False })"

definition ss_release1 :: "fid \<Rightarrow> ssmutex \<Rightarrow> ssmutex option" where
  "ss_release1 cf m = do { rassert (ss_owner m = Some cf); Some (m\<lparr>ss_owner := None\<rparr>) }"

datatype ss_pc = SsOut | SsTry | SsSem | SsPush | SsWait | SsRetry | SsHold | SsRel | SsPop

record ss_sys =
  ssx :: ssmutex
  sspc :: "fid \<Rightarrow> ss_pc"

abbreviation "ss_set s m cf c \<equiv> s\<lparr>ssx := m, sspc := (sspc s)(cf := c)\<rparr>"
abbreviation "ss_upd m b \<equiv> m\<lparr>ss_sem := b\<rparr>"

inductive ss_step :: "ss_sys \<Rightarrow> ss_sys \<Rightarrow> bool" where
  enter: "sspc s cf = SsOut \<Longrightarrow> ss_enter ownerLock cf (ssx s) = Some False \<Longrightarrow> ss_step s (ss_set s (ssx s) cf SsTry)"
| lock: "sspc s cf = SsTry \<or> sspc s cf = SsRetry \<Longrightarrow> ss_tryLock cf (ssx s) = (True, m) \<Longrightarrow> ss_step s (ss_set s m cf SsHold)"
| fail: "sspc s cf = SsTry \<Longrightarrow> ss_tryLock cf (ssx s) = (False, m) \<Longrightarrow> c \<in> {SsOut, SsTry, SsSem} \<Longrightarrow> ss_step s (ss_set s m cf c)"
| again: "sspc s cf = SsRetry \<Longrightarrow> ss_tryLock cf (ssx s) = (False, m) \<Longrightarrow> ss_step s (ss_set s m cf SsSem)"
| P1: "sspc s cf = SsSem \<Longrightarrow> fb_P1 (ss_sem (ssx s)) = (r, b) \<Longrightarrow>
     ss_step s (ss_set s (ss_upd (ssx s) b) cf (if r = None then SsPush else SsRetry))"
| P2: "sspc s cf = SsPush \<Longrightarrow> fb_P2 Wait cf (ss_sem (ssx s)) = Some b \<Longrightarrow> ss_step s (ss_set s (ss_upd (ssx s) b) cf SsWait)"
| release1: "sspc s cf = SsHold \<Longrightarrow> ss_release1 cf (ssx s) = Some m \<Longrightarrow> ss_step s (ss_set s m cf SsRel)"
| V1: "sspc s cf = SsRel \<Longrightarrow> fb_V1 True (ss_sem (ssx s)) = Some (r, b) \<Longrightarrow>
     ss_step s (ss_set s (ss_upd (ssx s) b) cf (if r then SsOut else SsPop))"
| V2: "sspc s cf = SsPop \<Longrightarrow> fb_V2 (ss_sem (ssx s)) = (Some f, b) \<Longrightarrow>
     ss_step s (s\<lparr>ssx := ss_upd (ssx s) b, sspc := (sspc s)(cf := SsOut, f := SsRetry)\<rparr>)"

inductive ss_reach :: "ss_sys \<Rightarrow> bool" where
  start: "ss_reach \<lparr>ssx = new_ssmutex, sspc = (\<lambda>_. SsOut)\<rparr>"
| step: "ss_reach s \<Longrightarrow> ss_step s s' \<Longrightarrow> ss_reach s'"

section \<open>Invariant\<close>

text \<open>The balance of the semaphore: freds committed to wait, less the wake-ups under way, are what the
  benaphore owes; and while it is not open, somebody holds the mutex or is on the way to it.\<close>

definition ss_balance :: "int \<Rightarrow> (fid \<Rightarrow> ss_pc) \<Rightarrow> bool" where
  "ss_balance c pc \<longleftrightarrow> c \<le> 1 \<and> cnt pc SsPush + cnt pc SsWait - cnt pc SsPop = max 0 (- c)
     \<and> (c \<le> 0 \<longrightarrow> (\<exists>f. pc f \<in> {SsHold, SsRel, SsPop, SsRetry}))"

definition ss_inv :: "ss_sys \<Rightarrow> bool" where
  "ss_inv s \<longleftrightarrow> finite {f. sspc s f \<noteq> SsOut} \<and> (\<forall>f. ss_owner (ssx s) = Some f \<longleftrightarrow> sspc s f = SsHold)
     \<and> distinct (fb_queue (ss_sem (ssx s))) \<and> (\<forall>f. f \<in> set (fb_queue (ss_sem (ssx s))) \<longleftrightarrow> sspc s f = SsWait)
     \<and> ss_balance (fb_ben (ss_sem (ssx s))) (sspc s)"

lemma ss_cnt:
  assumes "finite {f. pc f \<noteq> SsOut}" and "c \<noteq> SsOut"
  shows "cnt (pc(f := d)) c = cnt pc c + of_bool (d = c) - of_bool (pc f = c)"
  by (rule cnt_upd [OF finite_stage [OF assms]])

text \<open>A move of one fred that keeps the queue, given its effect on the owner and on the balance.\<close>

lemma ss_inv_move:
  assumes inv: "ss_inv s" and "sspc s f \<noteq> SsWait" and "d \<noteq> SsWait"
    and q: "fb_queue (ss_sem m) = fb_queue (ss_sem (ssx s))"
    and ow: "\<And>g. ss_owner m = Some g \<longleftrightarrow> ((sspc s)(f := d)) g = SsHold"
    and bal: "ss_balance (fb_ben (ss_sem m)) ((sspc s)(f := d))"
  shows "ss_inv (ss_set s m f d)"
proof -
  have "g \<in> set (fb_queue (ss_sem m)) \<longleftrightarrow> ((sspc s)(f := d)) g = SsWait" for g
    using inv assms(2,3) unfolding q ss_inv_def by auto
  with inv q ow bal finite_upd_stage [of "sspc s" SsOut f d] show ?thesis unfolding ss_inv_def by simp
qed

lemma ss_balance_move:
  assumes fin: "finite {f. pc f \<noteq> SsOut}" and bal: "ss_balance c pc"
    and "d \<noteq> SsPush" "d \<noteq> SsWait" "d \<noteq> SsPop" "pc f \<noteq> SsPush" "pc f \<noteq> SsWait" "pc f \<noteq> SsPop"
    and "pc f \<in> {SsHold, SsRel, SsRetry} \<Longrightarrow> d \<in> {SsHold, SsRel, SsRetry} \<or> (\<exists>g. g \<noteq> f \<and> pc g = SsHold)"
  shows "ss_balance c (pc(f := d))"
proof -
  have "\<exists>g. (pc(f := d)) g \<in> {SsHold, SsRel, SsPop, SsRetry}" if "\<exists>g. pc g \<in> {SsHold, SsRel, SsPop, SsRetry}"
  proof (cases "pc f \<in> {SsHold, SsRel, SsRetry}")
    case True
    then consider "d \<in> {SsHold, SsRel, SsRetry}" | g where "g \<noteq> f" "pc g = SsHold" using assms(9) by blast
    then show ?thesis
    proof cases
      case 1
      then show ?thesis by (intro exI [of _ f]) auto
    next
      case (2 g)
      then show ?thesis by (intro exI [of _ g]) auto
    qed
  next
    case False
    from that obtain g where g: "pc g \<in> {SsHold, SsRel, SsPop, SsRetry}" by blast
    then have "g \<noteq> f" using False assms(8) by auto
    with g show ?thesis by (intro exI [of _ g]) auto
  qed
  moreover have "cnt (pc(f := d)) e = cnt pc e" if "e \<in> {SsPush, SsWait, SsPop}" for e
    using that ss_cnt [OF fin, of e f d] assms(3-8) by auto
  ultimately show ?thesis using bal unfolding ss_balance_def by simp
qed

lemma ss_invD:
  assumes "ss_inv s"
  shows "finite {f. sspc s f \<noteq> SsOut}" and "ss_owner (ssx s) = Some f \<longleftrightarrow> sspc s f = SsHold"
    and "distinct (fb_queue (ss_sem (ssx s)))" and "f \<in> set (fb_queue (ss_sem (ssx s))) \<longleftrightarrow> sspc s f = SsWait"
    and "ss_balance (fb_ben (ss_sem (ssx s))) (sspc s)"
  using assms by (simp_all add: ss_inv_def)

text \<open>Moves that change neither the owner nor the balance of the semaphore.\<close>

lemma ss_inv_quiet:
  assumes inv: "ss_inv s" and "sspc s f \<in> {SsOut, SsTry, SsSem} \<or> sspc s f = SsRetry \<and> ss_owner (ssx s) \<noteq> None"
    and "d \<in> {SsOut, SsTry, SsSem}"
  shows "ss_inv (ss_set s (ssx s) f d)"
proof (rule ss_inv_move [OF inv])
  show "sspc s f \<noteq> SsWait" "d \<noteq> SsWait" using assms(2,3) by auto
  show "ss_owner (ssx s) = Some g \<longleftrightarrow> ((sspc s)(f := d)) g = SsHold" for g
    using ss_invD(2) [OF inv, of g] assms(2,3) by auto
  have "\<exists>g. g \<noteq> f \<and> sspc s g = SsHold" if "sspc s f \<in> {SsHold, SsRel, SsRetry}"
  proof -
    have "ss_owner (ssx s) \<noteq> None" using assms(2) that by auto
    then obtain g where "ss_owner (ssx s) = Some g" by blast
    then have "sspc s g = SsHold" using ss_invD(2) [OF inv] by blast
    moreover have "g \<noteq> f" using calculation assms(2) by auto
    ultimately show ?thesis by blast
  qed
  then show "ss_balance (fb_ben (ss_sem (ssx s))) ((sspc s)(f := d))"
    using assms(2,3) by (intro ss_balance_move ss_invD(1,5) inv) auto
qed simp

lemma ss_inv_lock:
  assumes inv: "ss_inv s" and "sspc s f = SsTry \<or> sspc s f = SsRetry" and "ss_owner (ssx s) = None"
  shows "ss_inv (ss_set s ((ssx s)\<lparr>ss_owner := Some f\<rparr>) f SsHold)"
proof (rule ss_inv_move [OF inv])
  have "sspc s g \<noteq> SsHold" for g using ss_invD(2) [OF inv, of g] assms(3) by simp
  then show "ss_owner ((ssx s)\<lparr>ss_owner := Some f\<rparr>) = Some g \<longleftrightarrow> ((sspc s)(f := SsHold)) g = SsHold" for g by auto
  show "ss_balance (fb_ben (ss_sem ((ssx s)\<lparr>ss_owner := Some f\<rparr>))) ((sspc s)(f := SsHold))"
    using assms(2) ss_invD(5) [OF inv] by (auto intro!: ss_balance_move ss_invD(1) inv)
qed (use assms(2) in auto)

lemma ss_inv_release1:
  assumes inv: "ss_inv s" and "sspc s f = SsHold"
  shows "ss_inv (ss_set s ((ssx s)\<lparr>ss_owner := None\<rparr>) f SsRel)"
proof (rule ss_inv_move [OF inv])
  have "ss_owner (ssx s) = Some f" using ss_invD(2) [OF inv, of f] assms(2) by simp
  then have "sspc s g = SsHold \<Longrightarrow> g = f" for g using ss_invD(2) [OF inv, of g] by simp
  then show "ss_owner ((ssx s)\<lparr>ss_owner := None\<rparr>) = Some g \<longleftrightarrow> ((sspc s)(f := SsRel)) g = SsHold" for g by auto
  show "ss_balance (fb_ben (ss_sem ((ssx s)\<lparr>ss_owner := None\<rparr>))) ((sspc s)(f := SsRel))"
    using assms(2) ss_invD(5) [OF inv] by (auto intro!: ss_balance_move ss_invD(1) inv)
qed (use assms(2) in auto)

text \<open>Moves through the benaphore.\<close>

lemma ss_inv_ben:
  assumes inv: "ss_inv s" and b: "fb_queue b = fb_queue (ss_sem (ssx s))"
    and "sspc s f = SsSem \<and> d = SsRetry \<and> fb_ben (ss_sem (ssx s)) = 1 \<and> fb_ben b = 0
      \<or> sspc s f = SsSem \<and> d = SsPush \<and> fb_ben (ss_sem (ssx s)) \<le> 0 \<and> fb_ben b = fb_ben (ss_sem (ssx s)) - 1
      \<or> sspc s f = SsRel \<and> d = SsOut \<and> fb_ben (ss_sem (ssx s)) \<in> {0, 1} \<and> fb_ben b = 1
      \<or> sspc s f = SsRel \<and> d = SsPop \<and> fb_ben (ss_sem (ssx s)) < 0 \<and> fb_ben b = fb_ben (ss_sem (ssx s)) + 1"
  shows "ss_inv (ss_set s (ss_upd (ssx s) b) f d)"
proof (rule ss_inv_move [OF inv])
  show "ss_owner (ss_upd (ssx s) b) = Some g \<longleftrightarrow> ((sspc s)(f := d)) g = SsHold" for g
    using ss_invD(2) [OF inv, of g] assms(3) by auto
  define pc where "pc = sspc s"
  note D = ss_invD(1,5) [OF inv, folded pc_def]
  note u = ss_cnt [OF D(1), of SsPush f d] ss_cnt [OF D(1), of SsWait f d] ss_cnt [OF D(1), of SsPop f d]
  have ex: "\<exists>g. (pc(f := d)) g \<in> {SsHold, SsRel, SsPop, SsRetry}" if "fb_ben b \<le> 0"
  proof (cases "d \<in> {SsPop, SsRetry}")
    case True
    then show ?thesis by (intro exI [of _ f]) auto
  next
    case False
    then have "fb_ben (ss_sem (ssx s)) \<le> 0" "pc f = SsSem" using assms(3) that by (auto simp: pc_def)
    then obtain g where g: "pc g \<in> {SsHold, SsRel, SsPop, SsRetry}" using D(2) by (auto simp: ss_balance_def)
    then have "g \<noteq> f" using \<open>pc f = SsSem\<close> by auto
    with g show ?thesis by (intro exI [of _ g]) auto
  qed
  have "cnt (pc(f := d)) SsPush + cnt (pc(f := d)) SsWait - cnt (pc(f := d)) SsPop = max 0 (- fb_ben b)"
    using D(2) u assms(3) by (auto simp: ss_balance_def pc_def simp del: fun_upd_apply)
  moreover have "fb_ben b \<le> 1" using D(2) assms(3) by (auto simp: ss_balance_def)
  ultimately show "ss_balance (fb_ben (ss_sem (ss_upd (ssx s) b))) ((sspc s)(f := d))"
    using ex by (simp add: ss_balance_def pc_def del: fun_upd_apply)
qed (use assms(2,3) in auto)

text \<open>A suspended fred is in the queue from its push on, until a releasing fred takes it out.\<close>

lemma ss_inv_P2:
  assumes inv: "ss_inv s" and pc: "sspc s f = SsPush" and b: "fb_P2 Wait f (ss_sem (ssx s)) = Some b"
  shows "ss_inv (ss_set s (ss_upd (ssx s) b) f SsWait)"
proof -
  let ?q = "fb_queue (ss_sem (ssx s))" and ?pc = "(sspc s)(f := SsWait)"
  note D = ss_invD [OF inv]
  have b': "fb_queue b = ?q @ [f]" "fb_ben b = fb_ben (ss_sem (ssx s))"
    using b by (auto simp: fb_P2_def ls0_P_def)
  have "f \<notin> set ?q" using D(4) pc by simp
  then have q: "distinct (?q @ [f])" "\<And>g. g \<in> set (?q @ [f]) \<longleftrightarrow> ?pc g = SsWait"
    using D(3,4) by auto
  have ow: "ss_owner (ssx s) = Some g \<longleftrightarrow> ?pc g = SsHold" for g using D(2) [of g] pc by auto
  note u = ss_cnt [OF D(1), of SsPush f SsWait] ss_cnt [OF D(1), of SsWait f SsWait] ss_cnt [OF D(1), of SsPop f SsWait]
  have "\<exists>g. ?pc g \<in> {SsHold, SsRel, SsPop, SsRetry}" if "fb_ben b \<le> 0"
  proof -
    from that obtain g where g: "sspc s g \<in> {SsHold, SsRel, SsPop, SsRetry}" using D(5) by (auto simp: ss_balance_def b')
    then have "g \<noteq> f" using pc by auto
    with g show ?thesis by (intro exI [of _ g]) auto
  qed
  then have "ss_balance (fb_ben b) ?pc"
    using D(5) u pc by (auto simp: ss_balance_def b' simp del: fun_upd_apply)
  with q ow finite_upd_stage [OF D(1), of f SsWait] show ?thesis
    unfolding ss_inv_def by (simp add: b' del: fun_upd_apply)
qed

lemma ss_inv_V2:
  assumes inv: "ss_inv s" and pc: "sspc s cf = SsPop" and b: "fb_V2 (ss_sem (ssx s)) = (Some f, b)"
  shows "ss_inv (s\<lparr>ssx := ss_upd (ssx s) b, sspc := (sspc s)(cf := SsOut, f := SsRetry)\<rparr>)"
proof -
  let ?q = "fb_queue (ss_sem (ssx s))" and ?pc = "(sspc s)(cf := SsOut, f := SsRetry)"
  note D = ss_invD [OF inv]
  obtain qs where b': "?q = f # qs" "fb_queue b = qs" "fb_ben b = fb_ben (ss_sem (ssx s))"
    using b by (auto simp: fb_V2_def ls0_tryV_def split: list.splits prod.splits)
  have f: "sspc s f = SsWait" using D(4) [of f] b'(1) by simp
  have q: "distinct qs" "\<And>g. g \<in> set qs \<longleftrightarrow> ?pc g = SsWait" using D(3) D(4) [of cf] D(4) pc unfolding b' by auto
  have ow: "ss_owner (ssx s) = Some g \<longleftrightarrow> ?pc g = SsHold" for g using D(2) [of g] pc f by auto
  have fin: "finite {g. ((sspc s)(cf := SsOut)) g \<noteq> SsOut}" by (rule finite_upd_stage [OF D(1)])
  have f': "((sspc s)(cf := SsOut)) f = SsWait" using pc f by auto
  have u: "cnt ?pc e = cnt (sspc s) e - of_bool (SsPop = e) - of_bool (SsWait = e)" if "e \<in> {SsPush, SsWait, SsPop}" for e
    using that ss_cnt [OF fin, of e f SsRetry] ss_cnt [OF D(1), of e cf SsOut] pc f' by (auto simp del: fun_upd_apply)
  have "\<exists>g. ?pc g \<in> {SsHold, SsRel, SsPop, SsRetry}" by (intro exI [of _ f]) auto
  then have "ss_balance (fb_ben b) ?pc"
    using D(5) by (simp add: ss_balance_def b' u del: fun_upd_apply)
  with q ow finite_upd_stage [OF fin, of f SsRetry] show ?thesis
    unfolding ss_inv_def by (simp add: b' del: fun_upd_apply)
qed

lemma ss_step_inv:
  assumes "ss_step s s'" and "ss_inv s"
  shows "ss_inv s'"
  using assms
proof cases
  case (enter cf ownerLock)
  then show ?thesis using ss_inv_quiet [OF assms(2), of cf SsTry] by auto
next
  case (lock cf m)
  then show ?thesis using ss_inv_lock [OF assms(2), of cf] by (auto simp: ss_tryLock_def split: if_splits)
next
  case (fail cf m c)
  then have "m = ssx s" by (auto simp: ss_tryLock_def split: if_splits)
  with fail show ?thesis using ss_inv_quiet [OF assms(2), of cf c] by auto
next
  case (again cf m)
  then have "m = ssx s" "ss_owner (ssx s) \<noteq> None" by (auto simp: ss_tryLock_def split: if_splits)
  with again show ?thesis using ss_inv_quiet [OF assms(2), of cf SsSem] by auto
next
  case (P1 cf r b)
  then show ?thesis using ss_inv_ben [OF assms(2), of b cf "if r = None then SsPush else SsRetry"] ss_invD(5) [OF assms(2)]
    by (auto simp: fb_P1_def ben_P_def ss_balance_def split: if_splits)
next
  case (P2 cf b)
  then show ?thesis using ss_inv_P2 [OF assms(2)] by simp
next
  case (release1 cf m)
  then show ?thesis using ss_inv_release1 [OF assms(2), of cf] by (auto simp: ss_release1_def split: if_splits)
next
  case (V1 cf r b)
  then show ?thesis using ss_inv_ben [OF assms(2), of b cf "if r then SsOut else SsPop"]
    by (auto simp: fb_V1_def ben_V_def split: if_splits)
next
  case (V2 cf f b)
  then show ?thesis using ss_inv_V2 [OF assms(2)] by simp
qed

lemma ss_init_inv: "ss_inv \<lparr>ssx = new_ssmutex, sspc = (\<lambda>_. SsOut)\<rparr>"
  by (simp add: ss_inv_def new_ssmutex_def new_fredben_def ss_balance_def cnt_def)

lemma ss_reach_inv: "ss_reach s \<Longrightarrow> ss_inv s"
  by (induction rule: ss_reach.induct) (auto intro: ss_init_inv ss_step_inv)

interpretation ssm: mutex ss_reach ss_step "\<lambda>s f. sspc s f = SsHold"
proof
  fix s f g assume "ss_reach s" and h: "sspc s f = SsHold" "sspc s g = SsHold"
  then have "ss_inv s" by (intro ss_reach_inv)
  then have "ss_owner (ssx s) = Some f" "ss_owner (ssx s) = Some g" using h unfolding ss_inv_def by blast+
  then show "f = g" by simp
qed (rule ss_reach.step)

section \<open>Properties\<close>

text \<open>C4: SpinSemMutex: in every reachable state one fred at most holds the mutex and it is the recorded
  owner, so \<^verbatim>\<open>release\<close> by the holder and \<^verbatim>\<open>acquire\<close> by a fred outside pass their assertions (including the
  \<^verbatim>\<open>RASSERT\<close> of the binary benaphore); a fred waiting for the semaphore is never forgotten: somebody holds
  the mutex, is releasing it or has been resumed to compete for it; and a release that looks for a fred
  to resume finds one that waits or is about to, and takes the one that has waited longest.\<close>

theorem spin_sem_mutex_safe:
  assumes "ss_reach s"
  shows "(\<forall>f g. sspc s f = SsHold \<longrightarrow> sspc s g = SsHold \<longrightarrow> f = g)
    \<and> (\<forall>f. sspc s f = SsHold \<longrightarrow> ss_release1 f (ssx s) \<noteq> None)
    \<and> (\<forall>f ownerLock. sspc s f = SsOut \<longrightarrow> ss_enter ownerLock f (ssx s) = Some False)
    \<and> fb_V1 True (ss_sem (ssx s)) \<noteq> None
    \<and> (\<forall>f. sspc s f \<in> {SsPush, SsWait} \<longrightarrow> (\<exists>g. sspc s g \<in> {SsHold, SsRel, SsPop, SsRetry}))
    \<and> (\<forall>f. sspc s f = SsPop \<longrightarrow> (\<exists>g. sspc s g \<in> {SsPush, SsWait}))
    \<and> (\<forall>f qs. fb_queue (ss_sem (ssx s)) = f # qs \<longrightarrow>
         sspc s f = SsWait \<and> fst (fb_V2 (ss_sem (ssx s))) = Some f \<and> fb_queue (snd (fb_V2 (ss_sem (ssx s)))) = qs)"
proof -
  have inv: "ss_inv s" using assms by (rule ss_reach_inv)
  let ?c = "fb_ben (ss_sem (ssx s))"
  note D = ss_invD [OF inv]
  have fin: "finite {f. sspc s f = e}" if "e \<noteq> SsOut" for e using D(1) that by (rule finite_stage)
  have 1: "\<forall>f g. sspc s f = SsHold \<longrightarrow> sspc s g = SsHold \<longrightarrow> f = g" using D(2) by (metis option.inject)
  have 2: "\<forall>f. sspc s f = SsHold \<longrightarrow> ss_release1 f (ssx s) \<noteq> None" using D(2) by (auto simp: ss_release1_def)
  have 3: "\<forall>f ownerLock. sspc s f = SsOut \<longrightarrow> ss_enter ownerLock f (ssx s) = Some False"
    using D(2) by (auto simp: ss_enter_def)
  have 4: "fb_V1 True (ss_sem (ssx s)) \<noteq> None" using D(5) by (auto simp: fb_V1_def ben_V_def ss_balance_def)
  have bal: "cnt (sspc s) SsPush + cnt (sspc s) SsWait - cnt (sspc s) SsPop = max 0 (- ?c)" "?c \<le> 1"
    "?c \<le> 0 \<Longrightarrow> \<exists>g. sspc s g \<in> {SsHold, SsRel, SsPop, SsRetry}" using D(5) by (auto simp: ss_balance_def)
  have 5: "\<forall>f. sspc s f \<in> {SsPush, SsWait} \<longrightarrow> (\<exists>g. sspc s g \<in> {SsHold, SsRel, SsPop, SsRetry})"
  proof (intro allI impI)
    fix f assume "sspc s f \<in> {SsPush, SsWait}"
    then have "0 < cnt (sspc s) SsPush + cnt (sspc s) SsWait"
      using cnt_pos [OF fin, of SsPush] cnt_pos [OF fin, of SsWait] by (auto intro: add_pos_nonneg add_nonneg_pos)
    then have "?c \<le> 0 \<or> 0 < cnt (sspc s) SsPop" using bal(1) by linarith
    then show "\<exists>g. sspc s g \<in> {SsHold, SsRel, SsPop, SsRetry}" using bal(3) cnt_pos [OF fin, of SsPop] by auto
  qed
  have 6: "\<forall>f. sspc s f = SsPop \<longrightarrow> (\<exists>g. sspc s g \<in> {SsPush, SsWait})"
  proof (intro allI impI)
    fix f assume "sspc s f = SsPop"
    then have "0 < cnt (sspc s) SsPush \<or> 0 < cnt (sspc s) SsWait"
      using cnt_pos [OF fin, of SsPop] bal(1) by auto
    then show "\<exists>g. sspc s g \<in> {SsPush, SsWait}" using cnt_pos [OF fin, of SsPush] cnt_pos [OF fin, of SsWait] by auto
  qed
  have 7: "\<forall>f qs. fb_queue (ss_sem (ssx s)) = f # qs \<longrightarrow>
         sspc s f = SsWait \<and> fst (fb_V2 (ss_sem (ssx s))) = Some f \<and> fb_queue (snd (fb_V2 (ss_sem (ssx s)))) = qs"
  proof (intro allI impI)
    fix f qs assume "fb_queue (ss_sem (ssx s)) = f # qs"
    then show "sspc s f = SsWait \<and> fst (fb_V2 (ss_sem (ssx s))) = Some f \<and> fb_queue (snd (fb_V2 (ss_sem (ssx s)))) = qs"
      using D(4) [of f] by (simp add: fb_V2_def ls0_tryV_def)
  qed
  show ?thesis by (rule conjI [OF 1 conjI [OF 2 conjI [OF 3 conjI [OF 4 conjI [OF 5 conjI [OF 6 7]]]]]])
qed

text \<open>Witness: fred 1 holds the mutex, fred 2 has failed its bounded spin and entered the semaphore.\<close>

lemma ss_example: "ss_reach \<lparr>ssx = \<lparr>ss_owner = Some 1, ss_sem = \<lparr>fb_ben = -1, fb_queue = [2]\<rparr>\<rparr>,
    sspc = (\<lambda>_. SsOut)(1 := SsHold, 2 := SsWait)\<rparr>"
proof -
  let ?st = "\<lambda>ow c q pc. \<lparr>ssx = \<lparr>ss_owner = ow, ss_sem = \<lparr>fb_ben = c, fb_queue = q\<rparr>\<rparr>, sspc = pc\<rparr>"
  have go: "ss_reach s \<Longrightarrow> ss_step s t \<Longrightarrow> t = s' \<Longrightarrow> ss_reach s'" for s t s' using ss_reach.step by blast
  let ?p1 = "(\<lambda>_. SsOut)(1 := SsTry)" and ?p2 = "(\<lambda>_. SsOut)(1 := SsHold)"
  have "ss_reach (?st None 1 [] (\<lambda>_. SsOut))" using ss_reach.start by (simp add: new_ssmutex_def new_fredben_def)
  then have "ss_reach (?st None 1 [] ?p1)" by (rule go [OF _ ss_step.enter [of _ 1 False]]) (simp_all add: ss_enter_def)
  then have "ss_reach (?st (Some 1) 1 [] ?p2)"
    by (rule go [OF _ ss_step.lock [of _ 1]]) (simp_all add: ss_tryLock_def)
  then have "ss_reach (?st (Some 1) 1 [] (?p2(2 := SsTry)))"
    by (rule go [OF _ ss_step.enter [of _ 2 False]]) (simp_all add: ss_enter_def)
  then have "ss_reach (?st (Some 1) 1 [] (?p2(2 := SsSem)))"
    by (rule go [OF _ ss_step.fail [of _ 2 _ SsSem]]) (simp_all add: ss_tryLock_def)
  then have "ss_reach (?st (Some 1) 0 [] (?p2(2 := SsRetry)))"
    by (rule go [OF _ ss_step.P1 [of _ 2 "Some SemaphoreWasOpen"]]) (simp_all add: fb_P1_def ben_P_def)
  then have "ss_reach (?st (Some 1) 0 [] (?p2(2 := SsSem)))"
    by (rule go [OF _ ss_step.again [of _ 2]]) (simp_all add: ss_tryLock_def)
  then have "ss_reach (?st (Some 1) (-1) [] (?p2(2 := SsPush)))"
    by (rule go [OF _ ss_step.P1 [of _ 2 None]]) (simp_all add: fb_P1_def ben_P_def)
  then show ?thesis
    by (rule go [OF _ ss_step.P2 [of _ 2]]) (simp_all add: fb_P2_def ls0_P_def)
qed

theorem spin_sem_mutex_safe_witness:
  "\<exists>s. ss_reach s \<and> sspc s 1 = SsHold \<and> sspc s 2 = SsWait \<and> ss_release1 1 (ssx s) \<noteq> None"
  using ss_example spin_sem_mutex_safe [OF ss_example] by (intro exI conjI) (assumption | simp)+

end
