(* ===== verification/Fast_Barrier.thy ===== *)
theory Fast_Barrier
  imports Benaphore_Sync Blocking_Queue
begin

text \<open>
  \<^verbatim>\<open>FastBarrier\<close> of \<^verbatim>\<open>src/src/runtime/BlockingSync.h\<close>: arrivals push themselves onto a lock-free queue and
  count themselves with a separate atomic counter, so that the order of the queue and of the counter may
  differ. The arrival that completes a group resumes as many freds as a group has, in queue order. All
  interleavings of the atomic accesses are considered. The queue is the FIFO queue that \<open>Lock_Free\<close>
  establishes for \<^verbatim>\<open>FredMPSC\<close>; a \<^verbatim>\<open>pop\<close> that returns null is repeated and is no step of the model.
\<close>

section \<open>Operations\<close>

record fbarrier =
  fbr_target :: nat
  fbr_counter :: nat
  fbr_queue :: "fid list"
  fbr_lock :: "fid option"

definition new_fbarrier :: "nat \<Rightarrow> fbarrier option" where
  "new_fbarrier t = do { rassert (t > 0); Some \<lparr>fbr_target = t, fbr_counter = 0, fbr_queue = [], fbr_lock = None\<rparr> }"

definition fbr_reset :: "fbarrier \<Rightarrow> fbarrier option" where
  "fbr_reset b = do { rassert (fbr_queue b = []); Some b }"

text \<open>The start of \<^verbatim>\<open>wait\<close>: prepare the race and push; add to the counter (true: park).\<close>

definition fbr_push :: "fid \<Rightarrow> fbarrier \<Rightarrow> freds \<Rightarrow> (fbarrier \<times> freds) option" where
  "fbr_push cf b F = do { f \<leftarrow> prepareResumeRace (F cf); Some (b\<lparr>fbr_queue := fbr_queue b @ [cf]\<rparr>, F(cf := f)) }"

definition fbr_add :: "fbarrier \<Rightarrow> bool \<times> fbarrier" where
  "fbr_add b = (let c = fbr_counter b + 1 in (c mod fbr_target b \<noteq> 0, b\<lparr>fbr_counter := c\<rparr>))"

text \<open>The notifier: subtract the group; take the lock; pop; what is done with the fred that was popped in round
  \<open>i\<close> (the new value of \<open>park\<close> and the fred that is resumed).\<close>

definition fbr_sub :: "fbarrier \<Rightarrow> fbarrier" where
  "fbr_sub b = b\<lparr>fbr_counter := fbr_counter b - fbr_target b\<rparr>"

definition fbr_acquire :: "fid \<Rightarrow> fbarrier \<Rightarrow> fbarrier option" where
  "fbr_acquire cf b = (if fbr_lock b = None then Some (b\<lparr>fbr_lock := Some cf\<rparr>) else None)"

definition fbr_pop :: "fbarrier \<Rightarrow> (fid \<times> fbarrier) option" where
  "fbr_pop b = (case fbr_queue b of [] \<Rightarrow> None | f # fs \<Rightarrow> Some (f, b\<lparr>fbr_queue := fs\<rparr>))"

definition fbr_visit :: "nat \<Rightarrow> fid \<Rightarrow> nat \<Rightarrow> bool \<Rightarrow> fid \<Rightarrow> freds \<Rightarrow> bool \<times> fid option \<times> freds" where
  "fbr_visit t cf i park f F =
     (if f = cf then (False, None, F)
      else (park, Some f, if i = t - 1 \<and> park then F(f := snd (raceResume cf (F f))) else F))"

text \<open>The result of a fred that was suspended.\<close>

definition fbr_result :: "fid \<Rightarrow> freds \<Rightarrow> bool" where
  "fbr_result cf F \<longleftrightarrow> resumeInfo (F cf) \<noteq> 0"

section \<open>Interleavings\<close>

datatype fbr_pc = FbOut | FbAdd | FbSub | FbLock | FbLoop nat bool | FbSusp

record fbr_sys =
  fbx :: fbarrier
  fbF :: freds
  fbpc :: "fid \<Rightarrow> fbr_pc"
  fbAdds :: nat           \<comment> \<open>arrivals that are counted\<close>
  fbPops :: nat           \<comment> \<open>freds released\<close>
  fbTrips :: nat          \<comment> \<open>groups completely released\<close>
  fbTrues :: nat          \<comment> \<open>calls that returned true\<close>
  fbWoken :: "fid set"    \<comment> \<open>resumed, still inside \<open>wait\<close>\<close>

abbreviation "fb_set s b cf c \<equiv> s\<lparr>fbx := b, fbpc := (fbpc s)(cf := c)\<rparr>"

inductive fbr_step :: "fbr_sys \<Rightarrow> fbr_sys \<Rightarrow> bool" where
  push: "fbpc s cf = FbOut \<Longrightarrow> 0 < cf \<Longrightarrow> fbr_push cf (fbx s) (fbF s) = Some (b, F) \<Longrightarrow>
     fbr_step s ((fb_set s b cf FbAdd)\<lparr>fbF := F\<rparr>)"
| count: "fbpc s cf = FbAdd \<Longrightarrow> fbr_add (fbx s) = (park, b) \<Longrightarrow>
     fbr_step s ((fb_set s b cf (if park then FbSusp else FbSub))\<lparr>fbAdds := Suc (fbAdds s)\<rparr>)"
| sub: "fbpc s cf = FbSub \<Longrightarrow> fbr_step s (fb_set s (fbr_sub (fbx s)) cf FbLock)"
| lock: "fbpc s cf = FbLock \<Longrightarrow> fbr_acquire cf (fbx s) = Some b \<Longrightarrow> fbr_step s (fb_set s b cf (FbLoop 0 True))"
| pop: "fbpc s cf = FbLoop i park \<Longrightarrow> i < fbr_target (fbx s) \<Longrightarrow> fbr_pop (fbx s) = Some (f, b) \<Longrightarrow>
     fbr_visit (fbr_target b) cf i park f (fbF s) = (park', r, F) \<Longrightarrow>
     fbr_step s ((fb_set s b cf (FbLoop (Suc i) park'))\<lparr>fbF := F, fbPops := Suc (fbPops s),
       fbWoken := (case r of None \<Rightarrow> fbWoken s | Some g \<Rightarrow> insert g (fbWoken s))\<rparr>)"
| unlock: "fbpc s cf = FbLoop i park \<Longrightarrow> i = fbr_target (fbx s) \<Longrightarrow>
     fbr_step s ((fb_set s ((fbx s)\<lparr>fbr_lock := None\<rparr>) cf (if park then FbSusp else FbOut))
       \<lparr>fbTrips := Suc (fbTrips s), fbTrues := fbTrues s + of_bool (\<not> park)\<rparr>)"
| leave: "fbpc s cf = FbSusp \<Longrightarrow> cf \<in> fbWoken s \<Longrightarrow> fbr_result cf (fbF s) = res \<Longrightarrow>
     fbr_step s ((fb_set s (fbx s) cf FbOut)\<lparr>fbTrues := fbTrues s + of_bool res, fbWoken := fbWoken s - {cf}\<rparr>)"

inductive fbr_reach :: "nat \<Rightarrow> freds \<Rightarrow> fbr_sys \<Rightarrow> bool" for t F0 where
  start: "new_fbarrier t = Some b \<Longrightarrow>
     fbr_reach t F0 \<lparr>fbx = b, fbF = F0, fbpc = (\<lambda>_. FbOut), fbAdds = 0, fbPops = 0, fbTrips = 0, fbTrues = 0, fbWoken = {}\<rparr>"
| step: "fbr_reach t F0 s \<Longrightarrow> fbr_step s s' \<Longrightarrow> fbr_reach t F0 s'"

section \<open>Invariant\<close>

text \<open>Groups: the counter and the progress of the notifiers.\<close>

definition fb_count :: "nat \<Rightarrow> nat \<Rightarrow> (fid \<Rightarrow> fbr_pc) \<Rightarrow> nat \<Rightarrow> bool" where
  "fb_count t c pc a \<longleftrightarrow> 0 < t \<and> finite {f. pc f \<noteq> FbOut} \<and> int c + int (t * (a div t)) = int a + int t * cnt pc FbSub"

definition fb_groups :: "nat \<Rightarrow> fid option \<Rightarrow> (fid \<Rightarrow> fbr_pc) \<Rightarrow> nat \<Rightarrow> nat \<Rightarrow> bool" where
  "fb_groups t l pc a d \<longleftrightarrow> int (a div t) = int d + cnt pc FbSub + cnt pc FbLock + of_bool (l \<noteq> None)"

definition fb_queued :: "fid list \<Rightarrow> (fid \<Rightarrow> fbr_pc) \<Rightarrow> nat \<Rightarrow> nat \<Rightarrow> bool" where
  "fb_queued q pc a p \<longleftrightarrow> int (length q) + int p = int a + cnt pc FbAdd"

text \<open>The lock is held inside the loop; the releases of the group in progress.\<close>

definition fb_loop :: "nat \<Rightarrow> fid option \<Rightarrow> (fid \<Rightarrow> fbr_pc) \<Rightarrow> nat \<Rightarrow> nat \<Rightarrow> nat \<Rightarrow> bool" where
  "fb_loop t l pc p d m \<longleftrightarrow>
     (\<forall>f i park. pc f = FbLoop i park \<longrightarrow> l = Some f \<and> i \<le> t \<and> p = t * d + i \<and> m = d + of_bool (i = t \<and> park))
     \<and> (\<forall>f. l = Some f \<longrightarrow> (\<exists>i park. pc f = FbLoop i park))
     \<and> (l = None \<longrightarrow> p = t * d \<and> m = d)"

text \<open>Every fred inside is queued or resumed, or has found itself in its own loop.\<close>

fun fb_inside :: "fbr_pc \<Rightarrow> bool" where
  "fb_inside FbOut = False" | "fb_inside (FbLoop i park) = park" | "fb_inside _ = True"

definition fb_members :: "fid list \<Rightarrow> freds \<Rightarrow> (fid \<Rightarrow> fbr_pc) \<Rightarrow> fid set \<Rightarrow> bool" where
  "fb_members q F pc W \<longleftrightarrow> distinct q \<and> set q \<inter> W = {} \<and> finite W \<and> (\<forall>f. f \<in> set q \<union> W \<longleftrightarrow> fb_inside (pc f))
     \<and> (\<forall>f\<in>set q. resumeInfo (F f) = 0) \<and> (\<forall>f. fb_inside (pc f) \<or> pc f \<noteq> FbOut \<longrightarrow> 0 < f)"

definition fb_marked :: "freds \<Rightarrow> fid set \<Rightarrow> fid set" where
  "fb_marked F W = {f \<in> W. resumeInfo (F f) \<noteq> 0}"

definition fbr_inv :: "nat \<Rightarrow> fbr_sys \<Rightarrow> bool" where
  "fbr_inv t s \<longleftrightarrow> fbr_target (fbx s) = t \<and> fb_count t (fbr_counter (fbx s)) (fbpc s) (fbAdds s)
     \<and> fb_groups t (fbr_lock (fbx s)) (fbpc s) (fbAdds s) (fbTrips s)
     \<and> fb_queued (fbr_queue (fbx s)) (fbpc s) (fbAdds s) (fbPops s)
     \<and> fb_loop t (fbr_lock (fbx s)) (fbpc s) (fbPops s) (fbTrips s)
         (fbTrues s + card (fb_marked (fbF s) (fbWoken s)))
     \<and> fb_members (fbr_queue (fbx s)) (fbF s) (fbpc s) (fbWoken s)"

lemma fb_stage:
  assumes "finite {f. pc f \<noteq> FbOut}" and "c \<noteq> FbOut"
  shows "cnt (pc(f := x)) c = cnt pc c + of_bool (x = c) - of_bool (pc f = c)"
  using cnt_upd [OF finite_stage [OF assms]] .

lemma fb_loop_frame:
  assumes "fb_loop t l pc p d m" and "\<And>i k. pc f \<noteq> FbLoop i k" and "\<And>i k. x \<noteq> FbLoop i k"
  shows "fb_loop t l (pc(f := x)) p d m"
  using assms unfolding fb_loop_def fun_upd_apply by metis

lemma fb_members_frame:
  assumes "fb_members q F pc W" and "fb_inside x = fb_inside (pc f)" and "pc f \<noteq> FbOut"
  shows "fb_members q F (pc(f := x)) W"
proof -
  have "fb_inside ((pc(f := x)) g) = fb_inside (pc g)" and "(pc(f := x)) g \<noteq> FbOut \<longrightarrow> pc g \<noteq> FbOut" for g
    using assms(2,3) by simp_all
  then show ?thesis using assms(1) unfolding fb_members_def by metis
qed

lemma fbr_invD:
  assumes "fbr_inv t s"
  shows "fbr_target (fbx s) = t" and "fb_count t (fbr_counter (fbx s)) (fbpc s) (fbAdds s)"
    and "fb_groups t (fbr_lock (fbx s)) (fbpc s) (fbAdds s) (fbTrips s)"
    and "fb_queued (fbr_queue (fbx s)) (fbpc s) (fbAdds s) (fbPops s)"
    and "fb_loop t (fbr_lock (fbx s)) (fbpc s) (fbPops s) (fbTrips s) (fbTrues s + card (fb_marked (fbF s) (fbWoken s)))"
    and "fb_members (fbr_queue (fbx s)) (fbF s) (fbpc s) (fbWoken s)"
    and "0 < t" and "finite {f. fbpc s f \<noteq> FbOut}"
  using assms by (simp_all add: fbr_inv_def fb_count_def)

lemma fbr_push_inv:
  assumes inv: "fbr_inv t s" and pc: "fbpc s cf = FbOut" "0 < cf" and r: "fbr_push cf (fbx s) (fbF s) = Some (b, F)"
  shows "fbr_inv t ((fb_set s b cf FbAdd)\<lparr>fbF := F\<rparr>)"
proof -
  note D = fbr_invD [OF inv]
  note st = fb_stage [OF D(8), of _ cf FbAdd, unfolded pc]
  have b: "b = (fbx s)\<lparr>fbr_queue := fbr_queue (fbx s) @ [cf]\<rparr>" "F = (fbF s)(cf := (fbF s cf)\<lparr>resumeInfo := 0\<rparr>)"
    using r by (auto simp: fbr_push_def prepareResumeRace_def split: if_splits)
  have out: "cf \<notin> set (fbr_queue (fbx s))" "cf \<notin> fbWoken s"
    using D(6) pc unfolding fb_members_def by (metis UnI1 fb_inside.simps(1), metis UnI2 fb_inside.simps(1))
  have m: "fb_marked F (fbWoken s) = fb_marked (fbF s) (fbWoken s)"
    using out by (auto simp: fb_marked_def b)
  have 1: "fb_count t (fbr_counter b) ((fbpc s)(cf := FbAdd)) (fbAdds s)"
    using D(2) finite_upd_stage [OF D(8)] st by (simp add: fb_count_def b del: fun_upd_apply)
  have 2: "fb_groups t (fbr_lock b) ((fbpc s)(cf := FbAdd)) (fbAdds s) (fbTrips s)"
    using D(3) st by (simp add: fb_groups_def b del: fun_upd_apply)
  have 3: "fb_queued (fbr_queue b) ((fbpc s)(cf := FbAdd)) (fbAdds s) (fbPops s)"
    using D(4) st by (simp add: fb_queued_def b del: fun_upd_apply)
  have 4: "fb_loop t (fbr_lock b) ((fbpc s)(cf := FbAdd)) (fbPops s) (fbTrips s) (fbTrues s + card (fb_marked F (fbWoken s)))"
    using fb_loop_frame [OF D(5), of cf FbAdd] pc by (simp add: b m flip: b(2))
  have 5: "fb_members (fbr_queue b) F ((fbpc s)(cf := FbAdd)) (fbWoken s)"
    using D(6) out pc unfolding fb_members_def b by auto
  show ?thesis
    using 1 2 3 4 5 D(1) by (simp add: fbr_inv_def b(1))
qed

lemma fbr_count_inv:
  assumes inv: "fbr_inv t s" and pc: "fbpc s cf = FbAdd" and r: "fbr_add (fbx s) = (park, b)"
  shows "fbr_inv t ((fb_set s b cf (if park then FbSusp else FbSub))\<lparr>fbAdds := Suc (fbAdds s)\<rparr>)"
proof -
  note D = fbr_invD [OF inv]
  define x where "x = (if park then FbSusp else FbSub)"
  note st = fb_stage [OF D(8), of _ cf x, unfolded pc]
  have b: "b = (fbx s)\<lparr>fbr_counter := fbr_counter (fbx s) + 1\<rparr>" and park: "park \<longleftrightarrow> Suc (fbr_counter (fbx s)) mod t \<noteq> 0"
    using r D(1) by (auto simp: fbr_add_def Let_def)
  have C: "int (fbr_counter (fbx s)) + int (t * (fbAdds s div t)) = int (fbAdds s) + int t * cnt (fbpc s) FbSub"
    using D(2) by (simp add: fb_count_def)
  have "int (Suc (fbr_counter (fbx s))) mod int t = int (Suc (fbAdds s)) mod int t"
  proof -
    have "int (Suc (fbr_counter (fbx s))) = int (Suc (fbAdds s)) + int t * (cnt (fbpc s) FbSub - int (fbAdds s div t))"
      using C by (simp add: algebra_simps)
    then show ?thesis by (metis mod_mult_self2)
  qed
  then have park': "park \<longleftrightarrow> Suc (fbAdds s) mod t \<noteq> 0"
    unfolding park by (metis of_nat_mod of_nat_eq_0_iff)
  have dv: "Suc (fbAdds s) div t = fbAdds s div t + of_bool (\<not> park)"
    by (simp add: div_Suc park')
  have u: "cnt ((fbpc s)(cf := x)) FbSub = cnt (fbpc s) FbSub + of_bool (\<not> park)"
      "cnt ((fbpc s)(cf := x)) FbLock = cnt (fbpc s) FbLock" "cnt ((fbpc s)(cf := x)) FbAdd = cnt (fbpc s) FbAdd - 1"
    using st [of FbSub] st [of FbLock] st [of FbAdd] by (simp_all add: x_def del: fun_upd_apply)
  have 1: "fb_count t (fbr_counter b) ((fbpc s)(cf := x)) (Suc (fbAdds s))"
    using D(7) C finite_upd_stage [OF D(8)] by (simp add: fb_count_def b u dv algebra_simps del: fun_upd_apply)
  have 2: "fb_groups t (fbr_lock b) ((fbpc s)(cf := x)) (Suc (fbAdds s)) (fbTrips s)"
    using D(3) by (simp add: fb_groups_def b u dv del: fun_upd_apply)
  have 3: "fb_queued (fbr_queue b) ((fbpc s)(cf := x)) (Suc (fbAdds s)) (fbPops s)"
    using D(4) by (simp add: fb_queued_def b u del: fun_upd_apply)
  have 4: "fb_loop t (fbr_lock b) ((fbpc s)(cf := x)) (fbPops s) (fbTrips s) (fbTrues s + card (fb_marked (fbF s) (fbWoken s)))"
    using fb_loop_frame [OF D(5), of cf x] pc by (simp add: b x_def)
  have 5: "fb_members (fbr_queue b) (fbF s) ((fbpc s)(cf := x)) (fbWoken s)"
    using fb_members_frame [OF D(6), of x cf] pc by (simp add: b x_def)
  show ?thesis
    unfolding x_def [symmetric] using 1 2 3 4 5 D(1) by (simp add: fbr_inv_def b)
qed

lemma fbr_sub_inv:
  assumes inv: "fbr_inv t s" and pc: "fbpc s cf = FbSub"
  shows "fbr_inv t (fb_set s (fbr_sub (fbx s)) cf FbLock)"
proof -
  note D = fbr_invD [OF inv]
  note st = fb_stage [OF D(8), of _ cf FbLock, unfolded pc]
  have C: "int (fbr_counter (fbx s)) + int (t * (fbAdds s div t)) = int (fbAdds s) + int t * cnt (fbpc s) FbSub"
    using D(2) by (simp add: fb_count_def)
  have pos: "cnt (fbpc s) FbSub \<ge> 1"
    using cnt_pos [OF finite_stage [OF D(8), of FbSub]] pc by auto
  have "int t * cnt (fbpc s) FbSub \<ge> int t" using pos by (simp add: mult_le_cancel_left1)
  moreover have "int (t * (fbAdds s div t)) \<le> int (fbAdds s)" by (simp flip: of_nat_mult)
  ultimately have ge: "t \<le> fbr_counter (fbx s)" using C by linarith
  have u: "cnt ((fbpc s)(cf := FbLock)) FbSub = cnt (fbpc s) FbSub - 1"
      "cnt ((fbpc s)(cf := FbLock)) FbLock = cnt (fbpc s) FbLock + 1" "cnt ((fbpc s)(cf := FbLock)) FbAdd = cnt (fbpc s) FbAdd"
    using st [of FbSub] st [of FbLock] st [of FbAdd] by (simp_all del: fun_upd_apply)
  have 1: "fb_count t (fbr_counter (fbx s) - t) ((fbpc s)(cf := FbLock)) (fbAdds s)"
    using D(7) C ge finite_upd_stage [OF D(8)] by (simp add: fb_count_def u of_nat_diff algebra_simps del: fun_upd_apply)
  have 2: "fb_groups t (fbr_lock (fbx s)) ((fbpc s)(cf := FbLock)) (fbAdds s) (fbTrips s)"
    using D(3) by (simp add: fb_groups_def u del: fun_upd_apply)
  have 3: "fb_queued (fbr_queue (fbx s)) ((fbpc s)(cf := FbLock)) (fbAdds s) (fbPops s)"
    using D(4) by (simp add: fb_queued_def u del: fun_upd_apply)
  show ?thesis
    using 1 2 3 fb_loop_frame [OF D(5), of cf FbLock] fb_members_frame [OF D(6), of FbLock cf] pc D(1)
    by (simp add: fbr_inv_def fbr_sub_def)
qed

lemma fbr_lock_inv:
  assumes inv: "fbr_inv t s" and pc: "fbpc s cf = FbLock" and r: "fbr_acquire cf (fbx s) = Some b"
  shows "fbr_inv t (fb_set s b cf (FbLoop 0 True))"
proof -
  note D = fbr_invD [OF inv]
  note st = fb_stage [OF D(8), of _ cf "FbLoop 0 True", unfolded pc]
  have b: "b = (fbx s)\<lparr>fbr_lock := Some cf\<rparr>" and l: "fbr_lock (fbx s) = None"
    using r by (auto simp: fbr_acquire_def split: if_splits)
  have L: "fbpc s f \<noteq> FbLoop i k" for f i k
    using D(5) l by (auto simp: fb_loop_def)
  have 1: "fb_count t (fbr_counter (fbx s)) ((fbpc s)(cf := FbLoop 0 True)) (fbAdds s)"
    using D(2) finite_upd_stage [OF D(8)] st [of FbSub] by (simp add: fb_count_def del: fun_upd_apply)
  have 2: "fb_groups t (Some cf) ((fbpc s)(cf := FbLoop 0 True)) (fbAdds s) (fbTrips s)"
    using D(3) st [of FbSub] st [of FbLock] by (simp add: fb_groups_def l del: fun_upd_apply)
  have 3: "fb_queued (fbr_queue (fbx s)) ((fbpc s)(cf := FbLoop 0 True)) (fbAdds s) (fbPops s)"
    using D(4) st [of FbAdd] by (simp add: fb_queued_def del: fun_upd_apply)
  have 4: "fb_loop t (Some cf) ((fbpc s)(cf := FbLoop 0 True)) (fbPops s) (fbTrips s) (fbTrues s + card (fb_marked (fbF s) (fbWoken s)))"
    using D(5,7) L by (auto simp: fb_loop_def l)
  show ?thesis
    using 1 2 3 4 fb_members_frame [OF D(6), of "FbLoop 0 True" cf] pc D(1) by (simp add: fbr_inv_def b)
qed

text \<open>What one round of the loop does to the marks.\<close>

lemma fb_marked_visit:
  assumes "fb_members (f # q) F pc W" and "fbr_visit t cf i park f F = (park', r, F')" and "0 < cf"
    and "W' = (case r of None \<Rightarrow> W | Some g \<Rightarrow> insert g W)"
  shows "card (fb_marked F' W') = card (fb_marked F W) + of_bool (f \<noteq> cf \<and> i = t - 1 \<and> park)"
    and "park' = (park \<and> f \<noteq> cf)" and "W' = (if f = cf then W else insert f W)"
    and "\<And>g. g \<noteq> f \<Longrightarrow> F' g = F g"
proof -
  have f: "f \<notin> W" "resumeInfo (F f) = 0" and fin: "finite W"
    using assms(1) by (auto simp: fb_members_def)
  show W': "W' = (if f = cf then W else insert f W)" and "park' = (park \<and> f \<noteq> cf)"
    and other: "\<And>g. g \<noteq> f \<Longrightarrow> F' g = F g"
    using assms(2,4) by (auto simp: fbr_visit_def split: if_splits)
  have rf: "resumeInfo (F' f) = (if f \<noteq> cf \<and> i = t - 1 \<and> park then cf else 0)"
    using assms(2) f(2) by (auto simp: fbr_visit_def raceResume_def split: if_splits)
  have "fb_marked F' W' = (if f \<noteq> cf \<and> i = t - 1 \<and> park then insert f (fb_marked F W) else fb_marked F W)"
  proof (rule set_eqI)
    fix g
    show "g \<in> fb_marked F' W' \<longleftrightarrow>
        g \<in> (if f \<noteq> cf \<and> i = t - 1 \<and> park then insert f (fb_marked F W) else fb_marked F W)"
      using f assms(3) rf other [of g] by (cases "g = f") (simp_all add: fb_marked_def W')
  qed
  moreover have "f \<notin> fb_marked F W" and "finite (fb_marked F W)"
    using f fin by (simp_all add: fb_marked_def)
  ultimately show "card (fb_marked F' W') = card (fb_marked F W) + of_bool (f \<noteq> cf \<and> i = t - 1 \<and> park)"
    by simp
qed

lemma fbr_pop_inv:
  assumes inv: "fbr_inv t s" and pc: "fbpc s cf = FbLoop i park" and i: "i < fbr_target (fbx s)"
    and r: "fbr_pop (fbx s) = Some (f, b)" "fbr_visit (fbr_target b) cf i park f (fbF s) = (park', w, F)"
  shows "fbr_inv t ((fb_set s b cf (FbLoop (Suc i) park'))\<lparr>fbF := F, fbPops := Suc (fbPops s),
       fbWoken := (case w of None \<Rightarrow> fbWoken s | Some g \<Rightarrow> insert g (fbWoken s))\<rparr>)"
proof -
  note D = fbr_invD [OF inv]
  define x where "x = FbLoop (Suc i) park'"
  define W where "W = (case w of None \<Rightarrow> fbWoken s | Some g \<Rightarrow> insert g (fbWoken s))"
  note st = fb_stage [OF D(8), of _ cf x, unfolded pc]
  obtain q where q: "fbr_queue (fbx s) = f # q" and b: "b = (fbx s)\<lparr>fbr_queue := q\<rparr>"
    using r(1) by (auto simp: fbr_pop_def split: list.splits)
  have mem: "fb_members (f # q) (fbF s) (fbpc s) (fbWoken s)" using D(6) q by simp
  have cf0: "0 < cf" using mem pc by (auto simp: fb_members_def)
  have rv: "fbr_visit t cf i park f (fbF s) = (park', w, F)" using r(2) D(1) by (simp add: b)
  note M = fb_marked_visit [OF mem rv cf0 W_def]
  have u: "cnt ((fbpc s)(cf := x)) c = cnt (fbpc s) c" if "c \<in> {FbSub, FbLock, FbAdd}" for c
    using st [of c] that by (auto simp: x_def simp del: fun_upd_apply)
  have L: "fbr_lock (fbx s) = Some cf" "i \<le> t" "fbPops s = t * fbTrips s + i"
      "fbTrues s + card (fb_marked (fbF s) (fbWoken s)) = fbTrips s + of_bool (i = t \<and> park)"
    using D(5) pc unfolding fb_loop_def by blast+
  have one: "fbpc s g = FbLoop j k \<Longrightarrow> g = cf" for g j k
    using D(5) L(1) unfolding fb_loop_def by fastforce
  have 1: "fb_count t (fbr_counter b) ((fbpc s)(cf := x)) (fbAdds s)"
    using D(2) finite_upd_stage [OF D(8)] by (simp add: fb_count_def b u del: fun_upd_apply)
  have 2: "fb_groups t (fbr_lock b) ((fbpc s)(cf := x)) (fbAdds s) (fbTrips s)"
    using D(3) by (simp add: fb_groups_def b u del: fun_upd_apply)
  have 3: "fb_queued (fbr_queue b) ((fbpc s)(cf := x)) (fbAdds s) (Suc (fbPops s))"
    using D(4) by (simp add: fb_queued_def b q u del: fun_upd_apply)
  have it: "i < t" using i D(1) by simp
  have "fbTrues s + card (fb_marked F W) = fbTrips s + of_bool (Suc i = t \<and> park')"
    using L(4) M(1,2) it by auto
  then have 4: "fb_loop t (fbr_lock b) ((fbpc s)(cf := x)) (Suc (fbPops s)) (fbTrips s) (fbTrues s + card (fb_marked F W))"
    unfolding fb_loop_def using L it one by (auto simp: b x_def)
  have Fq: "F g = fbF s g" if "g \<in> set q" for g
    using M(4) [of g] mem that by (auto simp: fb_members_def)
  have in': "fb_inside (((fbpc s)(cf := x)) g) = (if g = cf then park \<and> f \<noteq> cf else fb_inside (fbpc s g))" for g
    by (simp add: x_def M(2))
  have mb: "g = f \<or> g \<in> set q \<or> g \<in> fbWoken s \<longleftrightarrow> fb_inside (fbpc s g)" for g
    using mem unfolding fb_members_def by auto
  have "g \<in> set q \<union> W \<longleftrightarrow> fb_inside (((fbpc s)(cf := x)) g)" for g
    using mb [of g] mb [of cf] mem unfolding in' M(3) by (auto simp: pc fb_members_def)
  moreover have "distinct q" "set q \<inter> W = {}" "finite W"
    using mem unfolding M(3) by (auto simp: fb_members_def)
  moreover have "\<forall>g\<in>set q. resumeInfo (F g) = 0"
    using mem Fq by (simp add: fb_members_def)
  moreover have "fb_inside (((fbpc s)(cf := x)) g) \<or> ((fbpc s)(cf := x)) g \<noteq> FbOut \<longrightarrow> 0 < g" for g
    using mem cf0 by (simp add: fb_members_def)
  ultimately have 5: "fb_members q F ((fbpc s)(cf := x)) W"
    unfolding fb_members_def by blast
  show ?thesis
    unfolding W_def [symmetric] x_def [symmetric] using 1 2 3 4 5 D(1) by (simp add: fbr_inv_def b)
qed

lemma fbr_unlock_inv:
  assumes inv: "fbr_inv t s" and pc: "fbpc s cf = FbLoop i park" and i: "i = fbr_target (fbx s)"
  shows "fbr_inv t ((fb_set s ((fbx s)\<lparr>fbr_lock := None\<rparr>) cf (if park then FbSusp else FbOut))
       \<lparr>fbTrips := Suc (fbTrips s), fbTrues := fbTrues s + of_bool (\<not> park)\<rparr>)"
proof -
  note D = fbr_invD [OF inv]
  define x where "x = (if park then FbSusp else FbOut)"
  note st = fb_stage [OF D(8), of _ cf x, unfolded pc]
  have u: "cnt ((fbpc s)(cf := x)) c = cnt (fbpc s) c" if "c \<in> {FbSub, FbLock, FbAdd}" for c
    using st [of c] that by (auto simp: x_def simp del: fun_upd_apply)
  have L: "fbr_lock (fbx s) = Some cf" "fbPops s = t * fbTrips s + i"
      "fbTrues s + card (fb_marked (fbF s) (fbWoken s)) = fbTrips s + of_bool (i = t \<and> park)"
    using D(5) pc unfolding fb_loop_def by blast+
  have it: "i = t" using i D(1) by simp
  have one: "fbpc s g = FbLoop j k \<Longrightarrow> g = cf" for g j k
    using D(5) L(1) unfolding fb_loop_def by fastforce
  have 1: "fb_count t (fbr_counter (fbx s)) ((fbpc s)(cf := x)) (fbAdds s)"
    using D(2) finite_upd_stage [OF D(8)] by (simp add: fb_count_def u del: fun_upd_apply)
  have 2: "fb_groups t None ((fbpc s)(cf := x)) (fbAdds s) (Suc (fbTrips s))"
    using D(3) L(1) by (simp add: fb_groups_def u del: fun_upd_apply)
  have 3: "fb_queued (fbr_queue (fbx s)) ((fbpc s)(cf := x)) (fbAdds s) (fbPops s)"
    using D(4) by (simp add: fb_queued_def u del: fun_upd_apply)
  have nl: "((fbpc s)(cf := x)) g \<noteq> FbLoop j k" for g j k
    using one [of g j k] by (auto simp: x_def)
  have 4: "fb_loop t None ((fbpc s)(cf := x)) (fbPops s) (Suc (fbTrips s))
      (fbTrues s + of_bool (\<not> park) + card (fb_marked (fbF s) (fbWoken s)))"
    unfolding fb_loop_def using L it nl by (auto simp del: fun_upd_apply)
  have "fb_inside x = fb_inside (fbpc s cf)" by (simp add: x_def pc)
  then have 5: "fb_members (fbr_queue (fbx s)) (fbF s) ((fbpc s)(cf := x)) (fbWoken s)"
    using fb_members_frame [OF D(6), of x cf] pc by simp
  show ?thesis
    unfolding x_def [symmetric] using 1 2 3 4 5 D(1) by (simp add: fbr_inv_def)
qed

lemma fbr_leave_inv:
  assumes inv: "fbr_inv t s" and pc: "fbpc s cf = FbSusp" and w: "cf \<in> fbWoken s"
  shows "fbr_inv t ((fb_set s (fbx s) cf FbOut)
       \<lparr>fbTrues := fbTrues s + of_bool (fbr_result cf (fbF s)), fbWoken := fbWoken s - {cf}\<rparr>)"
proof -
  note D = fbr_invD [OF inv]
  note st = fb_stage [OF D(8), of _ cf FbOut, unfolded pc]
  have u: "cnt ((fbpc s)(cf := FbOut)) c = cnt (fbpc s) c" if "c \<in> {FbSub, FbLock, FbAdd}" for c
    using st [of c] that by (auto simp del: fun_upd_apply)
  have fin: "finite (fb_marked (fbF s) (fbWoken s))"
    using D(6) by (simp add: fb_members_def fb_marked_def)
  have "fb_marked (fbF s) (fbWoken s - {cf}) = fb_marked (fbF s) (fbWoken s) - {cf}"
    and "fbr_result cf (fbF s) \<longleftrightarrow> cf \<in> fb_marked (fbF s) (fbWoken s)"
    using w by (auto simp: fb_marked_def fbr_result_def)
  then have m: "of_bool (fbr_result cf (fbF s)) + card (fb_marked (fbF s) (fbWoken s - {cf})) = card (fb_marked (fbF s) (fbWoken s))"
    using fin card_Suc_Diff1 [OF fin, of cf] by auto
  have 1: "fb_count t (fbr_counter (fbx s)) ((fbpc s)(cf := FbOut)) (fbAdds s)"
    using D(2) finite_upd_stage [OF D(8)] by (simp add: fb_count_def u del: fun_upd_apply)
  have 2: "fb_groups t (fbr_lock (fbx s)) ((fbpc s)(cf := FbOut)) (fbAdds s) (fbTrips s)"
    using D(3) by (simp add: fb_groups_def u del: fun_upd_apply)
  have 3: "fb_queued (fbr_queue (fbx s)) ((fbpc s)(cf := FbOut)) (fbAdds s) (fbPops s)"
    using D(4) by (simp add: fb_queued_def u del: fun_upd_apply)
  have 4: "fb_loop t (fbr_lock (fbx s)) ((fbpc s)(cf := FbOut)) (fbPops s) (fbTrips s)
      (fbTrues s + of_bool (fbr_result cf (fbF s)) + card (fb_marked (fbF s) (fbWoken s - {cf})))"
    using fb_loop_frame [OF D(5), of cf FbOut] pc m by (simp add: add.assoc)
  have mb: "g \<in> set (fbr_queue (fbx s)) \<or> g \<in> fbWoken s \<longleftrightarrow> fb_inside (fbpc s g)" for g
    using D(6) unfolding fb_members_def by auto
  have "g \<in> set (fbr_queue (fbx s)) \<union> (fbWoken s - {cf}) \<longleftrightarrow> fb_inside (((fbpc s)(cf := FbOut)) g)" for g
    using mb [of g] D(6) w unfolding fb_members_def by auto
  then have 5: "fb_members (fbr_queue (fbx s)) (fbF s) ((fbpc s)(cf := FbOut)) (fbWoken s - {cf})"
    using D(6) unfolding fb_members_def by auto
  show ?thesis
    using 1 2 3 4 5 D(1) by (simp add: fbr_inv_def)
qed

lemma fbr_reach_inv: "fbr_reach t F0 s \<Longrightarrow> fbr_inv t s"
proof (induction rule: fbr_reach.induct)
  case (start b)
  then show ?case
    by (auto simp: new_fbarrier_def fbr_inv_def fb_count_def fb_groups_def fb_queued_def fb_loop_def fb_members_def
        fb_marked_def cnt_def split: if_splits)
next
  case (step s s')
  from step.hyps(2) show ?case
  proof (cases rule: fbr_step.cases)
    case (push cf b F)
    then show ?thesis using fbr_push_inv [OF step.IH push(2-4)] by simp
  next
    case (count cf park b)
    then show ?thesis using fbr_count_inv [OF step.IH count(2-3)] by simp
  next
    case (sub cf)
    then show ?thesis using fbr_sub_inv [OF step.IH sub(2)] by simp
  next
    case (lock cf b)
    then show ?thesis using fbr_lock_inv [OF step.IH lock(2-3)] by simp
  next
    case (pop cf i park f b park' r F)
    then show ?thesis using fbr_pop_inv [OF step.IH pop(2-5)] by simp
  next
    case (unlock cf i park)
    then show ?thesis using fbr_unlock_inv [OF step.IH unlock(2-3)] by simp
  next
    case (leave cf res)
    then show ?thesis using fbr_leave_inv [OF step.IH leave(2-3)] by simp
  qed
qed

text \<open>C9: \<^verbatim>\<open>FastBarrier\<close>, after any interleaving: never more freds are released than belong to complete groups,
  and never more calls return true than there are complete groups; a notifier in its loop never waits for an
  empty queue; only the holder of the lock is in the loop. When all calls have returned, the arrivals were
  complete groups and exactly one call of each group has returned true.\<close>

theorem fast_barrier_correct:
  assumes "fbr_reach t F0 s"
  shows "fbPops s \<le> t * (fbAdds s div t) \<and> fbTrues s \<le> fbAdds s div t
    \<and> (\<forall>f i park. fbpc s f = FbLoop i park \<longrightarrow> fbr_lock (fbx s) = Some f \<and> (i < t \<longrightarrow> fbr_queue (fbx s) \<noteq> []))
    \<and> ((\<forall>f. fbpc s f = FbOut) \<longrightarrow> fbr_queue (fbx s) = [] \<and> fbPops s = fbAdds s
        \<and> fbAdds s = t * fbTrues s \<and> fbTrues s = fbAdds s div t)"
proof -
  note D = fbr_invD [OF fbr_reach_inv [OF assms]]
  have G: "int (fbAdds s div t) = int (fbTrips s) + cnt (fbpc s) FbSub + cnt (fbpc s) FbLock + of_bool (fbr_lock (fbx s) \<noteq> None)"
    using D(3) by (simp add: fb_groups_def)
  have "int (fbTrips s + of_bool (fbr_lock (fbx s) \<noteq> None)) \<le> int (fbAdds s div t)"
    using G cnt_nonneg [of "fbpc s" FbSub] cnt_nonneg [of "fbpc s" FbLock] unfolding of_nat_add of_nat_of_bool by linarith
  then have gd: "fbTrips s + of_bool (fbr_lock (fbx s) \<noteq> None) \<le> fbAdds s div t"
    by (simp only: of_nat_le_iff)
  have Q: "int (length (fbr_queue (fbx s))) + int (fbPops s) = int (fbAdds s) + cnt (fbpc s) FbAdd"
    using D(4) by (simp add: fb_queued_def)
  have loop: "fbr_lock (fbx s) = Some f \<and> i \<le> t \<and> fbPops s = t * fbTrips s + i \<and> fbTrues s \<le> fbTrips s + of_bool (i = t)"
    if "fbpc s f = FbLoop i park" for f i park
    using D(5) that by (cases park) (fastforce simp: fb_loop_def)+
  have free: "fbPops s = t * fbTrips s \<and> fbTrues s \<le> fbTrips s" if "fbr_lock (fbx s) = None"
    using D(5) that by (simp add: fb_loop_def)
  have "fbPops s \<le> t * (fbTrips s + of_bool (fbr_lock (fbx s) \<noteq> None)) \<and> fbTrues s \<le> fbTrips s + of_bool (fbr_lock (fbx s) \<noteq> None)"
  proof (cases "fbr_lock (fbx s)")
    case (Some f)
    then obtain i park where "fbpc s f = FbLoop i park" using D(5) by (auto simp: fb_loop_def)
    from loop [OF this] Some show ?thesis by (cases "i = t") simp_all
  qed (use free in simp)
  then have A: "fbPops s \<le> t * (fbAdds s div t)" "fbTrues s \<le> fbAdds s div t"
    using gd mult_le_mono2 [OF gd, of t] by linarith+
  have B: "fbr_queue (fbx s) \<noteq> []" if "fbpc s f = FbLoop i park" "i < t" for f i park
  proof
    assume "fbr_queue (fbx s) = []"
    then have "int (fbAdds s) \<le> int (fbPops s)" using Q cnt_nonneg [of "fbpc s" FbAdd] by simp
    moreover have "fbPops s < t * (fbTrips s + 1)" using loop [OF that(1)] that(2) by simp
    moreover have "t * (fbTrips s + 1) \<le> t * (fbAdds s div t)" using gd loop [OF that(1)] by (intro mult_le_mono2) simp
    ultimately show False using times_div_less_eq_dividend [of t "fbAdds s"] by linarith
  qed
  have C: "fbr_queue (fbx s) = [] \<and> fbPops s = fbAdds s \<and> fbAdds s = t * fbTrues s \<and> fbTrues s = fbAdds s div t"
    if out: "\<forall>f. fbpc s f = FbOut"
  proof -
    have c: "cnt (fbpc s) FbSub = 0" "cnt (fbpc s) FbLock = 0" "cnt (fbpc s) FbAdd = 0" using out by (simp_all add: cnt_def)
    have l: "fbr_lock (fbx s) = None" using D(5) out by (cases "fbr_lock (fbx s)") (auto simp: fb_loop_def)
    have q: "fbr_queue (fbx s) = []" "fbWoken s = {}" using D(6) out by (auto simp: fb_members_def set_eq_iff simp flip: set_empty)
    then have "fbPops s = fbAdds s" "fbTrues s = fbTrips s"
      using Q c D(5) l by (simp_all add: fb_loop_def fb_marked_def)
    moreover have "fbTrips s = fbAdds s div t" using G c l by simp
    ultimately show ?thesis using q free [OF l] by simp
  qed
  show ?thesis using A B C loop by blast
qed

text \<open>A barrier for one fred: its call goes through all steps.\<close>

definition fbr_example :: "nat \<Rightarrow> nat \<Rightarrow> nat \<Rightarrow> fbr_pc \<Rightarrow> fid option \<Rightarrow> fid list \<Rightarrow> nat \<Rightarrow> fbr_sys" where
  "fbr_example c a p pc1 l q tr =
     \<lparr>fbx = \<lparr>fbr_target = 1, fbr_counter = c, fbr_queue = q, fbr_lock = l\<rparr>, fbF = (\<lambda>f. new_fred False 0 0),
      fbpc = (\<lambda>_. FbOut)(1 := pc1), fbAdds = a, fbPops = p, fbTrips = tr, fbTrues = tr, fbWoken = {}\<rparr>"

lemma fbr_example_reach: "fbr_reach 1 (\<lambda>f. new_fred False 0 0) (fbr_example 0 1 1 FbOut None [] 1)"
proof -
  note go = fbr_reach.step [where t = 1 and ?F0.0 = "\<lambda>f. new_fred False 0 0"]
  have r0: "fbr_reach 1 (\<lambda>f. new_fred False 0 0) (fbr_example 0 0 0 FbOut None [] 0)"
    using fbr_reach.start [of 1 "fbx (fbr_example 0 0 0 FbOut None [] 0)" "\<lambda>f. new_fred False 0 0"]
    by (simp add: new_fbarrier_def fbr_example_def fun_upd_idem)
  have "fbr_step (fbr_example 0 0 0 FbOut None [] 0) (fbr_example 0 0 0 FbAdd None [1] 0)"
    using fbr_step.push [of "fbr_example 0 0 0 FbOut None [] 0" 1 "fbx (fbr_example 0 0 0 FbAdd None [1] 0)" "\<lambda>f. new_fred False 0 0"]
    by (simp add: fbr_example_def fbr_push_def prepareResumeRace_def new_fred_def fun_upd_idem)
  from go [OF r0 this] have r1: "fbr_reach 1 (\<lambda>f. new_fred False 0 0) (fbr_example 0 0 0 FbAdd None [1] 0)" .
  have "fbr_step (fbr_example 0 0 0 FbAdd None [1] 0) (fbr_example 1 1 0 FbSub None [1] 0)"
    using fbr_step.count [of "fbr_example 0 0 0 FbAdd None [1] 0" 1 False "fbx (fbr_example 1 1 0 FbSub None [1] 0)"]
    by (simp add: fbr_example_def fbr_add_def Let_def)
  from go [OF r1 this] have r2: "fbr_reach 1 (\<lambda>f. new_fred False 0 0) (fbr_example 1 1 0 FbSub None [1] 0)" .
  have "fbr_step (fbr_example 1 1 0 FbSub None [1] 0) (fbr_example 0 1 0 FbLock None [1] 0)"
    using fbr_step.sub [of "fbr_example 1 1 0 FbSub None [1] 0" 1] by (simp add: fbr_example_def fbr_sub_def)
  from go [OF r2 this] have r3: "fbr_reach 1 (\<lambda>f. new_fred False 0 0) (fbr_example 0 1 0 FbLock None [1] 0)" .
  have "fbr_step (fbr_example 0 1 0 FbLock None [1] 0) (fbr_example 0 1 0 (FbLoop 0 True) (Some 1) [1] 0)"
    using fbr_step.lock [of "fbr_example 0 1 0 FbLock None [1] 0" 1 "fbx (fbr_example 0 1 0 FbLock (Some 1) [1] 0)"]
    by (simp add: fbr_example_def fbr_acquire_def)
  from go [OF r3 this] have r4: "fbr_reach 1 (\<lambda>f. new_fred False 0 0) (fbr_example 0 1 0 (FbLoop 0 True) (Some 1) [1] 0)" .
  have "fbr_step (fbr_example 0 1 0 (FbLoop 0 True) (Some 1) [1] 0) (fbr_example 0 1 1 (FbLoop 1 False) (Some 1) [] 0)"
    using fbr_step.pop [of "fbr_example 0 1 0 (FbLoop 0 True) (Some 1) [1] 0" 1 0 True 1
        "fbx (fbr_example 0 1 0 FbOut (Some 1) [] 0)" False None "\<lambda>f. new_fred False 0 0"]
    by (simp add: fbr_example_def fbr_pop_def fbr_visit_def)
  from go [OF r4 this] have r5: "fbr_reach 1 (\<lambda>f. new_fred False 0 0) (fbr_example 0 1 1 (FbLoop 1 False) (Some 1) [] 0)" .
  have "fbr_step (fbr_example 0 1 1 (FbLoop 1 False) (Some 1) [] 0) (fbr_example 0 1 1 FbOut None [] 1)"
    using fbr_step.unlock [of "fbr_example 0 1 1 (FbLoop 1 False) (Some 1) [] 0" 1 1 False] by (simp add: fbr_example_def)
  from go [OF r5 this] show ?thesis .
qed

theorem fast_barrier_correct_witness:
  "fbTrues (fbr_example 0 1 1 FbOut None [] 1) = fbAdds (fbr_example 0 1 1 FbOut None [] 1) div 1"
  using fast_barrier_correct [OF fbr_example_reach] by (simp add: fbr_example_def)

end
