(* ===== verification/Bitmap_Model.thy ===== *)
theory Bitmap_Model
  imports Platform
begin

text \<open>
  \<^verbatim>\<open>src/src/runtime/Bitmap.h\<close>: the bit operations, \<^verbatim>\<open>Bitmap<B>\<close> as an array of words, its specialization
  for one machine word, and \<^verbatim>\<open>HierarchicalBitmap\<close> as a list of levels of bitmaps. What a bitmap promises is
  the locale \<open>bitset\<close>: a set of positions with a search for the first member or gap; both bitmaps interpret it.
\<close>

section \<open>Bit operations on a word\<close>

definition bit_set :: "mword \<Rightarrow> nat \<Rightarrow> mword" where "bit_set a idx = a OR push_bit idx 1"
definition bit_clr :: "mword \<Rightarrow> nat \<Rightarrow> mword" where "bit_clr a idx = a AND NOT (push_bit idx 1)"
definition bit_flp :: "mword \<Rightarrow> nat \<Rightarrow> mword" where "bit_flp a idx = a XOR push_bit idx 1"
definition bit_tst :: "mword \<Rightarrow> nat \<Rightarrow> bool" where "bit_tst a idx \<longleftrightarrow> a AND push_bit idx 1 \<noteq> 0"

lemma mword_bit_bound: "bit (w :: mword) j \<Longrightarrow> j < 64"
  using bit_imp_le_length [of w j] by simp

lemma bit_two_power: "bit (2 ^ i :: mword) j \<longleftrightarrow> i = j \<and> j < 64"
  by (auto simp: bit_exp_iff)

lemma bit_tst_iff: "bit_tst a i \<longleftrightarrow> bit a i"
proof -
  have "a AND 2 ^ i \<noteq> 0 \<longleftrightarrow> (\<exists>j. bit a j \<and> i = j \<and> j < 64)"
    by (auto simp: bit_eq_iff bit_and_iff bit_two_power)
  with bit_imp_le_length [of a i] show ?thesis by (auto simp: bit_tst_def)
qed

lemma bit_ops:
  assumes "i < 64"
  shows "bit (bit_set a i) j \<longleftrightarrow> j = i \<or> bit a j" and "bit (bit_clr a i) j \<longleftrightarrow> j \<noteq> i \<and> bit a j"
    and "bit (bit_flp a i) j \<longleftrightarrow> (if j = i then \<not> bit a j else bit a j)"
  using assms bit_imp_le_length [of a j]
  by (auto simp: bit_set_def bit_clr_def bit_flp_def bit_or_iff bit_and_iff bit_not_iff bit_xor_iff bit_two_power)

section \<open>Bitmap<B>\<close>

type_synonym bitmap = "mword list"     \<comment> \<open>\<open>bits[N]\<close>\<close>

definition bm_init :: "nat \<Rightarrow> mword \<Rightarrow> bitmap" where
  "bm_init N b = (replicate N 0)[0 := b]"       \<comment> \<open>\<open>bits{b}\<close> initializes the first word, the others are 0\<close>

definition bm_filled :: "nat \<Rightarrow> bitmap" where "bm_filled N = bm_init N (NOT 0)"
definition bm_valid :: "nat \<Rightarrow> nat \<Rightarrow> bool" where "bm_valid N idx \<longleftrightarrow> idx < N * 64"
definition bm_setB :: "bitmap \<Rightarrow> bitmap" where "bm_setB b = map (\<lambda>_. NOT 0) b"
definition bm_clrB :: "bitmap \<Rightarrow> bitmap" where "bm_clrB b = map (\<lambda>_. 0) b"
definition bm_flpB :: "bitmap \<Rightarrow> bitmap" where "bm_flpB b = map (\<lambda>w. NOT w) b"

definition bm_set :: "bitmap \<Rightarrow> nat \<Rightarrow> bitmap" where
  "bm_set b idx = b[idx div 64 := bit_set (b ! (idx div 64)) (idx mod 64)]"
definition bm_clr :: "bitmap \<Rightarrow> nat \<Rightarrow> bitmap" where
  "bm_clr b idx = b[idx div 64 := bit_clr (b ! (idx div 64)) (idx mod 64)]"
definition bm_flp :: "bitmap \<Rightarrow> nat \<Rightarrow> bitmap" where
  "bm_flp b idx = b[idx div 64 := bit_flp (b ! (idx div 64)) (idx mod 64)]"
definition bm_test :: "bitmap \<Rightarrow> nat \<Rightarrow> bool" where
  "bm_test b idx = bit_tst (b ! (idx div 64)) (idx mod 64)"

fun BitmapEmptyHelper :: "nat \<Rightarrow> bitmap \<Rightarrow> mword" where
  "BitmapEmptyHelper 0 b = b ! 0"
| "BitmapEmptyHelper (Suc x) b = b ! Suc x OR BitmapEmptyHelper x b"

fun BitmapFullHelper :: "nat \<Rightarrow> bitmap \<Rightarrow> mword" where
  "BitmapFullHelper 0 b = b ! 0"
| "BitmapFullHelper (Suc x) b = b ! Suc x AND BitmapFullHelper x b"

fun BitmapCountHelper :: "nat \<Rightarrow> bitmap \<Rightarrow> nat" where
  "BitmapCountHelper 0 b = popcount (b ! 0)"
| "BitmapCountHelper (Suc x) b = popcount (b ! Suc x) + BitmapCountHelper x b"

definition bm_empty :: "bitmap \<Rightarrow> bool" where "bm_empty b \<longleftrightarrow> BitmapEmptyHelper (length b - 1) b = 0"
definition bm_full :: "bitmap \<Rightarrow> bool" where "bm_full b \<longleftrightarrow> BitmapFullHelper (length b - 1) b = NOT 0"
definition bm_count :: "bitmap \<Rightarrow> nat" where "bm_count b = BitmapCountHelper (length b - 1) b"
definition bm_find :: "bitmap \<Rightarrow> bool \<Rightarrow> nat" where "bm_find b findset = unat (multiscan b findset)"
definition bm_findnext :: "bitmap \<Rightarrow> nat \<Rightarrow> bool \<Rightarrow> nat" where "bm_findnext b idx findset = multiscan_next b idx findset"

section \<open>Bitmap for one machine word\<close>

definition bw_valid :: "nat \<Rightarrow> bool" where "bw_valid idx \<longleftrightarrow> idx < 64"
definition bw_filled :: mword where "bw_filled = NOT 0"
definition bw_setB :: "mword \<Rightarrow> mword" where "bw_setB w = NOT 0"
definition bw_clrB :: "mword \<Rightarrow> mword" where "bw_clrB w = 0"
definition bw_flpB :: "mword \<Rightarrow> mword" where "bw_flpB w = NOT w"
definition bw_set :: "mword \<Rightarrow> nat \<Rightarrow> mword" where "bw_set w idx = bit_set w idx"
definition bw_clr :: "mword \<Rightarrow> nat \<Rightarrow> mword" where "bw_clr w idx = bit_clr w idx"
definition bw_flp :: "mword \<Rightarrow> nat \<Rightarrow> mword" where "bw_flp w idx = bit_flp w idx"
definition bw_test :: "mword \<Rightarrow> nat \<Rightarrow> bool" where "bw_test w idx \<longleftrightarrow> w AND push_bit idx 1 \<noteq> 0"
definition bw_empty :: "mword \<Rightarrow> bool" where "bw_empty w \<longleftrightarrow> w = 0"
definition bw_full :: "mword \<Rightarrow> bool" where "bw_full w \<longleftrightarrow> w = NOT 0"
definition bw_count :: "mword \<Rightarrow> nat" where "bw_count w = popcount w"
definition bw_find :: "mword \<Rightarrow> bool \<Rightarrow> nat" where
  "bw_find w findset = nat (lsb (if findset then w else NOT w) 64)"
definition bw_findnext :: "mword \<Rightarrow> nat \<Rightarrow> bool \<Rightarrow> nat" where
  "bw_findnext w idx findset = nat (lsb ((if findset then w else NOT w) AND NOT (bitmask idx)) 64)"

section \<open>The contract of a bitmap\<close>

text \<open>\<open>k\<close> is the first position from \<open>i\<close> on that satisfies \<open>P\<close>, or \<open>n\<close> if there is none below \<open>n\<close>.\<close>

definition first_from :: "(nat \<Rightarrow> bool) \<Rightarrow> nat \<Rightarrow> nat \<Rightarrow> nat \<Rightarrow> bool" where
  "first_from P i n k \<longleftrightarrow> i \<le> k \<and> k \<le> n \<and> (\<forall>j. i \<le> j \<and> j < k \<longrightarrow> \<not> P j) \<and> (k < n \<longrightarrow> P k)"

lemma first_from_unique: "first_from P i n k \<Longrightarrow> first_from P i n l \<Longrightarrow> k = l"
  unfolding first_from_def by (metis linorder_neqE_nat order.strict_trans2)

locale bitset =
  fixes cap :: nat
    and inv :: "'b \<Rightarrow> bool"
    and members :: "'b \<Rightarrow> nat set"
    and add :: "'b \<Rightarrow> nat \<Rightarrow> 'b"
    and del :: "'b \<Rightarrow> nat \<Rightarrow> 'b"
    and tst :: "'b \<Rightarrow> nat \<Rightarrow> bool"
    and none :: "'b \<Rightarrow> bool"
    and find :: "'b \<Rightarrow> bool \<Rightarrow> nat"
    and findn :: "'b \<Rightarrow> nat \<Rightarrow> bool \<Rightarrow> nat"
  assumes members_bound: "inv b \<Longrightarrow> members b \<subseteq> {..<cap}"
    and inv_add: "inv b \<Longrightarrow> i < cap \<Longrightarrow> inv (add b i)"
    and inv_del: "inv b \<Longrightarrow> i < cap \<Longrightarrow> inv (del b i)"
    and members_add: "inv b \<Longrightarrow> i < cap \<Longrightarrow> members (add b i) = insert i (members b)"
    and members_del: "inv b \<Longrightarrow> i < cap \<Longrightarrow> members (del b i) = members b - {i}"
    and tst_iff: "inv b \<Longrightarrow> i < cap \<Longrightarrow> tst b i \<longleftrightarrow> i \<in> members b"
    and none_iff: "inv b \<Longrightarrow> none b \<longleftrightarrow> members b = {}"
    and find_first: "inv b \<Longrightarrow> first_from (\<lambda>j. (j \<in> members b) = fs) 0 cap (find b fs)"
    and findn_first: "inv b \<Longrightarrow> i < cap \<Longrightarrow> first_from (\<lambda>j. (j \<in> members b) = fs) i cap (findn b i fs)"
begin

lemma find_member: "inv b \<Longrightarrow> find b True < cap \<Longrightarrow> find b True \<in> members b"
  using find_first [of b True] by (simp add: first_from_def)

lemma find_none: "inv b \<Longrightarrow> find b True = cap \<longleftrightarrow> members b = {}"
  using find_first [of b True] members_bound [of b] by (fastforce simp: first_from_def)

lemma find_least: "inv b \<Longrightarrow> j \<in> members b \<Longrightarrow> find b True \<le> j"
  using find_first [of b True] by (auto simp: first_from_def not_less [symmetric])

lemma find_free:
  assumes "inv b" and "find b False < cap"
  shows "find b False \<notin> members b" and "members (add b (find b False)) = insert (find b False) (members b)"
    and "j < find b False \<Longrightarrow> j \<in> members b"
  using assms find_first [of b False] by (auto simp: first_from_def members_add)

lemma find_free_iff: "inv b \<Longrightarrow> find b False < cap \<longleftrightarrow> members b \<noteq> {..<cap}"
  using find_first [of b False] members_bound [of b] by (fastforce simp: first_from_def)

lemma findn_self: "inv b \<Longrightarrow> i < cap \<Longrightarrow> i \<in> members b \<Longrightarrow> findn b i True = i"
  by (rule first_from_unique [OF findn_first [of b i True]]) (auto simp: first_from_def)

end

section \<open>Both bitmaps fulfil the contract\<close>

lemma lsb_first: "first_from (bit x) 0 64 (nat (lsb (x :: mword) 64))"
  using ctz_nonzero [of x] by (cases "x = 0") (auto simp: first_from_def lsb_def)

lemma first_from_cong:
  "first_from P i n k \<Longrightarrow> (\<And>j. i \<le> j \<Longrightarrow> j < n \<Longrightarrow> P j = Q j) \<Longrightarrow> first_from Q i n k"
  by (auto simp: first_from_def)

lemma first_from_shift:
  "first_from (\<lambda>j. P j \<and> i \<le> j) 0 n k \<Longrightarrow> i \<le> n \<Longrightarrow> first_from P i n k"
  unfolding first_from_def by (metis le0 le_neq_implies_less order_refl)

definition bw_members :: "mword \<Rightarrow> nat set" where "bw_members w = {i. bit w i}"

interpretation bw: bitset 64 "\<lambda>_. True" bw_members bw_set bw_clr bw_test bw_empty bw_find bw_findnext
proof
  fix w :: mword and i :: nat and fs :: bool
  show "bw_members w \<subseteq> {..<64}" using bit_imp_le_length [of w] by (auto simp: bw_members_def)
  have x: "bit (if fs then w else NOT w) j \<longleftrightarrow> (j \<in> bw_members w) = fs" if "j < 64" for j
    using that by (auto simp: bw_members_def bit_not_iff)
  show "first_from (\<lambda>j. (j \<in> bw_members w) = fs) 0 64 (bw_find w fs)"
    unfolding bw_find_def by (rule first_from_cong [OF lsb_first]) (rule x)
  assume i: "i < 64"
  have "first_from (\<lambda>j. ((j \<in> bw_members w) = fs) \<and> i \<le> j) 0 64 (bw_findnext w i fs)"
    unfolding bw_findnext_def
    by (rule first_from_cong [OF lsb_first]) (use x i in \<open>auto simp: bit_and_iff bit_not_iff bitmask_eq_mask bit_mask_iff\<close>)
  then show "first_from (\<lambda>j. (j \<in> bw_members w) = fs) i 64 (bw_findnext w i fs)" by (rule first_from_shift) (use i in simp)
  show "bw_members (bw_set w i) = insert i (bw_members w)" "bw_members (bw_clr w i) = bw_members w - {i}"
    using i by (auto simp: bw_members_def bw_set_def bw_clr_def bit_ops)
  show "bw_test w i \<longleftrightarrow> i \<in> bw_members w" using bit_tst_iff [of w i] by (simp add: bw_test_def bw_members_def bit_tst_def)
next
  show "bw_empty w \<longleftrightarrow> bw_members w = {}" for w by (auto simp: bw_empty_def bw_members_def bit_eq_iff dest: mword_bit_bound)
qed simp_all

definition bm_members :: "bitmap \<Rightarrow> nat set" where "bm_members b = {k. k < 64 * length b \<and> bit_at b k}"
definition bm_inv :: "nat \<Rightarrow> bitmap \<Rightarrow> bool" where "bm_inv N b \<longleftrightarrow> length b = N \<and> 0 < N \<and> 64 * N < 2 ^ 64"

lemma bit_at_scan: "k < 64 * length b \<Longrightarrow> bit_at (map (scanword fs) b) k \<longleftrightarrow> (k \<in> bm_members b) = fs"
  by (auto simp: bm_members_def scanword_def bit_not_iff)

lemma bit_at_upd:
  assumes "i < 64 * length b"
  shows "bit_at (b[i div 64 := w]) k \<longleftrightarrow> (if k div 64 = i div 64 then bit w (k mod 64) else bit_at b k)"
  using assms by (auto simp: nth_list_update)

lemma div_mod_64_eq: "k div 64 = i div 64 \<Longrightarrow> (k mod 64 = i mod 64) = (k = (i::nat))"
  by (metis div_mult_mod_eq)

lemma BitmapEmptyHelper_zero: "BitmapEmptyHelper x b = 0 \<longleftrightarrow> (\<forall>i\<le>x. b ! i = 0)"
  by (induction x) (auto simp: or_eq_0_iff le_Suc_eq)

lemma bm_empty_iff:
  assumes "0 < length b"
  shows "bm_empty b \<longleftrightarrow> bm_members b = {}"
proof -
  have "bm_members b = {} \<longleftrightarrow> (\<forall>i < length b. \<forall>j < 64. \<not> bit (b ! i) j)"
  proof
    assume e: "bm_members b = {}"
    show "\<forall>i < length b. \<forall>j < 64. \<not> bit (b ! i) j"
    proof (intro allI impI notI)
      fix i j assume "i < length b" "j < 64" "bit (b ! i) j"
      then have "64 * i + j \<in> bm_members b" by (simp add: bm_members_def)
      with e show False by blast
    qed
  qed (auto simp: bm_members_def)
  also have "\<dots> \<longleftrightarrow> (\<forall>i < length b. b ! i = 0)" by (auto simp: bit_eq_iff)
  also have "\<dots> \<longleftrightarrow> bm_empty b"
    using assms by (auto simp: bm_empty_def BitmapEmptyHelper_zero less_Suc_eq_le [symmetric])
  finally show ?thesis by simp
qed

interpretation bm: bitset "64 * N" "bm_inv N" bm_members bm_set bm_clr bm_test bm_empty bm_find bm_findnext
proof
  fix b :: bitmap and i :: nat and fs :: bool
  assume b: "bm_inv N b"
  then have len: "length b = N" "0 < N" "64 * N < 2 ^ 64" by (simp_all add: bm_inv_def)
  show "bm_members b \<subseteq> {..<64 * N}" using len by (auto simp: bm_members_def)
  show "bm_empty b \<longleftrightarrow> bm_members b = {}" using bm_empty_iff [of b] len by simp
  have "bm_find b fs = first_set (map (scanword fs) b)"
    using first_set_le [of "map (scanword fs) b"] len
    unfolding bm_find_def multiscan_def multiscan_fold by (simp add: unat_of_nat)
  then have "first_from (bit_at (map (scanword fs) b)) 0 (64 * N) (bm_find b fs)"
    using first_set_le [of "map (scanword fs) b"] first_set_hit [of "map (scanword fs) b"]
      first_set_below [of _ "map (scanword fs) b"] len by (auto simp: first_from_def)
  then show "first_from (\<lambda>j. (j \<in> bm_members b) = fs) 0 (64 * N) (bm_find b fs)"
    by (rule first_from_cong) (rule bit_at_scan, simp add: len)
  assume i: "i < 64 * N"
  have "first_from (bit_at (map (scanword fs) b)) i (64 * N) (bm_findnext b i fs)"
    using multiscan_next_first [of i b fs] len i unfolding first_from_def bm_findnext_def by blast
  then show "first_from (\<lambda>j. (j \<in> bm_members b) = fs) i (64 * N) (bm_findnext b i fs)"
    by (rule first_from_cong) (rule bit_at_scan, simp add: len)
  show "bm_inv N (bm_set b i)" "bm_inv N (bm_clr b i)" using b by (simp_all add: bm_inv_def bm_set_def bm_clr_def)
  show "bm_test b i \<longleftrightarrow> i \<in> bm_members b" using i len by (simp add: bm_test_def bm_members_def bit_tst_iff)
  have "k \<in> bm_members (bm_set b i) \<longleftrightarrow> k = i \<or> k \<in> bm_members b" for k
    using i len by (auto simp: bm_members_def bm_set_def bit_at_upd bit_ops div_mod_64_eq)
  then show "bm_members (bm_set b i) = insert i (bm_members b)" by blast
  have "k \<in> bm_members (bm_clr b i) \<longleftrightarrow> k \<noteq> i \<and> k \<in> bm_members b" for k
    using i len by (auto simp: bm_members_def bm_clr_def bit_at_upd bit_ops div_mod_64_eq)
  then show "bm_members (bm_clr b i) = bm_members b - {i}" by blast
qed

section \<open>Whole-bitmap operations\<close>

lemma bm_members_map:
  assumes "\<And>w j. j < 64 \<Longrightarrow> bit (f w) j \<longleftrightarrow> P (bit w j)"
  shows "bm_members (map f b) = {k. k < 64 * length b \<and> P (k \<in> bm_members b)}"
  using assms by (auto simp: bm_members_def)

lemma BitmapFullHelper_ones: "BitmapFullHelper x b = NOT 0 \<longleftrightarrow> (\<forall>i\<le>x. b ! i = NOT 0)"
  by (induction x) (auto simp: le_Suc_eq and_eq_minus_1_iff)

lemma bm_full_iff:
  assumes "0 < length b"
  shows "bm_full b \<longleftrightarrow> bm_members b = {..<64 * length b}"
proof -
  have "bm_full b \<longleftrightarrow> bm_empty (bm_flpB b)"
  proof -
    have "w = NOT 0 \<longleftrightarrow> NOT w = 0" for w :: mword by (auto simp: bit_eq_iff bit_not_iff)
    then have "bm_full b \<longleftrightarrow> (\<forall>i \<le> length b - 1. NOT (b ! i) = 0)"
      unfolding bm_full_def BitmapFullHelper_ones by presburger
    then have "bm_full b \<longleftrightarrow> (\<forall>i < length b. NOT (b ! i) = 0)" using assms by (auto simp: less_Suc_eq_le [symmetric])
    also have "\<dots> \<longleftrightarrow> bm_empty (bm_flpB b)"
      using assms by (auto simp: bm_empty_def bm_flpB_def BitmapEmptyHelper_zero less_Suc_eq_le [symmetric])
    finally show ?thesis .
  qed
  also have "\<dots> \<longleftrightarrow> bm_members (bm_flpB b) = {}" using assms by (intro bm_empty_iff) (simp add: bm_flpB_def)
  also have "\<dots> \<longleftrightarrow> bm_members b = {..<64 * length b}"
    unfolding bm_flpB_def bm_members_map [of "\<lambda>w. NOT w" Not, simplified bit_not_iff, simplified] by (auto simp: bm_members_def)
  finally show ?thesis .
qed

lemma popcount_card: "popcount (w :: mword) = card {j. bit w j}"
proof -
  have "{j. bit w j} = set (filter (bit w) [0..<64])" by (auto dest: mword_bit_bound)
  then have "card {j. bit w j} = length (filter (bit w) [0..<64])" by (metis distinct_card distinct_filter distinct_upt)
  then show ?thesis by (simp add: popcount_def)
qed

lemma bm_count_take:
  "x < length b \<Longrightarrow> BitmapCountHelper x b = card {k \<in> bm_members b. k < 64 * Suc x}"
proof (induction x)
  case 0
  have "64 \<le> 64 * length b" using 0 by (cases b) auto
  then have "k \<in> bm_members b \<and> k < 64 \<longleftrightarrow> bit (b ! 0) k" for k
    using mword_bit_bound [of "b ! 0" k] by (cases "k < 64") (auto simp: bm_members_def)
  then have "{k \<in> bm_members b. k < 64} = {j. bit (b ! 0) j}" by blast
  then show ?case by (simp add: popcount_card)
next
  case (Suc x)
  let ?A = "{k \<in> bm_members b. k < 64 * Suc x}"
  let ?B = "(\<lambda>j. 64 * Suc x + j) ` {j. bit (b ! Suc x) j}"
  have "{k \<in> bm_members b. k < 64 * Suc (Suc x)} = ?A \<union> ?B"
  proof (intro equalityI subsetI)
    fix k assume k: "k \<in> {k \<in> bm_members b. k < 64 * Suc (Suc x)}"
    show "k \<in> ?A \<union> ?B"
    proof (cases "k < 64 * Suc x")
      case False
      then have "k div 64 = Suc x" using k by auto
      then have "bit (b ! Suc x) (k mod 64)" "k = 64 * Suc x + k mod 64"
        using k mult_div_mod_eq [of 64 k] by (auto simp: bm_members_def)
      then show ?thesis by blast
    qed (use k in auto)
  next
    fix k assume "k \<in> ?A \<union> ?B"
    moreover have "64 * Suc x + j \<in> bm_members b" "j < 64" if "bit (b ! Suc x) j" for j
    proof -
      have "(64 * Suc x + j) div 64 = Suc x" "(64 * Suc x + j) mod 64 = j"
        using mword_bit_bound [OF that] by (simp_all del: mult_Suc_right)
      with that Suc.prems mword_bit_bound [OF that] show "64 * Suc x + j \<in> bm_members b" "j < 64"
        by (auto simp: bm_members_def)
    qed
    ultimately show "k \<in> {k \<in> bm_members b. k < 64 * Suc (Suc x)}" by auto
  qed
  moreover have "?A \<inter> ?B = {}" by auto
  moreover have "finite ?A" by (rule finite_subset [of _ "{..<64 * Suc x}"]) auto
  moreover have "finite {j. bit (b ! Suc x) j}"
    by (rule finite_subset [of _ "{..<64}"]) (auto dest: mword_bit_bound)
  ultimately have "card {k \<in> bm_members b. k < 64 * Suc (Suc x)} = card ?A + card {j. bit (b ! Suc x) j}"
    by (simp add: card_Un_disjoint card_image)
  with Suc show ?case by (simp add: popcount_card)
qed

lemma bm_count_card: "0 < length b \<Longrightarrow> bm_count b = card (bm_members b)"
proof -
  assume b: "0 < length b"
  then have "{k \<in> bm_members b. k < 64 * Suc (length b - 1)} = bm_members b" by (auto simp: bm_members_def)
  with b bm_count_take [of "length b - 1" b] show ?thesis by (simp add: bm_count_def)
qed

text \<open>\<^verbatim>\<open>Bitmap<B>\<close> represents a set of positions: \<^verbatim>\<open>set\<close>, \<^verbatim>\<open>clr\<close> and \<^verbatim>\<open>flp\<close> change exactly the given
  position, \<^verbatim>\<open>setB\<close>, \<^verbatim>\<open>clrB\<close> and \<^verbatim>\<open>flpB\<close> fill, empty and complement, \<^verbatim>\<open>test\<close>, \<^verbatim>\<open>empty\<close>, \<^verbatim>\<open>full\<close> and
  \<^verbatim>\<open>count\<close> report membership, emptiness, fullness and cardinality, \<^verbatim>\<open>findnext\<close> returns the first member or gap
  from a position on. The constructor with an argument initializes only the first word, so that \<^verbatim>\<open>filled()\<close> of
  a bitmap of more than one word is not full.\<close>

theorem bitmap_is_set:
  assumes "bm_inv N b" and "i < 64 * N"
  shows "bm_members (bm_set b i) = insert i (bm_members b) \<and> bm_members (bm_clr b i) = bm_members b - {i}
    \<and> bm_members (bm_flp b i) = (if i \<in> bm_members b then bm_members b - {i} else insert i (bm_members b))
    \<and> bm_members (bm_setB b) = {..<64 * N} \<and> bm_members (bm_clrB b) = {} \<and> bm_members (bm_flpB b) = {..<64 * N} - bm_members b
    \<and> (bm_test b i \<longleftrightarrow> i \<in> bm_members b) \<and> (bm_empty b \<longleftrightarrow> bm_members b = {}) \<and> (bm_full b \<longleftrightarrow> bm_members b = {..<64 * N})
    \<and> bm_count b = card (bm_members b) \<and> first_from (\<lambda>j. (j \<in> bm_members b) = fs) i (64 * N) (bm_findnext b i fs)
    \<and> first_from (\<lambda>j. (j \<in> bm_members b) = fs) 0 (64 * N) (bm_find b fs)
    \<and> (1 < N \<longrightarrow> \<not> bm_full (bm_filled N))"
proof -
  have len: "length b = N" "0 < length b" using assms(1) by (auto simp: bm_inv_def)
  have flp: "bm_members (bm_flp b i) = (if i \<in> bm_members b then bm_members b - {i} else insert i (bm_members b))"
  proof (rule set_eqI)
    fix k
    show "k \<in> bm_members (bm_flp b i) \<longleftrightarrow> k \<in> (if i \<in> bm_members b then bm_members b - {i} else insert i (bm_members b))"
      using assms(2) len by (auto simp: bm_members_def bm_flp_def bit_at_upd bit_ops div_mod_64_eq)
  qed
  have whole: "bm_members (bm_setB b) = {..<64 * N}" "bm_members (bm_clrB b) = {}" "bm_members (bm_flpB b) = {..<64 * N} - bm_members b"
    using len by (auto simp: bm_members_def bm_setB_def bm_clrB_def bm_flpB_def bit_not_iff)
  have filled: "\<not> bm_full (bm_filled N)" if "1 < N"
  proof -
    have "64 \<notin> bm_members (bm_filled N)" using that by (simp add: bm_members_def bm_filled_def bm_init_def)
    moreover have "64 \<in> {..<64 * length (bm_filled N)}" using that by (simp add: bm_filled_def bm_init_def)
    moreover have "0 < length (bm_filled N)" using that by (simp add: bm_filled_def bm_init_def)
    ultimately show ?thesis using bm_full_iff [of "bm_filled N"] by blast
  qed
  show ?thesis
    by (intro conjI impI bm.members_add [OF assms] bm.members_del [OF assms] flp whole bm.tst_iff [OF assms]
        bm.none_iff [OF assms(1)] bm_full_iff [OF len(2), unfolded len(1)] bm_count_card [OF len(2)]
        bm.findn_first [OF assms] bm.find_first [OF assms(1)] filled)
qed

theorem bitmap_is_set_witness:
  "bm_members (bm_set [0, 1] 65) = insert 65 (bm_members [0, 1]) \<and> \<not> bm_full (bm_filled 2)"
  using bitmap_is_set [of 2 "[0, 1]" 65] by (simp add: bm_inv_def)

end
