(* ===== verification/Hier_Bitmap.thy ===== *)
theory Hier_Bitmap
  imports Bitmap_Model
begin

text \<open>
  \<^verbatim>\<open>HierarchicalBitmap\<close> of \<^verbatim>\<open>src/src/runtime/Bitmap.h\<close>: levels of bitmaps in which a position of a level says
  whether the bitmap with that number one level below has members. \<open>N\<close> is the number of words of an elementary
  bitmap, so that \<^verbatim>\<open>B = 64 * N\<close>. The levels are a list, bottom first; loops over the levels are recursion on
  that list, and running past the top is the failing assertion. The result of a search is \<open>None\<close> where the
  source returns \<^verbatim>\<open>limit<size_t>()\<close>.
\<close>

section \<open>Operations\<close>

type_synonym hbitmap = "bitmap list list"

definition hb_divup :: "nat \<Rightarrow> nat \<Rightarrow> nat" where "hb_divup n d = (n + d - 1) div d"

fun hb_init_levels :: "nat \<Rightarrow> nat \<Rightarrow> nat \<Rightarrow> hbitmap option" where
  "hb_init_levels N 0 bitcount = (if bitcount = 1 then Some [] else None)"
| "hb_init_levels N (Suc l) bitcount =
     (let bc = hb_divup bitcount (64 * N)
      in map_option (\<lambda>ls. replicate bc (bm_init N 0) # ls) (hb_init_levels N l bc))"

record hier =
  hb_maps :: hbitmap
  maxBucketCount :: nat

definition hb_init :: "nat \<Rightarrow> nat \<Rightarrow> nat \<Rightarrow> hier option" where
  "hb_init N Levels bitcount =
     map_option (\<lambda>ls. \<lparr>hb_maps = ls, maxBucketCount = hb_divup bitcount (64 * N)\<rparr>) (hb_init_levels N Levels bitcount)"

fun hb_memsize :: "nat \<Rightarrow> nat \<Rightarrow> nat \<Rightarrow> nat \<Rightarrow> nat option" where
  "hb_memsize N 0 bitcount mapcount = (if bitcount = 1 then Some (8 * N * mapcount) else None)"
| "hb_memsize N (Suc l) bitcount mapcount =
     (let bc = hb_divup bitcount (64 * N) in hb_memsize N l bc (mapcount + bc))"

text \<open>\<^verbatim>\<open>set\<close> and \<^verbatim>\<open>clr\<close> on the levels from \<^verbatim>\<open>botlevel\<close> on.\<close>

fun hb_set :: "nat \<Rightarrow> nat \<Rightarrow> hbitmap \<Rightarrow> hbitmap option" where
  "hb_set N idx [] = (if idx = 0 then Some [] else None)"
| "hb_set N idx (lv # lvs) =
     (let r = idx mod (64 * N); i = idx div (64 * N)
      in if bm_test (lv ! i) r then Some (lv # lvs)
         else map_option (\<lambda>ls. lv[i := bm_set (lv ! i) r] # ls) (hb_set N i lvs))"

fun hb_clr :: "nat \<Rightarrow> nat \<Rightarrow> hbitmap \<Rightarrow> hbitmap option" where
  "hb_clr N idx [] = (if idx = 0 then Some [] else None)"
| "hb_clr N idx (lv # lvs) =
     (let r = idx mod (64 * N); i = idx div (64 * N); b = bm_clr (lv ! i) r
      in if \<not> bm_empty b then Some (lv[i := b] # lvs)
         else map_option (\<lambda>ls. lv[i := b] # ls) (hb_clr N i lvs))"

definition hb_blockset :: "nat \<Rightarrow> nat \<Rightarrow> hbitmap \<Rightarrow> hbitmap option" where
  "hb_blockset N idx h = (let i = idx div (64 * N); lv = hd h
     in map_option (\<lambda>ls. lv[i := bm_setB (lv ! i)] # ls) (hb_set N i (tl h)))"

definition hb_blockclr :: "nat \<Rightarrow> nat \<Rightarrow> hbitmap \<Rightarrow> hbitmap option" where
  "hb_blockclr N idx h = (let i = idx div (64 * N); lv = hd h
     in map_option (\<lambda>ls. lv[i := bm_clrB (lv ! i)] # ls) (hb_clr N i (tl h)))"

definition hb_test :: "nat \<Rightarrow> nat \<Rightarrow> hbitmap \<Rightarrow> bool" where
  "hb_test N idx h = bm_test (hd h ! (idx div (64 * N))) (idx mod (64 * N))"

definition hb_empty :: "hbitmap \<Rightarrow> bool" where "hb_empty h = bm_empty (last h ! 0)"
definition hb_blockempty :: "nat \<Rightarrow> nat \<Rightarrow> hbitmap \<Rightarrow> bool" where "hb_blockempty N idx h = bm_empty (hd h ! (idx div (64 * N)))"
definition hb_blockfull :: "nat \<Rightarrow> nat \<Rightarrow> hbitmap \<Rightarrow> bool" where "hb_blockfull N idx h = bm_full (hd h ! (idx div (64 * N)))"

text \<open>\<^verbatim>\<open>find\<close>: from the top level down.\<close>

fun hb_find_down :: "nat \<Rightarrow> nat \<Rightarrow> hbitmap \<Rightarrow> nat option" where
  "hb_find_down N idx [] = Some idx"
| "hb_find_down N idx (lv # lvs) =
     (let ldx = bm_find (lv ! idx) True in if ldx = 64 * N then None else hb_find_down N (idx * (64 * N) + ldx) lvs)"

definition hb_find :: "nat \<Rightarrow> hbitmap \<Rightarrow> nat option" where
  "hb_find N h = hb_find_down N 0 (rev h)"

text \<open>\<^verbatim>\<open>findnext\<close>: the loop goes up while the rest of the current bitmap is empty and down where it is not;
  the outer option is the fuel.\<close>

fun hb_next_loop :: "nat \<Rightarrow> nat \<Rightarrow> hbitmap \<Rightarrow> nat \<Rightarrow> nat \<Rightarrow> nat \<Rightarrow> nat \<Rightarrow> nat option option" where
  "hb_next_loop N 0 h l bidx ridx mbc = None"
| "hb_next_loop N (Suc fuel) h l bidx ridx mbc =
     (let B = 64 * N; lidx = bm_findnext (h ! l ! bidx) ridx True
      in if lidx = B
         then if bidx + 1 \<ge> mbc then Some None
              else hb_next_loop N fuel h (l + 1) ((bidx + 1) div B) ((bidx + 1) mod B) (mbc div B)
         else let bidx' = bidx * B + lidx
              in if l = 0 then Some (Some bidx') else hb_next_loop N fuel h (l - 1) bidx' 0 (mbc * B))"

definition hb_findnext :: "nat \<Rightarrow> nat \<Rightarrow> hier \<Rightarrow> nat option option" where
  "hb_findnext N idx h =
     hb_next_loop N (2 * length (hb_maps h)) (hb_maps h) 0 (idx div (64 * N)) (idx mod (64 * N)) (maxBucketCount h)"

text \<open>\<^verbatim>\<open>findrange\<close>: the three scans for the end of a run of members. Each advances, so \<open>fuel\<close> bounds them by the
  number of positions.\<close>

fun hb_scan :: "(nat \<Rightarrow> bool) \<Rightarrow> nat \<Rightarrow> nat \<Rightarrow> nat \<Rightarrow> nat" where
  "hb_scan continue step 0 e = e"
| "hb_scan continue step (Suc fuel) e = (if continue e then hb_scan continue step fuel (e + step) else e)"

definition hb_findrange :: "nat \<Rightarrow> nat \<Rightarrow> nat \<Rightarrow> hier \<Rightarrow> (nat \<times> nat option) option" where
  "hb_findrange N start mx h =
     (case hb_findnext N start h of
        None \<Rightarrow> None
      | Some None \<Rightarrow> Some (0, None)
      | Some (Some s) \<Rightarrow>
          let B = 64 * N; m = maxBucketCount h; f = B * m;
              e1 = hb_scan (\<lambda>e. e mod B \<noteq> 0 \<and> hb_test N e (hb_maps h)) 1 f (s + 1);
              e2 = hb_scan (\<lambda>e. e div B < m \<and> hb_blockfull N e (hb_maps h)) B f e1;
              e3 = hb_scan (\<lambda>e. e div B < m \<and> hb_test N e (hb_maps h)) 1 f e2
          in Some ((if e3 > mx then mx else e3) - s, Some s))"

section \<open>The set a hierarchical bitmap represents\<close>

definition level_members :: "nat \<Rightarrow> bitmap list \<Rightarrow> nat set" where
  "level_members N lv = {k. k div (64 * N) < length lv \<and> k mod (64 * N) \<in> bm_members (lv ! (k div (64 * N)))}"

definition level_ok :: "nat \<Rightarrow> bitmap list \<Rightarrow> bool" where
  "level_ok N lv \<longleftrightarrow> lv \<noteq> [] \<and> (\<forall>b\<in>set lv. bm_inv N b)"

fun hb_inv :: "nat \<Rightarrow> hbitmap \<Rightarrow> bool" where
  "hb_inv N [] = False"
| "hb_inv N [lv] = (level_ok N lv \<and> length lv = 1)"
| "hb_inv N (lv # lv2 # lvs) =
     (level_ok N lv \<and> length lv \<le> 64 * N * length lv2
      \<and> level_members N lv2 = {j. j < length lv \<and> bm_members (lv ! j) \<noteq> {}} \<and> hb_inv N (lv2 # lvs))"

lemma level_nth: "level_ok N lv \<Longrightarrow> j < length lv \<Longrightarrow> bm_inv N (lv ! j)"
  by (simp add: level_ok_def)

lemma level_N: "level_ok N lv \<Longrightarrow> 0 < N"
  using level_nth [of N lv 0] by (auto simp: level_ok_def bm_inv_def)

lemma level_upd:
  assumes "level_ok N lv" and "i < length lv" and "bm_inv N b"
  shows "level_ok N (lv[i := b])"
  using assms by (auto simp: level_ok_def dest: set_update_subset_insert [THEN subsetD])

lemma level_members_upd:
  assumes ok: "level_ok N lv" and r: "r < 64 * N" and i: "i < length lv"
    and b: "bm_members b = insert r (bm_members (lv ! i)) \<and> X = insert (i * (64 * N) + r) (level_members N lv)
      \<or> bm_members b = bm_members (lv ! i) - {r} \<and> X = level_members N lv - {i * (64 * N) + r}"
  shows "level_members N (lv[i := b]) = X"
proof (rule set_eqI)
  fix k
  define B where "B = 64 * N"
  have eq: "k = i * B + r \<longleftrightarrow> k div B = i \<and> k mod B = r"
    using r div_mult_mod_eq [of k B] by (auto simp: B_def)
  show "k \<in> level_members N (lv[i := b]) \<longleftrightarrow> k \<in> X"
  proof (cases "k div B = i")
    case True
    then show ?thesis using b i eq by (auto simp: level_members_def simp flip: B_def)
  next
    case False
    then show ?thesis using b i eq by (auto simp: level_members_def nth_list_update simp flip: B_def)
  qed
qed

section \<open>set, clr and test\<close>

lemma hb_inv_level: "hb_inv N (lv # lvs) \<Longrightarrow> level_ok N lv"
  by (cases lvs) auto

lemma level_idx:
  assumes "level_ok N lv" and "idx < 64 * N * length lv"
  shows "idx div (64 * N) < length lv" and "idx mod (64 * N) < 64 * N" and "idx div (64 * N) * (64 * N) + idx mod (64 * N) = idx"
  using assms level_N [OF assms(1)] by (auto simp: less_mult_imp_div_less mult.commute)

lemma level_test:
  assumes "level_ok N lv" and "idx < 64 * N * length lv"
  shows "bm_test (lv ! (idx div (64 * N))) (idx mod (64 * N)) \<longleftrightarrow> idx \<in> level_members N lv"
  using bm.tst_iff [OF level_nth [OF assms(1) level_idx(1) [OF assms]] level_idx(2) [OF assms]] level_idx(1) [OF assms]
  by (simp add: level_members_def)

text \<open>Replacing one bitmap of the bottom level, together with the new state of the levels above it.\<close>

lemma hb_inv_replace:
  assumes inv: "hb_inv N (lv # lv2 # lvs)" and i: "i < length lv" and b: "bm_inv N b"
    and up: "hb_inv N (lv2' # lvs')" "length lv2' = length lv2"
      "level_members N lv2' = (if bm_members b = {} then level_members N lv2 - {i} else insert i (level_members N lv2))"
  shows "hb_inv N (lv[i := b] # lv2' # lvs')"
proof -
  have "level_members N lv2 = {j. j < length lv \<and> bm_members (lv ! j) \<noteq> {}}" using inv by simp
  then have "level_members N lv2' = {j. j < length (lv[i := b]) \<and> bm_members (lv[i := b] ! j) \<noteq> {}}"
    using i unfolding up(3) by (auto simp: nth_list_update)
  with inv up level_upd [OF _ i b] show ?thesis by auto
qed

lemma hb_set_correct:
  assumes "hb_inv N (lv # lvs)" and "idx < 64 * N * length lv"
  shows "\<exists>lv' lvs'. hb_set N idx (lv # lvs) = Some (lv' # lvs') \<and> hb_inv N (lv' # lvs') \<and> length lv' = length lv
     \<and> length lvs' = length lvs \<and> level_members N lv' = insert idx (level_members N lv)"
  using assms
proof (induction lvs arbitrary: lv idx)
  case Nil
  define r where "r = idx mod (64 * N)"
  define i where "i = idx div (64 * N)"
  have ok: "level_ok N lv" and one: "length lv = 1" using Nil by simp_all
  note id = level_idx [OF ok Nil.prems(2), folded r_def i_def]
  have i0: "i = 0" using id(1) one by simp
  show ?case
  proof (cases "bm_test (lv ! i) r")
    case True
    then show ?thesis using level_test [OF ok Nil.prems(2)] Nil by (auto simp: r_def i_def insert_absorb)
  next
    case False
    note bi = level_nth [OF ok id(1)]
    have "level_members N (lv[i := bm_set (lv ! i) r]) = insert idx (level_members N lv)"
      by (rule level_members_upd [OF ok id(2,1)]) (simp add: bm.members_add [OF bi id(2)] id(3))
    moreover have "level_ok N (lv[i := bm_set (lv ! i) r])" by (rule level_upd [OF ok id(1) bm.inv_add [OF bi id(2)]])
    moreover have "hb_set N idx [lv] = Some [lv[i := bm_set (lv ! i) r]]"
      using False i0 by (simp add: r_def i_def)
    ultimately show ?thesis using one by auto
  qed
next
  case (Cons lv2 lvs)
  define r where "r = idx mod (64 * N)"
  define i where "i = idx div (64 * N)"
  have ok: "level_ok N lv" using Cons.prems(1) by simp
  note id = level_idx [OF ok Cons.prems(2), folded r_def i_def]
  note bi = level_nth [OF ok id(1)]
  show ?case
  proof (cases "bm_test (lv ! i) r")
    case True
    then show ?thesis using level_test [OF ok Cons.prems(2)] Cons.prems(1) by (auto simp: r_def i_def insert_absorb)
  next
    case False
    have "i < 64 * N * length lv2" using id(1) Cons.prems(1) by simp
    then obtain lv2' lvs' where u: "hb_set N i (lv2 # lvs) = Some (lv2' # lvs')" "hb_inv N (lv2' # lvs')" "length lv2' = length lv2"
      "length lvs' = length lvs" "level_members N lv2' = insert i (level_members N lv2)"
      using Cons.IH [of lv2 i] Cons.prems(1) by auto
    have m: "bm_members (bm_set (lv ! i) r) = insert r (bm_members (lv ! i))" by (rule bm.members_add [OF bi id(2)])
    have "hb_inv N (lv[i := bm_set (lv ! i) r] # lv2' # lvs')"
      using u(2,3,5) m by (intro hb_inv_replace [OF Cons.prems(1) id(1) bm.inv_add [OF bi id(2)]]) auto
    moreover have "level_members N (lv[i := bm_set (lv ! i) r]) = insert idx (level_members N lv)"
      by (rule level_members_upd [OF ok id(2,1)]) (simp add: m id(3))
    moreover have "hb_set N idx (lv # lv2 # lvs) = Some (lv[i := bm_set (lv ! i) r] # lv2' # lvs')"
      unfolding hb_set.simps(2) [of N idx lv] Let_def using False u(1) by (simp flip: r_def i_def)
    ultimately show ?thesis using u(4) by auto
  qed
qed

lemma hb_clr_correct:
  assumes "hb_inv N (lv # lvs)" and "idx < 64 * N * length lv"
  shows "\<exists>lv' lvs'. hb_clr N idx (lv # lvs) = Some (lv' # lvs') \<and> hb_inv N (lv' # lvs') \<and> length lv' = length lv
     \<and> length lvs' = length lvs \<and> level_members N lv' = level_members N lv - {idx}"
  using assms
proof (induction lvs arbitrary: lv idx)
  case Nil
  define r where "r = idx mod (64 * N)"
  define i where "i = idx div (64 * N)"
  have ok: "level_ok N lv" and one: "length lv = 1" using Nil by simp_all
  note id = level_idx [OF ok Nil.prems(2), folded r_def i_def]
  have i0: "i = 0" using id(1) one by simp
  note bi = level_nth [OF ok id(1)]
  have "level_members N (lv[i := bm_clr (lv ! i) r]) = level_members N lv - {idx}"
    by (rule level_members_upd [OF ok id(2,1)]) (simp add: bm.members_del [OF bi id(2)] id(3))
  moreover have "level_ok N (lv[i := bm_clr (lv ! i) r])" by (rule level_upd [OF ok id(1) bm.inv_del [OF bi id(2)]])
  moreover have "hb_clr N idx [lv] = Some [lv[i := bm_clr (lv ! i) r]]"
    using i0 by (simp add: r_def i_def Let_def)
  ultimately show ?case using one by auto
next
  case (Cons lv2 lvs)
  define r where "r = idx mod (64 * N)"
  define i where "i = idx div (64 * N)"
  define b where "b = bm_clr (lv ! i) r"
  have ok: "level_ok N lv" using Cons.prems(1) by simp
  note id = level_idx [OF ok Cons.prems(2), folded r_def i_def]
  note bi = level_nth [OF ok id(1)]
  have m: "bm_members b = bm_members (lv ! i) - {r}" unfolding b_def by (rule bm.members_del [OF bi id(2)])
  have bI: "bm_inv N b" unfolding b_def by (rule bm.inv_del [OF bi id(2)])
  have lm: "level_members N (lv[i := b]) = level_members N lv - {idx}"
    by (rule level_members_upd [OF ok id(2,1)]) (simp add: m id(3))
  have e: "bm_empty b \<longleftrightarrow> bm_members b = {}" by (rule bm.none_iff [OF bI])
  show ?case
  proof (cases "bm_empty b")
    case False
    then have "i \<in> level_members N lv2" using Cons.prems(1) id(1) e m by auto
    then have "hb_inv N (lv[i := b] # lv2 # lvs)"
      using Cons.prems(1) e False by (intro hb_inv_replace [OF Cons.prems(1) id(1) bI]) auto
    moreover have "hb_clr N idx (lv # lv2 # lvs) = Some (lv[i := b] # lv2 # lvs)"
      unfolding hb_clr.simps(2) [of N idx lv] Let_def using False by (simp flip: r_def i_def b_def)
    ultimately show ?thesis using lm by auto
  next
    case True
    have "i < 64 * N * length lv2" using id(1) Cons.prems(1) by simp
    then obtain lv2' lvs' where u: "hb_clr N i (lv2 # lvs) = Some (lv2' # lvs')" "hb_inv N (lv2' # lvs')" "length lv2' = length lv2"
      "length lvs' = length lvs" "level_members N lv2' = level_members N lv2 - {i}"
      using Cons.IH [of lv2 i] Cons.prems(1) by auto
    have "hb_inv N (lv[i := b] # lv2' # lvs')"
      using u(2,3,5) True e by (intro hb_inv_replace [OF Cons.prems(1) id(1) bI]) auto
    moreover have "hb_clr N idx (lv # lv2 # lvs) = Some (lv[i := b] # lv2' # lvs')"
      unfolding hb_clr.simps(2) [of N idx lv] Let_def using True u(1) by (simp flip: r_def i_def b_def)
    ultimately show ?thesis using lm u(4) by auto
  qed
qed

section \<open>find\<close>

text \<open>Going down from a level whose members are exact finds the least member of the bottom level among those
  below the given position.\<close>

definition least_of :: "nat set \<Rightarrow> nat option" where
  "least_of A = (if A = {} then None else Some (LEAST k. k \<in> A))"

lemma least_ofI: "k \<in> A \<Longrightarrow> (\<And>j. j \<in> A \<Longrightarrow> k \<le> j) \<Longrightarrow> least_of A = Some k"
  unfolding least_of_def by (auto intro: Least_equality)

lemma level_members_div:
  assumes inv: "hb_inv N (lv # lv2 # lvs)"
  shows "k \<in> level_members N lv \<Longrightarrow> k div (64 * N) \<in> level_members N lv2"
    and "j \<in> level_members N lv2 \<Longrightarrow> j < length lv \<and> bm_members (lv ! j) \<noteq> {}"
  using inv by (auto simp: level_members_def [of N lv])

lemma level_first:
  assumes ok: "level_ok N lv" and j: "j < length lv" and ne: "bm_members (lv ! j) \<noteq> {}"
  shows "bm_find (lv ! j) True < 64 * N" and "j * (64 * N) + bm_find (lv ! j) True \<in> level_members N lv"
    and "\<And>k. k \<in> level_members N lv \<Longrightarrow> j \<le> k div (64 * N) \<Longrightarrow> j * (64 * N) + bm_find (lv ! j) True \<le> k"
proof -
  note bi = level_nth [OF ok j]
  show lt: "bm_find (lv ! j) True < 64 * N"
    using bm.find_none [OF bi] ne bm.find_first [OF bi, of True] by (auto simp: first_from_def le_less)
  then show "j * (64 * N) + bm_find (lv ! j) True \<in> level_members N lv"
    using j bm.find_member [OF bi lt] by (simp add: level_members_def)
  fix k assume k: "k \<in> level_members N lv" "j \<le> k div (64 * N)"
  have kd: "k div (64 * N) * (64 * N) + k mod (64 * N) = k" by (rule div_mult_mod_eq)
  show "j * (64 * N) + bm_find (lv ! j) True \<le> k"
  proof (cases "j = k div (64 * N)")
    case True
    then have "bm_find (lv ! j) True \<le> k mod (64 * N)" using k bm.find_least [OF bi] by (auto simp: level_members_def)
    moreover have "j * (64 * N) + k mod (64 * N) = k" using True kd by simp
    ultimately show ?thesis by linarith
  next
    case False
    then have "Suc j \<le> k div (64 * N)" using k(2) by simp
    then have "Suc j * (64 * N) \<le> k div (64 * N) * (64 * N)" by (rule mult_le_mono1)
    with lt kd show ?thesis by (simp add: algebra_simps)
  qed
qed

lemma hb_find_down_append:
  "hb_find_down N idx (xs @ ys) = (case hb_find_down N idx xs of None \<Rightarrow> None | Some j \<Rightarrow> hb_find_down N j ys)"
  by (induction N idx xs rule: hb_find_down.induct) (auto simp: Let_def)

lemma hb_find_correct:
  "hb_inv N (lv # lvs) \<Longrightarrow> hb_find N (lv # lvs) = least_of (level_members N lv)"
proof (induction lvs arbitrary: lv)
  case Nil
  then have ok: "level_ok N lv" and one: "length lv = 1" by simp_all
  then have l0: "0 < length lv" by simp
  have div0: "k div (64 * N) = 0" if "k \<in> level_members N lv" for k using that one by (simp add: level_members_def)
  show ?case
  proof (cases "bm_members (lv ! 0) = {}")
    case True
    have "k \<notin> level_members N lv" for k
      using div0 [of k] True by (cases "k div (64 * N) = 0") (auto simp: level_members_def)
    then have "level_members N lv = {}" by blast
    moreover have "bm_find (lv ! 0) True = 64 * N" using True bm.find_none [OF level_nth [OF ok l0]] by simp
    ultimately show ?thesis by (simp add: hb_find_def least_of_def)
  next
    case False
    note f = level_first [OF ok l0 False]
    have "least_of (level_members N lv) = Some (bm_find (lv ! 0) True)"
      using f(2,3) by (intro least_ofI) auto
    with f(1) show ?thesis by (simp add: hb_find_def Let_def)
  qed
next
  case (Cons lv2 lvs)
  have ok: "level_ok N lv" using Cons.prems by simp
  have IH: "hb_find_down N 0 (rev (lv2 # lvs)) = least_of (level_members N lv2)"
    using Cons.IH [of lv2] Cons.prems by (simp add: hb_find_def)
  have dec: "hb_find N (lv # lv2 # lvs) = (case least_of (level_members N lv2) of None \<Rightarrow> None | Some j \<Rightarrow> hb_find_down N j [lv])"
    unfolding hb_find_def rev.simps(2) [of lv] hb_find_down_append IH ..
  show ?case
  proof (cases "level_members N lv2 = {}")
    case True
    then have "level_members N lv = {}" using level_members_div(1) [OF Cons.prems] by blast
    with True dec show ?thesis by (simp add: least_of_def)
  next
    case False
    define j where "j = (LEAST k. k \<in> level_members N lv2)"
    have j: "j \<in> level_members N lv2" "\<And>k. k \<in> level_members N lv2 \<Longrightarrow> j \<le> k"
      using False by (auto simp: j_def intro: LeastI Least_le)
    have jn: "j < length lv" "bm_members (lv ! j) \<noteq> {}" using level_members_div(2) [OF Cons.prems j(1)] by blast+
    note f = level_first [OF ok jn]
    have "least_of (level_members N lv) = Some (j * (64 * N) + bm_find (lv ! j) True)"
      using f(2,3) j(2) level_members_div(1) [OF Cons.prems] by (intro least_ofI) blast+
    moreover have "least_of (level_members N lv2) = Some j" using False by (simp add: least_of_def j_def)
    ultimately show ?thesis using dec f(1) by (simp add: Let_def)
  qed
qed

section \<open>findnext\<close>

lemma hb_inv_nth_all:
  "hb_inv N h \<Longrightarrow> l < length h \<Longrightarrow> level_ok N (h ! l)
     \<and> (Suc l < length h \<longrightarrow> length (h ! l) \<le> 64 * N * length (h ! Suc l)
         \<and> level_members N (h ! Suc l) = {j. j < length (h ! l) \<and> bm_members (h ! l ! j) \<noteq> {}})
     \<and> (Suc l = length h \<longrightarrow> length (h ! l) = 1)"
proof (induction N h arbitrary: l rule: hb_inv.induct)
  case (3 N lv lv2 lvs)
  show ?case
  proof (cases l)
    case (Suc m)
    with 3 show ?thesis by auto
  qed (use 3 in auto)
qed auto

lemma hb_inv_nth:
  assumes "hb_inv N h" and "l < length h"
  shows "level_ok N (h ! l)"
    and "Suc l < length h \<Longrightarrow> length (h ! l) \<le> 64 * N * length (h ! Suc l)"
    and "Suc l < length h \<Longrightarrow> level_members N (h ! Suc l) = {j. j < length (h ! l) \<and> bm_members (h ! l ! j) \<noteq> {}}"
    and "Suc l = length h \<Longrightarrow> length (h ! l) = 1"
  using hb_inv_nth_all [OF assms] by blast+

lemma hb_up:
  assumes inv: "hb_inv N h" and "l < length h" and "x \<in> level_members N (h ! 0)"
  shows "x div (64 * N) ^ l \<in> level_members N (h ! l)"
  using assms(2)
proof (induction l)
  case 0
  then show ?case using assms(3) by simp
next
  case (Suc l)
  then have "x div (64 * N) ^ l \<in> level_members N (h ! l)" by simp
  with Suc.prems hb_inv_nth(3) [OF inv, of l] show ?case
    by (auto simp: level_members_def [of N "h ! l"] div_mult2_eq [symmetric] mult.commute)
qed

text \<open>The candidates: members of the bottom level from position \<open>p\<close> of level \<open>l\<close> on.\<close>

definition cands :: "nat \<Rightarrow> hbitmap \<Rightarrow> nat \<Rightarrow> nat \<Rightarrow> nat set" where
  "cands N h l p = {x \<in> level_members N (h ! 0). p \<le> x div (64 * N) ^ l}"

lemma cands_down: "0 < N \<Longrightarrow> cands N h (Suc l) q = cands N h l (q * (64 * N))"
  by (auto simp: cands_def div_mult2_eq mult.commute [of "64 * N"] less_eq_div_iff_mult_less_eq)

lemma cands_skip:
  assumes inv: "hb_inv N h" and "l < length h" and "p \<le> q" and "\<And>j. j \<in> level_members N (h ! l) \<Longrightarrow> p \<le> j \<Longrightarrow> q \<le> j"
  shows "cands N h l p = cands N h l q"
  using assms(3,4) hb_up [OF inv assms(2)] by (auto simp: cands_def)

text \<open>What the search in one bitmap says about its level.\<close>

lemma level_search:
  assumes ok: "level_ok N lv" and j: "bidx < length lv" and r: "ridx < 64 * N"
    and f: "lidx = bm_findnext (lv ! bidx) ridx True"
  shows "lidx \<le> 64 * N"
    and "lidx < 64 * N \<Longrightarrow> bidx * (64 * N) + lidx \<in> level_members N lv"
    and "ridx \<le> lidx"
    and "\<And>k. k \<in> level_members N lv \<Longrightarrow> bidx * (64 * N) + ridx \<le> k \<Longrightarrow> bidx * (64 * N) + lidx \<le> k"
proof -
  have ff: "first_from (\<lambda>k. (k \<in> bm_members (lv ! bidx)) = True) ridx (64 * N) lidx"
    unfolding f by (rule bm.findn_first [OF level_nth [OF ok j] r])
  then show "lidx \<le> 64 * N" "ridx \<le> lidx" by (simp_all add: first_from_def)
  show "bidx * (64 * N) + lidx \<in> level_members N lv" if "lidx < 64 * N"
    using ff that j by (simp add: first_from_def level_members_def)
  fix k assume k: "k \<in> level_members N lv" "bidx * (64 * N) + ridx \<le> k"
  show "bidx * (64 * N) + lidx \<le> k"
  proof (cases "k < bidx * (64 * N) + 64 * N")
    case True
    then obtain m where m: "k = bidx * (64 * N) + m" "m < 64 * N" "ridx \<le> m"
      using k(2) by (metis add_le_cancel_left add_less_cancel_left le_add1 le_trans le_iff_add)
    then have "m \<in> bm_members (lv ! bidx)" using k(1) by (simp add: level_members_def)
    then have "\<not> m < lidx" using ff m(3) by (auto simp: first_from_def)
    with m(1) show ?thesis by simp
  next
    case False
    with ff show ?thesis by (simp add: first_from_def)
  qed
qed

lemma hb_next_down:
  assumes inv: "hb_inv N h" and "l < length h" and "bidx < length (h ! l)" and "bm_members (h ! l ! bidx) \<noteq> {}" and "l < fuel"
  shows "hb_next_loop N fuel h l bidx 0 mbc = Some (least_of (cands N h l (bidx * (64 * N))))"
  using assms(2-)
proof (induction l arbitrary: bidx fuel mbc)
  case 0
  have ok: "level_ok N (h ! 0)" by (rule hb_inv_nth(1) [OF inv 0(1)])
  note N = level_N [OF ok]
  obtain f where f: "fuel = Suc f" using 0 by (cases fuel) auto
  note s = level_search [OF ok 0(2) _ refl, of 0]
  obtain m where "m \<in> bm_members (h ! 0 ! bidx)" "m < 64 * N"
    using 0(3) bm.members_bound [OF level_nth [OF ok 0(2)]] by blast
  then have "bidx * (64 * N) + m \<in> level_members N (h ! 0)" using 0(2) by (simp add: level_members_def)
  then have lt: "bm_findnext (h ! 0 ! bidx) 0 True < 64 * N" using s(4) \<open>m < 64 * N\<close> N by force
  have "least_of (cands N h 0 (bidx * (64 * N))) = Some (bidx * (64 * N) + bm_findnext (h ! 0 ! bidx) 0 True)"
    using s(2,4) lt N by (intro least_ofI) (auto simp: cands_def)
  with lt f show ?case by (simp add: Let_def)
next
  case (Suc l)
  have ok: "level_ok N (h ! Suc l)" by (rule hb_inv_nth(1) [OF inv Suc.prems(1)])
  note N = level_N [OF ok]
  obtain f where f: "fuel = Suc f" "l < f" using Suc.prems(4) by (cases fuel) auto
  define lidx where "lidx = bm_findnext (h ! Suc l ! bidx) 0 True"
  define q where "q = bidx * (64 * N) + lidx"
  note s = level_search [OF ok Suc.prems(2) _ lidx_def]
  obtain m where "m \<in> bm_members (h ! Suc l ! bidx)" "m < 64 * N"
    using Suc.prems(3) bm.members_bound [OF level_nth [OF ok Suc.prems(2)]] by blast
  then have "bidx * (64 * N) + m \<in> level_members N (h ! Suc l)" using Suc.prems(2) by (simp add: level_members_def)
  then have lt: "lidx < 64 * N" using s(4) \<open>m < 64 * N\<close> N by force
  have "q \<in> level_members N (h ! Suc l)" unfolding q_def using s(2) lt N by simp
  then have qn: "q < length (h ! l)" "bm_members (h ! l ! q) \<noteq> {}" using hb_inv_nth(3) [OF inv, of l] Suc.prems(1) by auto
  have "cands N h (Suc l) (bidx * (64 * N)) = cands N h (Suc l) q"
    using s(4) N by (intro cands_skip [OF inv Suc.prems(1)]) (auto simp: q_def)
  also have "\<dots> = cands N h l (q * (64 * N))" by (rule cands_down [OF N])
  finally have "Some (least_of (cands N h (Suc l) (bidx * (64 * N)))) = hb_next_loop N f h l q 0 (mbc * (64 * N))"
    using Suc.IH [of q f] Suc.prems(1) qn f(2) by simp
  then show ?case using lt by (simp add: f(1) Let_def q_def flip: lidx_def)
qed

lemma hb_next_up:
  assumes inv: "hb_inv N h" and exact: "\<And>l. l < length h \<Longrightarrow> length (h ! l) = mb div (64 * N) ^ l"
  shows "l < length h \<Longrightarrow> bidx < length (h ! l) \<Longrightarrow> ridx < 64 * N \<Longrightarrow> 2 * length h - l \<le> fuel \<Longrightarrow>
     hb_next_loop N fuel h l bidx ridx (mb div (64 * N) ^ l) = Some (least_of (cands N h l (bidx * (64 * N) + ridx)))"
proof (induction "length h - l" arbitrary: l bidx ridx fuel)
  case (Suc d)
  have ok: "level_ok N (h ! l)" by (rule hb_inv_nth(1) [OF inv Suc.prems(1)])
  note N = level_N [OF ok]
  define lidx where "lidx = bm_findnext (h ! l ! bidx) ridx True"
  note s = level_search [OF ok Suc.prems(2,3) lidx_def]
  obtain f where f: "fuel = Suc f" using Suc.prems(1,4) by (cases fuel) auto
  show ?case
  proof (cases "lidx = 64 * N")
    case True
    have skip: "cands N h l (bidx * (64 * N) + ridx) = cands N h l ((bidx + 1) * (64 * N))"
      using s(3,4) True by (intro cands_skip [OF inv Suc.prems(1)]) (auto simp: algebra_simps)
    show ?thesis
    proof (cases "length (h ! l) \<le> bidx + 1")
      case True
      have "cands N h l ((bidx + 1) * (64 * N)) = {}"
      proof -
        have "\<not> (bidx + 1) * (64 * N) \<le> k" if "k \<in> level_members N (h ! l)" for k
        proof
          assume "(bidx + 1) * (64 * N) \<le> k"
          then have "bidx + 1 \<le> k div (64 * N)" using N by (simp add: less_eq_div_iff_mult_less_eq)
          with that True show False by (simp add: level_members_def)
        qed
        with hb_up [OF inv Suc.prems(1)] show ?thesis by (auto simp: cands_def)
      qed
      with skip True exact [OF Suc.prems(1)] \<open>lidx = 64 * N\<close> show ?thesis
        by (simp add: f Let_def least_of_def flip: lidx_def)
    next
      case False
      then have nl: "Suc l < length h" using hb_inv_nth(4) [OF inv Suc.prems(1)] Suc.prems(1) by (cases "Suc l = length h") auto
      have b': "(bidx + 1) div (64 * N) < length (h ! Suc l)"
      proof -
        have "bidx + 1 < length (h ! Suc l) * (64 * N)"
          using False hb_inv_nth(2) [OF inv Suc.prems(1) nl] by (simp add: mult.commute)
        then show ?thesis by (rule less_mult_imp_div_less)
      qed
      have "d = length h - Suc l" using Suc.hyps(2) by simp
      then have "hb_next_loop N f h (Suc l) ((bidx + 1) div (64 * N)) ((bidx + 1) mod (64 * N)) (mb div (64 * N) ^ Suc l)
          = Some (least_of (cands N h (Suc l) ((bidx + 1) div (64 * N) * (64 * N) + (bidx + 1) mod (64 * N))))"
        using Suc.hyps(1) [of "Suc l", OF _ nl b' mod_less_divisor] N Suc.prems(4) f by simp
      also have "(bidx + 1) div (64 * N) * (64 * N) + (bidx + 1) mod (64 * N) = bidx + 1" by (rule div_mult_mod_eq)
      also have "cands N h (Suc l) (bidx + 1) = cands N h l (bidx * (64 * N) + ridx)" using cands_down [OF N] skip by simp
      also have "mb div (64 * N) ^ Suc l = mb div (64 * N) ^ l div (64 * N)" unfolding power_Suc2 by (rule div_mult2_eq)
      finally show ?thesis
        using False exact [OF Suc.prems(1)] \<open>lidx = 64 * N\<close> by (simp add: f Let_def flip: lidx_def)
    qed
  next
    case False
    with s(1) have lt: "lidx < 64 * N" by simp
    define q where "q = bidx * (64 * N) + lidx"
    have step: "hb_next_loop N (Suc f) h l bidx ridx m
        = (if l = 0 then Some (Some q) else hb_next_loop N f h (l - 1) q 0 (m * (64 * N)))" for m
      using lt by (simp add: Let_def q_def flip: lidx_def)
    have qm: "q \<in> level_members N (h ! l)" unfolding q_def by (rule s(2) [OF lt])
    have skip: "cands N h l (bidx * (64 * N) + ridx) = cands N h l q"
      using s(3,4) by (intro cands_skip [OF inv Suc.prems(1)]) (auto simp: q_def)
    show ?thesis
    proof (cases l)
      case 0
      have "least_of (cands N h l q) = Some q" using qm 0 by (intro least_ofI) (auto simp: cands_def)
      with skip 0 show ?thesis unfolding f step by simp
    next
      case (Suc m)
      have "q < length (h ! m)" "bm_members (h ! m ! q) \<noteq> {}"
        using hb_inv_nth(3) [OF inv, of m] qm Suc Suc.prems(1) by auto
      then have "hb_next_loop N f h m q 0 (mb div (64 * N) ^ l * (64 * N)) = Some (least_of (cands N h m (q * (64 * N))))"
        using Suc Suc.prems(1,4) f by (intro hb_next_down [OF inv]) auto
      with skip Suc cands_down [OF N, of h m q] show ?thesis unfolding f step by simp
    qed
  qed
qed simp

section \<open>init\<close>

lemma hb_divup_bound: "0 < d \<Longrightarrow> n \<le> d * hb_divup n d"
  using dividend_less_div_times [of d "n + d - 1"] by (cases n) (auto simp: hb_divup_def mult.commute)

lemma bm_init_empty: "bm_members (bm_init N 0) = {}"
  by (auto simp: bm_members_def bm_init_def nth_list_update)

lemma level_members_init: "level_members N (replicate n (bm_init N 0)) = {}"
  by (auto simp: level_members_def bm_init_empty)

lemma level_ok_init: "0 < n \<Longrightarrow> 0 < N \<Longrightarrow> 64 * N < 2 ^ 64 \<Longrightarrow> level_ok N (replicate n (bm_init N 0))"
  by (auto simp: level_ok_def bm_inv_def bm_init_def)

lemma hb_init_levels_inv:
  assumes N: "0 < N" "64 * N < 2 ^ 64"
  shows "hb_init_levels N (Suc l) bitcount = Some h \<Longrightarrow>
    hb_inv N h \<and> (\<exists>lvs. h = replicate (hb_divup bitcount (64 * N)) (bm_init N 0) # lvs) \<and> 0 < hb_divup bitcount (64 * N)"
proof (induction l arbitrary: bitcount h)
  case 0
  then have "hb_divup bitcount (64 * N) = 1" "h = [replicate 1 (bm_init N 0)]" by (auto simp: Let_def split: if_splits)
  then show ?case using level_ok_init [of 1 N] N by simp
next
  case (Suc l)
  define bc where "bc = hb_divup bitcount (64 * N)"
  obtain h1 where h1: "hb_init_levels N (Suc l) bc = Some h1" "h = replicate bc (bm_init N 0) # h1"
    using Suc.prems by (auto simp: bc_def Let_def)
  obtain lvs where l: "hb_inv N h1" "h1 = replicate (hb_divup bc (64 * N)) (bm_init N 0) # lvs" "0 < hb_divup bc (64 * N)"
    using Suc.IH [OF h1(1)] by blast
  have "0 < bc" using l(3) N by (auto simp: hb_divup_def intro: gr0I)
  moreover have "bc \<le> 64 * N * hb_divup bc (64 * N)" using N by (intro hb_divup_bound) simp
  ultimately have "hb_inv N h"
    using l N level_ok_init [of bc N] by (auto simp: h1(2) level_members_init bm_init_empty)
  with \<open>0 < bc\<close> h1(2) show ?case by (auto simp: bc_def)
qed


lemma hb_small_inv: "hb_inv 1 [[[0], [0]], [[0]]]"
  by (simp add: level_ok_def bm_inv_def level_members_def bm_members_def) (auto simp: less_Suc_eq nth_Cons')


text \<open>\<^verbatim>\<open>findnext\<close> misses members when the bucket count is not a multiple of \<^verbatim>\<open>B\<close>: with 65 buckets of 64
  positions on three levels, and position 4159 set, a search from position 0 reports that there is nothing.\<close>

theorem hier_findnext_misses:
  "\<exists>h h1. hb_init 1 3 4160 = Some h \<and> hb_set 1 4159 (hb_maps h) = Some h1
     \<and> hb_test 1 4159 h1 \<and> hb_findnext 1 0 (h\<lparr>hb_maps := h1\<rparr>) = Some None"
proof -
  have e: "\<not> bm_test [0] k" if "k < 64" for k using that by (simp add: bm_test_def bit_tst_iff)
  have b: "bm_init 1 0 = [0]" by (simp add: bm_init_def)
  define L0 where "L0 = replicate 65 [0 :: mword]"
  define h where "h = \<lparr>hb_maps = [L0, [[0], [0]], [[0]]], maxBucketCount = 65\<rparr>"
  have d: "hb_divup 4160 (64 * 1) = 65" "hb_divup 65 (64 * 1) = 2" "hb_divup 2 (64 * 1) = 1" by (simp_all add: hb_divup_def)
  have r: "replicate 2 [0 :: mword] = [[0], [0]]" "replicate 1 [0 :: mword] = [[0]]" by (simp_all add: numeral_2_eq_2)
  have h: "hb_init 1 3 4160 = Some h"
    unfolding hb_init_def numeral_3_eq_3 hb_init_levels.simps Let_def d b r L0_def [symmetric] h_def by simp
  define h1 where "h1 = [L0[64 := bm_set [0] 63], [[0], bm_set [0] 0], [bm_set [0] 1]]"
  have l0: "L0 ! 64 = [0]" "length L0 = 65" "L0 ! 0 = [0]" by (simp_all add: L0_def)
  have st: "hb_set 1 4159 (hb_maps h) = Some h1"
    by (simp add: h_def h1_def e l0)
  have tst: "hb_test 1 4159 h1"
    by (simp add: hb_test_def h1_def l0 bm_test_def bm_set_def bit_tst_iff bit_ops)
  have "bm_findnext [0] k True = 64" if "k < 64" for k
  proof -
    have "first_from (\<lambda>j. (j \<in> bm_members [0]) = True) k (64 * 1) (bm_findnext [0] k True)"
      using that by (intro bm.findn_first) (simp_all add: bm_inv_def)
    moreover have "bm_members [0] = {}" by (auto simp: bm_members_def)
    ultimately show ?thesis by (auto simp: first_from_def)
  qed
  moreover have len: "2 * length h1 = Suc (Suc 4)" and n: "h1 ! 0 ! 0 = [0]" "h1 ! 1 ! 0 = [0]" by (simp_all add: h1_def l0)
  ultimately have "hb_next_loop 1 (Suc f) h1 0 0 0 65 = hb_next_loop 1 f h1 1 0 1 1"
    "hb_next_loop 1 (Suc f) h1 1 0 1 1 = Some None" for f by (simp_all add: Let_def)
  then have "hb_next_loop 1 (2 * length h1) h1 0 0 0 65 = Some None" unfolding len by metis
  then have "hb_findnext 1 0 (h\<lparr>hb_maps := h1\<rparr>) = Some None" by (simp add: hb_findnext_def h_def)
  with h st tst show ?thesis by blast
qed

end
