(* ===== verification/Fibre_Specific.thy ===== *)
theory Fibre_Specific
  imports Bitmap_Model "HOL-Library.Monad_Syntax"
begin

text \<open>
  \<^verbatim>\<open>FibreSpecific\<close> of \<^verbatim>\<open>src/src/libfibre/Fibre.h\<close>: fibre-specific storage. The allocated keys are a one-word
  bitmap; destructors and values are vectors that grow by doubling. Pointers and function pointers are numbers,
  0 is the null pointer. A failing assertion or an access beyond a vector is \<open>None\<close>.
\<close>

section \<open>Operations\<close>

record fs_keys =
  fs_bitmap :: mword
  fs_destructors :: "nat list"

definition FIBRE_KEYS_MAX :: nat where "FIBRE_KEYS_MAX = 64"

definition fs_init :: fs_keys where
  "fs_init = \<lparr>fs_bitmap = 0, fs_destructors = []\<rparr>"

text \<open>The growth of a vector so that \<open>idx\<close> is inside: resize an empty one to 1, then double.\<close>

function vec_grow :: "nat \<Rightarrow> nat list \<Rightarrow> nat list" where
  "vec_grow idx xs =
     (if idx < length xs then xs
      else if xs = [] then vec_grow idx [0]
      else vec_grow idx (xs @ replicate (length xs) 0))"
  by pat_completeness auto
termination
  by (relation "measure (\<lambda>(idx, xs). Suc idx - length xs)") (auto intro: diff_less_mono2)

declare vec_grow.simps [simp del]

definition key_create :: "nat \<Rightarrow> fs_keys \<Rightarrow> (nat \<times> fs_keys) option" where
  "key_create d ks =
     do { let idx = bw_find (fs_bitmap ks) False;
          rassert (idx < FIBRE_KEYS_MAX);
          Some (idx, \<lparr>fs_bitmap = bw_set (fs_bitmap ks) idx,
                      fs_destructors = (vec_grow idx (fs_destructors ks))[idx := d]\<rparr>) }"

definition key_delete :: "nat \<Rightarrow> fs_keys \<Rightarrow> fs_keys option" where
  "key_delete idx ks =
     do { rassert (idx < FIBRE_KEYS_MAX); rassert (bw_test (fs_bitmap ks) idx);
          rassert (idx < length (fs_destructors ks));
          Some \<lparr>fs_bitmap = bw_clr (fs_bitmap ks) idx, fs_destructors = (fs_destructors ks)[idx := 0]\<rparr> }"

definition setspecific :: "fs_keys \<Rightarrow> nat \<Rightarrow> nat \<Rightarrow> nat list \<Rightarrow> nat list option" where
  "setspecific ks idx v vals =
     do { rassert (idx < FIBRE_KEYS_MAX); rassert (bw_test (fs_bitmap ks) idx); Some ((vec_grow idx vals)[idx := v]) }"

definition getspecific :: "fs_keys \<Rightarrow> nat \<Rightarrow> nat list \<Rightarrow> nat option" where
  "getspecific ks idx vals =
     do { rassert (idx < FIBRE_KEYS_MAX); rassert (bw_test (fs_bitmap ks) idx);
          Some (if idx < length vals then vals ! idx else 0) }"

text \<open>\<^verbatim>\<open>clearSpecific\<close>: the destructor calls it makes, in order. One key; the loop.\<close>

definition clear_one :: "fs_keys \<Rightarrow> nat list \<Rightarrow> nat \<Rightarrow> (nat \<times> nat) list option" where
  "clear_one ks vals idx =
     (if idx < length (fs_destructors ks)
      then let d = fs_destructors ks ! idx
           in Some (if d \<noteq> 0 \<and> idx < length vals \<and> vals ! idx \<noteq> 0 then [(d, vals ! idx)] else [])
      else None)"

fun clear_loop :: "nat \<Rightarrow> fs_keys \<Rightarrow> nat list \<Rightarrow> nat \<Rightarrow> nat \<Rightarrow> (nat \<times> nat) list option" where
  "clear_loop 0 ks vals start idx = None"
| "clear_loop (Suc fuel) ks vals start idx =
     do { c \<leftarrow> clear_one ks vals idx;
          let idx' = bw_findnext (fs_bitmap ks) idx True;
          if idx' > start then do { cs \<leftarrow> clear_loop fuel ks vals start idx'; Some (c @ cs) } else Some c }"

definition clearSpecific :: "fs_keys \<Rightarrow> nat list \<Rightarrow> (nat \<times> nat) list option" where
  "clearSpecific ks vals =
     (let start = bw_find (fs_bitmap ks) True
      in if start \<ge> FIBRE_KEYS_MAX then Some [] else clear_loop (Suc FIBRE_KEYS_MAX) ks vals start start)"

section \<open>Vectors and the invariant of the key table\<close>

lemma vec_grow_spec: "idx < length (vec_grow idx xs) \<and> (\<exists>n. vec_grow idx xs = xs @ replicate n 0)"
proof (induction idx xs rule: vec_grow.induct)
  case (1 idx xs)
  show ?case
  proof (cases "idx < length xs")
    case True
    then show ?thesis by (subst (1 2) vec_grow.simps) (auto intro: exI [of _ 0])
  next
    case False
    show ?thesis
    proof (cases "xs = []")
      case True
      from 1(1) [OF False True] obtain n where "idx < length (vec_grow idx [0])" "vec_grow idx [0] = [0] @ replicate n 0" by blast
      moreover have "vec_grow idx xs = vec_grow idx [0]" using False True by (subst vec_grow.simps) simp
      ultimately show ?thesis using True by (auto intro!: exI [of _ "Suc n"])
    next
      case ne: False
      from 1(2) [OF False ne] obtain n where "idx < length (vec_grow idx (xs @ replicate (length xs) 0))"
        "vec_grow idx (xs @ replicate (length xs) 0) = (xs @ replicate (length xs) 0) @ replicate n 0" by blast
      moreover have "vec_grow idx xs = vec_grow idx (xs @ replicate (length xs) 0)" using False ne by (subst vec_grow.simps) simp
      ultimately show ?thesis by (auto simp: replicate_add intro!: exI [of _ "length xs + n"])
    qed
  qed
qed

lemma vec_grow_nth: "idx < length (vec_grow idx xs)" "j < length xs \<Longrightarrow> vec_grow idx xs ! j = xs ! j"
  "\<not> j < length xs \<Longrightarrow> j < length (vec_grow idx xs) \<Longrightarrow> vec_grow idx xs ! j = 0" "length xs \<le> length (vec_grow idx xs)"
proof -
  obtain n where n: "vec_grow idx xs = xs @ replicate n 0" using vec_grow_spec by blast
  show "idx < length (vec_grow idx xs)" using vec_grow_spec by blast
  show "j < length xs \<Longrightarrow> vec_grow idx xs ! j = xs ! j" "length xs \<le> length (vec_grow idx xs)"
    "\<not> j < length xs \<Longrightarrow> j < length (vec_grow idx xs) \<Longrightarrow> vec_grow idx xs ! j = 0"
    by (auto simp: n nth_append)
qed

text \<open>Every allocated key has a destructor entry; the abstraction is the map from allocated keys to destructors.\<close>

definition fs_inv :: "fs_keys \<Rightarrow> bool" where
  "fs_inv ks \<longleftrightarrow> (\<forall>i\<in>bw_members (fs_bitmap ks). i < length (fs_destructors ks))"

definition fs_map :: "fs_keys \<Rightarrow> nat \<Rightarrow> nat option" where
  "fs_map ks i = (if i \<in> bw_members (fs_bitmap ks) then Some (fs_destructors ks ! i) else None)"

lemma fs_members: "i < 64 \<Longrightarrow> bw_test (fs_bitmap ks) i \<longleftrightarrow> i \<in> dom (fs_map ks)"
  using bw.tst_iff [of i "fs_bitmap ks"] by (auto simp: fs_map_def)

lemma key_create_free:
  assumes "fs_inv ks" and "\<exists>i<64. fs_map ks i = None"
  shows "\<exists>idx ks'. key_create d ks = Some (idx, ks') \<and> idx < 64 \<and> fs_map ks idx = None \<and> (\<forall>j<idx. fs_map ks j \<noteq> None)
     \<and> fs_map ks' = (fs_map ks)(idx \<mapsto> d) \<and> fs_inv ks'"
proof -
  define idx where "idx = bw_find (fs_bitmap ks) False"
  define ks' where "ks' = \<lparr>fs_bitmap = bw_set (fs_bitmap ks) idx, fs_destructors = (vec_grow idx (fs_destructors ks))[idx := d]\<rparr>"
  have "bw_members (fs_bitmap ks) \<noteq> {..<64}" using assms(2) by (auto simp: fs_map_def split: if_splits)
  then have lt: "idx < 64" using bw.find_free_iff [of "fs_bitmap ks"] by (simp add: idx_def)
  then have f: "idx \<notin> bw_members (fs_bitmap ks)" "\<And>j. j < idx \<Longrightarrow> j \<in> bw_members (fs_bitmap ks)"
    and m: "bw_members (bw_set (fs_bitmap ks) idx) = insert idx (bw_members (fs_bitmap ks))"
    using bw.find_free [of "fs_bitmap ks"] by (simp_all add: idx_def)
  note g = vec_grow_nth [where idx = idx and xs = "fs_destructors ks"]
  have "fs_map ks' = (fs_map ks)(idx \<mapsto> d)"
  proof
    fix i
    show "fs_map ks' i = ((fs_map ks)(idx \<mapsto> d)) i"
      using assms(1) g(1,2) by (auto simp: fs_map_def ks'_def m fs_inv_def nth_list_update)
  qed
  moreover have "fs_inv ks'" using assms(1) g(1,4) by (auto simp: fs_inv_def ks'_def m intro: less_le_trans)
  moreover have "key_create d ks = Some (idx, ks')" using lt by (simp add: key_create_def ks'_def FIBRE_KEYS_MAX_def Let_def flip: idx_def)
  ultimately show ?thesis using f lt by (auto simp: fs_map_def)
qed

lemma key_create_full: "(\<forall>i<64. fs_map ks i \<noteq> None) \<Longrightarrow> key_create d ks = None"
proof -
  assume full: "\<forall>i<64. fs_map ks i \<noteq> None"
  then have "{..<64} \<subseteq> bw_members (fs_bitmap ks)" by (auto simp: fs_map_def split: if_splits)
  then have "bw_members (fs_bitmap ks) = {..<64}" using bw.members_bound [of "fs_bitmap ks"] by simp
  then have "\<not> bw_find (fs_bitmap ks) False < 64" using bw.find_free_iff [of "fs_bitmap ks"] by simp
  then show ?thesis by (simp add: key_create_def FIBRE_KEYS_MAX_def Let_def)
qed

lemma key_delete_map:
  assumes "fs_inv ks" and "idx < 64"
  shows "fs_map ks idx \<noteq> None \<Longrightarrow> \<exists>ks'. key_delete idx ks = Some ks' \<and> fs_map ks' = (fs_map ks)(idx := None) \<and> fs_inv ks'"
    and "fs_map ks idx = None \<Longrightarrow> key_delete idx ks = None"
proof -
  have m: "bw_members (bw_clr (fs_bitmap ks) idx) = bw_members (fs_bitmap ks) - {idx}" using assms(2) by (intro bw.members_del) simp_all
  have t: "bw_test (fs_bitmap ks) idx \<longleftrightarrow> idx \<in> bw_members (fs_bitmap ks)" using assms(2) by (intro bw.tst_iff) simp_all
  show "\<exists>ks'. key_delete idx ks = Some ks' \<and> fs_map ks' = (fs_map ks)(idx := None) \<and> fs_inv ks'" if "fs_map ks idx \<noteq> None"
    using that assms t by (auto simp: key_delete_def FIBRE_KEYS_MAX_def fs_map_def m fs_inv_def fun_eq_iff split: if_splits)
  show "key_delete idx ks = None" if "fs_map ks idx = None"
    using that t by (auto simp: key_delete_def fs_map_def split: if_splits)
qed

lemma set_get_specific:
  assumes "idx < 64" and "fs_map ks idx \<noteq> None"
  shows "\<exists>vals'. setspecific ks idx v vals = Some vals' \<and> getspecific ks idx vals' = Some v
     \<and> (\<forall>j. j \<noteq> idx \<longrightarrow> getspecific ks j vals' = getspecific ks j vals)"
proof -
  have t: "bw_test (fs_bitmap ks) idx" using assms fs_members [OF assms(1), of ks] by auto
  note g = vec_grow_nth [where idx = idx and xs = vals]
  have "getspecific ks j ((vec_grow idx vals)[idx := v]) = getspecific ks j vals" if "j \<noteq> idx" for j
    using that g(2,3) [of j] g(4) by (auto simp: getspecific_def)
  moreover have "setspecific ks idx v vals = Some ((vec_grow idx vals)[idx := v])"
    "getspecific ks idx ((vec_grow idx vals)[idx := v]) = Some v"
    using assms(1) t g(1) by (simp_all add: setspecific_def getspecific_def FIBRE_KEYS_MAX_def)
  ultimately show ?thesis by blast
qed

text \<open>fibre-specific keys and values: \<^verbatim>\<open>key_create\<close> returns the least unused key and binds its destructor,
  and aborts exactly when all 64 keys are in use; \<^verbatim>\<open>key_delete\<close> frees exactly the given key, and aborts on an
  unused one; a value that is set is read back and does not disturb other keys, however the vectors grow. A key
  that is deleted and created again still shows the old value of each fibre, where POSIX demands the null
  pointer.\<close>

theorem fibre_specific_roundtrip:
  assumes "fs_inv ks"
  shows "((\<exists>i<64. fs_map ks i = None) \<longrightarrow> (\<exists>idx ks'. key_create d ks = Some (idx, ks') \<and> fs_map ks idx = None
           \<and> (\<forall>j<idx. fs_map ks j \<noteq> None) \<and> fs_map ks' = (fs_map ks)(idx \<mapsto> d) \<and> fs_inv ks'))
    \<and> ((\<forall>i<64. fs_map ks i \<noteq> None) \<longrightarrow> key_create d ks = None)
    \<and> (\<forall>i<64. if fs_map ks i = None then key_delete i ks = None
         else \<exists>ks'. key_delete i ks = Some ks' \<and> fs_map ks' = (fs_map ks)(i := None) \<and> fs_inv ks')
    \<and> (\<forall>i<64. fs_map ks i \<noteq> None \<longrightarrow> (\<exists>vals'. setspecific ks i v vals = Some vals' \<and> getspecific ks i vals' = Some v
         \<and> (\<forall>j. j \<noteq> i \<longrightarrow> getspecific ks j vals' = getspecific ks j vals)))
    \<and> (\<forall>ks1 ks2. key_delete 0 ks = Some ks1 \<and> key_create d ks1 = Some (0, ks2) \<and> vals \<noteq> [] \<longrightarrow> getspecific ks2 0 vals = Some (hd vals))"
proof -
  have "getspecific ks2 0 vals = Some (hd vals)"
    if c: "key_create d ks1 = Some (0, ks2)" and "vals \<noteq> []" for ks1 ks2
  proof -
    have "fs_bitmap ks2 = bw_set (fs_bitmap ks1) 0"
      using c by (auto simp: key_create_def Let_def split: if_splits)
    then have "bw_test (fs_bitmap ks2) 0"
      using bw.tst_iff [of 0 "fs_bitmap ks2"] bw.members_add [of 0 "fs_bitmap ks1"] by simp
    then show ?thesis using \<open>vals \<noteq> []\<close> by (simp add: getspecific_def FIBRE_KEYS_MAX_def hd_conv_nth)
  qed
  moreover have "if fs_map ks i = None then key_delete i ks = None
         else \<exists>ks'. key_delete i ks = Some ks' \<and> fs_map ks' = (fs_map ks)(i := None) \<and> fs_inv ks'" if "i < 64" for i
    using key_delete_map [OF assms that] by simp
  ultimately show ?thesis using key_create_free [OF assms, of d] key_create_full [of ks d] set_get_specific by blast
qed

lemma fs_init_inv: "fs_inv fs_init" "fs_map fs_init = (\<lambda>_. None)"
  by (simp_all add: fs_inv_def fs_init_def bw_members_def fs_map_def fun_eq_iff)

theorem fibre_specific_roundtrip_witness:
  "\<exists>idx ks'. key_create 5 fs_init = Some (idx, ks') \<and> fs_map ks' = (fs_map fs_init)(idx \<mapsto> 5)"
  using fibre_specific_roundtrip [OF fs_init_inv(1), of 5] by (fastforce simp: fs_init_inv(2))

text \<open>\<^verbatim>\<open>clearSpecific\<close>, which runs when a fibre ends, calls at most one destructor: that of the least allocated
  key. \<^verbatim>\<open>findnext(idx)\<close> starts at \<open>idx\<close> itself, so it returns the same key again and the loop stops, whatever other
  keys with destructors and values there are.\<close>

theorem clearSpecific_first_only:
  assumes "fs_inv ks" and "fs_map ks k \<noteq> None" and "\<And>j. fs_map ks j \<noteq> None \<Longrightarrow> k \<le> j"
  shows "clearSpecific ks vals =
     Some (if the (fs_map ks k) \<noteq> 0 \<and> k < length vals \<and> vals ! k \<noteq> 0 then [(the (fs_map ks k), vals ! k)] else [])"
proof -
  have mem: "k \<in> bw_members (fs_bitmap ks)" "\<And>j. j \<in> bw_members (fs_bitmap ks) \<Longrightarrow> k \<le> j"
    using assms(2,3) by (auto simp: fs_map_def split: if_splits)
  have k: "k < 64" using mem(1) bw.members_bound [of "fs_bitmap ks"] by auto
  have "bw_find (fs_bitmap ks) True \<le> k" by (rule bw.find_least [OF _ mem(1)]) simp
  moreover from this have "bw_find (fs_bitmap ks) True \<in> bw_members (fs_bitmap ks)"
    using k by (intro bw.find_member) simp_all
  ultimately have f: "bw_find (fs_bitmap ks) True = k" using mem(2) by (simp add: le_antisym)
  have n: "bw_findnext (fs_bitmap ks) k True = k" using mem(1) k by (intro bw.findn_self) simp_all
  have "k < length (fs_destructors ks)" using assms(1) mem(1) by (auto simp: fs_inv_def)
  moreover have "clear_loop (Suc m) ks vals k k = clear_one ks vals k" for m
    by (cases "clear_one ks vals k") (simp_all add: n)
  moreover have "k < FIBRE_KEYS_MAX" using k by (simp add: FIBRE_KEYS_MAX_def)
  ultimately show ?thesis
    using mem(1) by (simp add: clearSpecific_def f clear_one_def fs_map_def Let_def)
qed

theorem clearSpecific_first_only_witness:
  "clearSpecific \<lparr>fs_bitmap = 3, fs_destructors = [7, 8]\<rparr> [100, 200] = Some [(7, 100)]"
proof -
  let ?ks = "\<lparr>fs_bitmap = 3, fs_destructors = [7, 8]\<rparr>"
  have m: "bw_members 3 = {0, 1}"
  proof -
    have "bit (3 :: mword) j \<longleftrightarrow> j = 0 \<or> j = 1" for j
      by (cases j; cases "j - 1") (simp_all add: bit_numeral_rec bit_1_iff numeral_3_eq_3 [symmetric])
    then show ?thesis by (auto simp: bw_members_def)
  qed
  then have "fs_inv ?ks" "fs_map ?ks 0 = Some 7" by (simp_all add: fs_inv_def fs_map_def)
  then show ?thesis using clearSpecific_first_only [of ?ks 0 "[100, 200]"] by simp
qed

end
