(* ===== verification/Fibre_Object.thy ===== *)
theory Fibre_Object
  imports Platform Sync_Flag Fibre_Specific
begin

text \<open>
  The \<^verbatim>\<open>Fibre\<close> object (\<^verbatim>\<open>src/src/libfibre/Fibre.h\<close>, configuration without split stacks): allocation of the
  stack, life cycle from creation to join, and the part of the POSIX-like interface in
  \<^verbatim>\<open>src/src/libfibre/fibre.h\<close> that creates and manages fibres (attributes, create, join, detach, keys, park).
  An interface routine returns its integer code together with the updated objects. System calls and the
  placement of a new fred (\<^verbatim>\<open>Scheduler::placement\<close>) are parameters.
\<close>

section \<open>Environment\<close>

type_synonym cint = "32 word"   \<comment> \<open>\<open>int\<close>\<close>

record fibre_env =
  fe_pagesize :: mword
  fe_mmap :: "mword \<Rightarrow> mword option"          \<comment> \<open>\<open>MAP_FAILED\<close> is no result\<close>
  fe_mprotect :: "mword \<Rightarrow> mword \<Rightarrow> bool"
  fe_currCluster :: nat
  fe_currScheduler :: nat                    \<comment> \<open>\<open>Context::CurrProcessor().getScheduler()\<close>\<close>
  fe_placement :: "nat \<Rightarrow> pid"
  fe_defaultAffinity :: bool
  fe_garbage :: addr

definition stackAlignment :: mword where "stackAlignment = 16"
definition DefaultStackSize :: mword where "DefaultStackSize = 65536"
definition DefaultStackGuard :: mword where "DefaultStackGuard = 4096"

section \<open>The object\<close>

record fibre =
  fib_fred :: fred
  fib_stackSize :: mword              \<comment> \<open>including the guard\<close>
  fib_stackBottom :: mword
  fib_stackPointer :: mword
  fib_done :: addr                    \<comment> \<open>state of the \<open>SyncPoint\<close>\<close>
  fib_result :: addr
  fib_values :: "nat list"
  fib_main :: "(addr \<times> addr) option"  \<comment> \<open>routine and argument set up on the stack\<close>

text \<open>\<^verbatim>\<open>stackAlloc\<close>: size with guard, bottom and stack pointer (\<^verbatim>\<open>Fred::initStackPointer\<close>).\<close>

definition stackAlloc :: "fibre_env \<Rightarrow> mword \<Rightarrow> mword \<Rightarrow> (mword \<times> mword \<times> mword) option" where
  "stackAlloc env size0 guard =
     do { rassert (aligned size0 (fe_pagesize env));
          rassert (aligned guard (fe_pagesize env));
          let size = size0 + guard;
          ptr \<leftarrow> fe_mmap env size;
          rassert (guard \<noteq> 0 \<longrightarrow> fe_mprotect env ptr guard);
          Some (size, ptr, align_down (ptr + size) stackAlignment) }"

text \<open>The mapping that \<^verbatim>\<open>stackFree\<close> removes.\<close>

definition stackFree :: "fibre \<Rightarrow> (mword \<times> mword) option" where
  "stackFree f = (if fib_stackSize f \<noteq> 0 then Some (fib_stackBottom f, fib_stackSize f) else None)"

definition new_fibre :: "fibre_env \<Rightarrow> nat \<Rightarrow> mword \<Rightarrow> mword \<Rightarrow> fibre option" where
  "new_fibre env sched sz guard =
     do { (total, bottom, sp) \<leftarrow> stackAlloc env sz guard;
          Some \<lparr>fib_fred = new_fred (fe_defaultAffinity env) (fe_garbage env) (fe_placement env sched),
                fib_stackSize = total, fib_stackBottom = bottom, fib_stackPointer = sp,
                fib_done = FlagRunning, fib_result = fe_garbage env, fib_values = [], fib_main = None\<rparr> }"

text \<open>\<^verbatim>\<open>run\<close>, i.e. \<^verbatim>\<open>Fred::start\<close>: set up the stack and put the fred on the ready queue of its processor
  at its priority.\<close>

definition fibre_run :: "addr \<Rightarrow> addr \<Rightarrow> fibre \<Rightarrow> fibre \<times> pid \<times> nat" where
  "fibre_run func p1 f =
     (f\<lparr>fib_main := Some (func, p1)\<rparr>, processor (fib_fred f), priority (fib_fred f))"

text \<open>\<^verbatim>\<open>join\<close> up to the suspension (is the caller blocked?) and after it.\<close>

definition fibre_wait :: "addr \<Rightarrow> fibre \<Rightarrow> bool \<times> fibre" where
  "fibre_wait cf f = (let (blocked, st) = flag_wait_begin cf (fib_done f) in (blocked, f\<lparr>fib_done := st\<rparr>))"

definition fibre_wait_end :: "fibre \<Rightarrow> addr option" where
  "fibre_wait_end f = do { _ \<leftarrow> flag_check (fib_done f); Some (fib_result f) }"

text \<open>\<^verbatim>\<open>detach\<close>, with the fred that is resumed.\<close>

definition Fibre_detach :: "fibre \<Rightarrow> (addr option \<times> fibre) option" where
  "Fibre_detach f = do { (w, st) \<leftarrow> flag_detach (fib_done f); Some (w, f\<lparr>fib_done := st\<rparr>) }"

text \<open>\<^verbatim>\<open>finalize\<close> (with the destructor calls it makes) and \<^verbatim>\<open>destroy\<close> (with the mapping that is removed and
  the fred that is resumed).\<close>

definition fibre_finalize :: "fs_keys \<Rightarrow> addr \<Rightarrow> fibre \<Rightarrow> ((nat \<times> nat) list \<times> fibre) option" where
  "fibre_finalize ks e f =
     do { calls \<leftarrow> clearSpecific ks (fib_values f); Some (calls, f\<lparr>fib_result := e\<rparr>) }"

definition fibre_destroy :: "fibre \<Rightarrow> ((mword \<times> mword) option \<times> addr option \<times> fibre) option" where
  "fibre_destroy f =
     do { let unmapped = stackFree f;
          (_, w, st) \<leftarrow> flag_post (fib_done f);
          Some (unmapped, w, f\<lparr>fib_done := st\<rparr>) }"

text \<open>\<^verbatim>\<open>RuntimeStartFred\<close>: the main routine returns a pointer or ends by \<^verbatim>\<open>fibre_exit\<close>, which throws one.\<close>

datatype main_end = Returned addr | Exited addr

fun RuntimeStartFred :: "fs_keys \<Rightarrow> main_end \<Rightarrow> fibre \<Rightarrow> ((nat \<times> nat) list \<times> fibre) option" where
  "RuntimeStartFred ks (Returned p) f = fibre_finalize ks p f"
| "RuntimeStartFred ks (Exited e) f = fibre_finalize ks e f"

section \<open>Attributes\<close>

record fibre_attr =
  at_cluster :: nat
  at_stackSize :: mword
  at_guardSize :: mword
  at_priority :: mword
  at_affinity :: mword
  at_detached :: bool

definition attr_init :: "fibre_env \<Rightarrow> fibre_attr" where
  "attr_init env =
     \<lparr>at_cluster = fe_currCluster env, at_stackSize = DefaultStackSize, at_guardSize = DefaultStackGuard,
      at_priority = of_nat DefaultPriority, at_affinity = of_bool (fe_defaultAffinity env), at_detached = False\<rparr>"

definition fibre_attr_init :: "fibre_env \<Rightarrow> cint \<times> fibre_attr" where
  "fibre_attr_init env = (0, attr_init env)"

definition fibre_attr_destroy :: "fibre_attr \<Rightarrow> cint" where "fibre_attr_destroy a = 0"

definition fibre_attr_setcluster :: "nat \<Rightarrow> fibre_attr \<Rightarrow> cint \<times> fibre_attr" where
  "fibre_attr_setcluster cluster a = (0, a\<lparr>at_cluster := cluster\<rparr>)"

definition fibre_attr_getcluster :: "fibre_attr \<Rightarrow> cint \<times> nat" where
  "fibre_attr_getcluster a = (0, at_cluster a)"

definition fibre_attr_setstacksize :: "mword \<Rightarrow> fibre_attr \<Rightarrow> cint \<times> fibre_attr" where
  "fibre_attr_setstacksize stacksize a = (0, a\<lparr>at_stackSize := stacksize\<rparr>)"

definition fibre_attr_getstacksize :: "fibre_attr \<Rightarrow> cint \<times> mword" where
  "fibre_attr_getstacksize a = (0, at_stackSize a)"

definition fibre_attr_setguardsize :: "mword \<Rightarrow> fibre_attr \<Rightarrow> cint \<times> fibre_attr" where
  "fibre_attr_setguardsize guardsize a = (0, a\<lparr>at_guardSize := guardsize\<rparr>)"

definition fibre_attr_getguardsize :: "fibre_attr \<Rightarrow> cint \<times> mword" where
  "fibre_attr_getguardsize a = (0, at_guardSize a)"

text \<open>An \<^verbatim>\<open>int\<close> argument is sign-extended to the \<^verbatim>\<open>size_t\<close> field, and truncated when it is read.\<close>

definition fibre_attr_setpriority :: "cint \<Rightarrow> fibre_attr \<Rightarrow> cint \<times> fibre_attr" where
  "fibre_attr_setpriority p a = (0, a\<lparr>at_priority := scast p\<rparr>)"

definition fibre_attr_getpriority :: "fibre_attr \<Rightarrow> cint \<times> cint" where
  "fibre_attr_getpriority a = (0, ucast (at_priority a))"

definition fibre_attr_setaffinity :: "cint \<Rightarrow> fibre_attr \<Rightarrow> cint \<times> fibre_attr" where
  "fibre_attr_setaffinity x a = (0, a\<lparr>at_affinity := scast x\<rparr>)"

definition fibre_attr_getaffinity :: "fibre_attr \<Rightarrow> cint \<times> cint" where
  "fibre_attr_getaffinity a = (0, ucast (at_affinity a))"

definition fibre_attr_setdetachstate :: "cint \<Rightarrow> fibre_attr \<Rightarrow> cint \<times> fibre_attr" where
  "fibre_attr_setdetachstate d a = (0, a\<lparr>at_detached := (d \<noteq> 0)\<rparr>)"

definition fibre_attr_getdetachstate :: "fibre_attr \<Rightarrow> cint \<times> cint" where
  "fibre_attr_getdetachstate a = (0, of_bool (at_detached a))"

section \<open>Fibres\<close>

text \<open>\<^verbatim>\<open>fibre_create\<close>: the code, the new fibre, and the ready queue (processor and priority) it is put on.\<close>

definition fibre_create ::
  "fibre_env \<Rightarrow> fibre_attr option \<Rightarrow> addr \<Rightarrow> addr \<Rightarrow> (cint \<times> fibre \<times> pid \<times> nat) option" where
  "fibre_create env attr start_routine arg =
     do { f \<leftarrow> (case attr of
               None \<Rightarrow> new_fibre env (fe_currScheduler env) DefaultStackSize DefaultStackGuard
             | Some a \<Rightarrow>
                 do { f \<leftarrow> new_fibre env (at_cluster a) (at_stackSize a) (at_guardSize a);
                      let f = f\<lparr>fib_fred := setAffinity (at_affinity a \<noteq> 0) (setPriority (unat (at_priority a)) (fib_fred f))\<rparr>;
                      if at_detached a then map_option snd (Fibre_detach f) else Some f });
          Some (0, fibre_run start_routine arg f) }"

text \<open>\<^verbatim>\<open>fibre_join\<close> without a place for the result still waits, in the destructor of the object.\<close>

definition fibre_join :: "addr \<Rightarrow> fibre \<Rightarrow> cint option \<times> fibre" where
  "fibre_join cf f = (let (blocked, f') = fibre_wait cf f in (if blocked then None else Some 0, f'))"

definition fibre_join_end :: "bool \<Rightarrow> fibre \<Rightarrow> (cint \<times> addr option) option" where
  "fibre_join_end retval f = do { r \<leftarrow> fibre_wait_end f; Some (0, if retval then Some r else None) }"

definition fibre_detach :: "fibre \<Rightarrow> (cint \<times> addr option \<times> fibre) option" where
  "fibre_detach f = do { (w, f') \<leftarrow> Fibre_detach f; Some (0, w, f') }"

definition fibre_equal :: "fid \<Rightarrow> fid \<Rightarrow> cint" where
  "fibre_equal thread1 thread2 = of_bool (thread1 = thread2)"

definition fibre_key_create :: "nat \<Rightarrow> fs_keys \<Rightarrow> (cint \<times> nat \<times> fs_keys) option" where
  "fibre_key_create destructor ks = do { (k, ks') \<leftarrow> key_create destructor ks; Some (0, k, ks') }"

definition fibre_key_delete :: "nat \<Rightarrow> fs_keys \<Rightarrow> (cint \<times> fs_keys) option" where
  "fibre_key_delete k ks = do { ks' \<leftarrow> key_delete k ks; Some (0, ks') }"

definition fibre_setspecific :: "fs_keys \<Rightarrow> nat \<Rightarrow> nat \<Rightarrow> fibre \<Rightarrow> (cint \<times> fibre) option" where
  "fibre_setspecific ks k v f =
     do { vals \<leftarrow> setspecific ks k v (fib_values f); Some (0, f\<lparr>fib_values := vals\<rparr>) }"

definition fibre_getspecific :: "fs_keys \<Rightarrow> nat \<Rightarrow> fibre \<Rightarrow> nat option" where
  "fibre_getspecific ks k f = getspecific ks k (fib_values f)"

text \<open>\<^verbatim>\<open>fibre_park\<close>: either an earlier \<^verbatim>\<open>fibre_unpark\<close> is consumed (code) or the fibre switches away (no code);
  \<^verbatim>\<open>fibre_unpark\<close> also tells whether the fibre is put on a ready queue.\<close>

definition fibre_park :: "fibre \<Rightarrow> (cint option \<times> fibre) option" where
  "fibre_park f =
     (case suspend_cas (fib_fred f) of
        (True, r) \<Rightarrow> Some (Some 0, f\<lparr>fib_fred := r\<rparr>)
      | (False, r) \<Rightarrow> do { (enq, r') \<leftarrow> postSuspend r; Some (if enq then Some 0 else None, f\<lparr>fib_fred := r'\<rparr>) })"

definition fibre_unpark :: "fibre \<Rightarrow> (cint \<times> bool \<times> fibre) option" where
  "fibre_unpark f = do { (enq, r) \<leftarrow> fred_resume (fib_fred f); Some (0, enq, f\<lparr>fib_fred := r\<rparr>) }"

lemmas fibre_attr_defs [lf_op] = attr_init_def fibre_attr_init_def fibre_attr_setcluster_def fibre_attr_setstacksize_def
  fibre_attr_setguardsize_def fibre_attr_setpriority_def fibre_attr_setaffinity_def fibre_attr_setdetachstate_def
  fibre_attr_getcluster_def fibre_attr_getstacksize_def fibre_attr_getguardsize_def fibre_attr_getpriority_def
  fibre_attr_getaffinity_def fibre_attr_getdetachstate_def

section \<open>Attributes reach the fibre\<close>

lemma scast_int_size: "(ucast (scast (p :: cint) :: mword) :: cint) = p"
  by (rule bit_word_eqI) (auto simp: bit_simps)

lemma scast_int_zero [simp]: "(scast (x :: cint) :: mword) = 0 \<longleftrightarrow> x = 0"
  using scast_int_size [of x] by (metis scast_0 unsigned_0)

text \<open>A successful \<^verbatim>\<open>stackAlloc\<close> in a region of the address space that does not wrap around.\<close>

lemma stackAlloc_bounds:
  assumes "stackAlloc env sz guard = Some (tot, bottom, sp)" and "unat bottom + unat tot < 2 ^ 64"
    and "unat sz + unat guard < 2 ^ 64" and "16 \<le> unat sz"
  shows "unat tot = unat sz + unat guard \<and> unat bottom + unat guard < unat sp
    \<and> unat sp \<le> unat bottom + unat tot \<and> aligned sp stackAlignment"
proof -
  have t: "tot = sz + guard" and sp: "sp = align_down (bottom + tot) (2 ^ 4)"
    using assms(1) by (auto simp: stackAlloc_def Let_def stackAlignment_def elim!: bind_eq_SomeE split: if_splits)
  have nt: "unat tot = unat sz + unat guard"
    using assms(3) by (simp add: t unat_word_ariths)
  have "unat (bottom + tot) = unat bottom + unat tot"
    using assms(2) by (simp add: unat_word_ariths)
  then have n: "unat sp = (unat bottom + unat tot) div 16 * 16"
    using unat_align_down [of "bottom + tot" 4] by (simp add: sp)
  have "aligned sp (2 ^ 4)"
    by (simp only: aligned_iff n) simp
  then show ?thesis using nt n assms(4) by (simp add: stackAlignment_def)
qed

text \<open>A fibre created from attributes that were set through the interface has these attributes: it is
  placed in the given cluster, put on the ready queue of its processor at the given priority, with the
  affinity and the detach state asked for, and with a stack of the requested size above the guard, whose
  pointer is aligned and inside the mapping. The getters return what was set.\<close>

theorem fibre_create_correct:
  assumes "\<And>n p. fe_mmap env n = Some p \<Longrightarrow> unat p + unat n < 2 ^ 64"
    and "16 \<le> unat s" and "unat s + unat g < 2 ^ 64"
    and "a = snd (fibre_attr_setdetachstate d (snd (fibre_attr_setaffinity x (snd (fibre_attr_setpriority p
               (snd (fibre_attr_setguardsize g (snd (fibre_attr_setstacksize s (snd (fibre_attr_setcluster c a0)))))))))))"
    and "fibre_create env (Some a) start_routine arg = Some (code, f, q, n)"
  shows "(code = 0 \<and> q = fe_placement env c \<and> n = unat (scast p :: mword) \<and> priority (fib_fred f) = n
      \<and> processor (fib_fred f) = q \<and> affinity (fib_fred f) = (x \<noteq> 0) \<and> runState (fib_fred f) = Running
      \<and> fib_done f = (if d \<noteq> 0 then FlagDetached else FlagRunning) \<and> fib_main f = Some (start_routine, arg))
    \<and> (unat (fib_stackSize f) = unat s + unat g
      \<and> unat (fib_stackBottom f) + unat g < unat (fib_stackPointer f)
      \<and> unat (fib_stackPointer f) \<le> unat (fib_stackBottom f) + unat (fib_stackSize f)
      \<and> aligned (fib_stackPointer f) stackAlignment)
    \<and> (fibre_attr_getcluster a = (0, c) \<and> fibre_attr_getpriority a = (0, p) \<and> fibre_attr_getaffinity a = (0, x)
      \<and> fibre_attr_getstacksize a = (0, s) \<and> fibre_attr_getguardsize a = (0, g)
      \<and> fibre_attr_getdetachstate a = (0, of_bool (d \<noteq> 0)))"
proof -
  have a: "at_cluster a = c" "at_stackSize a = s" "at_guardSize a = g" "at_priority a = scast p" "at_affinity a = scast x"
      "at_detached a = (d \<noteq> 0)"
    by (simp_all add: assms(4) lf_op)
  obtain tot bottom sp where st: "stackAlloc env s g = Some (tot, bottom, sp)"
    using assms(5) by (auto simp: fibre_create_def new_fibre_def a elim!: bind_eq_SomeE)
  have m: "fe_mmap env tot = Some bottom"
    using st by (auto simp: stackAlloc_def Let_def elim!: bind_eq_SomeE split: if_splits)
  note b = stackAlloc_bounds [OF st assms(1) [OF m] assms(3) assms(2)]
  have f: "code = 0" "q = fe_placement env c" "n = unat (scast p :: mword)" "priority (fib_fred f) = n"
      "processor (fib_fred f) = q" "affinity (fib_fred f) = (x \<noteq> 0)" "runState (fib_fred f) = Running"
      "fib_done f = (if d \<noteq> 0 then FlagDetached else FlagRunning)" "fib_main f = Some (start_routine, arg)"
      "fib_stackSize f = tot" "fib_stackBottom f = bottom" "fib_stackPointer f = sp"
    using assms(5)
    by (simp_all add: fibre_create_def new_fibre_def a st fibre_run_def Fibre_detach_def flag_detach_def flag_state_defs
          setPriority_def setAffinity_def new_fred_def Let_def split: if_splits)
       (elim conjE, hypsubst, simp)+
  show ?thesis
    by (intro conjI) (use b in \<open>simp_all add: f a fibre_attr_getcluster_def fibre_attr_getpriority_def fibre_attr_getaffinity_def
      fibre_attr_getstacksize_def fibre_attr_getguardsize_def fibre_attr_getdetachstate_def scast_int_size\<close>)
qed

text \<open>Creation without attributes is creation with the initial attributes.\<close>

theorem fibre_create_default:
  assumes "fe_currScheduler env = fe_currCluster env"
  shows "fibre_create env None start_routine arg = fibre_create env (Some (snd (fibre_attr_init env))) start_routine arg"
proof (cases "stackAlloc env DefaultStackSize DefaultStackGuard")
  case None
  then show ?thesis by (simp add: fibre_create_def new_fibre_def lf_op)
next
  case (Some x)
  then show ?thesis using assms
    by (cases x) (simp add: fibre_create_def new_fibre_def lf_op DefaultPriority_def setPriority_def setAffinity_def new_fred_def)
qed

theorem fibre_create_correct_witness:
  fixes env :: fibre_env and a :: fibre_attr
  defines "env \<equiv> \<lparr>fe_pagesize = 4096, fe_mmap = (\<lambda>n. if n \<le> 0x100000 then Some 0x7000000 else None), fe_mprotect = (\<lambda>_ _. True),
      fe_currCluster = 1, fe_currScheduler = 1, fe_placement = (\<lambda>c. 10 * c), fe_defaultAffinity = False, fe_garbage = 0\<rparr>"
    and "a \<equiv> attr_init env\<lparr>at_cluster := 3, at_stackSize := 8192, at_guardSize := 4096, at_priority := 2, at_affinity := 0,
      at_detached := True\<rparr>"
  shows "\<exists>f. fibre_create env (Some a) 100 7 = Some (0, f, 30, 2) \<and> fib_done f = FlagDetached
      \<and> aligned (fib_stackPointer f) stackAlignment \<and> 0x7001000 < unat (fib_stackPointer f)"
proof -
  obtain f where f: "fibre_create env (Some a) 100 7 = Some (0, f, 30, 2)" and b: "fib_stackBottom f = 0x7000000"
    by (simp add: env_def a_def fibre_create_def new_fibre_def stackAlloc_def aligned_def fibre_run_def Fibre_detach_def
        flag_detach_def flag_state_defs setPriority_def setAffinity_def new_fred_def lf_op)
  have e: "a = snd (fibre_attr_setdetachstate 1 (snd (fibre_attr_setaffinity 0 (snd (fibre_attr_setpriority 2
             (snd (fibre_attr_setguardsize 4096 (snd (fibre_attr_setstacksize 8192 (snd (fibre_attr_setcluster 3 (attr_init env))))))))))))"
    by (simp add: a_def lf_op)
  have mm: "unat p + unat n < 2 ^ 64" if "fe_mmap env n = Some p" for n p :: mword
    using that word_le_nat_alt [of n "0x100000"] by (auto simp: env_def split: if_splits)
  show ?thesis
    using fibre_create_correct [OF mm _ _ e f] f b by simp
qed

section \<open>Life cycle\<close>

text \<open>C27: A fibre that is not detached delivers its result to \<^verbatim>\<open>fibre_join\<close>, whether the caller waits before the
  fibre ends (it is blocked, and resumed by the end) or joins afterwards; the result is the pointer that the main
  routine returns or that \<^verbatim>\<open>fibre_exit\<close> throws. Its stack is unmapped. A \<^verbatim>\<open>fibre_detach\<close> after the end of the
  fibre fails an assertion.\<close>

theorem fibre_lifecycle:
  assumes "fib_done f = FlagRunning" and "4 < cf"
    and "RuntimeStartFred ks m f = Some (calls, f1)" and "v = (case m of Returned p \<Rightarrow> p | Exited p \<Rightarrow> p)"
    and "fib_stackSize f \<noteq> 0"
  shows "(\<exists>f2. fibre_destroy f1 = Some (Some (fib_stackBottom f, fib_stackSize f), None, f2)
        \<and> fst (fibre_join cf f2) = Some 0 \<and> fibre_join_end True (snd (fibre_join cf f2)) = Some (0, Some v)
        \<and> fibre_detach f2 = None)
    \<and> fst (fibre_join cf f) = None
    \<and> (\<exists>f3 f4. RuntimeStartFred ks m (snd (fibre_join cf f)) = Some (calls, f3)
        \<and> fibre_destroy f3 = Some (Some (fib_stackBottom f, fib_stackSize f), Some cf, f4)
        \<and> fibre_join_end True f4 = Some (0, Some v))
    \<and> (\<exists>w f5. fibre_detach f = Some (0, w, f5) \<and> (\<forall>c. fst (fibre_join c f5) = Some 0 \<and> snd (fibre_join c f5) = f5)
        \<and> fibre_destroy f5 = Some (Some (fib_stackBottom f, fib_stackSize f), None, f5))"
proof -
  have fin: "fibre_finalize ks v f = Some (calls, f1)"
    using assms(3,4) by (cases m) simp_all
  then have c: "clearSpecific ks (fib_values f) = Some calls" and f1: "f1 = f\<lparr>fib_result := v\<rparr>"
    by (auto simp: fibre_finalize_def elim!: bind_eq_SomeE)
  have m: "RuntimeStartFred ks m (f\<lparr>fib_done := st\<rparr>) = Some (calls, f\<lparr>fib_done := st, fib_result := v\<rparr>)" for st
    using assms(4) c by (cases m) (simp_all add: fibre_finalize_def)
  note d = fibre_destroy_def fibre_join_def fibre_wait_def fibre_join_end_def fibre_wait_end_def fibre_detach_def
    Fibre_detach_def stackFree_def flag_wait_begin_def flag_check_def flag_post_def flag_detach_def flag_resume_def flag_state_defs
  have s1: "\<exists>f2. fibre_destroy f1 = Some (Some (fib_stackBottom f, fib_stackSize f), None, f2)
        \<and> fst (fibre_join cf f2) = Some 0 \<and> fibre_join_end True (snd (fibre_join cf f2)) = Some (0, Some v)
        \<and> fibre_detach f2 = None"
    using assms(1,5) by (simp add: f1 d)
  have s2: "fst (fibre_join cf f) = None" "snd (fibre_join cf f) = f\<lparr>fib_done := cf\<rparr>"
    using assms(1) by (simp_all add: d)
  have s3: "fibre_destroy (f\<lparr>fib_done := cf, fib_result := v\<rparr>)
      = Some (Some (fib_stackBottom f, fib_stackSize f), Some cf, f\<lparr>fib_done := FlagPosted, fib_result := v\<rparr>)"
    using assms(2,5) by (simp add: d)
  have s4: "fibre_join_end True (f\<lparr>fib_done := FlagPosted, fib_result := v\<rparr>) = Some (0, Some v)"
    by (simp add: d)
  have s5: "\<exists>w f5. fibre_detach f = Some (0, w, f5) \<and> (\<forall>c. fst (fibre_join c f5) = Some 0 \<and> snd (fibre_join c f5) = f5)
        \<and> fibre_destroy f5 = Some (Some (fib_stackBottom f, fib_stackSize f), None, f5)"
    using assms(1,5) by (simp add: d)
  show ?thesis
    unfolding s2(2) m using s1 s2(1) s3 s4 s5 by blast
qed

definition fibre_example :: fibre where
  "fibre_example = \<lparr>fib_fred = new_fred False 0 1, fib_stackSize = 12288, fib_stackBottom = 4096, fib_stackPointer = 16384,
     fib_done = FlagRunning, fib_result = 0, fib_values = [], fib_main = Some (100, 7)\<rparr>"

theorem fibre_lifecycle_witness:
  "\<exists>f2. fibre_destroy (fibre_example\<lparr>fib_result := 55\<rparr>) = Some (Some (4096, 12288), None, f2) \<and> fibre_detach f2 = None"
proof -
  have "RuntimeStartFred fs_init (Exited 55) fibre_example = Some ([], fibre_example\<lparr>fib_result := 55\<rparr>)"
    by (simp add: fibre_finalize_def clearSpecific_def fs_init_def fibre_example_def) code_simp
  from fibre_lifecycle [OF _ _ this, of 9 55] show ?thesis
    by (auto simp: fibre_example_def)
qed

text \<open>\<^verbatim>\<open>fibre_unpark\<close> before \<^verbatim>\<open>fibre_park\<close> is remembered once; a second one fails an assertion.\<close>

lemma fibre_unpark_twice:
  assumes "runState (fib_fred f) = Running" and "fibre_unpark f = Some (code, enq, f')"
  shows "\<not> enq \<and> fibre_park f' = Some (Some 0, f) \<and> fibre_unpark f' = None"
  using assms by (cases f) (auto simp: fibre_unpark_def fibre_park_def fred_op_defs Let_def)

end
