(* ===== verification/Fibre_API.thy ===== *)
theory Fibre_API
  imports Fibre_Object Cond_Mutex Sem_Mutex Locked_RWLock Spin_RW Fast_Barrier
begin

text \<open>
  The synchronisation part of the POSIX-like interface (\<^verbatim>\<open>src/src/libfibre/fibre.h\<close>) in the default
  configuration: semaphores, mutexes, condition variables, readers-writer locks and barriers, on the models of
  the underlying classes. A routine returns its integer code, where no code means that the calling fibre is
  blocked; the routine named \<open>..._end\<close> is what follows when the fibre runs again. The result of the whole
  call is an option, where no result is a failed assertion. Each call is taken as a whole here, i.e. without
  other threads between its atomic accesses; the interleavings are the subject of the component theories.
\<close>

section \<open>Codes\<close>

definition EAGAIN :: cint where "EAGAIN = 11"
definition EBUSY :: cint where "EBUSY = 16"
definition ETIMEDOUT :: cint where "ETIMEDOUT = 110"
definition SERIAL_THREAD :: cint where "SERIAL_THREAD = -1"

definition or_code :: "cint \<Rightarrow> bool \<Rightarrow> cint" where
  "or_code err ok = (if ok then 0 else err)"

lemmas code_defs = EAGAIN_def EBUSY_def ETIMEDOUT_def or_code_def

section \<open>Semaphores\<close>

definition fibre_sem_init :: "addr \<Rightarrow> cint \<Rightarrow> cint \<Rightarrow> (cint \<times> lsem) option" where
  "fibre_sem_init a pshared v = do { rassert (pshared = 0); Some (0, new_sem a (uint v)) }"

definition fibre_sem_destroy :: "lsem \<Rightarrow> (cint \<times> lsem) option" where
  "fibre_sem_destroy s = do { s' \<leftarrow> sem_reset 0 s; Some (0, s') }"

definition fibre_sem_wait :: "time \<Rightarrow> fid \<Rightarrow> lsem \<Rightarrow> freds \<Rightarrow> (cint option \<times> lsem \<times> freds) option" where
  "fibre_sem_wait now cf s F = do { (r, s', F') \<leftarrow> sem_internalP Wait now cf s F; Some (map_option (\<lambda>_. 0) r, s', F') }"

definition fibre_sem_wait_end :: "fid \<Rightarrow> lsem \<Rightarrow> freds \<Rightarrow> cint \<times> lsem" where
  "fibre_sem_wait_end cf s F = (0, snd (sem_P_end cf s F))"

definition fibre_sem_trywait :: "time \<Rightarrow> fid \<Rightarrow> lsem \<Rightarrow> freds \<Rightarrow> (cint option \<times> lsem \<times> freds) option" where
  "fibre_sem_trywait now cf s F =
     do { (r, s', F') \<leftarrow> sem_tryP now cf s F; Some (map_option (\<lambda>r. or_code EAGAIN (r \<noteq> SemaphoreTimeout)) r, s', F') }"

definition fibre_sem_timedwait ::
  "time \<Rightarrow> time \<Rightarrow> fid \<Rightarrow> lsem \<Rightarrow> freds \<Rightarrow> (cint option \<times> lsem \<times> freds) option" where
  "fibre_sem_timedwait abs_timeout now cf s F =
     do { (r, s', F') \<leftarrow> sem_internalP (Until abs_timeout) now cf s F;
          Some (map_option (\<lambda>r. or_code ETIMEDOUT (r \<noteq> SemaphoreTimeout)) r, s', F') }"

definition fibre_sem_timedwait_end :: "fid \<Rightarrow> lsem \<Rightarrow> freds \<Rightarrow> cint \<times> lsem" where
  "fibre_sem_timedwait_end cf s F =
     (let (r, s') = sem_P_end cf s F in (or_code ETIMEDOUT (r \<noteq> SemaphoreTimeout), s'))"

definition fibre_sem_post :: "lsem \<Rightarrow> freds \<Rightarrow> cint \<times> fid option \<times> lsem \<times> freds" where
  "fibre_sem_post s F = (0, sem_V False s F)"

definition fibre_sem_getvalue :: "lsem \<Rightarrow> cint \<times> cint" where
  "fibre_sem_getvalue s = (0, word_of_int (sem_counter s))"

section \<open>Mutexes\<close>

definition FIBRE_MUTEX_DEFAULT :: cint where "FIBRE_MUTEX_DEFAULT = 0"
definition FIBRE_MUTEX_RECURSIVE :: cint where "FIBRE_MUTEX_RECURSIVE = 1"
definition FIBRE_MUTEX_ERRORCHECK :: cint where "FIBRE_MUTEX_ERRORCHECK = 2"

record mutexattr =
  ma_type :: cint

definition new_mutexattr :: mutexattr where "new_mutexattr = \<lparr>ma_type = FIBRE_MUTEX_DEFAULT\<rparr>"

definition fibre_mutexattr_settype :: "cint \<Rightarrow> mutexattr \<Rightarrow> cint \<times> mutexattr" where
  "fibre_mutexattr_settype t a = (0, a\<lparr>ma_type := t\<rparr>)"

text \<open>Without \<^verbatim>\<open>TESTING_LOCK_RECURSION\<close> a recursive mutex is refused.\<close>

definition mutex_init_code :: "mutexattr option \<Rightarrow> cint" where
  "mutex_init_code attr = (if \<exists>a. attr = Some a \<and> ma_type a = FIBRE_MUTEX_RECURSIVE then -1 else 0)"

definition fibre_mutex_init :: "addr \<Rightarrow> mutexattr option \<Rightarrow> cint \<times> scmutex" where
  "fibre_mutex_init a attr = (mutex_init_code attr, new_scmutex a)"

definition fibre_mutex_destroy :: "scmutex \<Rightarrow> cint \<times> scmutex" where
  "fibre_mutex_destroy m = (0, m)"

text \<open>\<^verbatim>\<open>SpinCondMutex::internalAcquire\<close> from \<^verbatim>\<open>tryLock2\<close> on: lock, or enter the queue, or give up. The spinning rounds
  before it repeat accesses that give the same result. The loop goes round again only when the test under the
  lock of the queue fails; \<open>n\<close> bounds the rounds.\<close>

fun sc_slow :: "nat \<Rightarrow> wait_arg \<Rightarrow> time \<Rightarrow> fid \<Rightarrow> scmutex \<Rightarrow> freds \<Rightarrow> (bool option \<times> scmutex \<times> freds) option" where
  "sc_slow 0 arg now cf m F = None"
| "sc_slow (Suc n) arg now cf m F =
     (case tryLock2 m of
        (True, m1) \<Rightarrow> Some (Some True, sc_set_owner cf m1, F)
      | (False, m1) \<Rightarrow>
          do { c \<leftarrow> cq_check arg now cf m1;
               case c of
                 Inl True \<Rightarrow> sc_slow n arg now cf m1 F
               | Inl False \<Rightarrow> Some (Some False, m1, F)
               | Inr m2 \<Rightarrow> do { (m3, F') \<leftarrow> cq_enqueue cf m2 F; Some (None, m3, F') } })"

definition sc_acquire :: "wait_arg \<Rightarrow> time \<Rightarrow> fid \<Rightarrow> scmutex \<Rightarrow> freds \<Rightarrow> (bool option \<times> scmutex \<times> freds) option" where
  "sc_acquire arg now cf m F =
     do { own \<leftarrow> sc_enter False cf m;
          case tryLock1 m of
            (True, _, m1) \<Rightarrow> Some (Some True, sc_set_owner cf m1, F)
          | (False, _, m1) \<Rightarrow> if arg = NoWait then Some (Some False, m1, F) else sc_slow 2 arg now cf m1 F }"

text \<open>After the suspension in the queue of the mutex: try again, or leave the queue after a timeout.\<close>

definition sc_woken :: "wait_arg \<Rightarrow> time \<Rightarrow> fid \<Rightarrow> scmutex \<Rightarrow> freds \<Rightarrow> (bool option \<times> scmutex \<times> freds) option" where
  "sc_woken arg now cf m F =
     (let (won, q) = bq_block_end cf (sc_bq m) F; m' = m\<lparr>sc_bq := q\<rparr>
      in if won then sc_slow 2 arg now cf m' F else Some (Some False, m', F))"

definition sc_release :: "scmutex \<Rightarrow> freds \<Rightarrow> (fid option \<times> scmutex \<times> freds) option" where
  "sc_release m F =
     do { m1 \<leftarrow> sc_release1 m;
          let (quiet, m2) = sc_release2 m1;
          if quiet then Some (None, m2, F) else cq_unblock m2 F }"

text \<open>The result of \<^verbatim>\<open>acquire\<close> is not used by \<^verbatim>\<open>fibre_mutex_lock\<close>.\<close>

definition fibre_mutex_lock :: "time \<Rightarrow> fid \<Rightarrow> scmutex \<Rightarrow> freds \<Rightarrow> (cint option \<times> scmutex \<times> freds) option" where
  "fibre_mutex_lock now cf m F = do { (r, m', F') \<leftarrow> sc_acquire Wait now cf m F; Some (map_option (\<lambda>_. 0) r, m', F') }"

definition fibre_mutex_lock_end :: "time \<Rightarrow> fid \<Rightarrow> scmutex \<Rightarrow> freds \<Rightarrow> (cint option \<times> scmutex \<times> freds) option" where
  "fibre_mutex_lock_end now cf m F = do { (r, m', F') \<leftarrow> sc_woken Wait now cf m F; Some (map_option (\<lambda>_. 0) r, m', F') }"

definition fibre_mutex_trylock :: "time \<Rightarrow> fid \<Rightarrow> scmutex \<Rightarrow> freds \<Rightarrow> (cint option \<times> scmutex \<times> freds) option" where
  "fibre_mutex_trylock now cf m F =
     do { (r, m', F') \<leftarrow> sc_acquire NoWait now cf m F; Some (map_option (or_code EBUSY) r, m', F') }"

definition fibre_mutex_timedlock ::
  "time \<Rightarrow> time \<Rightarrow> fid \<Rightarrow> scmutex \<Rightarrow> freds \<Rightarrow> (cint option \<times> scmutex \<times> freds) option" where
  "fibre_mutex_timedlock abstime now cf m F =
     do { (r, m', F') \<leftarrow> sc_acquire (Until abstime) now cf m F; Some (map_option (or_code ETIMEDOUT) r, m', F') }"

definition fibre_mutex_timedlock_end ::
  "time \<Rightarrow> time \<Rightarrow> fid \<Rightarrow> scmutex \<Rightarrow> freds \<Rightarrow> (cint option \<times> scmutex \<times> freds) option" where
  "fibre_mutex_timedlock_end abstime now cf m F =
     do { (r, m', F') \<leftarrow> sc_woken (Until abstime) now cf m F; Some (map_option (or_code ETIMEDOUT) r, m', F') }"

definition fibre_mutex_unlock :: "scmutex \<Rightarrow> freds \<Rightarrow> (cint \<times> fid option \<times> scmutex \<times> freds) option" where
  "fibre_mutex_unlock m F = do { r \<leftarrow> sc_release m F; Some (0, r) }"

section \<open>Fast mutexes\<close>

definition fibre_fastmutex_init :: "mutexattr option \<Rightarrow> cint \<times> ssmutex" where
  "fibre_fastmutex_init attr = (mutex_init_code attr, new_ssmutex)"

definition fibre_fastmutex_destroy :: "ssmutex \<Rightarrow> cint" where "fibre_fastmutex_destroy m = 0"

text \<open>\<^verbatim>\<open>SpinSemMutex::internalAcquire\<close> after the spinning: rounds of \<^verbatim>\<open>P\<close> and \<^verbatim>\<open>tryLock\<close>; and the whole call.\<close>

fun ss_slow :: "nat \<Rightarrow> fid \<Rightarrow> ssmutex \<Rightarrow> (bool option \<times> ssmutex) option" where
  "ss_slow 0 cf m = None"
| "ss_slow (Suc n) cf m =
     (case fb_P1 (ss_sem m) of
        (None, b) \<Rightarrow> do { b' \<leftarrow> fb_P2 Wait cf b; Some (None, m\<lparr>ss_sem := b'\<rparr>) }
      | (Some _, b) \<Rightarrow>
          (case ss_tryLock cf (m\<lparr>ss_sem := b\<rparr>) of
             (True, m') \<Rightarrow> Some (Some True, m')
           | (False, m') \<Rightarrow> ss_slow n cf m'))"

definition ss_acquire :: "bool \<Rightarrow> fid \<Rightarrow> ssmutex \<Rightarrow> (bool option \<times> ssmutex) option" where
  "ss_acquire wait cf m =
     do { own \<leftarrow> ss_enter False cf m;
          case ss_tryLock cf m of
            (True, m') \<Rightarrow> Some (Some True, m')
          | (False, m') \<Rightarrow> if wait then ss_slow 3 cf m' else Some (Some False, m') }"

definition ss_woken :: "fid \<Rightarrow> ssmutex \<Rightarrow> (bool option \<times> ssmutex) option" where
  "ss_woken cf m =
     (case ss_tryLock cf m of (True, m') \<Rightarrow> Some (Some True, m') | (False, m') \<Rightarrow> ss_slow 3 cf m')"

text \<open>\<^verbatim>\<open>release\<close>. The fred to wake is the first of the queue (\<^verbatim>\<open>V\<close> repeats its attempts until there is one).\<close>

definition ss_release :: "fid \<Rightarrow> ssmutex \<Rightarrow> (fid option \<times> ssmutex) option" where
  "ss_release cf m =
     do { m1 \<leftarrow> ss_release1 cf m;
          (done, b) \<leftarrow> fb_V1 True (ss_sem m1);
          if done then Some (None, m1\<lparr>ss_sem := b\<rparr>)
          else let (next, b') = fb_V2 b in Some (next, m1\<lparr>ss_sem := b'\<rparr>) }"

definition fibre_fastmutex_lock :: "fid \<Rightarrow> ssmutex \<Rightarrow> (cint option \<times> ssmutex) option" where
  "fibre_fastmutex_lock cf m = do { (r, m') \<leftarrow> ss_acquire True cf m; Some (map_option (\<lambda>_. 0) r, m') }"

definition fibre_fastmutex_lock_end :: "fid \<Rightarrow> ssmutex \<Rightarrow> (cint option \<times> ssmutex) option" where
  "fibre_fastmutex_lock_end cf m = do { (r, m') \<leftarrow> ss_woken cf m; Some (map_option (\<lambda>_. 0) r, m') }"

definition fibre_fastmutex_trylock :: "fid \<Rightarrow> ssmutex \<Rightarrow> (cint option \<times> ssmutex) option" where
  "fibre_fastmutex_trylock cf m = do { (r, m') \<leftarrow> ss_acquire False cf m; Some (map_option (or_code EBUSY) r, m') }"

definition fibre_fastmutex_unlock :: "fid \<Rightarrow> ssmutex \<Rightarrow> (cint \<times> fid option \<times> ssmutex) option" where
  "fibre_fastmutex_unlock cf m = do { r \<leftarrow> ss_release cf m; Some (0, r) }"

section \<open>Condition variables\<close>

text \<open>\<^verbatim>\<open>Condition::wait\<close> with a lock whose release is \<open>rel\<close> (it also gives the fred to resume). First part: enter
  the queue, then release the lock; a deadline in the past only releases it.\<close>

definition cond_wait ::
  "('m \<Rightarrow> freds \<Rightarrow> (fid option \<times> 'm \<times> freds) option) \<Rightarrow> wait_arg \<Rightarrow> time \<Rightarrow> fid \<Rightarrow> bqueue \<Rightarrow> 'm \<Rightarrow> freds
    \<Rightarrow> (bool option \<times> fid option \<times> bqueue \<times> 'm \<times> freds) option" where
  "cond_wait rel arg now cf q m F =
     (if bq_will_block arg now
      then do { (q', F1) \<leftarrow> bq_block_begin cf q F; (next, m', F2) \<leftarrow> rel m F1; Some (None, next, q', m', F2) }
      else do { (next, m', F') \<leftarrow> rel m F; Some (Some False, next, q, m', F') })"

text \<open>After the suspension: true when signalled. Otherwise the lock is acquired, the node is removed (which
  dereferences its links) and the lock is released.\<close>

definition cond_won :: "fid \<Rightarrow> bqueue \<Rightarrow> freds \<Rightarrow> bool" where
  "cond_won cf q F \<longleftrightarrow> resumeInfo (F cf) = bq_addr q"

definition cond_cleanup ::
  "('m \<Rightarrow> freds \<Rightarrow> (fid option \<times> 'm \<times> freds) option) \<Rightarrow> fid \<Rightarrow> bqueue \<Rightarrow> 'm \<Rightarrow> freds
    \<Rightarrow> (fid option \<times> bqueue \<times> 'm \<times> freds) option" where
  "cond_cleanup rel cf q m F =
     do { rassert (cf \<in> set (bq_nodes q));
          (next, m', F') \<leftarrow> rel m F;
          Some (next, q\<lparr>bq_nodes := remove1 cf (bq_nodes q)\<rparr>, m', F') }"

definition fibre_cond_init :: "addr \<Rightarrow> 'a option \<Rightarrow> (cint \<times> bqueue) option" where
  "fibre_cond_init a attr = do { rassert (attr = None); Some (0, queue_init a) }"

definition fibre_cond_destroy :: "bqueue \<Rightarrow> cint option" where
  "fibre_cond_destroy q = do { rassert (bq_empty q); Some 0 }"

definition fibre_cond_wait ::
  "time \<Rightarrow> fid \<Rightarrow> bqueue \<Rightarrow> scmutex \<Rightarrow> freds \<Rightarrow> (bool option \<times> fid option \<times> bqueue \<times> scmutex \<times> freds) option" where
  "fibre_cond_wait = cond_wait sc_release Wait"

definition fibre_cond_timedwait ::
  "time \<Rightarrow> time \<Rightarrow> fid \<Rightarrow> bqueue \<Rightarrow> scmutex \<Rightarrow> freds \<Rightarrow> (bool option \<times> fid option \<times> bqueue \<times> scmutex \<times> freds) option" where
  "fibre_cond_timedwait abstime = cond_wait sc_release (Until abstime)"

text \<open>The end of both: acquire the mutex again, whatever its result, and return the code.\<close>

definition fibre_cond_relock :: "bool \<Rightarrow> time \<Rightarrow> fid \<Rightarrow> scmutex \<Rightarrow> freds \<Rightarrow> (cint option \<times> scmutex \<times> freds) option" where
  "fibre_cond_relock signalled now cf m F =
     do { (r, m', F') \<leftarrow> sc_acquire Wait now cf m F; Some (map_option (\<lambda>_. or_code ETIMEDOUT signalled) r, m', F') }"

definition fibre_cond_signal :: "bqueue \<Rightarrow> freds \<Rightarrow> cint \<times> fid list \<times> bqueue \<times> freds" where
  "fibre_cond_signal q F = (0, cond_signal False q F)"

definition fibre_cond_broadcast :: "bqueue \<Rightarrow> freds \<Rightarrow> cint \<times> fid list \<times> bqueue \<times> freds" where
  "fibre_cond_broadcast q F = (0, cond_signal True q F)"

definition ss_rel :: "fid \<Rightarrow> ssmutex \<Rightarrow> freds \<Rightarrow> (fid option \<times> ssmutex \<times> freds) option" where
  "ss_rel cf m F = do { (next, m') \<leftarrow> ss_release cf m; Some (next, m', F) }"

definition fibre_fastcond_wait ::
  "time \<Rightarrow> fid \<Rightarrow> bqueue \<Rightarrow> ssmutex \<Rightarrow> freds \<Rightarrow> (bool option \<times> fid option \<times> bqueue \<times> ssmutex \<times> freds) option" where
  "fibre_fastcond_wait now cf = cond_wait (ss_rel cf) Wait now cf"

definition fibre_fastcond_timedwait ::
  "time \<Rightarrow> time \<Rightarrow> fid \<Rightarrow> bqueue \<Rightarrow> ssmutex \<Rightarrow> freds \<Rightarrow> (bool option \<times> fid option \<times> bqueue \<times> ssmutex \<times> freds) option" where
  "fibre_fastcond_timedwait abstime now cf = cond_wait (ss_rel cf) (Until abstime) now cf"

definition fibre_fastcond_relock :: "bool \<Rightarrow> fid \<Rightarrow> ssmutex \<Rightarrow> (cint option \<times> ssmutex) option" where
  "fibre_fastcond_relock signalled cf m =
     do { (r, m') \<leftarrow> ss_acquire True cf m; Some (map_option (\<lambda>_. or_code ETIMEDOUT signalled) r, m') }"

section \<open>Readers-writer locks\<close>

definition fibre_rwlock_init :: "addr \<Rightarrow> addr \<Rightarrow> 'a option \<Rightarrow> (cint \<times> rwlock) option" where
  "fibre_rwlock_init a b attr = do { rassert (attr = None); Some (0, new_rwlock a b) }"

definition fibre_rwlock_destroy :: "rwlock \<Rightarrow> (cint \<times> rwlock) option" where
  "fibre_rwlock_destroy l = do { l' \<leftarrow> rw_reset l; Some (0, l') }"

definition fibre_rwlock_rdlock :: "time \<Rightarrow> fid \<Rightarrow> rwlock \<Rightarrow> freds \<Rightarrow> (cint option \<times> rwlock \<times> freds) option" where
  "fibre_rwlock_rdlock now cf l F = do { (r, l', F') \<leftarrow> internalAR Wait now cf l F; Some (map_option (\<lambda>_. 0) r, l', F') }"

definition fibre_rwlock_tryrdlock :: "time \<Rightarrow> fid \<Rightarrow> rwlock \<Rightarrow> freds \<Rightarrow> (cint option \<times> rwlock \<times> freds) option" where
  "fibre_rwlock_tryrdlock now cf l F = do { (r, l', F') \<leftarrow> internalAR NoWait now cf l F; Some (map_option (or_code EBUSY) r, l', F') }"

definition fibre_rwlock_timedrdlock ::
  "time \<Rightarrow> time \<Rightarrow> fid \<Rightarrow> rwlock \<Rightarrow> freds \<Rightarrow> (cint option \<times> rwlock \<times> freds) option" where
  "fibre_rwlock_timedrdlock abstime now cf l F =
     do { (r, l', F') \<leftarrow> internalAR (Until abstime) now cf l F; Some (map_option (or_code ETIMEDOUT) r, l', F') }"

definition fibre_rwlock_wrlock :: "time \<Rightarrow> fid \<Rightarrow> rwlock \<Rightarrow> freds \<Rightarrow> (cint option \<times> rwlock \<times> freds) option" where
  "fibre_rwlock_wrlock now cf l F = do { (r, l', F') \<leftarrow> internalAW Wait now cf l F; Some (map_option (\<lambda>_. 0) r, l', F') }"

definition fibre_rwlock_trywrlock :: "time \<Rightarrow> fid \<Rightarrow> rwlock \<Rightarrow> freds \<Rightarrow> (cint option \<times> rwlock \<times> freds) option" where
  "fibre_rwlock_trywrlock now cf l F = do { (r, l', F') \<leftarrow> internalAW NoWait now cf l F; Some (map_option (or_code EBUSY) r, l', F') }"

definition fibre_rwlock_timedwrlock ::
  "time \<Rightarrow> time \<Rightarrow> fid \<Rightarrow> rwlock \<Rightarrow> freds \<Rightarrow> (cint option \<times> rwlock \<times> freds) option" where
  "fibre_rwlock_timedwrlock abstime now cf l F =
     do { (r, l', F') \<leftarrow> internalAW (Until abstime) now cf l F; Some (map_option (or_code ETIMEDOUT) r, l', F') }"

text \<open>After the suspension; a reader may let the next reader in.\<close>

definition fibre_rwlock_rdlock_end :: "cint \<Rightarrow> fid \<Rightarrow> rwlock \<Rightarrow> freds \<Rightarrow> cint \<times> fid option \<times> rwlock \<times> freds" where
  "fibre_rwlock_rdlock_end err cf l F = (let (r, x) = internalAR_end cf l F in (or_code err r, x))"

definition fibre_rwlock_wrlock_end :: "cint \<Rightarrow> fid \<Rightarrow> rwlock \<Rightarrow> freds \<Rightarrow> cint \<times> rwlock" where
  "fibre_rwlock_wrlock_end err cf l F = (let (r, l') = internalAW_end cf l F in (or_code err r, l'))"

definition fibre_rwlock_unlock :: "rwlock \<Rightarrow> freds \<Rightarrow> (cint \<times> fid option \<times> rwlock \<times> freds) option" where
  "fibre_rwlock_unlock l F = do { r \<leftarrow> rw_release l F; Some (0, r) }"

section \<open>Barriers\<close>

definition fibre_barrier_init :: "addr \<Rightarrow> 'a option \<Rightarrow> cint \<Rightarrow> (cint \<times> lbarrier) option" where
  "fibre_barrier_init a attr count = do { rassert (attr = None); b \<leftarrow> new_barrier a (unat count); Some (0, b) }"

definition fibre_barrier_destroy :: "lbarrier \<Rightarrow> cint option" where
  "fibre_barrier_destroy b = do { rassert (bq_empty (bbq b)); Some 0 }"

definition serial_code :: "bool \<Rightarrow> cint" where "serial_code r = (if r then SERIAL_THREAD else 0)"

definition fibre_barrier_wait :: "fid \<Rightarrow> lbarrier \<Rightarrow> freds \<Rightarrow> (cint option \<times> fid list \<times> lbarrier \<times> freds) option" where
  "fibre_barrier_wait cf b F = do { (r, rs, b', F') \<leftarrow> barrier_wait cf b F; Some (map_option serial_code r, rs, b', F') }"

definition fibre_barrier_wait_end :: "fid \<Rightarrow> lbarrier \<Rightarrow> freds \<Rightarrow> cint \<times> lbarrier" where
  "fibre_barrier_wait_end cf b F = (serial_code False, b\<lparr>bbq := snd (bq_block_end cf (bbq b) F)\<rparr>)"

definition spin_barrier_init :: "'a option \<Rightarrow> cint \<Rightarrow> (cint \<times> spin_barrier) option" where
  "spin_barrier_init attr count = do { rassert (attr = None); rassert (count > 0); Some (0, sb_init (ucast count)) }"

definition spin_barrier_destroy :: "spin_barrier \<Rightarrow> cint" where "spin_barrier_destroy b = 0"

text \<open>The arrival, with the numbers that the caller keeps; and the code when it no longer spins.\<close>

definition spin_barrier_wait :: "spin_barrier \<Rightarrow> (mword \<times> mword) \<times> spin_barrier" where
  "spin_barrier_wait = sb_arrive"

definition spin_barrier_wait_end :: "mword \<times> mword \<Rightarrow> spin_barrier \<Rightarrow> cint option" where
  "spin_barrier_wait_end ct b = (case ct of (c, tgt) \<Rightarrow> if sb_spins tgt b then None else Some (serial_code (sb_result c tgt)))"

definition fast_barrier_init :: "'a option \<Rightarrow> cint \<Rightarrow> (cint \<times> fbarrier) option" where
  "fast_barrier_init attr count = do { rassert (attr = None); b \<leftarrow> new_fbarrier (unat count); Some (0, b) }"

definition fast_barrier_destroy :: "fbarrier \<Rightarrow> cint option" where
  "fast_barrier_destroy b = do { _ \<leftarrow> fbr_reset b; Some 0 }"

text \<open>The code of a call that was suspended, and of one that was not.\<close>

definition fast_barrier_wait_end :: "bool \<Rightarrow> fid \<Rightarrow> freds \<Rightarrow> cint" where
  "fast_barrier_wait_end suspended cf F = serial_code (if suspended then fbr_result cf F else True)"

section \<open>Calls that do not block\<close>

lemmas acquire_defs = sc_acquire_def sc_enter_def tryLock1_def sc_set_owner_def ss_acquire_def ss_enter_def ss_tryLock_def

text \<open>The non-blocking calls return in every state, with code 0 exactly when the object was available, which
  they then take, and otherwise with EAGAIN or EBUSY and the object unchanged. A mutex that the caller holds
  already is the exception: the call fails an assertion instead of returning EBUSY.\<close>

theorem try_calls:
  shows "fibre_sem_trywait now cf s F =
        Some (if sem_counter s < 1 then (Some EAGAIN, s, F) else (Some 0, s\<lparr>sem_counter := sem_counter s - 1\<rparr>, F))
    \<and> fibre_rwlock_tryrdlock now cf l F =
        Some (if 0 \<le> rw_state l \<and> bq_nodes (bqW l) = [] then (Some 0, l\<lparr>rw_state := rw_state l + 1\<rparr>, F) else (Some EBUSY, l, F))
    \<and> fibre_rwlock_trywrlock now cf l F =
        Some (if rw_state l \<noteq> 0 then (Some EBUSY, l, F) else (Some 0, l\<lparr>rw_state := rw_state l - 1\<rparr>, F))
    \<and> fibre_mutex_trylock now cf m F =
        (if sc_owner m = Some cf then None
         else Some (if sc_value m \<noteq> 0 then (Some EBUSY, m, F) else (Some 0, m\<lparr>sc_value := 1, sc_owner := Some cf\<rparr>, F)))
    \<and> fibre_fastmutex_trylock cf n =
        (if ss_owner n = Some cf then None
         else Some (if ss_owner n \<noteq> None then (Some EBUSY, n) else (Some 0, n\<lparr>ss_owner := Some cf\<rparr>)))"
  by (intro conjI)
    (auto simp: fibre_sem_trywait_def sem_tryP_def sem_internalP_def fibre_rwlock_tryrdlock_def fibre_rwlock_trywrlock_def
      fibre_mutex_trylock_def fibre_fastmutex_trylock_def internalAR_def internalAW_def acquire_defs bq_empty_def or_code_def)

section \<open>Waiting for a condition\<close>

lemma sc_release_eq:
  assumes "sc_value m > 0" and "sc_qlock m = None"
  shows "sc_release m F =
     (let m' = m\<lparr>sc_value := 0, sc_owner := None\<rparr>
      in if sc_value m = 1 then Some (None, m', F)
         else (case bq_unblock (sc_bq m) F of (r, q, F') \<Rightarrow> Some (r, m'\<lparr>sc_bq := q\<rparr>, F')))"
  using assms by (cases m) (auto simp: sc_release_def sc_release1_def sc_release2_def cq_unblock_def Let_def)

lemma bq_unblock_others:
  assumes "bq_unblock q F = (r, q', F')" and "f \<notin> set (bq_nodes q)"
  shows "F' f = F f" and "bq_addr q' = bq_addr q"
proof -
  have "F' f = F f \<and> bq_addr q' = bq_addr q"
  proof (cases "bq_waiters q F")
    case (Cons g gs)
    then have "g \<in> set (bq_nodes q)" by (auto simp: bq_waiters_def filter_eq_Cons_iff)
    then show ?thesis using assms bq_unblock_some [OF Cons] by auto
  qed (use assms bq_unblock_none in auto)
  then show "F' f = F f" and "bq_addr q' = bq_addr q" by simp_all
qed

text \<open>\<^verbatim>\<open>fibre_cond_wait\<close> enters the queue of the condition before it gives the mutex up, and leaves the mutex
  free: a broadcast after it, by whoever gets the mutex next, wakes the caller after all earlier waiters, so no
  signal is lost between the test of the condition and the wait.\<close>

theorem cond_wait_atomic:
  assumes "bq_inv q F" and "cf \<notin> set (bq_nodes q)" and "sc_value m > 0" and "sc_qlock m = None"
    and "set (bq_nodes (sc_bq m)) \<inter> insert cf (set (bq_nodes q)) = {}"
    and "fibre_cond_wait now cf q m F = Some (r, next', q', m', F')"
  shows "r = None \<and> sc_value m' = 0 \<and> sc_owner m' = None
    \<and> bq_waiters q' F' = bq_waiters q F @ [cf]
    \<and> fst (snd (fibre_cond_broadcast q' F')) = bq_waiters q F @ [cf]"
proof -
  obtain F1 where b: "bq_block_begin cf q F = Some (q', F1)" and rel: "sc_release m F1 = Some (next', m', F')" and r: "r = None"
    using assms(6) by (auto simp: fibre_cond_wait_def cond_wait_def elim!: bind_eq_SomeE)
  have q': "q' = q\<lparr>bq_nodes := bq_nodes q @ [cf]\<rparr>" and F1: "F1 = F(cf := (F cf)\<lparr>resumeInfo := 0\<rparr>)"
    using b by (simp_all add: bq_block_begin_Some)
  have m': "sc_value m' = 0" "sc_owner m' = None"
    using rel by (auto simp: sc_release_eq [OF assms(3,4)] Let_def split: if_splits prod.splits)
  have same: "F' f = F1 f" if "f \<in> set (bq_nodes q')" for f
  proof -
    have "f \<notin> set (bq_nodes (sc_bq m))" using that assms(5) by (auto simp: q')
    then show ?thesis
      using rel bq_unblock_others(1) [of "sc_bq m" F1 _ _ _ f]
      by (auto simp: sc_release_eq [OF assms(3,4)] Let_def split: if_splits prod.splits)
  qed
  have "bq_waiters q' F' = bq_waiters q' F1"
    unfolding bq_waiters_def using same by (intro filter_cong) simp_all
  also have "\<dots> = bq_waiters q F @ [cf]"
    using assms(2) by (auto simp: bq_waiters_def q' F1 intro!: filter_cong)
  finally have w: "bq_waiters q' F' = bq_waiters q F @ [cf]" .
  have inv: "bq_inv q' F'" using assms(1,2) by (simp add: bq_inv_def q')
  have "fst (cond_signal True q' F') = bq_waiters q' F'"
    using signal_broadcast_all [OF inv] by (auto simp: cond_signal_def)
  then show ?thesis using w m' r by (simp add: fibre_cond_broadcast_def)
qed

definition api_freds :: freds where "api_freds = (\<lambda>f. new_fred False 0 0)"

theorem cond_wait_atomic_witness:
  "fst (snd (fibre_cond_broadcast \<lparr>bq_addr = 200, bq_nodes = [3, 1]\<rparr> (api_freds(1 := (api_freds 1)\<lparr>resumeInfo := 0\<rparr>)))) = [3, 1]"
proof -
  have "fibre_cond_wait time_zero 1 \<lparr>bq_addr = 200, bq_nodes = [3]\<rparr> ((new_scmutex 100)\<lparr>sc_value := 1, sc_owner := Some 1\<rparr>) api_freds
      = Some (None, None, \<lparr>bq_addr = 200, bq_nodes = [3, 1]\<rparr>, new_scmutex 100, api_freds(1 := (api_freds 1)\<lparr>resumeInfo := 0\<rparr>))"
    by (simp add: fibre_cond_wait_def cond_wait_def bq_block_begin_def prepareResumeRace_def api_freds_def new_fred_def
        sc_release_def sc_release1_def sc_release2_def new_scmutex_def)
  from cond_wait_atomic [OF _ _ _ _ _ this] show ?thesis
    by (simp add: bq_inv_def new_scmutex_def queue_init_def bq_waiters_def api_freds_def new_fred_def)
qed

section \<open>A timed wait with a contended mutex\<close>

text \<open>C5: A fibre whose \<^verbatim>\<open>fibre_cond_timedwait\<close> has timed out acquires the mutex to remove its node from the
  queue of the condition. When the mutex is held, it enters the queue of the mutex, which prepares its resume
  race anew while its node is still in the queue of the condition. A signal by the holder then wins that race:
  it is spent on the fibre that has timed out, the acquisition returns without the mutex (which is ignored),
  and the removal of the node, which the signal has unlinked already, dereferences null links.\<close>

theorem cond_timedwait_race:
  assumes q: "bq_nodes q = cf # ns" "cf \<notin> set ns" "bq_addr q \<noteq> 0"
    and timeout: "resumeInfo (F cf) \<noteq> 0" "resumeInfo (F cf) \<noteq> bq_addr q" "runState (F cf) = Running"
    and held: "sc_owner m = Some g" "g \<noteq> cf" "sc_value m \<noteq> 0" "sc_qlock m = None" "bq_addr (sc_bq m) \<noteq> bq_addr q"
  shows "\<not> cond_won cf q F
    \<and> (\<exists>m1 F1 q2 F2 m3. sc_acquire Wait now cf m F = Some (None, m1, F1)
        \<and> fibre_cond_signal q F1 = (0, [cf], q2, F2) \<and> bq_nodes q2 = ns
        \<and> sc_woken Wait now cf m1 F2 = Some (Some False, m3, F2) \<and> sc_owner m3 = Some g \<and> sc_value m3 \<noteq> 0
        \<and> cond_cleanup sc_release cf q2 m3 F2 = None)"
proof -
  define m0 where "m0 = m\<lparr>sc_value := 2\<rparr>"
  define m1 where "m1 = m0\<lparr>sc_bq := (sc_bq m)\<lparr>bq_nodes := bq_nodes (sc_bq m) @ [cf]\<rparr>, sc_qlock := None\<rparr>"
  define F1 where "F1 = F(cf := (F cf)\<lparr>resumeInfo := 0\<rparr>)"
  define F2 where "F2 = F(cf := (F cf)\<lparr>resumeInfo := bq_addr q\<rparr>)"
  define m3 where "m3 = m1\<lparr>sc_bq := (sc_bq m1)\<lparr>bq_nodes := remove1 cf (bq_nodes (sc_bq m1))\<rparr>\<rparr>"
  have "sc_acquire Wait now cf m F = Some (None, m1, F1)"
    using held timeout(3)
    by (simp add: acquire_defs eval_nat_numeral tryLock2_def cq_check_def cq_enqueue_def bq_block_begin_def
        prepareResumeRace_def m0_def m1_def F1_def)
  moreover have "fibre_cond_signal q F1 = (0, [cf], q\<lparr>bq_nodes := ns\<rparr>, F2)"
    using q by (simp add: fibre_cond_signal_def cond_signal_def bq_unblock_def raceResume_def F1_def F2_def Let_def)
  moreover have "sc_woken Wait now cf m1 F2 = Some (Some False, m3, F2)"
    using held(5) by (simp add: sc_woken_def bq_block_end_def F2_def m1_def m0_def m3_def Let_def)
  moreover have "sc_owner m3 = Some g \<and> sc_value m3 \<noteq> 0"
    using held by (simp add: m3_def m1_def m0_def)
  moreover have "cond_cleanup sc_release cf (q\<lparr>bq_nodes := ns\<rparr>) m3 F2 = None"
    using q(2) by (simp add: cond_cleanup_def)
  ultimately show ?thesis
    using timeout(2) by (intro conjI exI [of _ m1] exI [of _ F1] exI [of _ "q\<lparr>bq_nodes := ns\<rparr>"] exI [of _ F2] exI [of _ m3])
      (simp_all add: cond_won_def)
qed

theorem cond_timedwait_race_witness:
  "\<exists>m1 F1 q2 F2 m3. sc_acquire Wait time_zero 1 ((new_scmutex 100)\<lparr>sc_value := 1, sc_owner := Some 2\<rparr>)
        (api_freds(1 := (api_freds 1)\<lparr>resumeInfo := 50\<rparr>)) = Some (None, m1, F1)
      \<and> fibre_cond_signal \<lparr>bq_addr = 200, bq_nodes = [1, 3]\<rparr> F1 = (0, [1], q2, F2)
      \<and> sc_woken Wait time_zero 1 m1 F2 = Some (Some False, m3, F2) \<and> cond_cleanup sc_release 1 q2 m3 F2 = None"
  using cond_timedwait_race [of "\<lparr>bq_addr = 200, bq_nodes = [1, 3]\<rparr>" 1 "[3]"
      "api_freds(1 := (api_freds 1)\<lparr>resumeInfo := 50\<rparr>)" "(new_scmutex 100)\<lparr>sc_value := 1, sc_owner := Some 2\<rparr>" 2 time_zero]
  by (fastforce simp: api_freds_def new_fred_def new_scmutex_def)

end
