(* ===== verification/Event_Scope.thy ===== *)
theory Event_Scope
  imports Locked_Sync
begin

text \<open>
  File descriptors and user-level blocking I/O: class \<^verbatim>\<open>EventScope\<close> of
  \<^verbatim>\<open>src/src/libfibre/EventScope.h\<close> with the poller types and \<^verbatim>\<open>setupFD\<close> of \<^verbatim>\<open>Poller.h\<close>
  (Linux, without \<^verbatim>\<open>io_uring\<close> and worker pollers, as in \<^verbatim>\<open>testoptions.h.default\<close>). The event polling
  mode and \<^verbatim>\<open>TESTING_EVENTPOLL_TRYREAD\<close> are parameters. System calls are parameters too: a call that is
  made once is given by its result and \<^verbatim>\<open>errno\<close>, a call that is retried by the sequence of these.
\<close>

section \<open>Poller types\<close>

type_synonym flags = "32 word"

datatype PollOp = Create | Modify | Remove
datatype Variant = Level | Edge | Oneshot | OnDemand

definition EPOLLIN :: flags where "EPOLLIN = 0x001"
definition EPOLLPRI :: flags where "EPOLLPRI = 0x002"
definition EPOLLOUT :: flags where "EPOLLOUT = 0x004"
definition EPOLLERR :: flags where "EPOLLERR = 0x008"
definition EPOLLHUP :: flags where "EPOLLHUP = 0x010"
definition EPOLLRDHUP :: flags where "EPOLLRDHUP = 0x2000"
definition EPOLLONDEMAND :: flags where "EPOLLONDEMAND = push_bit 24 1"
definition EPOLLONESHOT :: flags where "EPOLLONESHOT = push_bit 30 1"
definition EPOLLET :: flags where "EPOLLET = push_bit 31 1"

text \<open>\<^verbatim>\<open>enum Direction\<close> (true is \<^verbatim>\<open>Input\<close>) and \<^verbatim>\<open>enum Variant\<close> as event masks.\<close>

definition poll_direction :: "bool \<Rightarrow> flags" where
  "poll_direction Input = (if Input then EPOLLIN OR EPOLLPRI OR EPOLLRDHUP else EPOLLOUT)"

fun poll_variant :: "Variant \<Rightarrow> flags" where
  "poll_variant Level = 0"
| "poll_variant Edge = EPOLLET"
| "poll_variant Oneshot = EPOLLONESHOT"
| "poll_variant OnDemand = EPOLLONESHOT OR EPOLLONDEMAND"

text \<open>The pollers of a cluster, and the \<^verbatim>\<open>epoll_ctl\<close> call of \<^verbatim>\<open>setupFD\<close>: operation, descriptor and
  event mask.\<close>

datatype poller = InPoller nat | OutPoller nat | MasterPoller

definition setupFD :: "int \<Rightarrow> PollOp \<Rightarrow> bool \<Rightarrow> Variant \<Rightarrow> PollOp \<times> int \<times> flags option" where
  "setupFD fd op dir var =
     (op, fd, if op = Remove then None else Some (poll_direction dir OR poll_variant var))"

record cluster_polls =
  iPollCount :: nat
  oPollCount :: nat

definition getInputPoller :: "nat \<Rightarrow> cluster_polls \<Rightarrow> poller" where
  "getInputPoller hint c = InPoller (hint mod iPollCount c)"

definition getOutputPoller :: "nat \<Rightarrow> cluster_polls \<Rightarrow> poller" where
  "getOutputPoller hint c = OutPoller (hint mod oPollCount c)"

section \<open>Descriptor table\<close>

record syncfd =
  sfd_sync :: "bool \<Rightarrow> lsem"
  sfd_poller :: "bool \<Rightarrow> poller option"
  sfd_blocking :: bool
  sfd_useUring :: bool

definition new_syncfd :: "addr \<Rightarrow> addr \<Rightarrow> syncfd" where
  "new_syncfd a b = \<lparr>sfd_sync = (\<lambda>Input. new_sem (if Input then a else b) 0), sfd_poller = (\<lambda>_. None),
     sfd_blocking = False, sfd_useUring = False\<rparr>"

record evscope =
  fdSyncVector :: "syncfd list"
  diskCluster :: "nat option"

text \<open>\<^verbatim>\<open>initSync\<close>: one entry per descriptor allowed by the limit; \<open>addr\<close> gives the addresses of the
  semaphores.\<close>

definition es_initSync :: "nat \<Rightarrow> (nat \<Rightarrow> bool \<Rightarrow> addr) \<Rightarrow> evscope" where
  "es_initSync rlim_cur addr =
     \<lparr>fdSyncVector = map (\<lambda>f. new_syncfd (addr f True) (addr f False)) [0..<rlim_cur], diskCluster = None\<rparr>"

text \<open>\<^verbatim>\<open>RASSERT0(fd >= 0 && fd < fdCount)\<close> and the access to the entry.\<close>

definition fdsync :: "int \<Rightarrow> evscope \<Rightarrow> syncfd option" where
  "fdsync fd es = do { rassert (0 \<le> fd \<and> fd < int (length (fdSyncVector es))); Some (fdSyncVector es ! nat fd) }"

definition fdset :: "int \<Rightarrow> syncfd \<Rightarrow> evscope \<Rightarrow> evscope" where
  "fdset fd s es = es\<lparr>fdSyncVector := (fdSyncVector es)[nat fd := s]\<rparr>"

text \<open>\<^verbatim>\<open>cloneInternal\<close>: the new scope takes over the two flags of every descriptor.\<close>

definition es_cloneInternal :: "evscope \<Rightarrow> evscope \<Rightarrow> evscope" where
  "es_cloneInternal parent es = es\<lparr>fdSyncVector := map2 (\<lambda>p s. s\<lparr>sfd_blocking := sfd_blocking p, sfd_useUring := sfd_useUring p\<rparr>)
     (fdSyncVector parent) (fdSyncVector es)\<rparr>"

definition cleanupFD :: "int \<Rightarrow> evscope \<Rightarrow> evscope option" where
  "cleanupFD fd es =
     do { s \<leftarrow> fdsync fd es;
          o_sem \<leftarrow> sem_reset 0 (sfd_sync s False);
          i_sem \<leftarrow> sem_reset 0 (sfd_sync s True);
          Some (fdset fd \<lparr>sfd_sync = (\<lambda>Input. if Input then i_sem else o_sem), sfd_poller = (\<lambda>_. None),
                          sfd_blocking = False, sfd_useUring = False\<rparr> es) }"

definition getPoller :: "bool \<Rightarrow> int \<Rightarrow> cluster_polls \<Rightarrow> poller" where
  "getPoller Input fd c = (if \<not> Input then getOutputPoller (nat fd) c else getInputPoller (nat fd) c)"

text \<open>Semaphore operations of the pollers on a descriptor.\<close>

definition es_tryblock :: "time \<Rightarrow> fid \<Rightarrow> int \<Rightarrow> freds \<Rightarrow> evscope \<Rightarrow> (bool \<times> evscope) option" where
  "es_tryblock now cf fd F es =
     do { s \<leftarrow> fdsync fd es;
          (r, m, F') \<leftarrow> sem_tryP now cf (sfd_sync s True) F;
          Some (r = Some SemaphoreWasOpen, fdset fd (s\<lparr>sfd_sync := (sfd_sync s)(True := m)\<rparr>) es) }"

definition es_unblock :: "bool \<Rightarrow> int \<Rightarrow> freds \<Rightarrow> evscope \<Rightarrow> (fid option \<times> freds \<times> evscope) option" where
  "es_unblock Input fd F es =
     do { s \<leftarrow> fdsync fd es;
          let (next, m, F') = sem_V True (sfd_sync s Input) F;
          Some (next, F', fdset fd (s\<lparr>sfd_sync := (sfd_sync s)(Input := m)\<rparr>) es) }"

text \<open>A poller fibre registers its own descriptor with the master poller, and later arms it again and
  waits. The \<^verbatim>\<open>epoll_ctl\<close> call of the master poller is part of the result.\<close>

definition registerPollFD :: "int \<Rightarrow> evscope \<Rightarrow> (PollOp \<times> int \<times> flags option) option" where
  "registerPollFD fd es = do { s \<leftarrow> fdsync fd es; Some (setupFD fd Create True Oneshot) }"

definition blockPollFD :: "time \<Rightarrow> fid \<Rightarrow> int \<Rightarrow> freds \<Rightarrow> evscope \<Rightarrow>
    ((PollOp \<times> int \<times> flags option) \<times> SemaphoreResult option \<times> freds \<times> evscope) option" where
  "blockPollFD now cf fd F es =
     do { s \<leftarrow> fdsync fd es;
          (r, m, F') \<leftarrow> sem_internalP Wait now cf (sfd_sync s True) F;
          Some (setupFD fd Modify True Oneshot, r, F', fdset fd (s\<lparr>sfd_sync := (sfd_sync s)(True := m)\<rparr>) es) }"

definition unblockPollFD :: "int \<Rightarrow> freds \<Rightarrow> evscope \<Rightarrow> (fid option \<times> freds \<times> evscope) option" where
  "unblockPollFD fd F es = es_unblock True fd F es"

definition es_preFork :: "bool \<Rightarrow> bool \<Rightarrow> evscope \<Rightarrow> unit option" where
  "es_preFork currIsMain timersEmpty es =
     do { rassert currIsMain; rassert timersEmpty; rassert (diskCluster es = None);
          rassert (\<forall>s \<in> set (fdSyncVector es). sem_counter (sfd_sync s False) \<ge> 0 \<and> sem_counter (sfd_sync s True) \<ge> 0
             \<and> sfd_poller s False = None \<and> sfd_poller s True = None) }"

section \<open>Blocking I/O\<close>

definition EAGAIN :: int where "EAGAIN = 11"
definition EINPROGRESS :: int where "EINPROGRESS = 115"

definition TestEAGAIN :: "int \<Rightarrow> bool" where "TestEAGAIN serrno = (serrno = EAGAIN)"

text \<open>\<^verbatim>\<open>tryIO\<close>: the outcome of one call (result, \<^verbatim>\<open>errno\<close>) ends the operation.\<close>

definition tryIO :: "int \<times> int \<Rightarrow> bool" where
  "tryIO r = (fst r \<ge> 0 \<or> \<not> TestEAGAIN (snd r))"

datatype pollmode = PollEdge | PollOneshot | PollOnDemand | PollLevel

fun es_variant :: "pollmode \<Rightarrow> bool \<Rightarrow> bool \<Rightarrow> Variant" where
  "es_variant PollEdge Input Read = (if Input then Edge else Oneshot)"
| "es_variant PollOneshot Input Read = Oneshot"
| "es_variant PollOnDemand Input Read = (if Input then OnDemand else Oneshot)"
| "es_variant PollLevel Input Read = (if Read then Level else Oneshot)"

text \<open>What a fibre does in \<^verbatim>\<open>syncIO\<close>, in order: yield, call the I/O function, set up polling, wait on the
  semaphore of the descriptor (with or without resetting it first).\<close>

datatype io_act = AYield | ACall | ASetup poller "PollOp \<times> int \<times> flags option" | AWait | AP

definition es_arm :: "Variant \<Rightarrow> bool \<Rightarrow> int \<Rightarrow> poller \<Rightarrow> poller option \<Rightarrow> poller \<times> io_act list" where
  "es_arm var Input fd fresh p =
     (case p of
        None \<Rightarrow> (fresh, [ASetup fresh (setupFD fd Create Input var)])
      | Some q \<Rightarrow> (q, if var = Oneshot then [ASetup q (setupFD fd Modify Input var)] else []))"

text \<open>The loop of \<^verbatim>\<open>syncIO\<close>: \<open>io k\<close> is the outcome of call number \<open>k\<close>. No result: the loop has not ended
  after \<open>fuel\<close> rounds.\<close>

fun syncIO_loop :: "nat \<Rightarrow> Variant \<Rightarrow> bool \<Rightarrow> int \<Rightarrow> poller \<Rightarrow> (nat \<Rightarrow> int \<times> int) \<Rightarrow> nat \<Rightarrow> io_act list \<Rightarrow> (int \<times> io_act list) option" where
  "syncIO_loop 0 var Input fd p io k acts = None"
| "syncIO_loop (Suc fuel) var Input fd p io k acts =
     (let acts1 = acts @ [if var = Level then AWait else AP, ACall]
      in if tryIO (io k) then Some (fst (io k), acts1)
         else syncIO_loop fuel var Input fd p io (Suc k)
                (acts1 @ (if var = Oneshot then [ASetup p (setupFD fd Modify Input var)] else [])))"

definition syncIO :: "pollmode \<Rightarrow> bool \<Rightarrow> cluster_polls \<Rightarrow> nat \<Rightarrow> bool \<Rightarrow> bool \<Rightarrow> (nat \<Rightarrow> int \<times> int) \<Rightarrow> int \<Rightarrow> evscope
    \<Rightarrow> (int \<times> io_act list \<times> evscope) option" where
  "syncIO mode tryread cl fuel Input Accept io fd es =
     (let Read = (Input \<and> \<not> Accept);
          var = es_variant mode Input Read;
          first = (Read \<longrightarrow> tryread);
          acts = (if Read \<and> tryread then [AYield] else []) @ (if first then [ACall] else [])
      in if first \<and> tryIO (io 0) then Some (fst (io 0), acts, es)
         else do { s \<leftarrow> fdsync fd es;
                   let (p, arm) = es_arm var Input fd (getPoller Input fd cl) (sfd_poller s Input);
                   (ret, acts') \<leftarrow> syncIO_loop fuel var Input fd p io (if first then 1 else 0) (acts @ arm);
                   Some (ret, acts', fdset fd (s\<lparr>sfd_poller := (sfd_poller s)(Input := Some p)\<rparr>) es) })"

definition blockingInput :: "pollmode \<Rightarrow> bool \<Rightarrow> cluster_polls \<Rightarrow> nat \<Rightarrow> (nat \<Rightarrow> int \<times> int) \<Rightarrow> int \<Rightarrow> evscope \<Rightarrow> (int \<times> io_act list \<times> evscope) option" where
  "blockingInput mode tryread cl fuel = syncIO mode tryread cl fuel True False"

definition blockingOutput :: "pollmode \<Rightarrow> bool \<Rightarrow> cluster_polls \<Rightarrow> nat \<Rightarrow> (nat \<Rightarrow> int \<times> int) \<Rightarrow> int \<Rightarrow> evscope \<Rightarrow> (int \<times> io_act list \<times> evscope) option" where
  "blockingOutput mode tryread cl fuel = syncIO mode tryread cl fuel False False"

text \<open>\<^verbatim>\<open>syncInput\<close> and \<^verbatim>\<open>syncOutput\<close>: a descriptor that the application made non-blocking is passed to the
  system.\<close>

definition syncInput :: "pollmode \<Rightarrow> bool \<Rightarrow> cluster_polls \<Rightarrow> nat \<Rightarrow> (nat \<Rightarrow> int \<times> int) \<Rightarrow> int \<Rightarrow> evscope \<Rightarrow> (int \<times> io_act list \<times> evscope) option" where
  "syncInput mode tryread cl fuel io fd es =
     do { s \<leftarrow> fdsync fd es;
          if \<not> sfd_blocking s then Some (fst (io 0), [ACall], es)
          else blockingInput mode tryread cl fuel io fd es }"

definition syncOutput :: "pollmode \<Rightarrow> bool \<Rightarrow> cluster_polls \<Rightarrow> nat \<Rightarrow> (nat \<Rightarrow> int \<times> int) \<Rightarrow> int \<Rightarrow> evscope \<Rightarrow> (int \<times> io_act list \<times> evscope) option" where
  "syncOutput mode tryread cl fuel io fd es =
     do { s \<leftarrow> fdsync fd es;
          if \<not> sfd_blocking s then Some (fst (io 0), [ACall], es)
          else blockingOutput mode tryread cl fuel io fd es }"

section \<open>Correctness of blocking I/O\<close>

text \<open>A descriptor is armed after a set-up; a one-shot registration is used up by the event that ends a
  wait. Every wait must find the descriptor armed.\<close>

fun armed_after :: "Variant \<Rightarrow> bool \<Rightarrow> io_act list \<Rightarrow> bool" where
  "armed_after var a [] = a"
| "armed_after var a (x # xs) =
     armed_after var (case x of ASetup _ _ \<Rightarrow> True | AWait \<Rightarrow> a \<and> var \<noteq> Oneshot | AP \<Rightarrow> a \<and> var \<noteq> Oneshot | _ \<Rightarrow> a) xs"

fun io_trace_ok :: "Variant \<Rightarrow> bool \<Rightarrow> io_act list \<Rightarrow> bool" where
  "io_trace_ok var a [] = True"
| "io_trace_ok var a (x # xs) = ((x = AWait \<or> x = AP \<longrightarrow> a) \<and> io_trace_ok var (armed_after var a [x]) xs)"

lemma armed_after_append [simp]: "armed_after var a (xs @ ys) = armed_after var (armed_after var a xs) ys"
  by (induction xs arbitrary: a) auto

lemma io_trace_ok_append [simp]:
  "io_trace_ok var a (xs @ ys) \<longleftrightarrow> io_trace_ok var a xs \<and> io_trace_ok var (armed_after var a xs) ys"
  by (induction xs arbitrary: a) auto

lemma syncIO_loop_returns:
  assumes "io_trace_ok var a acts" and "armed_after var a acts"
    and "\<And>j. j < n \<Longrightarrow> \<not> tryIO (io (k + j))" and "tryIO (io (k + n))" and "n < fuel"
  shows "\<exists>acts'. syncIO_loop fuel var Input fd p io k acts = Some (fst (io (k + n)), acts')
    \<and> io_trace_ok var a acts' \<and> count_list acts' ACall = count_list acts ACall + n + 1"
  using assms
proof (induction fuel arbitrary: k n acts)
  case (Suc fuel)
  show ?case
  proof (cases n)
    case 0
    with Suc.prems show ?thesis by (auto simp: Let_def)
  next
    case (Suc m)
    let ?acts = "acts @ [if var = Level then AWait else AP, ACall] @ (if var = Oneshot then [ASetup p (setupFD fd Modify Input var)] else [])"
    have "\<not> tryIO (io k)" using Suc.prems(3) [of 0] Suc by simp
    then have step: "syncIO_loop (Suc fuel) var Input fd p io k acts = syncIO_loop fuel var Input fd p io (Suc k) ?acts"
      by (simp add: Let_def)
    have "\<exists>acts'. syncIO_loop fuel var Input fd p io (Suc k) ?acts = Some (fst (io (Suc k + m)), acts')
      \<and> io_trace_ok var a acts' \<and> count_list acts' ACall = count_list ?acts ACall + m + 1"
    proof (rule Suc.IH)
      show "\<not> tryIO (io (Suc k + j))" if "j < m" for j using Suc.prems(3) [of "Suc j"] that Suc by simp
      show "tryIO (io (Suc k + m))" "m < fuel" using Suc.prems(4,5) Suc by simp_all
    qed (use Suc.prems(1,2) in auto)
    with step show ?thesis using Suc by auto
  qed
qed simp

lemma syncIO_loop_waits:
  assumes "\<And>j. \<not> tryIO (io (k + j))"
  shows "syncIO_loop fuel var Input fd p io k acts = None"
  using assms
proof (induction fuel arbitrary: k acts)
  case (Suc fuel)
  have "\<not> tryIO (io k)" using Suc.prems [of 0] by simp
  moreover have "\<not> tryIO (io (Suc k + j))" for j using Suc.prems [of "Suc j"] by simp
  ultimately show ?case using Suc.IH by (simp add: Let_def)
qed simp

lemma fdsync_Some: "0 \<le> fd \<Longrightarrow> fd < int (length (fdSyncVector es)) \<Longrightarrow> fdsync fd es = Some (fdSyncVector es ! nat fd)"
  by (simp add: fdsync_def)

lemma es_arm_ok:
  assumes "es_arm var Input fd fresh p = (q, arm)"
  shows "armed_after var (p \<noteq> None \<and> var \<noteq> Oneshot) arm" and "io_trace_ok var b arm" and "count_list arm ACall = 0"
    and "q = (case p of None \<Rightarrow> fresh | Some r \<Rightarrow> r)"
  using assms by (auto simp: es_arm_def split: option.splits if_splits)

text \<open>C12: Blocking I/O on a descriptor (\<^verbatim>\<open>syncIO\<close>, in every polling mode, for reads, accepts and writes): the
  operation returns the outcome of the first call of the I/O function that is not a failure with
  \<^verbatim>\<open>EAGAIN\<close>, after exactly that many calls; it does not return, whatever the number of rounds, as long as
  the calls fail with \<^verbatim>\<open>EAGAIN\<close>. Before every wait the descriptor has been armed with its poller: once
  for level and edge triggering, anew for each wait with one-shot polling. The poller of the direction is
  chosen once and kept.\<close>

theorem syncIO_correct:
  fixes mode :: pollmode and Input Accept :: bool and es :: evscope and fd :: int
  assumes fd: "0 \<le> fd" "fd < int (length (fdSyncVector es))"
    and k: "tryIO (io k)" "\<And>j. j < k \<Longrightarrow> \<not> tryIO (io j)" and "k < fuel"
  defines "var \<equiv> es_variant mode Input (Input \<and> \<not> Accept)"
  defines "old \<equiv> sfd_poller (fdSyncVector es ! nat fd) Input"
  shows "(\<exists>acts es'. syncIO mode tryread cl fuel Input Accept io fd es = Some (fst (io k), acts, es')
      \<and> io_trace_ok var (old \<noteq> None \<and> var \<noteq> Oneshot) acts \<and> count_list acts ACall = Suc k
      \<and> (es' = es \<or> es' = fdset fd ((fdSyncVector es ! nat fd)\<lparr>sfd_poller := (sfd_poller (fdSyncVector es ! nat fd))
           (Input := Some (case old of None \<Rightarrow> getPoller Input fd cl | Some q \<Rightarrow> q))\<rparr>) es))
    \<and> ((\<forall>j. \<not> tryIO (io' j)) \<longrightarrow> syncIO mode tryread cl n Input Accept io' fd es = None)"
proof -
  let ?s = "fdSyncVector es ! nat fd" and ?Read = "Input \<and> \<not> Accept"
  let ?first = "?Read \<longrightarrow> tryread"
  let ?pre = "(if ?Read \<and> tryread then [AYield] else []) @ (if ?first then [ACall] else [])"
  let ?k0 = "if ?first then 1 else 0 :: nat"
  obtain q arm where arm: "es_arm var Input fd (getPoller Input fd cl) old = (q, arm)" by fastforce
  note q = es_arm_ok [OF arm]
  have eq: "syncIO mode tryread cl m Input Accept i fd es =
      (if ?first \<and> tryIO (i 0) then Some (fst (i 0), ?pre, es)
       else do { (ret, acts') \<leftarrow> syncIO_loop m var Input fd q i ?k0 (?pre @ arm);
                 Some (ret, acts', fdset fd (?s\<lparr>sfd_poller := (sfd_poller ?s)(Input := Some q)\<rparr>) es) })" for m i
    unfolding syncIO_def Let_def var_def [symmetric]
    by (simp only: fdsync_Some [OF fd] Option.bind.simps old_def [symmetric] arm prod.case)
  have "\<exists>acts es'. syncIO mode tryread cl fuel Input Accept io fd es = Some (fst (io k), acts, es')
      \<and> io_trace_ok var (old \<noteq> None \<and> var \<noteq> Oneshot) acts \<and> count_list acts ACall = Suc k
      \<and> (es' = es \<or> es' = fdset fd (?s\<lparr>sfd_poller := (sfd_poller ?s)(Input := Some q)\<rparr>) es)"
  proof (cases "?first \<and> tryIO (io 0)")
    case True
    then have "k = 0" using k(2) [of 0] by (cases k) auto
    with True show ?thesis unfolding eq by auto
  next
    case False
    have kk: "?k0 \<le> k" using False k(1) by (cases k) auto
    have "\<exists>acts'. syncIO_loop fuel var Input fd q io ?k0 (?pre @ arm) = Some (fst (io (?k0 + (k - ?k0))), acts')
        \<and> io_trace_ok var (old \<noteq> None \<and> var \<noteq> Oneshot) acts'
        \<and> count_list acts' ACall = count_list (?pre @ arm) ACall + (k - ?k0) + 1"
    proof (rule syncIO_loop_returns)
      show "\<not> tryIO (io (?k0 + j))" if "j < k - ?k0" for j using k(2) [of "?k0 + j"] that by simp
    qed (use q kk k(1) \<open>k < fuel\<close> in auto)
    then obtain acts' where "syncIO_loop fuel var Input fd q io ?k0 (?pre @ arm) = Some (fst (io k), acts')"
      "io_trace_ok var (old \<noteq> None \<and> var \<noteq> Oneshot) acts'" "count_list acts' ACall = Suc k"
      using q(3) kk by (auto split: if_splits)
    then show ?thesis unfolding eq using False by auto
  qed
  moreover have "(\<forall>j. \<not> tryIO (io' j)) \<longrightarrow> syncIO mode tryread cl n Input Accept io' fd es = None"
    unfolding eq using syncIO_loop_waits [of io' ?k0] by (auto split: if_splits)
  ultimately show ?thesis unfolding q(4) by blast
qed

text \<open>Witness: two failures with \<^verbatim>\<open>EAGAIN\<close>, then 5 bytes.\<close>

theorem syncIO_correct_witness:
  "\<exists>acts es'. syncIO PollOneshot True \<lparr>iPollCount = 1, oPollCount = 1\<rparr> 10 True False
       (\<lambda>n. if n < 2 then (-1, 11) else (5, 0)) 3 (es_initSync 4 (\<lambda>f i. 1)) = Some (5, acts, es')
     \<and> count_list acts ACall = 3"
proof -
  let ?io = "\<lambda>n::nat. if n < 2 then (-1, 11) else (5, 0) :: int \<times> int"
  have "0 \<le> (3::int)" "3 < int (length (fdSyncVector (es_initSync 4 (\<lambda>f i. 1))))" by (simp_all add: es_initSync_def)
  moreover have "tryIO (?io 2)" "\<And>j. j < 2 \<Longrightarrow> \<not> tryIO (?io j)" "(2::nat) < 10"
    by (simp_all add: tryIO_def TestEAGAIN_def EAGAIN_def)
  ultimately show ?thesis
    using syncIO_correct [where fd = 3 and es = "es_initSync 4 (\<lambda>f i. 1)" and io = ?io and k = 2 and fuel = 10
        and mode = PollOneshot and Input = True and Accept = False and tryread = True
        and cl = "\<lparr>iPollCount = 1, oPollCount = 1\<rparr>"] by fastforce
qed

end
