(* ===== verification/Io_Protocol.thy ===== *)
theory Io_Protocol
  imports Event_Scope
begin

text \<open>
  The fibres that use one direction of one descriptor, the semaphore of that direction, the registration
  with its poller and the poller itself, as a transition system: the control flow of
  \<^verbatim>\<open>EventScope::syncIO\<close> with the semaphore operations of theory \<open>Locked_Sync\<close>. The system may report an event
  whenever the registration is armed; a report uses up a one-shot registration (\<^verbatim>\<open>epoll(7)\<close>). The poller
  answers a report with \<^verbatim>\<open>V\<close> (\<^verbatim>\<open>BasePoller::notifyOne\<close>).
\<close>

section \<open>Transitions\<close>

datatype io_pc = IoOut | IoTry | IoArm | IoWait | IoBlocked | IoRetry | IoRearm

record io_sys =
  iosem :: sem_sys             \<comment> \<open>\<open>fdSyncVector[fd].sync[Input]\<close> and the freds\<close>
  iopoller :: "poller option"
  ioarmed :: bool
  iopend :: nat                \<comment> \<open>events reported to the poller, \<open>V\<close> not called yet\<close>
  iopc :: "fid \<Rightarrow> io_pc"

text \<open>The registration after \<^verbatim>\<open>es_arm\<close>: its actions contain a set-up, or it is unchanged.\<close>

definition io_arm :: "Variant \<Rightarrow> poller \<Rightarrow> io_sys \<Rightarrow> io_sys" where
  "io_arm var fresh s =
     (let (p, acts) = es_arm var True 0 fresh (iopoller s)
      in s\<lparr>iopoller := Some p, ioarmed := (ioarmed s \<or> acts \<noteq> [])\<rparr>)"

definition io_entered :: "fid \<Rightarrow> SemaphoreResult option \<times> lsem \<times> freds \<Rightarrow> io_sys \<Rightarrow> io_sys" where
  "io_entered cf r s =
     s\<lparr>iosem := sem_entered cf r (iosem s), iopc := (iopc s)(cf := if fst r = None then IoBlocked else IoRetry)\<rparr>"

abbreviation "io_at s cf c \<equiv> s\<lparr>iopc := (iopc s)(cf := c)\<rparr>"

inductive io_step :: "Variant \<Rightarrow> fid set \<Rightarrow> io_sys \<Rightarrow> io_sys \<Rightarrow> bool" for var U where
  enter: "cf \<in> U \<Longrightarrow> iopc s cf = IoOut \<Longrightarrow> c = IoTry \<or> c = IoArm \<Longrightarrow> io_step var U s (io_at s cf c)"
| try_done: "iopc s cf = IoTry \<or> iopc s cf = IoRetry \<Longrightarrow> tryIO r \<Longrightarrow> io_step var U s (io_at s cf IoOut)"
| try_again: "iopc s cf = IoTry \<Longrightarrow> \<not> tryIO r \<Longrightarrow> io_step var U s (io_at s cf IoArm)"
| retry_again: "iopc s cf = IoRetry \<Longrightarrow> \<not> tryIO r \<Longrightarrow> io_step var U s (io_at s cf IoRearm)"
| arm: "iopc s cf = IoArm \<Longrightarrow> io_step var U s (io_at (io_arm var fresh s) cf IoWait)"
| rearm: "iopc s cf = IoRearm \<Longrightarrow> io_step var U s (io_at (s\<lparr>ioarmed := (ioarmed s \<or> var = Oneshot)\<rparr>) cf IoWait)"
| wait: "iopc s cf = IoWait \<Longrightarrow> var = Level \<Longrightarrow>
     sem_wait True Wait now cf (ss (iosem s)) (sF (iosem s)) = Some r \<Longrightarrow> io_step var U s (io_entered cf r s)"
| P: "iopc s cf = IoWait \<Longrightarrow> var \<noteq> Level \<Longrightarrow>
     sem_internalP Wait now cf (ss (iosem s)) (sF (iosem s)) = Some r \<Longrightarrow> io_step var U s (io_entered cf r s)"
| woken: "iopc s cf = IoBlocked \<Longrightarrow> resumeInfo (sF (iosem s) cf) \<noteq> 0 \<Longrightarrow>
     sem_P_end cf (ss (iosem s)) (sF (iosem s)) = (res, l) \<Longrightarrow>
     io_step var U s (io_at (s\<lparr>iosem := (iosem s)\<lparr>ss := l, sB := sB (iosem s) - {cf},
                          sGot := sGot (iosem s) + (if res = SemaphoreSuccess then 1 else 0)\<rparr>\<rparr>) cf IoRetry)"
| event: "ioarmed s \<Longrightarrow> io_step var U s (s\<lparr>ioarmed := (var \<noteq> Oneshot), iopend := iopend s + 1\<rparr>)"
| notify: "0 < iopend s \<Longrightarrow> sem_V True (ss (iosem s)) (sF (iosem s)) = (next, l, F) \<Longrightarrow>
     io_step var U s (s\<lparr>iosem := (iosem s)\<lparr>ss := l, sF := F, sVs := sVs (iosem s) + 1\<rparr>, iopend := iopend s - 1\<rparr>)"

definition io_init :: "addr \<Rightarrow> freds \<Rightarrow> io_sys" where
  "io_init a F0 = \<lparr>iosem = \<lparr>ss = new_sem a 0, sF = F0, sB = {}, sVs = 0, sGot = 0\<rparr>, iopoller = None,
     ioarmed = False, iopend = 0, iopc = (\<lambda>_. IoOut)\<rparr>"

inductive io_reach :: "Variant \<Rightarrow> fid set \<Rightarrow> addr \<Rightarrow> freds \<Rightarrow> io_sys \<Rightarrow> bool" for var U a F0 where
  start: "io_reach var U a F0 (io_init a F0)"
| step: "io_reach var U a F0 s \<Longrightarrow> io_step var U s s' \<Longrightarrow> io_reach var U a F0 s'"

section \<open>Invariants\<close>

text \<open>The semaphore behaves as in theory \<open>Locked_Sync\<close>, for any number of fibres.\<close>

definition io_sem_inv :: "io_sys \<Rightarrow> bool" where
  "io_sem_inv s \<longleftrightarrow> sem_inv True 0 (iosem s) \<and> sB (iosem s) = {f. iopc s f = IoBlocked}"

lemma sem_entered_sB: "sB (sem_entered cf r m) = (if fst r = None then insert cf (sB m) else sB m)"
  by (cases r) (simp add: sem_entered_def)

lemma io_step_sem:
  assumes "io_step var U s s'" and "io_sem_inv s"
  shows "io_sem_inv s'"
  using assms(1)
proof cases
  case (wait cf now r)
  then have "cf \<notin> sB (iosem s)" using assms(2) by (simp add: io_sem_inv_def)
  from sem_step.wait [OF this wait(4)] have "sem_inv True 0 (sem_entered cf r (iosem s))"
    using assms(2) sem_step_inv by (simp add: io_sem_inv_def)
  with wait assms(2) show ?thesis by (auto simp: io_sem_inv_def io_entered_def sem_entered_sB)
next
  case (P cf now r)
  then have "cf \<notin> sB (iosem s)" using assms(2) by (simp add: io_sem_inv_def)
  from sem_step_inv [OF sem_step.P [where binary = True, OF this P(4)]] have "sem_inv True 0 (sem_entered cf r (iosem s))"
    using assms(2) by (simp add: io_sem_inv_def)
  with P assms(2) show ?thesis by (auto simp: io_sem_inv_def io_entered_def sem_entered_sB)
next
  case (woken cf res l)
  then have "cf \<in> sB (iosem s)" using assms(2) by (simp add: io_sem_inv_def)
  note st = sem_step_inv [where c = 0, OF sem_step.woken [where binary = True, OF this woken(3,4)]]
  have "sem_inv True 0 (iosem s)" "sB (iosem s) = {f. iopc s f = IoBlocked}"
    using assms(2) by (simp_all add: io_sem_inv_def)
  with st [OF this(1)] woken(1) show ?thesis by (auto simp: io_sem_inv_def)
next
  case (notify "next" l F)
  from sem_step.V [OF notify(3)] assms(2) notify(1) show ?thesis
    using sem_step_inv by (auto simp: io_sem_inv_def)
qed (use assms(2) in \<open>auto simp: io_sem_inv_def io_arm_def split: prod.splits\<close>)

text \<open>A single user \<open>f\<close>: before it waits, a wake-up is available or under way, or the descriptor is armed; a
  level- or edge-triggered registration stays armed.\<close>

definition io_key :: "Variant \<Rightarrow> fid \<Rightarrow> io_sys \<Rightarrow> bool" where
  "io_key var f s \<longleftrightarrow> (\<forall>g. g \<noteq> f \<longrightarrow> iopc s g = IoOut)
     \<and> (iopoller s = None \<longrightarrow> iopc s f \<in> {IoOut, IoTry, IoArm})
     \<and> (var \<noteq> Oneshot \<longrightarrow> iopoller s \<noteq> None \<longrightarrow> ioarmed s)
     \<and> (iopc s f = IoWait \<longrightarrow> ioarmed s \<or> 0 < iopend s \<or> 0 < sem_counter (ss (iosem s)))
     \<and> (iopc s f = IoBlocked \<longrightarrow> resumeInfo (sF (iosem s) f) = 0 \<longrightarrow> ioarmed s \<or> 0 < iopend s)"

lemma io_key_user: "io_key var f s \<Longrightarrow> iopc s cf \<noteq> IoOut \<Longrightarrow> cf = f"
  by (auto simp: io_key_def)

lemma io_key_move:
  assumes "io_key var f s" and "c \<notin> {IoWait, IoBlocked}" and "iopc s f \<notin> {IoOut, IoTry, IoArm} \<or> c \<in> {IoOut, IoTry, IoArm}"
    and "iopc s' = (iopc s)(f := c)" and "iopoller s' = iopoller s" and "ioarmed s' = ioarmed s"
  shows "io_key var f s'"
  using assms(1-3) unfolding io_key_def assms(4-6) by auto

lemma sem_V_cases:
  assumes "sem_V True l F = (next, l', F')" and "bq_ok (sem_bq l) F B"
  obtains (none) "next = None" "F' = F" "sem_counter l' = 1" "bq_waiters (sem_bq l) F = []"
    | (some) g where "next = Some g" "g \<in> B" "resumeInfo (F' g) = bq_addr (sem_bq l)" "\<And>h. h \<noteq> g \<Longrightarrow> F' h = F h"
        "sem_counter l' = sem_counter l" "bq_waiters (sem_bq l) F = g # bq_waiters (sem_bq l') F'"
proof -
  obtain n q F1 where u: "bq_unblock (sem_bq l) F = (n, q, F1)" by (metis surj_pair)
  note U = bq_ok_unblock [OF assms(2) u]
  show thesis
  proof (cases n)
    case None
    with assms(1) u U(3) show thesis by (intro none) (auto simp: sem_V_def)
  next
    case (Some g)
    have "g \<in> granted q F1 B" using U(5) [OF Some] by simp
    then have "resumeInfo (F1 g) = bq_addr (sem_bq l)" using U(2) by (simp add: granted_def)
    with Some assms(1) u U(4,5,6) [OF Some] show thesis by (intro some [of g]) (auto simp: sem_V_def)
  qed
qed

lemma bq_blocked_waiter:
  assumes "bq_ok q F B" and "f \<in> B" and "resumeInfo (F f) = 0"
  shows "f \<in> set (bq_waiters q F)"
  using assms by (auto simp: bq_ok_def bq_waiters_def)

lemma io_key_notify:
  assumes "io_key var f s" and "io_sem_inv s" and "sem_V True (ss (iosem s)) (sF (iosem s)) = (next, l, F)"
    and "0 < iopend s"
  shows "io_key var f (s\<lparr>iosem := (iosem s)\<lparr>ss := l, sF := F, sVs := sVs (iosem s) + 1\<rparr>, iopend := iopend s - 1\<rparr>)"
proof -
  have ok: "bq_ok (sem_bq (ss (iosem s))) (sF (iosem s)) (sB (iosem s))"
    using assms(2) unfolding io_sem_inv_def sem_inv_def Let_def by blast
  then have a: "bq_addr (sem_bq (ss (iosem s))) \<noteq> 0" by (simp add: bq_ok_def)
  have blocked: "f \<in> sB (iosem s)" if "iopc s f = IoBlocked" using assms(2) that by (simp add: io_sem_inv_def)
  from assms(3) ok show ?thesis
  proof (cases rule: sem_V_cases)
    case none
    then have "resumeInfo (sF (iosem s) f) \<noteq> 0" if "iopc s f = IoBlocked"
      using bq_blocked_waiter [OF ok blocked [OF that]] by auto
    with none assms(1) show ?thesis by (auto simp: io_key_def)
  next
    case (some g)
    then have "iopc s g = IoBlocked" using assms(2) by (simp add: io_sem_inv_def)
    then have "g = f" using io_key_user [OF assms(1)] by simp
    with some a \<open>iopc s g = IoBlocked\<close> assms(1) show ?thesis by (auto simp: io_key_def)
  qed
qed

lemma io_step_key:
  assumes "io_step var {f} s s'" and "io_sem_inv s" and "io_key var f s" and "var \<noteq> OnDemand"
  shows "io_key var f s'"
  using assms(1)
proof cases
  case (enter cf c)
  then show ?thesis using io_key_move [OF assms(3), of c] by auto
next
  case (try_done cf r)
  then have "cf = f" using io_key_user [OF assms(3)] by auto
  with try_done show ?thesis using io_key_move [OF assms(3), of IoOut] by auto
next
  case (try_again cf r)
  then have "cf = f" using io_key_user [OF assms(3)] by auto
  with try_again show ?thesis using io_key_move [OF assms(3), of IoArm] by auto
next
  case (retry_again cf r)
  then have "cf = f" using io_key_user [OF assms(3)] by auto
  with retry_again show ?thesis using io_key_move [OF assms(3), of IoRearm] by auto
next
  case (arm cf fresh)
  then have "cf = f" using io_key_user [OF assms(3)] by auto
  with arm assms(3) show ?thesis
    by (auto simp: io_key_def io_arm_def es_arm_def split: option.splits)
next
  case (rearm cf)
  then have "cf = f" using io_key_user [OF assms(3)] by auto
  with rearm assms(3) show ?thesis by (auto simp: io_key_def)
next
  case (wait cf now r)
  then have "cf = f" using io_key_user [OF assms(3)] by auto
  moreover have "ioarmed s" using assms(3) wait \<open>cf = f\<close> by (auto simp: io_key_def)
  ultimately show ?thesis using assms(3) wait by (auto simp: io_key_def io_entered_def)
next
  case (P cf now r)
  then have cf: "cf = f" using io_key_user [OF assms(3)] by auto
  have "ioarmed s \<or> 0 < iopend s" if "fst r = None"
    using P(4) that assms(3) P(2) cf by (auto simp: sem_internalP_def io_key_def split: if_splits)
  then show ?thesis using assms(3) P cf by (auto simp: io_key_def io_entered_def)
next
  case (woken cf res l)
  then have "cf = f" using io_key_user [OF assms(3)] by auto
  with woken show ?thesis using io_key_move [OF assms(3), of IoRetry] by auto
next
  case event
  then show ?thesis using assms(3) by (auto simp: io_key_def)
next
  case (notify "next" l F)
  then show ?thesis using io_key_notify [OF assms(3,2)] by simp
qed

lemma io_reach_inv:
  assumes "io_reach var {f} a F0 s" and "a \<noteq> 0" and "var \<noteq> OnDemand"
  shows "io_sem_inv s \<and> io_key var f s"
  using assms(1)
proof (induction rule: io_reach.induct)
  case start
  have "sem_inv True 0 (iosem (io_init a F0))" using sem_inv_start [of a 0 True] assms(2) by (simp add: io_init_def)
  then show ?case by (simp add: io_sem_inv_def io_key_def io_init_def)
next
  case (step s s')
  then show ?case using io_step_sem io_step_key assms(3) by blast
qed

section \<open>Properties\<close>


text \<open>A run up to the suspension of fibre \<open>f\<close>, from a state with an armed or fresh one-shot descriptor.\<close>

definition io_fred :: fred where
  "io_fred = \<lparr>processor = 0, priority = 1, affinity = False, runState = Running, resumeInfo = 0\<rparr>"

definition io_state :: "bool \<Rightarrow> nat \<Rightarrow> fid list \<Rightarrow> fid set \<Rightarrow> freds \<Rightarrow> nat \<Rightarrow> nat \<Rightarrow> (fid \<Rightarrow> io_pc) \<Rightarrow> io_sys" where
  "io_state arm pend q B F vs got pc =
     \<lparr>iosem = \<lparr>ss = \<lparr>sem_counter = 0, sem_bq = \<lparr>bq_addr = 9, bq_nodes = q\<rparr>\<rparr>, sF = F, sB = B, sVs = vs, sGot = got\<rparr>,
      iopoller = Some (InPoller 0), ioarmed = arm, iopend = pend, iopc = pc\<rparr>"

abbreviation "io_run U \<equiv> io_reach Oneshot U 9 (\<lambda>_. io_fred)"

lemma io_go: "io_run U s \<Longrightarrow> io_step Oneshot U s t \<Longrightarrow> t = s' \<Longrightarrow> io_run U s'"
  using io_reach.step by blast

lemma io_fred_simps [simp]:
  "runState io_fred = Running" "resumeInfo io_fred = 0" "io_fred\<lparr>resumeInfo := 0\<rparr> = io_fred"
  by (simp_all add: io_fred_def)

lemma const_upd [simp]: "(\<lambda>_. c)(x := c) = (\<lambda>_. c)"
  by auto

text \<open>A fibre that finds the semaphore closed is suspended.\<close>

lemma io_step_block:
  assumes "iopc s cf = IoWait" and "sem_counter (ss (iosem s)) = 0" and "runState (sF (iosem s) cf) = Running"
  shows "io_step Oneshot U s (io_at (s\<lparr>iosem := (iosem s)\<lparr>
      ss := (ss (iosem s))\<lparr>sem_bq := (sem_bq (ss (iosem s)))\<lparr>bq_nodes := bq_nodes (sem_bq (ss (iosem s))) @ [cf]\<rparr>\<rparr>,
      sF := (sF (iosem s))(cf := (sF (iosem s) cf)\<lparr>resumeInfo := 0\<rparr>), sB := insert cf (sB (iosem s))\<rparr>\<rparr>) cf IoBlocked)"
proof -
  let ?l = "(ss (iosem s))\<lparr>sem_bq := (sem_bq (ss (iosem s)))\<lparr>bq_nodes := bq_nodes (sem_bq (ss (iosem s))) @ [cf]\<rparr>\<rparr>"
  let ?r = "(None, ?l, (sF (iosem s))(cf := (sF (iosem s) cf)\<lparr>resumeInfo := 0\<rparr>))"
  have "sem_internalP Wait (Time 0 0) cf (ss (iosem s)) (sF (iosem s)) = Some ?r"
    using assms(2,3) by (simp add: sem_internalP_def bq_block_begin_def prepareResumeRace_def)
  from io_step.P [OF assms(1) _ this, of Oneshot U] show ?thesis
    by (simp add: io_entered_def sem_entered_def)
qed

lemma io_block1:
  assumes "1 \<in> U"
  shows "io_run U (io_state True 0 [1] {1} (\<lambda>_. io_fred) 0 0 ((\<lambda>_. IoOut)(1 := IoBlocked)))"
proof -
  have "io_run U (io_init 9 (\<lambda>_. io_fred))" by (rule io_reach.start)
  then have "io_run U (io_at (io_init 9 (\<lambda>_. io_fred)) 1 IoTry)"
    by (rule io_go [OF _ io_step.enter [of 1 _ _ IoTry]]) (use assms in \<open>simp_all add: io_init_def\<close>)
  then have "io_run U (io_at (io_init 9 (\<lambda>_. io_fred)) 1 IoArm)"
    by (rule io_go [OF _ io_step.try_again [of _ 1 "(-1, EAGAIN)"]]) (simp_all add: tryIO_def TestEAGAIN_def)
  then have "io_run U (io_state True 0 [] {} (\<lambda>_. io_fred) 0 0 ((\<lambda>_. IoOut)(1 := IoWait)))"
    by (rule io_go [OF _ io_step.arm [of _ 1 _ _ "InPoller 0"]])
      (simp_all add: io_arm_def es_arm_def io_init_def io_state_def new_sem_def queue_init_def)
  then show ?thesis
    by (rule io_go [OF _ io_step_block [of _ 1]]) (simp_all add: io_state_def insert_commute)
qed


text \<open>C31: With one-shot polling (the setting of \<^verbatim>\<open>testoptions.h.default\<close>) two fibres that use the same
  descriptor in the same direction, such as two fibres in \<^verbatim>\<open>lfAccept\<close> on one listening socket, can leave one
  of them behind: there is a run after which fibre 1 has returned from its I/O, fibre 2 is blocked and not
  resumed, the descriptor is not armed and no event is under way; nothing but a new I/O call on the
  descriptor can happen then, whether or not there is input.\<close>

theorem io_two_users_stranded:
  "\<exists>s. io_run {1, 2} s \<and> iopc s 1 = IoOut \<and> iopc s 2 = IoBlocked \<and> resumeInfo (sF (iosem s) 2) = 0
     \<and> \<not> ioarmed s \<and> iopend s = 0
     \<and> (\<forall>s'. io_step Oneshot {1, 2} s s' \<longrightarrow> (\<exists>c \<in> {IoTry, IoArm}. s' = io_at s 1 c))"
proof -
  let ?P = "\<lambda>a b. (\<lambda>_. IoOut)(1 := a, 2 := b) :: fid \<Rightarrow> io_pc"
  let ?F = "\<lambda>_ :: fid. io_fred" and ?F1 = "(\<lambda>_. io_fred)((1 :: fid) := io_fred\<lparr>resumeInfo := 9\<rparr>)"
  let ?U = "{1, 2} :: fid set" and ?s = "io_state False 0 [2] {2} ?F1 1 1 (?P IoOut IoBlocked)"
  have P1: "?P IoBlocked IoOut = (\<lambda>_. IoOut)(1 := IoBlocked)" by auto
  have "io_run ?U (io_state True 0 [1] {1} ?F 0 0 (?P IoBlocked IoOut))"
    using io_block1 [of ?U] unfolding P1 by simp
  then have "io_run ?U (io_state True 0 [1] {1} ?F 0 0 (?P IoBlocked IoTry))"
    by (rule io_go [OF _ io_step.enter [of 2 _ _ IoTry]]) (simp_all add: io_state_def)
  then have "io_run ?U (io_state True 0 [1] {1} ?F 0 0 (?P IoBlocked IoArm))"
    by (rule io_go [OF _ io_step.try_again [of _ 2 "(-1, EAGAIN)"]]) (simp_all add: tryIO_def TestEAGAIN_def io_state_def)
  then have "io_run ?U (io_state True 0 [1] {1} ?F 0 0 (?P IoBlocked IoWait))"
    by (rule io_go [OF _ io_step.arm [of _ 2 _ _ "InPoller 0"]]) (simp_all add: io_arm_def es_arm_def io_state_def)
  then have "io_run ?U (io_state True 0 [1, 2] {1, 2} ?F 0 0 (?P IoBlocked IoBlocked))"
    by (rule io_go [OF _ io_step_block [of _ 2]]) (simp_all add: io_state_def insert_commute)
  then have "io_run ?U (io_state False 1 [1, 2] {1, 2} ?F 0 0 (?P IoBlocked IoBlocked))"
    by (rule io_go [OF _ io_step.event]) (simp_all add: io_state_def)
  then have "io_run ?U (io_state False 0 [2] {1, 2} ?F1 1 0 (?P IoBlocked IoBlocked))"
    by (rule io_go [OF _ io_step.notify [where l = "\<lparr>sem_counter = 0, sem_bq = \<lparr>bq_addr = 9, bq_nodes = [2]\<rparr>\<rparr>" and F = ?F1]])
      (simp_all add: io_state_def sem_V_def bq_unblock_def raceResume_def)
  then have "io_run ?U (io_state False 0 [2] {2} ?F1 1 1 (?P IoRetry IoBlocked))"
    by (rule io_go [OF _ io_step.woken [of _ 1 SemaphoreSuccess "\<lparr>sem_counter = 0, sem_bq = \<lparr>bq_addr = 9, bq_nodes = [2]\<rparr>\<rparr>"]])
      (simp_all add: io_state_def sem_P_end_def bq_block_end_def fun_upd_twist)
  then have "io_run ?U ?s"
    by (rule io_go [OF _ io_step.try_done [of _ 1 "(1, 0)"]]) (simp_all add: tryIO_def io_state_def fun_upd_twist)
  moreover have "\<exists>c \<in> {IoTry, IoArm}. s' = io_at ?s 1 c" if "io_step Oneshot ?U ?s s'" for s'
    using that by cases (auto simp: io_state_def split: if_splits)
  ultimately show ?thesis
    by (intro exI [of _ ?s]) (simp add: io_state_def)
qed

theorem io_two_users_stranded_witness:
  "\<exists>s. io_run {1, 2} s \<and> iopc s 2 = IoBlocked \<and> resumeInfo (sF (iosem s) 2) = 0 \<and> \<not> ioarmed s \<and> iopend s = 0"
  using io_two_users_stranded by blast

end
