(* ===== verification/Event_Calls.thy ===== *)
theory Event_Calls
  imports Event_Scope
begin

text \<open>
  The system call wrappers of \<^verbatim>\<open>EventScope\<close> and the \<^verbatim>\<open>lf...\<close> functions of \<^verbatim>\<open>src/src/libfibre/EventScope.h\<close>.
  A wrapper takes the system call as a parameter: a function of the attempt (for calls that are retried) and of
  the arguments the wrapper passes on, with result and \<^verbatim>\<open>errno\<close>.
\<close>

section \<open>Environment\<close>

record io_env =
  env_mode :: pollmode
  env_tryread :: bool
  env_polls :: cluster_polls
  env_fuel :: nat

definition SOCK_NONBLOCK :: flags where "SOCK_NONBLOCK = 0x800"
definition O_NONBLOCK :: flags where "O_NONBLOCK = 0x800"

abbreviation "input_io (env :: io_env) \<equiv> syncInput (env_mode env) (env_tryread env) (env_polls env) (env_fuel env)"
abbreviation "output_io (env :: io_env) \<equiv> syncOutput (env_mode env) (env_tryread env) (env_polls env) (env_fuel env)"

type_synonym io_result = "(int \<times> io_act list \<times> evscope) option"

section \<open>Creating and closing descriptors\<close>

text \<open>The flags passed to the system: non-blocking unless the descriptor is for \<^verbatim>\<open>io_uring\<close>.\<close>

definition sys_flags :: "flags \<Rightarrow> bool \<Rightarrow> flags" where
  "sys_flags flags useUring = flags OR (if useUring then 0 else SOCK_NONBLOCK)"

definition fd_flags :: "bool \<Rightarrow> bool \<Rightarrow> int \<Rightarrow> evscope \<Rightarrow> evscope option" where
  "fd_flags blocking useUring fd es =
     do { s \<leftarrow> fdsync fd es; Some (fdset fd (s\<lparr>sfd_blocking := blocking, sfd_useUring := useUring\<rparr>) es) }"

definition es_socket :: "(int \<Rightarrow> flags \<Rightarrow> int \<Rightarrow> int) \<Rightarrow> int \<Rightarrow> flags \<Rightarrow> int \<Rightarrow> bool \<Rightarrow> evscope \<Rightarrow> (int \<times> evscope) option" where
  "es_socket os domain type protocol useUring es =
     (let ret = os domain (sys_flags type useUring) protocol
      in if ret < 0 then Some (ret, es)
         else do { es' \<leftarrow> fd_flags (type AND SOCK_NONBLOCK = 0) useUring ret es; Some (ret, es') })"

definition es_accept4 :: "io_env \<Rightarrow> (nat \<Rightarrow> int \<Rightarrow> flags \<Rightarrow> int \<times> int) \<Rightarrow> int \<Rightarrow> flags \<Rightarrow> evscope \<Rightarrow> io_result" where
  "es_accept4 env os fd flags es =
     do { s \<leftarrow> fdsync fd es;
          (ret, acts, es1) \<leftarrow>
            (if sfd_blocking s
             then syncIO (env_mode env) (env_tryread env) (env_polls env) (env_fuel env) True True
                    (\<lambda>k. os k fd (flags OR SOCK_NONBLOCK)) fd es
             else Some (fst (os 0 fd (flags OR SOCK_NONBLOCK)), [ACall], es));
          if ret < 0 then Some (ret, acts, es1)
          else do { es2 \<leftarrow> fd_flags (flags AND SOCK_NONBLOCK = 0) (sfd_useUring s) ret es1;
                    Some (ret, acts, es2) } }"

definition es_dup :: "(int \<Rightarrow> int) \<Rightarrow> int \<Rightarrow> evscope \<Rightarrow> (int \<times> evscope) option" where
  "es_dup os fd es =
     (let ret = os fd
      in if ret < 0 then Some (ret, es)
         else do { s \<leftarrow> fdsync fd es; es' \<leftarrow> fd_flags (sfd_blocking s) (sfd_useUring s) ret es; Some (ret, es') })"

definition es_pipe2 :: "(flags \<Rightarrow> int \<times> int \<times> int) \<Rightarrow> flags \<Rightarrow> bool \<Rightarrow> evscope \<Rightarrow> (int \<times> int \<times> int \<times> evscope) option" where
  "es_pipe2 os flags useUring es =
     (let (ret, fd0, fd1) = os (sys_flags flags useUring)
      in if ret < 0 then Some (ret, fd0, fd1, es)
         else do { es1 \<leftarrow> fd_flags (flags AND O_NONBLOCK = 0) useUring fd0 es;
                   es2 \<leftarrow> fd_flags (flags AND O_NONBLOCK = 0) useUring fd1 es1;
                   Some (ret, fd0, fd1, es2) })"

definition es_fcntl :: "(int \<Rightarrow> int \<Rightarrow> flags \<Rightarrow> int) \<Rightarrow> int \<Rightarrow> int \<Rightarrow> flags \<Rightarrow> evscope \<Rightarrow> (int \<times> evscope) option" where
  "es_fcntl os fd cmd flags es =
     do { s \<leftarrow> fdsync fd es;
          let ret = os fd cmd (sys_flags flags (sfd_useUring s));
          if ret < 0 then Some (ret, es)
          else Some (ret, fdset fd (s\<lparr>sfd_blocking := (flags AND O_NONBLOCK = 0)\<rparr>) es) }"

definition es_close :: "(int \<Rightarrow> int) \<Rightarrow> int \<Rightarrow> evscope \<Rightarrow> (int \<times> evscope) option" where
  "es_close os fd es = do { es' \<leftarrow> cleanupFD fd es; Some (os fd, es') }"

section \<open>Bind and connect\<close>

text \<open>\<^verbatim>\<open>checkAsyncCompletion\<close>: register for output, wait, and ask for the error of the socket.\<close>

definition checkAsyncCompletion :: "io_env \<Rightarrow> (int \<Rightarrow> int) \<Rightarrow> int \<Rightarrow> evscope \<Rightarrow> io_result" where
  "checkAsyncCompletion env so_error fd es =
     do { s \<leftarrow> fdsync fd es;
          let p = getPoller False fd (env_polls env);
          Some (so_error fd, [ASetup p (setupFD fd Create False Oneshot), AP],
                fdset fd (s\<lparr>sfd_poller := (sfd_poller s)(False := Some p)\<rparr>) es) }"

text \<open>The results are the return value, \<^verbatim>\<open>errno\<close> and the actions.\<close>

definition es_bind :: "io_env \<Rightarrow> (int \<Rightarrow> int \<times> int) \<Rightarrow> (int \<Rightarrow> int) \<Rightarrow> int \<Rightarrow> evscope \<Rightarrow> (int \<times> int \<times> io_act list \<times> evscope) option" where
  "es_bind env os so_error fd es =
     do { s \<leftarrow> fdsync fd es;
          let (ret, err) = os fd;
          if \<not> sfd_blocking s \<or> \<not> ret < 0 \<or> err \<noteq> EINPROGRESS then Some (ret, err, [ACall], es)
          else do { (r, acts, es') \<leftarrow> checkAsyncCompletion env so_error fd es;
                    Some (if r \<noteq> 0 then (-1, r, ACall # acts, es') else (r, err, ACall # acts, es')) } }"

definition es_connect :: "io_env \<Rightarrow> (int \<Rightarrow> int \<times> int) \<Rightarrow> (int \<Rightarrow> int) \<Rightarrow> int \<Rightarrow> evscope \<Rightarrow> (int \<times> int \<times> io_act list \<times> evscope) option" where
  "es_connect env os so_error fd es =
     do { s \<leftarrow> fdsync fd es;
          let (ret, err) = os fd;
          if \<not> sfd_blocking s \<or> \<not> ret < 0 \<or> err \<noteq> EINPROGRESS then Some (ret, err, [ACall], es)
          else do { (r, acts, es') \<leftarrow> checkAsyncCompletion env so_error fd es;
                    Some (if r \<noteq> 0 then (-1, r, ACall # acts, es') else (r, err, ACall # acts, es')) } }"

section \<open>Waiting for events of an application's epoll descriptor\<close>

text \<open>\<^verbatim>\<open>tmo k\<close>: round \<open>k\<close> of the wait with a deadline ends with a signal rather than at the deadline.\<close>

fun epoll_loop :: "nat \<Rightarrow> int \<Rightarrow> poller \<Rightarrow> int \<Rightarrow> (nat \<Rightarrow> int) \<Rightarrow> (nat \<Rightarrow> bool) \<Rightarrow> nat \<Rightarrow> io_act list \<Rightarrow> (int \<times> io_act list) option" where
  "epoll_loop 0 epfd p timeout os tmo k acts = None"
| "epoll_loop (Suc fuel) epfd p timeout os tmo k acts =
     (if \<not> timeout < 0 \<and> \<not> tmo k then Some (0, acts @ [AP])
      else let ret = os (Suc k)
           in if ret \<noteq> 0 then Some (ret, acts @ [AP, ACall])
              else epoll_loop fuel epfd p timeout os tmo (Suc k)
                     (acts @ [AP, ACall, ASetup p (setupFD epfd Modify True Oneshot)]))"

definition es_epoll_wait :: "io_env \<Rightarrow> (nat \<Rightarrow> int) \<Rightarrow> (nat \<Rightarrow> bool) \<Rightarrow> int \<Rightarrow> int \<Rightarrow> evscope \<Rightarrow> io_result" where
  "es_epoll_wait env os tmo epfd timeout es =
     do { s \<leftarrow> fdsync epfd es;
          let ret = os 0;
          if ret \<noteq> 0 \<or> timeout = 0 then Some (ret, [ACall], es)
          else do { let (p, op) = (case sfd_poller s True of None \<Rightarrow> (getPoller True epfd (env_polls env), Create) | Some q \<Rightarrow> (q, Modify));
                    (r, acts) \<leftarrow> epoll_loop (env_fuel env) epfd p timeout os tmo 0 [ACall, ASetup p (setupFD epfd op True Oneshot)];
                    Some (r, acts, fdset epfd (s\<lparr>sfd_poller := (sfd_poller s)(True := Some p)\<rparr>) es) } }"

section \<open>Input and output\<close>

definition es_read :: "io_env \<Rightarrow> (nat \<Rightarrow> int \<Rightarrow> 'b \<Rightarrow> nat \<Rightarrow> int \<times> int) \<Rightarrow> int \<Rightarrow> 'b \<Rightarrow> nat \<Rightarrow> evscope \<Rightarrow> io_result" where
  "es_read env os fd buf nbyte = input_io env (\<lambda>k. os k fd buf nbyte) fd"

definition es_pread :: "io_env \<Rightarrow> (nat \<Rightarrow> int \<Rightarrow> 'b \<Rightarrow> nat \<Rightarrow> int \<Rightarrow> int \<times> int) \<Rightarrow> int \<Rightarrow> 'b \<Rightarrow> nat \<Rightarrow> int \<Rightarrow> evscope \<Rightarrow> io_result" where
  "es_pread env os fd buf nbyte offset = input_io env (\<lambda>k. os k fd buf nbyte offset) fd"

definition es_readv :: "io_env \<Rightarrow> (nat \<Rightarrow> int \<Rightarrow> 'b \<Rightarrow> int \<Rightarrow> int \<times> int) \<Rightarrow> int \<Rightarrow> 'b \<Rightarrow> int \<Rightarrow> evscope \<Rightarrow> io_result" where
  "es_readv env os fd iovecs nr_vecs = input_io env (\<lambda>k. os k fd iovecs nr_vecs) fd"

definition es_preadv :: "io_env \<Rightarrow> (nat \<Rightarrow> int \<Rightarrow> 'b \<Rightarrow> int \<Rightarrow> int \<Rightarrow> int \<times> int) \<Rightarrow> int \<Rightarrow> 'b \<Rightarrow> int \<Rightarrow> int \<Rightarrow> evscope \<Rightarrow> io_result" where
  "es_preadv env os fd iovecs nr_vecs offset = input_io env (\<lambda>k. os k fd iovecs nr_vecs offset) fd"

definition es_recvmsg :: "io_env \<Rightarrow> (nat \<Rightarrow> int \<Rightarrow> 'b \<Rightarrow> int \<Rightarrow> int \<times> int) \<Rightarrow> int \<Rightarrow> 'b \<Rightarrow> int \<Rightarrow> evscope \<Rightarrow> io_result" where
  "es_recvmsg env os fd message flags = input_io env (\<lambda>k. os k fd message flags) fd"

definition es_recvfrom :: "io_env \<Rightarrow> (nat \<Rightarrow> int \<Rightarrow> 'b \<Rightarrow> nat \<Rightarrow> int \<Rightarrow> 'a \<Rightarrow> int \<times> int) \<Rightarrow> int \<Rightarrow> 'b \<Rightarrow> nat \<Rightarrow> int \<Rightarrow> 'a \<Rightarrow> evscope \<Rightarrow> io_result" where
  "es_recvfrom env os fd buf len flags address = input_io env (\<lambda>k. os k fd buf len flags address) fd"

definition es_recv :: "io_env \<Rightarrow> (nat \<Rightarrow> int \<Rightarrow> 'b \<Rightarrow> nat \<Rightarrow> int \<Rightarrow> int \<times> int) \<Rightarrow> int \<Rightarrow> 'b \<Rightarrow> nat \<Rightarrow> int \<Rightarrow> evscope \<Rightarrow> io_result" where
  "es_recv env os fd buf len flags = input_io env (\<lambda>k. os k fd buf len flags) fd"

definition es_write :: "io_env \<Rightarrow> (nat \<Rightarrow> int \<Rightarrow> 'b \<Rightarrow> nat \<Rightarrow> int \<times> int) \<Rightarrow> int \<Rightarrow> 'b \<Rightarrow> nat \<Rightarrow> evscope \<Rightarrow> io_result" where
  "es_write env os fd buf nbyte = output_io env (\<lambda>k. os k fd buf nbyte) fd"

definition es_pwrite :: "io_env \<Rightarrow> (nat \<Rightarrow> int \<Rightarrow> 'b \<Rightarrow> nat \<Rightarrow> int \<Rightarrow> int \<times> int) \<Rightarrow> int \<Rightarrow> 'b \<Rightarrow> nat \<Rightarrow> int \<Rightarrow> evscope \<Rightarrow> io_result" where
  "es_pwrite env os fd buf nbyte offset = output_io env (\<lambda>k. os k fd buf nbyte offset) fd"

definition es_writev :: "io_env \<Rightarrow> (nat \<Rightarrow> int \<Rightarrow> 'b \<Rightarrow> int \<Rightarrow> int \<times> int) \<Rightarrow> int \<Rightarrow> 'b \<Rightarrow> int \<Rightarrow> evscope \<Rightarrow> io_result" where
  "es_writev env os fd iovecs nr_vecs = output_io env (\<lambda>k. os k fd iovecs nr_vecs) fd"

definition es_pwritev :: "io_env \<Rightarrow> (nat \<Rightarrow> int \<Rightarrow> 'b \<Rightarrow> int \<Rightarrow> int \<Rightarrow> int \<times> int) \<Rightarrow> int \<Rightarrow> 'b \<Rightarrow> int \<Rightarrow> int \<Rightarrow> evscope \<Rightarrow> io_result" where
  "es_pwritev env os fd iovecs nr_vecs offset = output_io env (\<lambda>k. os k fd iovecs nr_vecs offset) fd"

definition es_sendmsg :: "io_env \<Rightarrow> (nat \<Rightarrow> int \<Rightarrow> 'b \<Rightarrow> int \<Rightarrow> int \<times> int) \<Rightarrow> int \<Rightarrow> 'b \<Rightarrow> int \<Rightarrow> evscope \<Rightarrow> io_result" where
  "es_sendmsg env os fd message flags = output_io env (\<lambda>k. os k fd message flags) fd"

definition es_sendto :: "io_env \<Rightarrow> (nat \<Rightarrow> int \<Rightarrow> 'b \<Rightarrow> nat \<Rightarrow> int \<Rightarrow> 'a \<Rightarrow> int \<times> int) \<Rightarrow> int \<Rightarrow> 'b \<Rightarrow> nat \<Rightarrow> int \<Rightarrow> 'a \<Rightarrow> evscope \<Rightarrow> io_result" where
  "es_sendto env os fd message len flags dest = output_io env (\<lambda>k. os k fd message len flags dest) fd"

definition es_send :: "io_env \<Rightarrow> (nat \<Rightarrow> int \<Rightarrow> 'b \<Rightarrow> nat \<Rightarrow> int \<Rightarrow> int \<times> int) \<Rightarrow> int \<Rightarrow> 'b \<Rightarrow> nat \<Rightarrow> int \<Rightarrow> evscope \<Rightarrow> io_result" where
  "es_send env os fd buf len flags = output_io env (\<lambda>k. os k fd buf len flags) fd"

text \<open>\<^verbatim>\<open>directIO\<close> runs the call on the disk cluster; the result is stored in an \<^verbatim>\<open>int\<close> on the way. The result
  with the cluster the fibre migrates to.\<close>

definition to_int :: "int \<Rightarrow> int" where "to_int x = (x + 2 ^ 31) mod 2 ^ 32 - 2 ^ 31"

definition es_directIO :: "(int \<Rightarrow> int) \<Rightarrow> int \<Rightarrow> evscope \<Rightarrow> (int \<times> nat) option" where
  "es_directIO diskfunc fd es = do { rassert (diskCluster es \<noteq> None); Some (to_int (diskfunc fd), the (diskCluster es)) }"

definition es_addDiskCluster :: "nat \<Rightarrow> evscope \<Rightarrow> evscope option" where
  "es_addDiskCluster c es = do { rassert (diskCluster es = None); Some (es\<lparr>diskCluster := Some c\<rparr>) }"

section \<open>Descriptor flags\<close>

text \<open>The flags that the scope keeps for the descriptors.\<close>

definition fview :: "evscope \<Rightarrow> (bool \<times> bool) list" where
  "fview es = map (\<lambda>s. (sfd_blocking s, sfd_useUring s)) (fdSyncVector es)"

lemma fdsync_D:
  assumes "fdsync fd es = Some s"
  shows "0 \<le> fd" "nat fd < length (fview es)" "fview es ! nat fd = (sfd_blocking s, sfd_useUring s)"
  using assms by (auto simp: fdsync_def fview_def split: if_splits)

lemma fview_fdset: "fview (fdset fd s es) = (fview es)[nat fd := (sfd_blocking s, sfd_useUring s)]"
  by (simp add: fview_def fdset_def map_update)

lemma fview_fdset_same:
  assumes "fdsync fd es = Some s" and "sfd_blocking t = sfd_blocking s" and "sfd_useUring t = sfd_useUring s"
  shows "fview (fdset fd t es) = fview es"
  using fdsync_D [OF assms(1)] by (simp add: fview_fdset assms(2,3) list_update_same_conv)

lemma fd_flags_D:
  assumes "fd_flags b u fd es = Some es'"
  shows "0 \<le> fd \<and> nat fd < length (fview es) \<and> fview es' = (fview es)[nat fd := (b, u)]"
  using assms fdsync_D by (auto simp: fd_flags_def fview_fdset bind_eq_Some_conv)

lemma syncIO_fview:
  assumes "syncIO mode tr cl fuel Input Accept io fd es = Some (r, acts, es')"
  shows "fview es' = fview es"
proof -
  have "es' = es \<or> (\<exists>s p. fdsync fd es = Some s \<and> es' = fdset fd (s\<lparr>sfd_poller := p\<rparr>) es)"
    using assms by (auto simp: syncIO_def Let_def bind_eq_Some_conv case_prod_beta split: if_splits)
  then show ?thesis by (auto intro: fview_fdset_same)
qed

lemma accept4_D:
  assumes "es_accept4 env os fd flags es = Some (r, acts, es')" and "0 \<le> r"
  shows "\<exists>(t :: syncfd) es1. fd_flags (flags AND SOCK_NONBLOCK = 0) (sfd_useUring t) r es1 = Some es' \<and> fview es1 = fview es"
proof -
  let ?call = "\<lambda>t. if sfd_blocking t
      then syncIO (env_mode env) (env_tryread env) (env_polls env) (env_fuel env) True True (\<lambda>k. os k fd (flags OR SOCK_NONBLOCK)) fd es
      else Some (fst (os 0 fd (flags OR SOCK_NONBLOCK)), [ACall], es)"
  obtain t where "fdsync fd es = Some t"
    and t: "?call t \<bind> (\<lambda>(ret, acts, es1). if ret < 0 then Some (ret, acts, es1)
      else do { es2 \<leftarrow> fd_flags (flags AND SOCK_NONBLOCK = 0) (sfd_useUring t) ret es1; Some (ret, acts, es2) }) = Some (r, acts, es')"
    using assms(1) unfolding es_accept4_def by (rule bind_eq_SomeE)
  from t obtain c where c: "?call t = Some c"
    and rest: "(\<lambda>(ret, acts, es1). if ret < 0 then Some (ret, acts, es1)
      else do { es2 \<leftarrow> fd_flags (flags AND SOCK_NONBLOCK = 0) (sfd_useUring t) ret es1; Some (ret, acts, es2) }) c = Some (r, acts, es')"
    by (rule bind_eq_SomeE)
  obtain ret a es1 where ce: "c = (ret, a, es1)" by (cases c)
  have "fd_flags (flags AND SOCK_NONBLOCK = 0) (sfd_useUring t) r es1 = Some es'"
    using rest assms(2) by (auto simp: ce bind_eq_Some_conv split: if_split_asm)
  moreover have "fview es1 = fview es" using c by (auto simp: ce dest: syncIO_fview split: if_split_asm)
  ultimately show ?thesis by blast
qed

lemma io_fview:
  "input_io env io fd es = Some (r, acts, es') \<Longrightarrow> fview es' = fview es"
  "output_io env io fd es = Some (r, acts, es') \<Longrightarrow> fview es' = fview es"
  by (auto simp: syncInput_def syncOutput_def blockingInput_def blockingOutput_def bind_eq_Some_conv
      intro: syncIO_fview split: if_splits)

text \<open>The descriptors of a process: the scope, and for every open descriptor whether the system has it in
  non-blocking mode (\<open>knb\<close>) and whether the application asked for that (\<open>want\<close>).\<close>

record fd_sys =
  fes :: evscope
  knb :: "int \<Rightarrow> bool"
  want :: "int \<Rightarrow> bool"
  fopen :: "int set"

definition nonblock :: "flags \<Rightarrow> bool" where "nonblock flags \<longleftrightarrow> flags AND O_NONBLOCK \<noteq> 0"

definition F_SETFL :: int where "F_SETFL = 4"

abbreviation "fd_new s es' r k w \<equiv> \<lparr>fes = es', knb = (knb s)(r := k), want = (want s)(r := w), fopen = insert r (fopen s)\<rparr>"

inductive fd_step :: "fd_sys \<Rightarrow> fd_sys \<Rightarrow> bool" where
  socket: "es_socket os domain type protocol u (fes s) = Some (r, es') \<Longrightarrow> 0 \<le> r \<Longrightarrow>
     fd_step s (fd_new s es' r (nonblock (sys_flags type u)) (nonblock type))"
| accept: "fd \<in> fopen s \<Longrightarrow> es_accept4 env aos fd flags (fes s) = Some (r, acts, es') \<Longrightarrow> 0 \<le> r \<Longrightarrow>
     fd_step s (fd_new s es' r (nonblock (flags OR SOCK_NONBLOCK)) (nonblock flags))"
| dup: "fd \<in> fopen s \<Longrightarrow> es_dup dos fd (fes s) = Some (r, es') \<Longrightarrow> 0 \<le> r \<Longrightarrow>
     fd_step s (fd_new s es' r (knb s fd) (want s fd))"
| pipe: "es_pipe2 pos flags u (fes s) = Some (r, fd0, fd1, es') \<Longrightarrow> 0 \<le> r \<Longrightarrow>
     fd_step s (fd_new (fd_new s es' fd0 (nonblock (sys_flags flags u)) (nonblock flags)) es' fd1
       (nonblock (sys_flags flags u)) (nonblock flags))"
| fcntl: "fd \<in> fopen s \<Longrightarrow> es_fcntl fos fd F_SETFL flags (fes s) = Some (r, es') \<Longrightarrow> 0 \<le> r \<Longrightarrow>
     fd_step s (fd_new s es' fd (nonblock (sys_flags flags (snd (fview (fes s) ! nat fd)))) (nonblock flags))"
| close: "fd \<in> fopen s \<Longrightarrow> es_close cos fd (fes s) = Some (r, es') \<Longrightarrow> fd_step s (s\<lparr>fes := es', fopen := fopen s - {fd}\<rparr>)"
| read_io: "input_io env io fd (fes s) = Some (r, acts, es') \<Longrightarrow> fd_step s (s\<lparr>fes := es'\<rparr>)"
| write_io: "output_io env io fd (fes s) = Some (r, acts, es') \<Longrightarrow> fd_step s (s\<lparr>fes := es'\<rparr>)"

inductive fd_reach :: "nat \<Rightarrow> (nat \<Rightarrow> bool \<Rightarrow> addr) \<Rightarrow> fd_sys \<Rightarrow> bool" for n addr where
  start: "fd_reach n addr \<lparr>fes = es_initSync n addr, knb = k0, want = w0, fopen = {}\<rparr>"
| step: "fd_reach n addr s \<Longrightarrow> fd_step s s' \<Longrightarrow> fd_reach n addr s'"

definition fd_inv :: "fd_sys \<Rightarrow> bool" where
  "fd_inv s \<longleftrightarrow> (\<forall>fd \<in> fopen s. 0 \<le> fd \<and> nat fd < length (fview (fes s))
     \<and> (fst (fview (fes s) ! nat fd) \<longleftrightarrow> \<not> want s fd) \<and> (knb s fd \<or> snd (fview (fes s) ! nat fd)))"

lemma fd_inv_new:
  assumes "fd_inv s" and "0 \<le> r" and "nat r < length (fview (fes s))" and "fview es' = (fview (fes s))[nat r := (\<not> w, u)]" and "k \<or> u"
  shows "fd_inv (fd_new s es' r k w)"
  using assms by (auto simp: fd_inv_def nth_list_update nat_eq_iff split: if_splits)

lemma nonblock_or [simp]: "nonblock (flags OR SOCK_NONBLOCK)" "nonblock (sys_flags flags u) \<or> u"
proof -
  have "bit ((flags OR SOCK_NONBLOCK) AND O_NONBLOCK) 11"
    by (simp add: bit_and_iff bit_or_iff SOCK_NONBLOCK_def O_NONBLOCK_def)
  then show "nonblock (flags OR SOCK_NONBLOCK)" unfolding nonblock_def by fastforce
  then show "nonblock (sys_flags flags u) \<or> u" by (auto simp: sys_flags_def)
qed

lemma nonblock_eq [simp]: "(flags AND O_NONBLOCK = 0) = (\<not> nonblock flags)" "(flags AND SOCK_NONBLOCK = 0) = (\<not> nonblock flags)"
  by (simp_all add: nonblock_def O_NONBLOCK_def SOCK_NONBLOCK_def)

lemma fd_step_inv:
  assumes "fd_step s s'" and "fd_inv s"
  shows "fd_inv s'"
  using assms(1)
proof cases
  case (socket os domain type protocol u r es')
  then have "fd_flags (\<not> nonblock type) u r (fes s) = Some es'"
    by (auto simp: es_socket_def Let_def bind_eq_Some_conv split: if_splits)
  from fd_flags_D [OF this] socket(1) show ?thesis by (simp add: fd_inv_new [OF assms(2)])
next
  case (accept fd env aos flags r acts es')
  then obtain t :: syncfd and es1 where "fd_flags (\<not> nonblock flags) (sfd_useUring t) r es1 = Some es'" "fview es1 = fview (fes s)"
    using accept4_D [OF accept(3,4)] by auto
  with fd_flags_D [OF this(1)] accept(1) show ?thesis by (simp add: fd_inv_new [OF assms(2)])
next
  case (dup fd dos r es')
  then obtain t where t: "fdsync fd (fes s) = Some t" "fd_flags (sfd_blocking t) (sfd_useUring t) r (fes s) = Some es'"
    by (auto simp: es_dup_def Let_def bind_eq_Some_conv split: if_splits)
  have "sfd_blocking t \<longleftrightarrow> \<not> want s fd" "knb s fd \<or> sfd_useUring t"
    using assms(2) [unfolded fd_inv_def, rule_format, OF dup(2)] fdsync_D(3) [OF t(1)] by simp_all
  with fd_flags_D [OF t(2)] dup(1) show ?thesis by (simp add: fd_inv_new [OF assms(2)])
next
  case (pipe pos flags u r fd0 fd1 es')
  then obtain es1 where e: "fd_flags (\<not> nonblock flags) u fd0 (fes s) = Some es1" "fd_flags (\<not> nonblock flags) u fd1 es1 = Some es'"
    by (auto simp: es_pipe2_def Let_def bind_eq_Some_conv split: if_splits prod.splits)
  have "fd_inv (fd_new s es1 fd0 (nonblock (sys_flags flags u)) (nonblock flags))"
    using fd_flags_D [OF e(1)] by (simp add: fd_inv_new [OF assms(2)])
  from fd_inv_new [OF this, of fd1 es' "nonblock flags" u "nonblock (sys_flags flags u)"] fd_flags_D [OF e(2)]
  show ?thesis using pipe(1) by simp
next
  case (fcntl fd fos flags r es')
  then obtain t where t: "fdsync fd (fes s) = Some t" "es' = fdset fd (t\<lparr>sfd_blocking := \<not> nonblock flags\<rparr>) (fes s)"
    by (auto simp: es_fcntl_def Let_def bind_eq_Some_conv split: if_splits)
  with fcntl(1) fdsync_D [OF t(1)] show ?thesis by (simp add: fd_inv_new [OF assms(2)] fview_fdset)
next
  case (close fd cos r es')
  then obtain t where "fview es' = (fview (fes s))[nat fd := t]"
    by (auto simp: es_close_def cleanupFD_def bind_eq_Some_conv fview_fdset)
  with close(1,2) assms(2) show ?thesis by (auto simp: fd_inv_def nth_list_update nat_eq_iff)
next
  case (read_io env io fd r acts es')
  then show ?thesis using io_fview(1) assms(2) by (simp add: fd_inv_def)
next
  case (write_io env io fd r acts es')
  then show ?thesis using io_fview(2) assms(2) by (simp add: fd_inv_def)
qed

lemma fd_reach_inv: "fd_reach n addr s \<Longrightarrow> fd_inv s"
proof (induction rule: fd_reach.induct)
  case (start k0 w0)
  then show ?case by (simp add: fd_inv_def)
next
  case (step s s')
  show ?case by (rule fd_step_inv [OF step.hyps(2) step.IH])
qed

section \<open>Properties\<close>


text \<open>Witness: a blocking socket and an accepted connection that the application wants non-blocking.\<close>

definition fd_env :: io_env where
  "fd_env = \<lparr>env_mode = PollOneshot, env_tryread = True, env_polls = \<lparr>iPollCount = 1, oPollCount = 1\<rparr>, env_fuel = 5\<rparr>"

lemma fd_example: "\<exists>s. fd_reach 8 (\<lambda>_ _. 1) s \<and> fopen s = {5, 3} \<and> \<not> want s 3 \<and> want s 5"
proof -
  let ?s0 = "\<lparr>fes = es_initSync 8 (\<lambda>_ _. 1), knb = \<lambda>_. False, want = \<lambda>_. False, fopen = {}\<rparr>"
  have len: "length (fview (es_initSync 8 (\<lambda>_ _. 1))) = 8" by (simp add: fview_def es_initSync_def)
  have r0: "fd_reach 8 (\<lambda>_ _. 1) ?s0" by (rule fd_reach.start)
  obtain es1 where e1: "fd_flags True False 3 (es_initSync 8 (\<lambda>_ _. 1)) = Some es1"
    by (simp add: fd_flags_def fdsync_def es_initSync_def)
  have "es_socket (\<lambda>_ _ _. 3) 2 1 0 False (fes ?s0) = Some (3, es1)" using e1 by (simp add: es_socket_def nonblock_def O_NONBLOCK_def)
  from fd_reach.step [OF r0 fd_step.socket [OF this]]
  have r1: "fd_reach 8 (\<lambda>_ _. 1) (fd_new ?s0 es1 3 (nonblock (sys_flags 1 False)) (nonblock 1))" by simp
  note v1 = fd_flags_D [OF e1]
  have l1: "length (fdSyncVector es1) = 8" using v1 len by (metis length_list_update length_map fview_def)
  then obtain e where e: "fdsync 3 es1 = Some e" by (simp add: fdsync_def)
  then have eb: "sfd_blocking e" using fdsync_D(2,3) [OF e] v1 len by simp
  obtain es2 where e2: "fd_flags False (sfd_useUring e) 5 es1 = Some es2" using l1 by (simp add: fd_flags_def fdsync_def)
  have "es_accept4 fd_env (\<lambda>_ _ _. (5, 0)) 3 O_NONBLOCK es1 = Some (5, [ACall], es2)"
    using e eb e2 by (simp add: es_accept4_def syncIO_def tryIO_def O_NONBLOCK_def SOCK_NONBLOCK_def)
  from fd_reach.step [OF r1 fd_step.accept [of 3, OF _ _ _]] this
  have "fd_reach 8 (\<lambda>_ _. 1) (fd_new (fd_new ?s0 es1 3 (nonblock (sys_flags 1 False)) (nonblock 1)) es2 5
     (nonblock (O_NONBLOCK OR SOCK_NONBLOCK)) (nonblock O_NONBLOCK))" by simp
  moreover have "\<not> nonblock 1" "nonblock O_NONBLOCK" by (simp_all add: nonblock_def O_NONBLOCK_def)
  ultimately show ?thesis by fastforce
qed


text \<open>\<^verbatim>\<open>directIO\<close> cuts the result of a call down to an \<^verbatim>\<open>int\<close>: a file offset of 2 GB is returned as a negative
  number.\<close>

lemma directIO_truncates:
  "es_directIO (\<lambda>_. 2147483648) fd \<lparr>fdSyncVector = [], diskCluster = Some 1\<rparr> = Some (-2147483648, 1)"
  by (simp add: es_directIO_def to_int_def)

text \<open>\<^verbatim>\<open>fcntl\<close> treats every command as one that sets flags: asking for the flags of a non-blocking descriptor
  makes it a blocking one for the wrappers.\<close>

lemma fcntl_getfl_unsets:
  assumes "fdsync fd es = Some e" and "\<not> sfd_blocking e" and "0 \<le> r"
  shows "\<exists>es'. es_fcntl (\<lambda>_ _ _. r) fd 3 0 es = Some (r, es') \<and> fview es' ! nat fd = (True, sfd_useUring e)"
  using assms fdsync_D(2) [OF assms(1)] by (simp add: es_fcntl_def fview_fdset nonblock_def)

text \<open>A blocking \<^verbatim>\<open>connect\<close> that is in progress arms the descriptor for output before it waits, and returns
  the error of the socket.\<close>

lemma connect_in_progress:
  assumes "fdsync fd es = Some s" and "sfd_blocking s" and "os fd = (r, EINPROGRESS)" and "r < 0"
  shows "\<exists>acts es'. es_connect env os so_error fd es =
      Some (if so_error fd = 0 then 0 else -1, if so_error fd = 0 then EINPROGRESS else so_error fd, acts, es')
    \<and> io_trace_ok Oneshot False acts"
  using assms by (simp add: es_connect_def checkAsyncCompletion_def Let_def)

end
