(* ===== verification/Poller_Model.thy ===== *)
theory Poller_Model
  imports Event_Calls Timer_Queue
begin

text \<open>
  The pollers of \<^verbatim>\<open>src/src/libfibre/Poller.h\<close> and \<^verbatim>\<open>Poller.cc\<close> (Linux): reading events, notifying the
  fibres that wait for them, and the loops of poller fibres and poller threads. The system calls
  \<^verbatim>\<open>epoll_wait\<close> and \<^verbatim>\<open>read\<close> are parameters.
\<close>

section \<open>Events\<close>

record epoll_event =
  ev_events :: flags
  ev_fd :: int

definition EINTR :: int where "EINTR = 4"
definition MaxPoll :: nat where "MaxPoll = 256"

text \<open>\<^verbatim>\<open>doPoll\<close>: \<open>r\<close> is the outcome of \<^verbatim>\<open>epoll_wait\<close>; the number of events.\<close>

definition doPoll :: "int \<times> int \<Rightarrow> int option" where
  "doPoll r = (if fst r < 0 then do { rassert (snd r = EINTR); Some 0 } else Some (fst r))"

text \<open>\<^verbatim>\<open>notifyOne\<close>: the fred to resume, if any.\<close>

definition notifyOne :: "epoll_event \<Rightarrow> freds \<Rightarrow> evscope \<Rightarrow> (fid option \<times> freds \<times> evscope) option" where
  "notifyOne ev F es =
     (if ev_events ev AND (EPOLLIN OR EPOLLPRI OR EPOLLRDHUP OR EPOLLHUP OR EPOLLERR) \<noteq> 0
      then es_unblock True (ev_fd ev) F es
      else if ev_events ev AND (EPOLLOUT OR EPOLLERR) \<noteq> 0
      then es_unblock False (ev_fd ev) F es
      else Some (None, F, es))"

fun notifyAll :: "epoll_event list \<Rightarrow> freds \<Rightarrow> evscope \<Rightarrow> (fid list \<times> freds \<times> evscope) option" where
  "notifyAll [] F es = Some ([], F, es)"
| "notifyAll (ev # evs) F es =
     do { (f, F1, es1) \<leftarrow> notifyOne ev F es;
          (fs, F2, es2) \<leftarrow> notifyAll evs F1 es1;
          Some ((case f of None \<Rightarrow> fs | Some g \<Rightarrow> g # fs), F2, es2) }"

section \<open>Poller fibres\<close>

text \<open>A round of \<^verbatim>\<open>PollerFibre::pollLoop\<close> after \<^verbatim>\<open>doPoll\<close>: what the fibre does next, the spin count and
  whether the next poll counts as blocking. \<open>PNotify\<close>: notify all events, then \<^verbatim>\<open>yieldGlobal\<close>.\<close>

datatype poll_act = PNotify | PBlock | PYield

definition pollLoop_round :: "nat \<Rightarrow> int \<Rightarrow> nat \<Rightarrow> poll_act \<times> nat \<times> bool" where
  "pollLoop_round SpinMax evcnt spin =
     (if evcnt > 0 then (PNotify, 1, False)
      else if spin \<ge> SpinMax then (PBlock, 1, True)
      else (PYield, spin + 1, False))"

text \<open>The loop over a sequence of poll results, from the initial spin count 1.\<close>

fun pollLoop :: "nat \<Rightarrow> nat \<Rightarrow> int list \<Rightarrow> poll_act list" where
  "pollLoop SpinMax spin [] = []"
| "pollLoop SpinMax spin (n # ns) =
     (let (a, spin', b) = pollLoop_round SpinMax n spin in a # pollLoop SpinMax spin' ns)"

section \<open>Poller threads and the master poller\<close>

text \<open>\<^verbatim>\<open>MasterPoller::prePoll\<close>: when the timer descriptor has been signalled (and could be read), the timer
  queue is checked.\<close>

definition prePoll :: "time \<Rightarrow> fid \<Rightarrow> int \<Rightarrow> bool \<Rightarrow> freds \<Rightarrow> timerq \<Rightarrow> evscope
    \<Rightarrow> (fid list \<times> freds \<times> timerq \<times> evscope \<times> time option) option" where
  "prePoll now cf timerFD readOk F q es =
     do { (r, es') \<leftarrow> es_tryblock now cf timerFD F es;
          if r \<and> readOk
          then (let (rs, q', F', arm) = checkExpiry now q F in Some (rs, F', q', es', arm))
          else Some ([], F, q, es', None) }"

text \<open>One round of \<^verbatim>\<open>BaseThreadPoller::pollLoop\<close> for the master poller.\<close>

definition masterPoll_round :: "time \<Rightarrow> fid \<Rightarrow> int \<Rightarrow> bool \<Rightarrow> int \<times> int \<Rightarrow> epoll_event list \<Rightarrow> freds \<Rightarrow> timerq \<Rightarrow> evscope
    \<Rightarrow> (fid list \<times> freds \<times> timerq \<times> evscope \<times> time option) option" where
  "masterPoll_round now cf timerFD readOk r events F q es =
     do { (rs, F1, q1, es1, arm) \<leftarrow> prePoll now cf timerFD readOk F q es;
          evcnt \<leftarrow> doPoll r;
          (fs, F2, es2) \<leftarrow> notifyAll (take (nat evcnt) events) F1 es1;
          Some (rs @ fs, F2, q1, es2, arm) }"

text \<open>\<^verbatim>\<open>setTimer\<close>: the absolute expiry time given to \<^verbatim>\<open>timerfd_settime\<close>.\<close>

definition setTimer :: "time \<Rightarrow> (int \<times> int) \<times> time" where
  "setTimer timeout = ((0, 0), timeout)"

section \<open>Properties\<close>

lemma mask_bits:
  "EPOLLIN OR EPOLLPRI OR EPOLLRDHUP OR EPOLLHUP OR EPOLLERR = 0x201B" "EPOLLOUT OR EPOLLERR = 0xC"
  by (simp_all add: EPOLLIN_def EPOLLPRI_def EPOLLRDHUP_def EPOLLHUP_def EPOLLERR_def EPOLLOUT_def)

lemma es_unblock_other:
  assumes "es_unblock Input fd F es = Some (f, F', es')" and "fdsync fd es = Some s"
  shows "\<exists>s'. fdsync fd es' = Some s' \<and> sfd_sync s' (\<not> Input) = sfd_sync s (\<not> Input)
    \<and> sfd_sync s' Input = fst (snd (sem_V True (sfd_sync s Input) F)) \<and> f = fst (sem_V True (sfd_sync s Input) F)"
  using assms by (auto simp: es_unblock_def fdsync_def fdset_def Let_def bind_eq_Some_conv case_prod_beta split: if_splits)

text \<open>\<^verbatim>\<open>notifyOne\<close> signals exactly one direction of the descriptor. An event with any of the input, hang-up
  or error bits signals the input semaphore, resumes the fibre that waits there and leaves the output
  semaphore as it is, even when the output bit is set as well; output is signalled only without these bits. So
  the event of a failed \<^verbatim>\<open>connect\<close> (output, error and hang-up bits, on the output poller) resumes no fibre
  that waits for output, although its one-shot registration is used up.\<close>

theorem notifyOne_one_direction:
  assumes "fdsync (ev_fd ev) es = Some s" and "notifyOne ev F es = Some (f, F', es')"
  defines "inbits \<equiv> ev_events ev AND 0x201B" and "outbits \<equiv> ev_events ev AND 0xC"
  shows "(inbits \<noteq> 0 \<longrightarrow> f = fst (sem_V True (sfd_sync s True) F)
            \<and> (\<exists>s'. fdsync (ev_fd ev) es' = Some s' \<and> sfd_sync s' False = sfd_sync s False))
    \<and> (inbits = 0 \<longrightarrow> outbits \<noteq> 0 \<longrightarrow> f = fst (sem_V True (sfd_sync s False) F)
            \<and> (\<exists>s'. fdsync (ev_fd ev) es' = Some s' \<and> sfd_sync s' True = sfd_sync s True))
    \<and> (inbits = 0 \<longrightarrow> outbits = 0 \<longrightarrow> f = None \<and> F' = F \<and> es' = es)
    \<and> (ev_events ev = EPOLLOUT OR EPOLLERR OR EPOLLHUP \<longrightarrow>
         (\<exists>s'. fdsync (ev_fd ev) es' = Some s' \<and> sfd_sync s' False = sfd_sync s False)
         \<and> (sem_V True (sfd_sync s True) F = (None, l, F1) \<longrightarrow> f = None \<and> F' = F1))"
proof -
  have inp: "es_unblock True (ev_fd ev) F es = Some (f, F', es')" if "inbits \<noteq> 0"
    using assms(2) that unfolding notifyOne_def mask_bits inbits_def by simp
  have outp: "es_unblock False (ev_fd ev) F es = Some (f, F', es')" if "inbits = 0" "outbits \<noteq> 0"
    using assms(2) that unfolding notifyOne_def mask_bits inbits_def outbits_def by simp
  have none: "f = None \<and> F' = F \<and> es' = es" if "inbits = 0" "outbits = 0"
    using assms(2) that unfolding notifyOne_def mask_bits inbits_def outbits_def by simp
  have 1: "inbits \<noteq> 0 \<longrightarrow> f = fst (sem_V True (sfd_sync s True) F)
            \<and> (\<exists>s'. fdsync (ev_fd ev) es' = Some s' \<and> sfd_sync s' False = sfd_sync s False)"
    using es_unblock_other [OF inp assms(1)] by auto
  have 2: "inbits = 0 \<longrightarrow> outbits \<noteq> 0 \<longrightarrow> f = fst (sem_V True (sfd_sync s False) F)
            \<and> (\<exists>s'. fdsync (ev_fd ev) es' = Some s' \<and> sfd_sync s' True = sfd_sync s True)"
    using es_unblock_other [OF outp assms(1)] by auto
  have 3: "inbits \<noteq> 0" if "ev_events ev = EPOLLOUT OR EPOLLERR OR EPOLLHUP"
    unfolding inbits_def that by (simp add: EPOLLERR_def EPOLLHUP_def EPOLLOUT_def)
  have 4: "f = None \<and> F' = F1" if "inbits \<noteq> 0" "sem_V True (sfd_sync s True) F = (None, l, F1)"
    using inp [OF that(1)] assms(1) that(2) by (auto simp: es_unblock_def)
  have 5: "ev_events ev = EPOLLOUT OR EPOLLERR OR EPOLLHUP \<longrightarrow>
         (\<exists>s'. fdsync (ev_fd ev) es' = Some s' \<and> sfd_sync s' False = sfd_sync s False)
         \<and> (sem_V True (sfd_sync s True) F = (None, l, F1) \<longrightarrow> f = None \<and> F' = F1)"
    using 1 3 4 by simp
  show ?thesis by (intro conjI 1 2 5) (use none in simp_all)
qed

text \<open>Witness: fibre 7 waits for the completion of \<^verbatim>\<open>connect\<close> on descriptor 0; the connection is refused.\<close>

definition conn_fd :: syncfd where
  "conn_fd = \<lparr>sfd_sync = (\<lambda>Input. \<lparr>sem_counter = 0, sem_bq = \<lparr>bq_addr = 9, bq_nodes = (if Input then [] else [7])\<rparr>\<rparr>),
     sfd_poller = (\<lambda>_. None), sfd_blocking = True, sfd_useUring = False\<rparr>"

theorem notifyOne_one_direction_witness:
  "\<forall>F. \<exists>F' es' s'. notifyOne \<lparr>ev_events = EPOLLOUT OR EPOLLERR OR EPOLLHUP, ev_fd = 0\<rparr> F \<lparr>fdSyncVector = [conn_fd], diskCluster = None\<rparr>
       = Some (None, F', es')
     \<and> fdsync 0 es' = Some s' \<and> bq_nodes (sem_bq (sfd_sync s' False)) = [7]"
proof (rule allI)
  fix F
  let ?ev = "\<lparr>ev_events = EPOLLOUT OR EPOLLERR OR EPOLLHUP, ev_fd = 0\<rparr>"
  let ?es = "\<lparr>fdSyncVector = [conn_fd], diskCluster = None\<rparr>"
  let ?l = "\<lparr>sem_counter = 1, sem_bq = \<lparr>bq_addr = 9, bq_nodes = []\<rparr>\<rparr>"
  have s: "fdsync (ev_fd ?ev) ?es = Some conn_fd" by (simp add: fdsync_def)
  have v: "sem_V True (sfd_sync conn_fd True) F = (None, ?l, F)"
    by (simp add: sem_V_def conn_fd_def bq_unblock_def)
  obtain f F' es' where n: "notifyOne ?ev F ?es = Some (f, F', es')"
    using s unfolding notifyOne_def mask_bits es_unblock_def
    by (simp add: EPOLLERR_def EPOLLHUP_def EPOLLOUT_def Let_def case_prod_beta)
  from notifyOne_one_direction [OF s n, of ?l F] v
  have "f = None" "\<exists>s'. fdsync 0 es' = Some s' \<and> sfd_sync s' False = sfd_sync conn_fd False" by auto
  with n show "\<exists>F' es' s'. notifyOne ?ev F ?es = Some (None, F', es')
     \<and> fdsync 0 es' = Some s' \<and> bq_nodes (sem_bq (sfd_sync s' False)) = [7]"
    by (auto simp: conn_fd_def)
qed

text \<open>A poller fibre that finds no events yields \<open>SpinMax - 1\<close> times and then blocks on the master poller;
  any event restarts the count.\<close>

lemma pollLoop_yields: "pollLoop SpinMax k (replicate n 0 @ ns) = replicate n PYield @ pollLoop SpinMax (k + n) ns" if "k + n \<le> SpinMax"
  using that by (induction n arbitrary: k) (simp_all add: pollLoop_round_def)

lemma pollLoop_idle:
  assumes "0 < SpinMax"
  shows "pollLoop SpinMax 1 (replicate SpinMax 0 @ ns) = replicate (SpinMax - 1) PYield @ PBlock # pollLoop SpinMax 1 ns"
proof -
  have "replicate SpinMax (0 :: int) = replicate (SpinMax - 1) 0 @ [0]"
    using assms by (metis Suc_diff_1 replicate_append_same replicate_Suc)
  then show ?thesis using pollLoop_yields [of 1 "SpinMax - 1" SpinMax "0 # ns"] assms
    by (simp add: pollLoop_round_def)
qed

lemma pollLoop_event: "0 < n \<Longrightarrow> pollLoop SpinMax k (n # ns) = PNotify # pollLoop SpinMax 1 ns"
  by (simp add: pollLoop_round_def)

end
