(* ===== verification/Boot_Config.thy ===== *)
theory Boot_Config
  imports Prelude
begin

text \<open>
  Start-up configuration: \<^verbatim>\<open>parselist\<close> and the environment part of \<^verbatim>\<open>FibreInit\<close> in
  \<^verbatim>\<open>src/src/libfibre/Bootstrap.cc\<close>, and the assignment of workers to CPUs in \<^verbatim>\<open>EventScope::bootstrap\<close>. The
  value of \<^verbatim>\<open>atoi\<close> is an unbounded integer (the behaviour of \<^verbatim>\<open>atoi\<close> is undefined outside of \<^verbatim>\<open>int\<close>).
\<close>

section \<open>Parsing a CPU list\<close>

definition isdigit :: "char \<Rightarrow> bool" where
  "isdigit c \<longleftrightarrow> 48 \<le> (of_char c :: nat) \<and> (of_char c :: nat) \<le> 57"

definition digit_value :: "char \<Rightarrow> int" where
  "digit_value c = int (of_char c) - 48"

text \<open>\<^verbatim>\<open>atoi\<close> at the start of a number: the value of the longest run of digits.\<close>

definition atoi :: "string \<Rightarrow> int" where
  "atoi l = foldl (\<lambda>n c. 10 * n + digit_value c) 0 (takeWhile isdigit l)"

datatype parse_state = NONE | NUM | DASH

text \<open>The loop of \<^verbatim>\<open>parselist\<close> with \<^verbatim>\<open>lastnum\<close>, \<^verbatim>\<open>curnum\<close> and the list so far; no result is the jump to
  \<^verbatim>\<open>parserr\<close>.\<close>

function parselist_loop :: "parse_state \<Rightarrow> int \<Rightarrow> int \<Rightarrow> int list \<Rightarrow> string \<Rightarrow> int list option" where
  "parselist_loop state lastnum curnum cpulist [] =
     (case state of NONE \<Rightarrow> Some cpulist | NUM \<Rightarrow> Some (cpulist @ [curnum]) | DASH \<Rightarrow> None)"
| "parselist_loop state lastnum curnum cpulist (c # l) =
     (if isdigit c
      then let num = atoi (c # l); l' = dropWhile isdigit (c # l)
           in case state of
                NONE \<Rightarrow> parselist_loop NUM num num cpulist l'
              | DASH \<Rightarrow> parselist_loop NONE (max lastnum (num + 1)) num (cpulist @ [lastnum..num]) l'
              | NUM \<Rightarrow> None
      else if c = CHR '',''
      then case state of
             NONE \<Rightarrow> parselist_loop NONE lastnum curnum cpulist l
           | NUM \<Rightarrow> parselist_loop NONE lastnum curnum (cpulist @ [curnum]) l
           | DASH \<Rightarrow> None
      else if c = CHR ''-''
      then if state \<noteq> NUM then None else parselist_loop DASH lastnum curnum cpulist l
      else None)"
  by pat_completeness auto
termination by (relation "measure (\<lambda>(_, _, _, _, l). length l)") (auto simp: length_dropWhile_le less_Suc_eq_le)

definition parselist :: "string \<Rightarrow> int list" where
  "parselist list = (case parselist_loop NONE 0 0 [] list of None \<Rightarrow> [] | Some cpulist \<Rightarrow> cpulist)"

section \<open>Configuration\<close>

text \<open>The environment variables \<^verbatim>\<open>FibrePollerCount\<close> and \<^verbatim>\<open>FibreWorkerCount\<close> after \<^verbatim>\<open>atoi\<close>, and
  \<^verbatim>\<open>FibreCpuSet\<close>. The result is what \<^verbatim>\<open>EventScope::bootstrap\<close> is called with.\<close>

definition FibreInit :: "nat \<Rightarrow> nat \<Rightarrow> int option \<Rightarrow> int option \<Rightarrow> string option \<Rightarrow> int list \<times> nat \<times> nat" where
  "FibreInit pollerCount workerCount envPoller envWorker envCpus =
     (let pollerCount = (case envPoller of Some cnt \<Rightarrow> if cnt > 0 then nat cnt else pollerCount | None \<Rightarrow> pollerCount);
          workerCount = (case envWorker of Some cnt \<Rightarrow> if cnt > 0 then nat cnt else workerCount | None \<Rightarrow> workerCount);
          cpulist = (case envCpus of Some env \<Rightarrow> parselist env | None \<Rightarrow> []);
          workerCount = (if envCpus \<noteq> None \<and> length cpulist > workerCount then length cpulist else workerCount)
      in (cpulist, pollerCount, workerCount))"

text \<open>\<^verbatim>\<open>EventScope::bootstrap\<close>: the worker threads and the CPU that each of them is bound to.\<close>

fun bind_workers :: "'t list \<Rightarrow> int list \<Rightarrow> ('t \<times> int) list" where
  "bind_workers (tid # tids) (cpu # cpus) = (tid, cpu) # bind_workers tids cpus"
| "bind_workers tids cpus = []"

section \<open>Properties\<close>

text \<open>The notation that \<^verbatim>\<open>parselist\<close> reads: single numbers and ranges, separated by commas.\<close>

datatype cpu_item = Cpu nat | Cpus nat nat

fun show_digits :: "nat \<Rightarrow> string" where
  "show_digits n = (if n < 10 then [char_of (48 + n)] else show_digits (n div 10) @ [char_of (48 + n mod 10)])"

declare show_digits.simps [simp del]

fun show_item :: "cpu_item \<Rightarrow> string" where
  "show_item (Cpu n) = show_digits n"
| "show_item (Cpus a b) = show_digits a @ CHR ''-'' # show_digits b"

fun show_items :: "cpu_item list \<Rightarrow> string" where
  "show_items [] = []"
| "show_items [x] = show_item x"
| "show_items (x # y # xs) = show_item x @ CHR '','' # show_items (y # xs)"

fun item_cpus :: "cpu_item \<Rightarrow> int list" where
  "item_cpus (Cpu n) = [int n]"
| "item_cpus (Cpus a b) = [int a..int b]"

lemma isdigit_char_of: "n < 10 \<Longrightarrow> isdigit (char_of (48 + n)) \<and> digit_value (char_of (48 + n)) = int n"
  by (simp add: isdigit_def digit_value_def)

lemma show_digits_value:
  "list_all isdigit (show_digits n) \<and> show_digits n \<noteq> []
    \<and> foldl (\<lambda>m c. 10 * m + digit_value c) 0 (show_digits n) = int n"
proof (induction n rule: show_digits.induct)
  case (1 n)
  show ?case
  proof (cases "n < 10")
    case True
    then show ?thesis using isdigit_char_of by (simp add: show_digits.simps)
  next
    case False
    have "n mod 10 < 10" by simp
    with False 1 isdigit_char_of [of "n mod 10"] show ?thesis
      by (simp add: show_digits.simps [of n] zdiv_int zmod_int)
  qed
qed

lemma takeWhile_digits:
  assumes "rest = [] \<or> \<not> isdigit (hd rest)"
  shows "takeWhile isdigit (show_digits n @ rest) = show_digits n" "dropWhile isdigit (show_digits n @ rest) = rest"
  using show_digits_value [of n] assms
  by (cases rest; simp add: takeWhile_append2 dropWhile_append2 list_all_iff takeWhile_eq_all_conv dropWhile_eq_Nil_conv)+

lemma parse_number:
  assumes "rest = [] \<or> \<not> isdigit (hd rest)"
  shows "parselist_loop NONE l c acc (show_digits n @ rest) = parselist_loop NUM (int n) (int n) acc rest"
    and "parselist_loop DASH l c acc (show_digits n @ rest) = parselist_loop NONE (max l (int n + 1)) (int n) (acc @ [l..int n]) rest"
proof -
  obtain d ds where d: "show_digits n = d # ds" "isdigit d"
    using show_digits_value [of n] by (cases "show_digits n") auto
  have a: "atoi (d # (ds @ rest)) = int n"
    using takeWhile_digits(1) [OF assms, of n] show_digits_value [of n] by (simp add: atoi_def d(1))
  have w: "dropWhile isdigit (d # (ds @ rest)) = rest"
    using takeWhile_digits(2) [OF assms, of n] by (simp add: d(1))
  show "parselist_loop NONE l c acc (show_digits n @ rest) = parselist_loop NUM (int n) (int n) acc rest"
    using a w d(2) by (simp add: d(1) Let_def)
  show "parselist_loop DASH l c acc (show_digits n @ rest) = parselist_loop NONE (max l (int n + 1)) (int n) (acc @ [l..int n]) rest"
    using a w d(2) by (simp add: d(1) Let_def)
qed

lemma separators [simp]: "\<not> isdigit (CHR '','')" "\<not> isdigit (CHR ''-'')"
  by (simp_all add: isdigit_def)

text \<open>After an item the parser is between items, or has a number that the next separator or the end appends.\<close>

lemma parse_item:
  assumes "rest = [] \<or> hd rest = CHR '',''"
  shows "\<exists>l' c'. parselist_loop NONE l c acc (show_item x @ rest) =
    (case rest of [] \<Rightarrow> Some (acc @ item_cpus x) | _ # r \<Rightarrow> parselist_loop NONE l' c' (acc @ item_cpus x) r)"
proof (cases x)
  case (Cpu n)
  have "rest = [] \<or> \<not> isdigit (hd rest)" using assms by auto
  note parse_number(1) [OF this, of l c acc n]
  then show ?thesis using assms by (cases rest) (auto simp: Cpu)
next
  case (Cpus a b)
  have r: "rest = [] \<or> \<not> isdigit (hd rest)" using assms by auto
  have "parselist_loop NONE l c acc (show_digits a @ CHR ''-'' # show_digits b @ rest)
      = parselist_loop NONE (max (int a) (int b + 1)) (int b) (acc @ [int a..int b]) rest"
    using parse_number(1) [of "CHR ''-'' # show_digits b @ rest" l c acc a] parse_number(2) [OF r, of "int a"] by simp
  then show ?thesis using assms by (cases rest) (auto simp: Cpus)
qed

lemma parse_items:
  "parselist_loop NONE l c acc (show_items xs) = Some (acc @ concat (map item_cpus xs))"
proof (induction xs arbitrary: l c acc rule: show_items.induct)
  case (2 x)
  show ?case using parse_item [of "[]" l c acc x] by simp
next
  case (3 x y xs)
  obtain l' c' where "parselist_loop NONE l c acc (show_item x @ CHR '','' # show_items (y # xs)) =
      parselist_loop NONE l' c' (acc @ item_cpus x) (show_items (y # xs))"
    using parse_item [of "CHR '','' # show_items (y # xs)" l c acc x] by auto
  with "3.IH" show ?case by simp
qed simp

lemma bind_workers_zip: "bind_workers tids cpus = zip tids cpus"
  by (induction tids cpus rule: bind_workers.induct) auto



text \<open>Anything else makes the whole list empty, also after a correct beginning.\<close>

lemma parselist_errors: "parselist ''1,2-'' = []" "parselist ''1;2'' = []" "parselist ''1-2-3'' = []" "parselist ''-1'' = []"
  by (simp_all add: parselist_def isdigit_def atoi_def digit_value_def)

end
