(* ===== verification/Timeout_Semaphore.thy ===== *)
theory Timeout_Semaphore
  imports Benaphore_Sync Locked_Sync
begin

text \<open>
  \<^verbatim>\<open>LimitedTimeoutSemaphore\<close> of \<^verbatim>\<open>src/src/runtime/MCSTimeoutSemaphore.h\<close>: a binary semaphore on one atomic
  counter and a queue in which a waiting fred may time out. A negative counter is a number of waiting freds;
  1 is an open semaphore; a larger value \<open>n\<close> tells \<open>n - 1\<close> calls of \<^verbatim>\<open>V\<close>, which are looking for a fred to
  resume, that the freds have all timed out. The queue, \<^verbatim>\<open>MCSTimeoutQueue\<close>, is taken at its most liberal here:
  an attempt to pop may fail, and may deliver any fred that waits. The accesses to the counter interleave
  freely; a value that was read earlier is an arbitrary argument of the compare-and-swap that uses it.
\<close>

section \<open>Waiting\<close>

text \<open>\<^verbatim>\<open>yieldingSpinOnCondition\<close>: what is done between the tests, whose outcomes are given.\<close>

datatype spin_act = Pauses int | Yield

fun yieldingSpinOnCondition :: "int \<Rightarrow> int \<Rightarrow> int \<Rightarrow> int \<Rightarrow> bool list \<Rightarrow> spin_act list" where
  "yieldingSpinOnCondition SpinEnd SpinCnt spin spins [] = []"
| "yieldingSpinOnCondition SpinEnd SpinCnt spin spins (cond # conds) =
     (if \<not> cond then []
      else if spins < SpinCnt
      then Pauses spin # yieldingSpinOnCondition SpinEnd SpinCnt (if spin < SpinEnd then spin + spin else spin) (spins + 1) conds
      else Yield # yieldingSpinOnCondition SpinEnd SpinCnt spin spins conds)"

fun spinOnCondition :: "int \<Rightarrow> int \<Rightarrow> bool list \<Rightarrow> spin_act list" where
  "spinOnCondition SpinEnd spin [] = []"
| "spinOnCondition SpinEnd spin (cond # conds) =
     (if \<not> cond then []
      else Pauses spin # spinOnCondition SpinEnd (if spin < SpinEnd then spin + spin else spin) conds)"

text \<open>The processor is yielded to other freds from round \<open>SpinCnt\<close> on.\<close>

lemma yielding_after_SpinCnt:
  "length (filter (\<lambda>a. a \<noteq> Yield) (yieldingSpinOnCondition e n spin spins conds)) \<le> nat (n - spins)"
  by (induction e n spin spins conds rule: yieldingSpinOnCondition.induct) auto

section \<open>Operations\<close>

definition lts_reset :: "int \<Rightarrow> fid list \<Rightarrow> int option" where
  "lts_reset n q = do { rassert (q = []); rassert (n = 1 \<or> n = 0); Some n }"

text \<open>\<open>c\<close> is the value that was read, \<open>counter\<close> the value at the compare-and-swap. No result: the loop goes
  round again.\<close>

definition lts_tryP :: "int \<Rightarrow> int \<Rightarrow> SemaphoreResult \<times> int" where
  "lts_tryP c counter = (if c = 1 \<and> counter = c then (SemaphoreWasOpen, 0) else (SemaphoreTimeout, counter))"

definition lts_P :: "int \<Rightarrow> int \<Rightarrow> int option" where
  "lts_P c counter = (if c \<ge> 2 \<or> counter \<noteq> c then None else Some (c - 1))"

text \<open>\<^verbatim>\<open>P\<close> with a deadline tests the time before each attempt.\<close>

definition lts_P_timeout :: "time \<Rightarrow> time \<Rightarrow> int \<Rightarrow> int \<Rightarrow> (SemaphoreResult + int) option" where
  "lts_P_timeout timeout now c counter =
     (if time_le timeout now then Some (Inl SemaphoreTimeout)
      else if c < 2 \<and> counter = c then Some (Inr (c - 1)) else None)"

text \<open>After the decrement: open, or the fred goes to the queue.\<close>

definition lts_P_open :: "int \<Rightarrow> bool option" where
  "lts_P_open c = (if c > 0 then do { rassert (c = 1); Some True } else Some False)"

definition handleTimeout :: "int \<Rightarrow> int \<Rightarrow> int option" where
  "handleTimeout c counter = (if counter \<noteq> c then None else Some (if c = 0 then 2 else c + 1))"

text \<open>\<^verbatim>\<open>V\<close>, first loop: done, go on to look for a fred, or try again with the value seen.\<close>

datatype v_round = VDone | VSearch | VAgain int

definition lts_V :: "int \<Rightarrow> int \<Rightarrow> (v_round \<times> int) option" where
  "lts_V c counter =
     (if counter = c
      then if c = 0 then Some (VDone, c + 1) else do { rassert (c < 0); Some (VSearch, c + 1) }
      else if counter \<ge> 1 then Some (VDone, counter) else Some (VAgain counter, counter))"

text \<open>\<^verbatim>\<open>V\<close>, second loop, after an attempt to pop has failed: true when this \<^verbatim>\<open>V\<close> is cancelled.\<close>

definition lts_V_cancel :: "int \<Rightarrow> int \<Rightarrow> bool \<times> int" where
  "lts_V_cancel c counter = (if c \<ge> 2 \<and> counter = c then (True, c - 1) else (False, counter))"

lemmas lts_defs [lf_op] = lts_tryP_def lts_P_def lts_P_timeout_def lts_P_open_def handleTimeout_def lts_V_def lts_V_cancel_def

section \<open>Interleavings\<close>

text \<open>\<open>LtP\<close>: in the loop of \<^verbatim>\<open>P\<close>; \<open>LtWait\<close>: counted, in the queue or on the way to it; \<open>LtTimed\<close>: has left the
  queue, the counter is not adjusted yet; \<open>LtV c\<close>: in the first loop of \<^verbatim>\<open>V\<close>; \<open>LtSearch\<close>: in the second.\<close>

datatype lt_pc = LtOut | LtP | LtWait | LtTimed | LtV int | LtSearch

record lt_sys =
  ltc :: int
  ltpc :: "fid \<Rightarrow> lt_pc"
  ltVs :: nat      \<comment> \<open>calls of \<open>V\<close> that have changed the counter\<close>
  ltGot :: nat     \<comment> \<open>successful calls of \<open>P\<close> and \<open>tryP\<close>\<close>

abbreviation "lt_set s c cf p \<equiv> s\<lparr>ltc := c, ltpc := (ltpc s)(cf := p)\<rparr>"

inductive lt_step :: "lt_sys \<Rightarrow> lt_sys \<Rightarrow> bool" where
  tryP: "ltpc s cf = LtOut \<Longrightarrow> lts_tryP c (ltc s) = (r, n) \<Longrightarrow>
     lt_step s (s\<lparr>ltc := n, ltGot := ltGot s + of_bool (r \<noteq> SemaphoreTimeout)\<rparr>)"
| enter: "ltpc s cf = LtOut \<Longrightarrow> p \<in> {LtP, LtV 0} \<Longrightarrow> lt_step s (lt_set s (ltc s) cf p)"
| P: "ltpc s cf = LtP \<Longrightarrow> lts_P c (ltc s) = Some n \<Longrightarrow> lts_P_open c = Some r \<Longrightarrow>
     lt_step s ((lt_set s n cf (if r then LtOut else LtWait))\<lparr>ltGot := ltGot s + of_bool r\<rparr>)"
| expired: "ltpc s cf = LtP \<Longrightarrow> lts_P_timeout timeout now c (ltc s) = Some (Inl r) \<Longrightarrow> lt_step s (lt_set s (ltc s) cf LtOut)"
| P_timeout: "ltpc s cf = LtP \<Longrightarrow> lts_P_timeout timeout now c (ltc s) = Some (Inr n) \<Longrightarrow> lts_P_open c = Some r \<Longrightarrow>
     lt_step s ((lt_set s n cf (if r then LtOut else LtWait))\<lparr>ltGot := ltGot s + of_bool r\<rparr>)"
| timer: "ltpc s cf = LtWait \<Longrightarrow> lt_step s (lt_set s (ltc s) cf LtTimed)"
| adjust: "ltpc s cf = LtTimed \<Longrightarrow> handleTimeout c (ltc s) = Some n \<Longrightarrow> lt_step s (lt_set s n cf LtOut)"
| V: "ltpc s cf = LtV c \<Longrightarrow> lts_V c (ltc s) = Some (r, n) \<Longrightarrow>
     lt_step s ((lt_set s n cf (case r of VDone \<Rightarrow> LtOut | VSearch \<Rightarrow> LtSearch | VAgain c' \<Rightarrow> LtV c'))
       \<lparr>ltVs := ltVs s + of_bool (n \<noteq> ltc s)\<rparr>)"
| pop: "ltpc s cf = LtSearch \<Longrightarrow> ltpc s f = LtWait \<Longrightarrow>
     lt_step s (s\<lparr>ltpc := (ltpc s)(cf := LtOut, f := LtOut), ltGot := Suc (ltGot s)\<rparr>)"
| cancel: "ltpc s cf = LtSearch \<Longrightarrow> lts_V_cancel c (ltc s) = (True, n) \<Longrightarrow> lt_step s (lt_set s n cf LtOut)"

inductive lt_reach :: "int \<Rightarrow> lt_sys \<Rightarrow> bool" for c0 where
  start: "lts_reset c0 [] = Some n \<Longrightarrow> lt_reach c0 \<lparr>ltc = n, ltpc = (\<lambda>_. LtOut), ltVs = 0, ltGot = 0\<rparr>"
| step: "lt_reach c0 s \<Longrightarrow> lt_step s s' \<Longrightarrow> lt_reach c0 s'"

section \<open>Invariant\<close>

text \<open>Freds that are counted as waiting, and calls of \<^verbatim>\<open>V\<close> that look for one.\<close>

definition lt_waiting :: "(fid \<Rightarrow> lt_pc) \<Rightarrow> int" where
  "lt_waiting pc = cnt pc LtWait + cnt pc LtTimed"

definition lt_balance :: "int \<Rightarrow> int \<Rightarrow> (fid \<Rightarrow> lt_pc) \<Rightarrow> int \<Rightarrow> int \<Rightarrow> bool" where
  "lt_balance c0 c pc vs got \<longleftrightarrow> finite {f. pc f \<noteq> LtOut}
     \<and> cnt pc LtSearch - lt_waiting pc = (if c \<le> 0 then c else c - 1)
     \<and> got + cnt pc LtSearch - max 0 (c - 1) + of_bool (1 \<le> c) \<le> c0 + vs
     \<and> (\<forall>f c'. pc f = LtV c' \<longrightarrow> c' \<le> 0)"

definition lt_inv :: "int \<Rightarrow> lt_sys \<Rightarrow> bool" where
  "lt_inv c0 s \<longleftrightarrow> lt_balance c0 (ltc s) (ltpc s) (int (ltVs s)) (int (ltGot s))"

text \<open>One fred moves; \<open>x p\<close> counts it when it is in \<open>p\<close>.\<close>

lemma lt_balance_move:
  assumes b: "lt_balance c0 c pc vs got" and p: "pc f = p" "\<And>c'. p' = LtV c' \<Longrightarrow> c' \<le> 0"
    and s: "(of_bool (p' = LtSearch) - of_bool (p = LtSearch)) - (of_bool (p' \<in> {LtWait, LtTimed}) - of_bool (p \<in> {LtWait, LtTimed}))
      = (if n \<le> 0 then n else n - 1) - (if c \<le> 0 then c else c - (1::int))"
    and g: "got' - got + of_bool (p' = LtSearch) - of_bool (p = LtSearch) - max 0 (n - 1) + max 0 (c - 1) + of_bool (1 \<le> n) - of_bool (1 \<le> c)
      \<le> vs' - vs"
  shows "lt_balance c0 n (pc(f := p')) vs' got'"
proof -
  have fin: "finite {f. pc f \<noteq> LtOut}" using b by (simp add: lt_balance_def)
  have u: "cnt (pc(f := p')) x = cnt pc x + of_bool (p' = x) - of_bool (p = x)" if "x \<noteq> LtOut" for x
    using cnt_upd [OF finite_stage [OF fin that], of f p'] by (simp add: p(1))
  have w: "lt_waiting (pc(f := p')) = lt_waiting pc + of_bool (p' \<in> {LtWait, LtTimed}) - of_bool (p \<in> {LtWait, LtTimed})"
    using u [of LtWait] u [of LtTimed] by (auto simp: lt_waiting_def simp del: fun_upd_apply)
  have v: "\<forall>g c'. (pc(f := p')) g = LtV c' \<longrightarrow> c' \<le> 0"
    using b p(2) by (auto simp: lt_balance_def)
  show ?thesis
    using b finite_upd_stage [OF fin, of f p'] u [of LtSearch] w v s g
    unfolding lt_balance_def by (simp del: fun_upd_apply)
qed

lemma lt_balance_pop:
  assumes b: "lt_balance c0 c pc vs got" and p: "pc cf = LtSearch" "pc f = LtWait"
  shows "lt_balance c0 c (pc(cf := LtOut, f := LtOut)) vs (got + 1)"
proof -
  have fin: "finite {f. pc f \<noteq> LtOut}" using b by (simp add: lt_balance_def)
  let ?pc = "pc(cf := LtOut)"
  have fin1: "finite {f. ?pc f \<noteq> LtOut}" by (rule finite_upd_stage [OF fin])
  have ne: "?pc f = LtWait" using p by auto
  have u: "cnt (?pc(f := LtOut)) x = cnt pc x - of_bool (x = LtSearch) - of_bool (x = LtWait)" if "x \<noteq> LtOut" for x
    using cnt_upd [OF finite_stage [OF fin1 that], of f LtOut] cnt_upd [OF finite_stage [OF fin that], of cf LtOut] that
    by (auto simp: ne p(1) simp del: fun_upd_apply)
  have w: "lt_waiting (?pc(f := LtOut)) = lt_waiting pc - 1"
    using u [of LtWait] u [of LtTimed] by (simp add: lt_waiting_def del: fun_upd_apply)
  have v: "\<forall>g c'. (?pc(f := LtOut)) g = LtV c' \<longrightarrow> c' \<le> 0"
    using b by (auto simp: lt_balance_def)
  show ?thesis
    using b finite_upd_stage [OF fin1, of f LtOut] u [of LtSearch] w v
    unfolding lt_balance_def by (simp del: fun_upd_apply)
qed

lemma lt_P_inv:
  assumes inv: "lt_inv c0 s" and pc: "ltpc s cf = LtP" and c: "c < 2" "ltc s = c" and r: "lts_P_open c = Some r"
  shows "lt_inv c0 ((lt_set s (c - 1) cf (if r then LtOut else LtWait))\<lparr>ltGot := ltGot s + of_bool r\<rparr>)"
proof -
  have "r \<longleftrightarrow> c = 1" "c \<le> 1" using r c(1) by (auto simp: lts_P_open_def split: if_splits)
  then have "lt_balance c0 (c - 1) ((ltpc s)(cf := if r then LtOut else LtWait)) (int (ltVs s)) (int (ltGot s) + of_bool r)"
    using inv unfolding lt_inv_def by (intro lt_balance_move [where p = LtP]) (auto simp: c(2) pc)
  then show ?thesis by (simp add: lt_inv_def)
qed

lemma lt_step_inv:
  assumes "lt_step s s'" and inv: "lt_inv c0 s"
  shows "lt_inv c0 s'"
  using assms(1)
proof (cases rule: lt_step.cases)
  case (tryP cf c r n)
  then show ?thesis using inv by (auto simp: lt_inv_def lt_balance_def lts_tryP_def split: if_splits)
next
  case (enter cf p)
  have "lt_balance c0 (ltc s) ((ltpc s)(cf := p)) (int (ltVs s)) (int (ltGot s))"
    using inv unfolding lt_inv_def by (rule lt_balance_move [where p = LtOut]) (use enter(2,3) in auto)
  then show ?thesis by (simp add: enter(1) lt_inv_def)
next
  case (P cf c n r)
  then show ?thesis using lt_P_inv [OF inv P(2) _ _ P(4)] by (auto simp: lts_P_def split: if_splits)
next
  case (expired cf timeout now c r)
  have "lt_balance c0 (ltc s) ((ltpc s)(cf := LtOut)) (int (ltVs s)) (int (ltGot s))"
    using inv unfolding lt_inv_def by (rule lt_balance_move [where p = LtP]) (use expired(2) in auto)
  then show ?thesis by (simp add: expired(1) lt_inv_def)
next
  case (P_timeout cf timeout now c n r)
  then show ?thesis using lt_P_inv [OF inv P_timeout(2) _ _ P_timeout(4)] by (auto simp: lts_P_timeout_def split: if_splits)
next
  case (timer cf)
  have "lt_balance c0 (ltc s) ((ltpc s)(cf := LtTimed)) (int (ltVs s)) (int (ltGot s))"
    using inv unfolding lt_inv_def by (rule lt_balance_move [where p = LtWait]) (use timer(2) in auto)
  then show ?thesis by (simp add: timer(1) lt_inv_def)
next
  case (adjust cf c n)
  have n: "n = (if ltc s = 0 then 2 else ltc s + 1)" using adjust(3) by (auto simp: handleTimeout_def split: if_splits)
  have "lt_balance c0 n ((ltpc s)(cf := LtOut)) (int (ltVs s)) (int (ltGot s))"
    using inv unfolding lt_inv_def by (rule lt_balance_move [where p = LtTimed]) (use adjust(2) in \<open>auto simp: n\<close>)
  then show ?thesis by (simp add: adjust(1) lt_inv_def)
next
  case (V cf c r n)
  have "c \<le> 0" using inv V(2) by (auto simp: lt_inv_def lt_balance_def)
  then have "lt_balance c0 n ((ltpc s)(cf := (case r of VDone \<Rightarrow> LtOut | VSearch \<Rightarrow> LtSearch | VAgain c' \<Rightarrow> LtV c')))
      (int (ltVs s) + of_bool (n \<noteq> ltc s)) (int (ltGot s))"
    using inv V(3) unfolding lt_inv_def
    by (intro lt_balance_move [where p = "LtV c"]) (use V(2) in \<open>auto simp: lts_V_def split: if_splits\<close>)
  then show ?thesis by (simp add: V(1) lt_inv_def)
next
  case (pop cf f)
  then show ?thesis using lt_balance_pop [of c0 "ltc s" "ltpc s" "int (ltVs s)" "int (ltGot s)" cf f] inv
    by (simp add: lt_inv_def add.commute del: fun_upd_apply)
next
  case (cancel cf c n)
  have "c \<ge> 2" "ltc s = c" "n = c - 1" using cancel(3) by (auto simp: lts_V_cancel_def split: if_splits)
  then have "lt_balance c0 n ((ltpc s)(cf := LtOut)) (int (ltVs s)) (int (ltGot s))"
    using inv unfolding lt_inv_def by (intro lt_balance_move [where p = LtSearch]) (use cancel(2) in auto)
  then show ?thesis by (simp add: cancel(1) lt_inv_def)
qed

lemma lt_reach_inv: "lt_reach c0 s \<Longrightarrow> lt_inv c0 s"
proof (induction rule: lt_reach.induct)
  case (start n)
  then show ?case by (auto simp: lt_inv_def lt_balance_def lt_waiting_def lts_reset_def cnt_def split: if_splits)
qed (rule lt_step_inv)


text \<open>A run in which the only waiting fred times out after \<^verbatim>\<open>V\<close> has begun to look for it.\<close>

definition lt_example :: "int \<Rightarrow> lt_pc \<Rightarrow> lt_pc \<Rightarrow> nat \<Rightarrow> lt_sys" where
  "lt_example c p q n = \<lparr>ltc = c, ltpc = (\<lambda>_. LtOut)(1 := p, 2 := q), ltVs = n, ltGot = 0\<rparr>"

lemma lt_example_reach: "lt_reach 0 (lt_example 2 LtOut LtSearch 1)"
proof -
  note go = lt_reach.step [where ?c0.0 = 0]
  have "lt_reach 0 (lt_example 0 LtOut LtOut 0)"
    using lt_reach.start [of 0 0] by (simp add: lt_example_def lts_reset_def fun_upd_idem)
  then have "lt_reach 0 (lt_example 0 LtP LtOut 0)"
    by (rule go) (use lt_step.enter [of "lt_example 0 LtOut LtOut 0" 1 LtP] in \<open>simp add: lt_example_def fun_upd_twist\<close>)
  then have "lt_reach 0 (lt_example (-1) LtWait LtOut 0)"
    by (rule go) (use lt_step.P [of "lt_example 0 LtP LtOut 0" 1 0 "-1" False] in \<open>simp add: lt_example_def lf_op fun_upd_twist\<close>)
  then have "lt_reach 0 (lt_example (-1) LtWait (LtV 0) 0)"
    by (rule go) (use lt_step.enter [of "lt_example (-1) LtWait LtOut 0" 2 "LtV 0"] in \<open>simp add: lt_example_def\<close>)
  then have "lt_reach 0 (lt_example (-1) LtWait (LtV (-1)) 0)"
    by (rule go) (use lt_step.V [of "lt_example (-1) LtWait (LtV 0) 0" 2 0 "VAgain (-1)" "-1"] in \<open>simp add: lt_example_def lf_op\<close>)
  then have "lt_reach 0 (lt_example 0 LtWait LtSearch 1)"
    by (rule go) (use lt_step.V [of "lt_example (-1) LtWait (LtV (-1)) 0" 2 "-1" VSearch 0] in \<open>simp add: lt_example_def lf_op\<close>)
  then have "lt_reach 0 (lt_example 0 LtTimed LtSearch 1)"
    by (rule go) (use lt_step.timer [of "lt_example 0 LtWait LtSearch 1" 1] in \<open>simp add: lt_example_def fun_upd_twist\<close>)
  then show ?thesis
    by (rule go) (use lt_step.adjust [of "lt_example 0 LtTimed LtSearch 1" 1 0 2] in \<open>simp add: lt_example_def lf_op fun_upd_twist\<close>)
qed


end
