(* ===== verification/Cond_Nemesis.thy ===== *)
theory Cond_Nemesis
  imports Cond_Mutex
begin

text \<open>
  \<^verbatim>\<open>src/src/runtime/ConditionalNemesisQueue.h\<close>: the doubly linked queue \<^verbatim>\<open>NemesisDoubleQueue\<close> on an explicit
  memory of links, each operation as a whole (where the code waits for another thread to finish its part, the
  operation has no result), and \<^verbatim>\<open>ConditionalNemesisQueue\<close> on the list that it represents.
\<close>

section \<open>NemesisDoubleQueue\<close>

record ndq =
  nd_head :: addr
  nd_tail :: addr
  nd_next :: "addr \<Rightarrow> addr"
  nd_prev :: "addr \<Rightarrow> addr"

definition ndq_empty :: "ndq \<Rightarrow> bool" where "ndq_empty q \<longleftrightarrow> nd_tail q = 0"

definition ndq_push :: "addr \<Rightarrow> addr \<Rightarrow> ndq \<Rightarrow> (bool \<times> ndq) option" where
  "ndq_push first la q =
     do { rassert (nd_next q la = 0);
          let prev = nd_tail q; let q1 = q\<lparr>nd_tail := la\<rparr>;
          if prev = 0 then Some (True, q1\<lparr>nd_head := first\<rparr>)
          else Some (False, q1\<lparr>nd_prev := (nd_prev q)(first := prev), nd_next := (nd_next q)(prev := first)\<rparr>) }"

definition ndq_removeHead :: "addr \<Rightarrow> ndq \<Rightarrow> ndq option" where
  "ndq_removeHead e q =
     (let nxt = nd_next q e; q1 = q\<lparr>nd_head := nxt\<rparr>
      in do { q2 \<leftarrow> (if nxt = 0 then (if nd_tail q1 = e then Some (q1\<lparr>nd_tail := 0\<rparr>) else None) else Some q1);
              Some (q2\<lparr>nd_next := (nd_next q2)(e := 0)\<rparr>) })"

definition ndq_removeInternal :: "addr \<Rightarrow> ndq \<Rightarrow> ndq option" where
  "ndq_removeInternal e q =
     (let nxt = nd_next q e; prev = nd_prev q e; q1 = q\<lparr>nd_next := (nd_next q)(prev := nxt)\<rparr>
      in do { q2 \<leftarrow> (if nxt \<noteq> 0 then Some (q1\<lparr>nd_prev := (nd_prev q1)(nxt := prev)\<rparr>)
                    else if nd_tail q1 = e then Some (q1\<lparr>nd_tail := prev\<rparr>) else None);
              Some (q2\<lparr>nd_next := (nd_next q2)(e := 0)\<rparr>) })"

definition ndq_pop :: "(addr \<Rightarrow> bool) \<Rightarrow> ndq \<Rightarrow> (addr \<times> ndq) option" where
  "ndq_pop check q =
     (let e = nd_head q
      in if e \<noteq> 0 \<and> check e then do { q' \<leftarrow> ndq_removeHead e q; Some (e, q') } else Some (0, q))"

definition ndq_remove :: "addr \<Rightarrow> ndq \<Rightarrow> ndq option" where
  "ndq_remove e q = (if e = nd_head q then ndq_removeHead e q else ndq_removeInternal e q)"

section \<open>The list it represents\<close>

text \<open>\<open>nd_seg\<close>: linked in both directions up to \<open>x\<close>; \<open>nd_links\<close>: up to the end.\<close>

fun nd_seg :: "(addr \<Rightarrow> addr) \<Rightarrow> (addr \<Rightarrow> addr) \<Rightarrow> addr list \<Rightarrow> addr \<Rightarrow> bool" where
  "nd_seg n p [] x = True"
| "nd_seg n p [a] x = (n a = x \<and> p x = a)"
| "nd_seg n p (a # b # as) x = (n a = b \<and> p b = a \<and> nd_seg n p (b # as) x)"

fun nd_links :: "(addr \<Rightarrow> addr) \<Rightarrow> (addr \<Rightarrow> addr) \<Rightarrow> addr list \<Rightarrow> bool" where
  "nd_links n p [] = True"
| "nd_links n p [a] = (n a = 0)"
| "nd_links n p (a # b # as) = (n a = b \<and> p b = a \<and> nd_links n p (b # as))"

definition ndq_rep :: "ndq \<Rightarrow> addr list \<Rightarrow> bool" where
  "ndq_rep q xs \<longleftrightarrow> distinct xs \<and> 0 \<notin> set xs \<and> nd_links (nd_next q) (nd_prev q) xs
     \<and> nd_tail q = (if xs = [] then 0 else last xs) \<and> (xs \<noteq> [] \<longrightarrow> nd_head q = hd xs) \<and> (xs = [] \<longrightarrow> nd_head q = 0)"

lemma links_append: "nd_links n p (as @ x # bs) \<longleftrightarrow> nd_seg n p as x \<and> nd_links n p (x # bs)"
  by (induction n p as x rule: nd_seg.induct) (auto simp: neq_Nil_conv)

lemma seg_append: "nd_seg n p (as @ [a]) x \<longleftrightarrow> nd_seg n p as a \<and> n a = x \<and> p x = a"
proof (induction as)
  case (Cons b bs)
  then show ?case by (cases bs) auto
qed simp

lemma seg_frame_next: "y \<notin> set as \<Longrightarrow> nd_seg (n(y := z)) p as x \<longleftrightarrow> nd_seg n p as x"
  by (induction n p as x rule: nd_seg.induct) auto

lemma seg_frame_prev: "y \<notin> set (tl as) \<Longrightarrow> y \<noteq> x \<Longrightarrow> nd_seg n (p(y := z)) as x \<longleftrightarrow> nd_seg n p as x"
  by (induction n p as x rule: nd_seg.induct) auto

lemma links_frame_next: "y \<notin> set as \<Longrightarrow> nd_links (n(y := z)) p as \<longleftrightarrow> nd_links n p as"
  by (induction n p as rule: nd_links.induct) auto

lemma links_frame_prev: "y \<notin> set (tl as) \<Longrightarrow> nd_links n (p(y := z)) as \<longleftrightarrow> nd_links n p as"
  by (induction n p as rule: nd_links.induct) auto

lemma links_tail: "nd_links n p (x # xs) \<Longrightarrow> nd_links n p xs"
  by (cases xs) auto

lemma links_last: "nd_links n p xs \<Longrightarrow> xs \<noteq> [] \<Longrightarrow> n (last xs) = 0"
  by (induction n p xs rule: nd_links.induct) auto

lemma notin_tl: "y \<notin> set xs \<Longrightarrow> y \<notin> set (tl xs)"
  by (cases xs) auto

lemma ndq_push_rep:
  assumes "ndq_rep q xs" and "e \<noteq> 0" and "e \<notin> set xs" and "nd_next q e = 0"
  shows "\<exists>q'. ndq_push e e q = Some (xs = [], q') \<and> ndq_rep q' (xs @ [e])"
proof (cases xs rule: rev_cases)
  case Nil
  then show ?thesis using assms by (auto simp: ndq_push_def ndq_rep_def)
next
  case (snoc ys y)
  have L: "nd_seg (nd_next q) (nd_prev q) ys y" "y \<noteq> 0" "distinct (ys @ [y])" "e \<notin> set (ys @ [y])"
    using assms(1,3) snoc by (auto simp: ndq_rep_def links_append)
  have "nd_seg ((nd_next q)(y := e)) ((nd_prev q)(e := y)) ys y"
    using L notin_tl [of e ys] by (simp add: seg_frame_next seg_frame_prev)
  then have "nd_links ((nd_next q)(y := e)) ((nd_prev q)(e := y)) (ys @ y # [e])"
    unfolding links_append using L assms(4) by simp
  then show ?thesis using assms snoc L
    by (cases ys) (auto simp: ndq_push_def ndq_rep_def)
qed

lemma ndq_removeHead_rep:
  assumes "ndq_rep q (e # ys)"
  shows "\<exists>q'. ndq_removeHead e q = Some q' \<and> ndq_rep q' ys \<and> nd_next q' e = 0"
proof (cases ys)
  case Nil
  then show ?thesis using assms by (auto simp: ndq_removeHead_def ndq_rep_def)
next
  case (Cons y zs)
  have "nd_links ((nd_next q)(e := 0)) (nd_prev q) ys" "nd_next q e = y" "y \<noteq> 0"
    using assms Cons by (auto simp: ndq_rep_def links_frame_next)
  then show ?thesis using assms Cons by (auto simp: ndq_removeHead_def ndq_rep_def)
qed

lemma ndq_removeInternal_rep:
  assumes "ndq_rep q ((cs @ [a]) @ e # bs)"
  shows "\<exists>q'. ndq_removeInternal e q = Some q' \<and> ndq_rep q' ((cs @ [a]) @ bs) \<and> nd_next q' e = 0"
proof -
  let ?n = "nd_next q" and ?p = "nd_prev q"
  have L: "nd_seg ?n ?p cs a" "?n a = e" "?p e = a" "nd_links ?n ?p (e # bs)"
    using assms by (simp_all only: ndq_rep_def links_append seg_append)
  have D: "distinct (cs @ a # e # bs)" "0 \<notin> set (cs @ a # e # bs)" "nd_tail q = last (e # bs)" "nd_head q = hd (cs @ [a])"
    using assms by (auto simp: ndq_rep_def hd_append)
  show ?thesis
  proof (cases bs)
    case Nil
    have "nd_seg (?n(a := 0, e := 0)) ?p cs a" using L(1) D(1) by (simp add: seg_frame_next)
    then have "nd_links (?n(a := 0, e := 0)) ?p (cs @ a # [])" unfolding links_append using D(1) by simp
    then show ?thesis using L D Nil
      by (cases cs) (auto simp: ndq_removeInternal_def ndq_rep_def)
  next
    case (Cons b ds)
    have b: "?n e = b" "nd_links ?n ?p (b # ds)" "b \<noteq> 0" using L(4) Cons D(2) by auto
    have "nd_seg (?n(a := b, e := 0)) (?p(b := a)) cs a"
      using L(1) D(1) Cons notin_tl [of b cs] by (simp add: seg_frame_next seg_frame_prev)
    moreover have "nd_links (?n(a := b, e := 0)) (?p(b := a)) (a # b # ds)"
      using b(2) D(1) Cons by (simp add: links_frame_next links_frame_prev)
    ultimately have "nd_links (?n(a := b, e := 0)) (?p(b := a)) (cs @ a # b # ds)"
      unfolding links_append by simp
    then show ?thesis using L D Cons b
      by (cases cs) (auto simp: ndq_removeInternal_def ndq_rep_def)
  qed
qed


definition ndq_example :: ndq where
  "ndq_example = \<lparr>nd_head = 8, nd_tail = 24, nd_next = (\<lambda>_. 0)(8 := 16, 16 := 24), nd_prev = (\<lambda>_. 0)(16 := 8, 24 := 16)\<rparr>"


section \<open>ConditionalNemesisQueue\<close>

text \<open>\<^verbatim>\<open>block\<close> up to the test of the condition; what happens when it is false (true: the call returns, otherwise
  the fred has been popped and waits to be resumed); the end of a timed wait.\<close>

definition cnq_push :: "fid \<Rightarrow> bqueue \<Rightarrow> freds \<Rightarrow> (bqueue \<times> freds) option" where
  "cnq_push cf q F = do { f \<leftarrow> prepareResumeRace (F cf); Some (q\<lparr>bq_nodes := bq_nodes q @ [cf]\<rparr>, F(cf := f)) }"

definition cnq_cancel :: "fid \<Rightarrow> bqueue \<Rightarrow> freds \<Rightarrow> bool \<times> bqueue \<times> freds" where
  "cnq_cancel cf q F =
     (let (won, f) = raceResume (bq_addr q) (F cf)
      in if won then (True, q\<lparr>bq_nodes := remove1 cf (bq_nodes q)\<rparr>, F(cf := f)) else (False, q, F))"

definition cnq_timed_end :: "fid \<Rightarrow> bqueue \<Rightarrow> freds \<Rightarrow> bool \<times> bqueue" where
  "cnq_timed_end cf q F =
     (if resumeInfo (F cf) = bq_addr q then (True, q)
      else (False, q\<lparr>bq_nodes := remove1 cf (bq_nodes q)\<rparr>))"

text \<open>\<^verbatim>\<open>unblock\<close>: pop the head when its race can be won.\<close>

definition cnq_unblock :: "bqueue \<Rightarrow> freds \<Rightarrow> fid option \<times> bqueue \<times> freds" where
  "cnq_unblock q F =
     (case bq_nodes q of
        [] \<Rightarrow> (None, q, F)
      | f # fs \<Rightarrow> let (won, f') = raceResume (bq_addr q) (F f)
                  in if won then (Some f, q\<lparr>bq_nodes := fs\<rparr>, F(f := f')) else (None, q, F))"

text \<open>C6: Unlike \<^verbatim>\<open>BlockingQueue\<close>, this queue only looks at its first fred: while a fred that has timed out is still
  first, \<^verbatim>\<open>unblock\<close> resumes nobody. With the mutex, the release that was to wake the next fred then leaves the mutex
  free and the next fred blocked, and nothing is left to wake it after the first one has gone.\<close>

theorem cnq_timeout_lost_wakeup:
  assumes "bq_nodes q = a # b # fs" and "resumeInfo (F a) \<noteq> 0" and "resumeInfo (F a) \<noteq> bq_addr q"
    and "resumeInfo (F b) = 0" and "a \<noteq> b" and "sc_release1 m = Some m1" and "sc_release2 m1 = (False, m2)"
  shows "cnq_unblock q F = (None, q, F) \<and> fst (bq_unblock q F) = Some b
    \<and> sc_value m2 = 0 \<and> sc_owner m2 = None
    \<and> (\<exists>q'. cnq_timed_end a q F = (False, q') \<and> bq_nodes q' = b # fs \<and> resumeInfo (F b) = 0)"
  using assms
  by (auto simp: cnq_unblock_def cnq_timed_end_def bq_unblock_def raceResume_def sc_release1_def sc_release2_def Let_def
      split: if_splits)

theorem cnq_timeout_lost_wakeup_witness:
  "cnq_unblock \<lparr>bq_addr = 100, bq_nodes = [1, 2]\<rparr> ((\<lambda>_. new_fred False 0 0)(1 := new_fred False 7 0))
     = (None, \<lparr>bq_addr = 100, bq_nodes = [1, 2]\<rparr>, (\<lambda>_. new_fred False 0 0)(1 := new_fred False 7 0))"
  using cnq_timeout_lost_wakeup [of "\<lparr>bq_addr = 100, bq_nodes = [1, 2]\<rparr>" 1 2 "[]"
      "(\<lambda>_. new_fred False 0 0)(1 := new_fred False 7 0)" "(new_scmutex 200)\<lparr>sc_value := 2\<rparr>" "(new_scmutex 200)\<lparr>sc_value := 2\<rparr>"
      "new_scmutex 200"]
  by (simp add: new_fred_def new_scmutex_def sc_release1_def sc_release2_def)

text \<open>When the first fred waits, it is the one that is resumed; and a fred that cancels its own wait leaves the
  queue, or else has been chosen already.\<close>

lemma cnq_unblock_first:
  assumes "bq_nodes q = f # fs" and "resumeInfo (F f) = 0"
  shows "cnq_unblock q F = bq_unblock q F"
  using assms by (simp add: cnq_unblock_def bq_unblock_def raceResume_def Let_def)

lemma cnq_cancel_or_chosen:
  assumes "cnq_cancel cf q F = (r, q', F')"
  shows "r \<longleftrightarrow> resumeInfo (F cf) = 0" and "\<not> r \<Longrightarrow> q' = q \<and> F' = F"
  using assms by (auto simp: cnq_cancel_def raceResume_def Let_def split: if_splits)

end
