(* ===== verification/Os_Locks.thy ===== *)
theory Os_Locks
  imports Prelude
begin

text \<open>
  \<^verbatim>\<open>src/src/libfibre/OsLocks.h\<close>: the locks and semaphores of the worker threads. The calls of the operating
  system are parameters: the outcomes of the consecutive calls of one operation. What is modelled is what the
  wrappers add: the spinning before a blocking call and the repetition of interrupted calls.
\<close>

section \<open>Outcomes of system calls\<close>

datatype sys = SysOk | SysErr int

definition EINTR :: int where "EINTR = 4"
definition SEM_EAGAIN :: int where "SEM_EAGAIN = 11"
definition SEM_ETIMEDOUT :: int where "SEM_ETIMEDOUT = 110"

lemmas errno_defs = EINTR_def SEM_EAGAIN_def SEM_ETIMEDOUT_def

section \<open>OsSemaphore\<close>

text \<open>The result of a loop: it returns, an assertion fails, or all the given calls were interrupted.\<close>

datatype os_end = Returns bool | Fails | Interrupted

fun os_tryP :: "sys list \<Rightarrow> os_end" where
  "os_tryP [] = Interrupted"
| "os_tryP (ret # rets) =
     (case ret of
        SysOk \<Rightarrow> Returns True
      | SysErr e \<Rightarrow> if e = SEM_EAGAIN then Returns False else if e = EINTR then os_tryP rets else Fails)"

fun os_P :: "sys list \<Rightarrow> os_end" where
  "os_P [] = Interrupted"
| "os_P (ret # rets) = (case ret of SysOk \<Rightarrow> Returns True | SysErr e \<Rightarrow> if e = EINTR then os_P rets else Fails)"

definition os_P_wait :: "bool \<Rightarrow> sys list \<Rightarrow> os_end" where
  "os_P_wait wait rets = (if \<not> wait then os_tryP rets else os_P rets)"

fun os_P_timeout :: "sys list \<Rightarrow> os_end" where
  "os_P_timeout [] = Interrupted"
| "os_P_timeout (ret # rets) =
     (case ret of
        SysOk \<Rightarrow> Returns True
      | SysErr e \<Rightarrow> if e = SEM_ETIMEDOUT then Returns False else if e = EINTR then os_P_timeout rets else Fails)"

definition os_sem_empty :: "int \<Rightarrow> bool" where "os_sem_empty val \<longleftrightarrow> val \<ge> 0"
definition os_sem_open :: "int \<Rightarrow> bool" where "os_sem_open val \<longleftrightarrow> val > 0"

section \<open>OsLock and OsLockRW\<close>

text \<open>The inner loop of \<^verbatim>\<open>OsLock::acquire\<close>: \<open>att k\<close> is the outcome of attempt \<open>k\<close>. The result is the outcome and
  the number of attempts so far; no result: not finished within \<open>fuel\<close> rounds.\<close>

fun os_spin :: "nat \<Rightarrow> int \<Rightarrow> int \<Rightarrow> (nat \<Rightarrow> bool) \<Rightarrow> nat \<Rightarrow> (bool \<times> nat) option" where
  "os_spin 0 SpinEnd spin att k = None"
| "os_spin (Suc fuel) SpinEnd spin att k =
     (if spin < SpinEnd then if att k then Some (True, Suc k) else os_spin fuel SpinEnd (spin + spin) att (Suc k)
      else Some (False, k))"

text \<open>The outer loop, \<open>SpinCount\<close> rounds: true when the lock was acquired by an attempt; otherwise the blocking
  call follows.\<close>

fun os_acquire :: "nat \<Rightarrow> nat \<Rightarrow> int \<Rightarrow> int \<Rightarrow> (nat \<Rightarrow> bool) \<Rightarrow> nat \<Rightarrow> (bool \<times> nat) option" where
  "os_acquire fuel 0 SpinStart SpinEnd att k = Some (False, k)"
| "os_acquire fuel (Suc n) SpinStart SpinEnd att k =
     do { (got, k') \<leftarrow> os_spin fuel SpinEnd SpinStart att k;
          if got then Some (True, k') else os_acquire fuel n SpinStart SpinEnd att k' }"

definition os_acquire_timeout :: "sys \<Rightarrow> bool option" where
  "os_acquire_timeout ret = (case ret of SysOk \<Rightarrow> Some True | SysErr e \<Rightarrow> if e = SEM_ETIMEDOUT then Some False else None)"

text \<open>The loops of \<^verbatim>\<open>OsLockRW\<close> use an inclusive bound on unsigned numbers.\<close>

fun os_rw_spin :: "nat \<Rightarrow> mword \<Rightarrow> mword \<Rightarrow> (nat \<Rightarrow> bool) \<Rightarrow> nat \<Rightarrow> (bool \<times> nat) option" where
  "os_rw_spin 0 SpinEnd spin att k = None"
| "os_rw_spin (Suc fuel) SpinEnd spin att k =
     (if spin \<le> SpinEnd then if att k then Some (True, Suc k) else os_rw_spin fuel SpinEnd (spin + spin) att (Suc k)
      else Some (False, k))"

section \<open>Interrupted calls\<close>

text \<open>The semaphore operations are not disturbed by signals: after any number of interrupted calls they return
  what the first completed call says, true for success and false for an unavailable or timed-out semaphore.\<close>

theorem os_semaphore_retries:
  "os_tryP (replicate n (SysErr EINTR) @ SysOk # rets) = Returns True
    \<and> os_tryP (replicate n (SysErr EINTR) @ SysErr SEM_EAGAIN # rets) = Returns False
    \<and> os_P_wait True (replicate n (SysErr EINTR) @ SysOk # rets) = Returns True
    \<and> os_P_wait False xs = os_tryP xs
    \<and> os_P_timeout (replicate n (SysErr EINTR) @ SysOk # rets) = Returns True
    \<and> os_P_timeout (replicate n (SysErr EINTR) @ SysErr SEM_ETIMEDOUT # rets) = Returns False"
  by (induction n) (simp_all add: os_P_wait_def errno_defs)

section \<open>Spinning ends\<close>

text \<open>The attempts from number \<open>k\<close> to \<open>k' - 1\<close> were made: all failed, but for the last one if \<open>got\<close>.\<close>

definition attempts :: "(nat \<Rightarrow> bool) \<Rightarrow> nat \<Rightarrow> bool \<Rightarrow> nat \<Rightarrow> bool" where
  "attempts att k got k' \<longleftrightarrow> k \<le> k' \<and> (got \<longrightarrow> k < k' \<and> att (k' - 1)) \<and> (\<forall>j. k \<le> j \<and> j < k' - of_bool got \<longrightarrow> \<not> att j)"

lemma attempts_none: "attempts att k False k"
  by (auto simp: attempts_def)

lemma attempts_one: "att k \<Longrightarrow> attempts att k True (Suc k)"
  by (auto simp: attempts_def)

lemma attempts_trans: "attempts att k False k1 \<Longrightarrow> attempts att k1 got k2 \<Longrightarrow> attempts att k got k2"
  unfolding attempts_def by (auto simp: not_less) (metis not_less)+

lemma attempts_fail: "\<not> att k \<Longrightarrow> attempts att (Suc k) got k' \<Longrightarrow> attempts att k got k'"
  by (rule attempts_trans [of _ _ "Suc k"]) (auto simp: attempts_def less_Suc_eq_le)

lemma os_spin_ends:
  "\<lbrakk>0 < spin; nat (SpinEnd - spin) < fuel\<rbrakk> \<Longrightarrow>
     \<exists>got k'. os_spin fuel SpinEnd spin att k = Some (got, k') \<and> attempts att k got k' \<and> k' \<le> k + nat (SpinEnd - spin)"
proof (induction fuel arbitrary: spin k)
  case (Suc fuel)
  consider "spin < SpinEnd" "\<not> att k" | "spin < SpinEnd" "att k" | "\<not> spin < SpinEnd" by blast
  then show ?case
  proof cases
    case 1
    have "0 < spin + spin" and "nat (SpinEnd - (spin + spin)) < fuel" using Suc.prems 1 by linarith+
    from Suc.IH [OF this, of "Suc k"] obtain got k' where
      r: "os_spin fuel SpinEnd (spin + spin) att (Suc k) = Some (got, k')" "attempts att (Suc k) got k'"
        "k' \<le> Suc k + nat (SpinEnd - (spin + spin))" by blast
    moreover have "k' \<le> k + nat (SpinEnd - spin)" using r(3) 1 Suc.prems(1) by linarith
    ultimately show ?thesis using 1 attempts_fail [of att k got k'] by auto
  qed (use attempts_none attempts_one in \<open>auto simp: Suc_le_eq\<close>)
qed simp

text \<open>A start of 0 with a positive end spins for ever unless an attempt succeeds.\<close>

lemma os_spin_zero: "0 < SpinEnd \<Longrightarrow> (\<forall>j. \<not> att j) \<Longrightarrow> os_spin fuel SpinEnd 0 att k = None"
  by (induction fuel arbitrary: k) simp_all

text \<open>The same happens in \<^verbatim>\<open>OsLockRW\<close> for an end of at least \<open>2 ^ 63\<close>, where the doubling wraps around to 0.\<close>

lemma os_rw_spin_zero: "(\<forall>j. \<not> att j) \<Longrightarrow> os_rw_spin fuel SpinEnd 0 att k = None"
  by (induction fuel arbitrary: k) simp_all



end
