(* ===== verification/Cluster_Pause.thy ===== *)
theory Cluster_Pause
  imports Benaphore_Sync
begin

text \<open>
  Stopping the processors of a cluster: \<^verbatim>\<open>pause\<close>, \<^verbatim>\<open>resume\<close> and \<^verbatim>\<open>pauseOperation\<close> in
  \<^verbatim>\<open>src/src/libfibre/Cluster.cc\<close>. The caller puts one fibre of top priority with affinity on every other processor;
  each of them confirms and then blocks its processor on a semaphore of the operating system. The ring of
  processors does not change, because \<^verbatim>\<open>pause\<close> keeps its lock until \<^verbatim>\<open>resume\<close>. All interleavings of the caller with
  the processors are considered.
\<close>

section \<open>State and operations\<close>

text \<open>The pause fibre of a processor: none; ready; in \<^verbatim>\<open>pauseOperation\<close> before the confirmation; after it, holding the
  processor; finished.\<close>

datatype pause_fib = PfNone | PfReady | PfConfirm | PfBlocked | PfDone

text \<open>The caller: outside; creating the fibres for the processors of the list; waiting for confirmations; between
  \<^verbatim>\<open>pause\<close> and \<^verbatim>\<open>resume\<close>; releasing; deleting the fibres, which waits for each of them.\<close>

datatype pauser = PzIdle | PzCreate "pid list" | PzWait nat | PzPaused | PzResume nat | PzDelete "pid list"

record pause_sys =
  pz :: pauser
  pz_fibres :: "pid list"      \<comment> \<open>\<open>pauseFibres\<close>, by processor\<close>
  pz_sem :: nat                \<comment> \<open>\<open>pauseSem\<close>\<close>
  pz_confirm :: nat            \<comment> \<open>\<open>pauseConfirmSem\<close>\<close>
  pz_fib :: "pid \<Rightarrow> pause_fib"

text \<open>The loop over the ring, from \<^verbatim>\<open>placeProc\<close>: one processor.\<close>

definition pause_create :: "pid \<Rightarrow> pid \<Rightarrow> pause_sys \<Rightarrow> pause_sys" where
  "pause_create self proc s =
     (if proc \<noteq> self then s\<lparr>pz_fib := (pz_fib s)(proc := PfReady), pz_fibres := pz_fibres s @ [proc]\<rparr> else s)"

definition pause_created :: "nat \<Rightarrow> pause_sys \<Rightarrow> pause_sys option" where
  "pause_created ringCount s =
     do { rassert (length (pz_fibres s) = ringCount - 1); Some (s\<lparr>pz := PzWait (ringCount - 1)\<rparr>) }"

text \<open>\<^verbatim>\<open>pauseOperation\<close>: confirm; wait.\<close>

definition pauseOperation1 :: "pid \<Rightarrow> pause_sys \<Rightarrow> pause_sys" where
  "pauseOperation1 p s = s\<lparr>pz_confirm := pz_confirm s + 1, pz_fib := (pz_fib s)(p := PfBlocked)\<rparr>"

definition pauseOperation2 :: "pid \<Rightarrow> pause_sys \<Rightarrow> pause_sys option" where
  "pauseOperation2 p s =
     (if pz_sem s > 0 then Some (s\<lparr>pz_sem := pz_sem s - 1, pz_fib := (pz_fib s)(p := PfDone)\<rparr>) else None)"

inductive pause_step :: "pid list \<Rightarrow> pid \<Rightarrow> pause_sys \<Rightarrow> pause_sys \<Rightarrow> bool" for ring self where
  pause: "pz s = PzIdle \<Longrightarrow> pause_step ring self s (s\<lparr>pz := PzCreate ring\<rparr>)"
| create: "pz s = PzCreate (p # ps) \<Longrightarrow> pause_step ring self s ((pause_create self p s)\<lparr>pz := PzCreate ps\<rparr>)"
| created: "pz s = PzCreate [] \<Longrightarrow> pause_created (length ring) s = Some s' \<Longrightarrow> pause_step ring self s s'"
| confirmed: "pz s = PzWait (Suc k) \<Longrightarrow> pz_confirm s > 0 \<Longrightarrow>
     pause_step ring self s (s\<lparr>pz := PzWait k, pz_confirm := pz_confirm s - 1\<rparr>)"
| paused: "pz s = PzWait 0 \<Longrightarrow> pause_step ring self s (s\<lparr>pz := PzPaused\<rparr>)"
| resume: "pz s = PzPaused \<Longrightarrow> pause_step ring self s (s\<lparr>pz := PzResume (length ring - 1)\<rparr>)"
| release: "pz s = PzResume (Suc k) \<Longrightarrow> pause_step ring self s (s\<lparr>pz := PzResume k, pz_sem := pz_sem s + 1\<rparr>)"
| released: "pz s = PzResume 0 \<Longrightarrow> pause_step ring self s (s\<lparr>pz := PzDelete (pz_fibres s)\<rparr>)"
| delete: "pz s = PzDelete (p # ps) \<Longrightarrow> pz_fib s p = PfDone \<Longrightarrow>
     pause_step ring self s (s\<lparr>pz := PzDelete ps, pz_fib := (pz_fib s)(p := PfNone)\<rparr>)"
| deleted: "pz s = PzDelete [] \<Longrightarrow> pause_step ring self s (s\<lparr>pz := PzIdle, pz_fibres := []\<rparr>)"
| dispatch: "pz_fib s p = PfReady \<Longrightarrow> pause_step ring self s (s\<lparr>pz_fib := (pz_fib s)(p := PfConfirm)\<rparr>)"
| confirm: "pz_fib s p = PfConfirm \<Longrightarrow> pause_step ring self s (pauseOperation1 p s)"
| unblock: "pz_fib s p = PfBlocked \<Longrightarrow> pauseOperation2 p s = Some s' \<Longrightarrow> pause_step ring self s s'"

definition pause_init :: pause_sys where
  "pause_init = \<lparr>pz = PzIdle, pz_fibres = [], pz_sem = 0, pz_confirm = 0, pz_fib = (\<lambda>_. PfNone)\<rparr>"

inductive pause_reach :: "pid list \<Rightarrow> pid \<Rightarrow> pause_sys \<Rightarrow> bool" for ring self where
  start: "pause_reach ring self pause_init"
| step: "pause_reach ring self s \<Longrightarrow> pause_step ring self s s' \<Longrightarrow> pause_reach ring self s'"

section \<open>Invariant\<close>

text \<open>\<open>fs\<close>: the processors that have a pause fibre. The tokens of the semaphores are accounted for by the fibres.\<close>

definition pause_tokens :: "pause_sys \<Rightarrow> pid list \<Rightarrow> nat \<Rightarrow> nat \<Rightarrow> bool" where
  "pause_tokens s fs taken given \<longleftrightarrow> distinct fs
     \<and> (\<forall>p. p \<in> set fs \<longleftrightarrow> pz_fib s p \<noteq> PfNone)
     \<and> int (pz_confirm s) + int taken = cnt (pz_fib s) PfBlocked + cnt (pz_fib s) PfDone
     \<and> int (pz_sem s) + cnt (pz_fib s) PfDone = int given"

text \<open>\<open>rest\<close>: the others on the ring.\<close>

definition pause_inv :: "pid list \<Rightarrow> pid \<Rightarrow> pause_sys \<Rightarrow> bool" where
  "pause_inv ring self s \<longleftrightarrow>
     (let rest = filter (\<lambda>p. p \<noteq> self) ring; n = length ring - 1 in
      case pz s of
        PzIdle \<Rightarrow> pz_fibres s = [] \<and> pause_tokens s [] 0 0
      | PzCreate ps \<Rightarrow> (\<exists>us. ring = us @ ps \<and> pz_fibres s = filter (\<lambda>p. p \<noteq> self) us \<and> pause_tokens s (pz_fibres s) 0 0)
      | PzWait k \<Rightarrow> pz_fibres s = rest \<and> k \<le> n \<and> pause_tokens s rest (n - k) 0
      | PzPaused \<Rightarrow> pz_fibres s = rest \<and> pause_tokens s rest n 0
      | PzResume k \<Rightarrow> pz_fibres s = rest \<and> k \<le> n \<and> pause_tokens s rest n (n - k)
      | PzDelete ps \<Rightarrow> (\<exists>us. rest = us @ ps \<and> pause_tokens s ps (length ps) (length ps)))"

lemma pause_tokens_pz [simp]:
  "pause_tokens (s\<lparr>pz := x\<rparr>) = pause_tokens s" "pause_tokens (s\<lparr>pz_fibres := fs\<rparr>) = pause_tokens s"
  by (simp_all add: pause_tokens_def fun_eq_iff)

lemma pause_cnt:
  assumes "pause_tokens s fs t g" and "c \<noteq> PfNone"
  shows "cnt ((pz_fib s)(p := x)) c = cnt (pz_fib s) c + of_bool (x = c) - of_bool (pz_fib s p = c)"
proof -
  have "{g. pz_fib s g = c} \<subseteq> set fs" using assms by (auto simp: pause_tokens_def)
  then show ?thesis by (intro cnt_upd finite_subset [OF _ finite_set])
qed

text \<open>The fibres that exist move: new token counts.\<close>

lemma pause_tokens_move:
  assumes t: "pause_tokens s fs taken given" and p: "pz_fib s p \<noteq> PfNone" "x \<noteq> PfNone"
    and "pz_fib s' = (pz_fib s)(p := x)"
    and "int (pz_confirm s') + int taken' - int (pz_confirm s) - int taken
      = of_bool (x = PfBlocked) + of_bool (x = PfDone) - of_bool (pz_fib s p = PfBlocked) - of_bool (pz_fib s p = PfDone)"
    and "int (pz_sem s') - int (pz_sem s) + of_bool (x = PfDone) - of_bool (pz_fib s p = PfDone) = int given' - int given"
  shows "pause_tokens s' fs taken' given'"
proof -
  have "q \<in> set fs \<longleftrightarrow> pz_fib s' q \<noteq> PfNone" for q using t p by (auto simp: pause_tokens_def assms(4))
  moreover have "cnt (pz_fib s') c = cnt (pz_fib s) c + of_bool (x = c) - of_bool (pz_fib s p = c)" if "c \<noteq> PfNone" for c
    unfolding assms(4) by (rule pause_cnt [OF t that])
  ultimately show ?thesis
    using t assms(5,6) by (simp add: pause_tokens_def)
qed

text \<open>The same fibres: only the semaphores change.\<close>

lemma pause_tokens_sems:
  assumes "pause_tokens s fs taken given" and "pz_fib s' = pz_fib s"
    and "pz_confirm s' + taken' = pz_confirm s + taken" and "int (pz_sem s') - int (pz_sem s) = int given' - int given"
  shows "pause_tokens s' fs taken' given'"
  using assms(1,3,4) unfolding pause_tokens_def assms(2) by (simp flip: of_nat_add)

lemma pause_inv_fibre:
  assumes inv: "pause_inv ring self s" and p: "pz_fib s p \<noteq> PfNone" "x \<noteq> PfNone"
    and s': "pz s' = pz s" "pz_fibres s' = pz_fibres s" "pz_fib s' = (pz_fib s)(p := x)"
    and c: "int (pz_confirm s') - int (pz_confirm s)
      = of_bool (x = PfBlocked) + of_bool (x = PfDone) - of_bool (pz_fib s p = PfBlocked) - of_bool (pz_fib s p = PfDone)"
    and m: "int (pz_sem s') - int (pz_sem s) + of_bool (x = PfDone) - of_bool (pz_fib s p = PfDone) = 0"
  shows "pause_inv ring self s'"
proof -
  have mv: "pause_tokens s' fs t g" if "pause_tokens s fs t g" for fs t g
    using that p s'(3) c m by (intro pause_tokens_move [of s fs t g p x s']) auto
  show ?thesis
    using inv unfolding pause_inv_def Let_def s'(1,2) by (cases "pz s") (auto intro: mv)
qed

lemma filter_others:
  assumes "distinct ring" and "self \<in> set ring"
  shows "length (filter (\<lambda>p. p \<noteq> self) ring) = length ring - 1"
proof -
  have "filter (\<lambda>p. p \<noteq> self) ring = remove1 self ring"
    using assms(1) by (auto simp: distinct_remove1_removeAll removeAll_filter_not_eq intro: filter_cong)
  then show ?thesis using assms(2) by (simp add: length_remove1)
qed

lemma pause_create_inv:
  assumes ring: "distinct ring" and inv: "pause_inv ring self s" and pz: "pz s = PzCreate (p # ps)"
  shows "pause_inv ring self ((pause_create self p s)\<lparr>pz := PzCreate ps\<rparr>)"
proof -
  obtain us where us: "ring = us @ p # ps" "pz_fibres s = filter (\<lambda>p. p \<noteq> self) us" "pause_tokens s (pz_fibres s) 0 0"
    using inv by (auto simp: pause_inv_def pz)
  then have r: "ring = (us @ [p]) @ ps" by simp
  show ?thesis
  proof (cases "p = self")
    case True
    then show ?thesis using us r
      by (simp add: pause_inv_def pause_create_def)
  next
    case False
    have p: "p \<notin> set (pz_fibres s)" using ring us(1,2) by auto
    then have "pz_fib s p = PfNone" using us(3) by (auto simp: pause_tokens_def)
    then have c: "cnt ((pz_fib s)(p := PfReady)) c = cnt (pz_fib s) c" if "c \<in> {PfBlocked, PfDone}" for c
      using pause_cnt [OF us(3), of c p PfReady] that by auto
    have "q \<in> set (pz_fibres s @ [p]) \<longleftrightarrow> ((pz_fib s)(p := PfReady)) q \<noteq> PfNone" for q
      using us(3) by (auto simp: pause_tokens_def)
    then have "pause_tokens (pause_create self p s) (pz_fibres s @ [p]) 0 0"
      using us(3) p c by (simp add: pause_tokens_def pause_create_def False del: fun_upd_apply)
    then show ?thesis using us(2) r False
      by (simp add: pause_inv_def) (simp add: pause_create_def)
  qed
qed

lemma pause_step_inv:
  assumes ring: "distinct ring" "self \<in> set ring" and st: "pause_step ring self s s'" and inv: "pause_inv ring self s"
  shows "pause_inv ring self s'"
  using st
proof (cases rule: pause_step.cases)
  case pause
  with inv show ?thesis by (simp add: pause_inv_def)
next
  case (create p ps)
  then show ?thesis using pause_create_inv [OF ring(1) inv] by simp
next
  case created
  then have "s' = s\<lparr>pz := PzWait (length ring - 1)\<rparr>" by (auto simp: pause_created_def split: if_splits)
  with created(1) inv show ?thesis by (auto simp: pause_inv_def)
next
  case (confirmed k)
  then have t: "pz_fibres s = filter (\<lambda>p. p \<noteq> self) ring" "Suc k \<le> length ring - 1"
      "pause_tokens s (pz_fibres s) (length ring - 1 - Suc k) 0"
    using inv by (simp_all add: pause_inv_def Let_def)
  have "pause_tokens s' (pz_fibres s) (length ring - 1 - k) 0"
    using t(3) by (rule pause_tokens_sems) (use confirmed t(2) in auto)
  then show ?thesis using confirmed(1) t by (simp add: pause_inv_def)
next
  case paused
  with inv show ?thesis by (simp add: pause_inv_def)
next
  case resume
  with inv show ?thesis by (simp add: pause_inv_def)
next
  case (release k)
  then have t: "pz_fibres s = filter (\<lambda>p. p \<noteq> self) ring" "Suc k \<le> length ring - 1"
      "pause_tokens s (pz_fibres s) (length ring - 1) (length ring - 1 - Suc k)"
    using inv by (simp_all add: pause_inv_def Let_def)
  have "pause_tokens s' (pz_fibres s) (length ring - 1) (length ring - 1 - k)"
    using t(3) by (rule pause_tokens_sems) (use release t(2) in auto)
  then show ?thesis using release(1) t by (simp add: pause_inv_def)
next
  case released
  with inv filter_others [OF ring] show ?thesis by (auto simp: pause_inv_def Let_def)
next
  case (delete p ps)
  then obtain us where us: "filter (\<lambda>p. p \<noteq> self) ring = us @ p # ps" and t: "pause_tokens s (p # ps) (Suc (length ps)) (Suc (length ps))"
    using inv by (auto simp: pause_inv_def)
  have "cnt ((pz_fib s)(p := PfNone)) c = cnt (pz_fib s) c - of_bool (c = PfDone)" if "c \<in> {PfBlocked, PfDone}" for c
    using pause_cnt [OF t, of c p PfNone] that delete(3) by auto
  moreover have "q \<in> set ps \<longleftrightarrow> ((pz_fib s)(p := PfNone)) q \<noteq> PfNone" for q
    using t by (auto simp: pause_tokens_def)
  ultimately have "pause_tokens s' ps (length ps) (length ps)"
    using t unfolding delete(1) by (simp add: pause_tokens_def del: fun_upd_apply)
  then show ?thesis using us unfolding delete(1)
    by (simp add: pause_inv_def)
next
  case deleted
  with inv show ?thesis by (auto simp: pause_inv_def)
next
  case (dispatch p)
  show ?thesis unfolding dispatch(1)
    by (rule pause_inv_fibre [OF inv, of p PfConfirm]) (simp_all add: dispatch(2))
next
  case (confirm p)
  show ?thesis unfolding confirm(1) pauseOperation1_def
    by (rule pause_inv_fibre [OF inv, of p PfBlocked]) (simp_all add: confirm(2))
next
  case (unblock p)
  then have "s' = s\<lparr>pz_sem := pz_sem s - 1, pz_fib := (pz_fib s)(p := PfDone)\<rparr>" "pz_sem s > 0"
    by (auto simp: pauseOperation2_def split: if_splits)
  then show ?thesis
    by (intro pause_inv_fibre [OF inv, of p PfDone s']) (simp_all add: unblock(1) of_nat_diff)
qed

lemma pause_reach_inv:
  assumes "distinct ring" and "self \<in> set ring" and "pause_reach ring self s"
  shows "pause_inv ring self s"
  using assms(3)
proof (induction rule: pause_reach.induct)
  case start
  then show ?case by (simp add: pause_inv_def pause_init_def pause_tokens_def cnt_def)
next
  case (step s s')
  then show ?case using pause_step_inv [OF assms(1,2)] by blast
qed

section \<open>What the invariant gives\<close>

lemma pause_tokensD:
  assumes "pause_tokens s fs t g"
  shows "distinct fs" and "p \<in> set fs \<longleftrightarrow> pz_fib s p \<noteq> PfNone"
    and "int (pz_confirm s) + int t = cnt (pz_fib s) PfBlocked + cnt (pz_fib s) PfDone"
    and "int (pz_sem s) + cnt (pz_fib s) PfDone = int g"
  using assms unfolding pause_tokens_def by blast+

lemma pause_stage_sub:
  assumes "pause_tokens s fs t g" and "c \<noteq> PfNone"
  shows "{p. pz_fib s p = c} \<subseteq> set fs"
  using pause_tokensD(2) [OF assms(1)] assms(2) by blast

lemma pause_cnt_le:
  assumes "pause_tokens s fs t g"
  shows "cnt (pz_fib s) PfBlocked + cnt (pz_fib s) PfDone \<le> int (length fs)"
proof -
  let ?B = "{p. pz_fib s p = PfBlocked}" and ?D = "{p. pz_fib s p = PfDone}"
  have sub: "?B \<subseteq> set fs" "?D \<subseteq> set fs"
    using pause_stage_sub [OF assms, of PfBlocked] pause_stage_sub [OF assms, of PfDone] by blast+
  then have "finite ?B" "finite ?D" by (auto intro: finite_subset [OF _ finite_set])
  then have "card ?B + card ?D = card (?B \<union> ?D)" by (intro card_Un_disjoint [symmetric]) auto
  also have "\<dots> \<le> card (set fs)" using sub by (intro card_mono) auto
  also have "\<dots> \<le> length fs" by (rule card_length)
  finally show ?thesis by (simp add: cnt_def)
qed

lemma pause_can_end:
  assumes inv: "pause_inv ring self s" and pz: "pz s = PzDelete ps" and p: "pz_fib s p = PfBlocked"
  shows "0 < pz_sem s"
proof -
  obtain t: "pause_tokens s ps (length ps) (length ps)" using inv pz by (auto simp: pause_inv_def)
  have "finite {q. pz_fib s q = PfBlocked}"
    using pause_stage_sub [OF t, of PfBlocked] by (auto intro: finite_subset [OF _ finite_set])
  then have "0 < cnt (pz_fib s) PfBlocked" using p by (subst cnt_pos) auto
  then show ?thesis using pause_cnt_le [OF t] pause_tokensD(4) [OF t] by linarith
qed

lemma pause_paused:
  assumes inv: "pause_inv ring self s" and n: "length (filter (\<lambda>p. p \<noteq> self) ring) = length ring - 1"
    and pz: "pz s = PzPaused"
  shows "(\<forall>p\<in>set ring - {self}. pz_fib s p = PfBlocked) \<and> pz_confirm s = 0 \<and> pz_sem s = 0"
proof -
  let ?B = "{p. pz_fib s p = PfBlocked}"
  obtain r where r: "r = filter (\<lambda>p. p \<noteq> self) ring" by simp
  have t: "pause_tokens s r (length r) 0" using inv pz n by (simp add: pause_inv_def Let_def r)
  have z: "pz_confirm s = 0" "pz_sem s = 0" "cnt (pz_fib s) PfBlocked = int (length r)"
    using pause_cnt_le [OF t] pause_tokensD(3,4) [OF t] cnt_nonneg [of "pz_fib s" PfDone] by linarith+
  have "?B = set r"
  proof (rule card_subset_eq)
    show "?B \<subseteq> set r" by (rule pause_stage_sub [OF t]) simp
    show "card ?B = card (set r)" using z(3) distinct_card [OF pause_tokensD(1) [OF t]] by (simp add: cnt_def)
  qed simp
  moreover have "set r = set ring - {self}" by (auto simp: r)
  ultimately show ?thesis using z by blast
qed

lemma pause_idle:
  assumes inv: "pause_inv ring self s" and pz: "pz s = PzIdle"
  shows "s = pause_init"
proof -
  have t: "pause_tokens s [] 0 0" and f: "pz_fibres s = []" using inv pz by (simp_all add: pause_inv_def Let_def)
  have "pz_fib s = (\<lambda>_. PfNone)" using pause_tokensD(2) [OF t] by auto
  moreover have "pz_confirm s = 0" "pz_sem s = 0"
    using pause_tokensD(3,4) [OF t] pause_cnt_le [OF t] cnt_nonneg [of "pz_fib s"] by (smt (verit) length_0_conv of_nat_0 of_nat_0_le_iff of_nat_eq_0_iff list.size(3))+
  ultimately show ?thesis using pz f by (simp add: pause_init_def)
qed

section \<open>Properties\<close>


text \<open>Two processors, up to the return of \<^verbatim>\<open>pause\<close>.\<close>

definition pause_run :: pause_sys where
  "pause_run = \<lparr>pz = PzPaused, pz_fibres = [2], pz_sem = 0, pz_confirm = 0, pz_fib = (\<lambda>_. PfNone)(2 := PfBlocked)\<rparr>"

lemma pause_run_reach: "pause_reach [1, 2] 1 pause_run"
proof -
  note go = pause_reach.step
  let ?S = "\<lambda>z c x. \<lparr>pz = z, pz_fibres = [2], pz_sem = 0, pz_confirm = c, pz_fib = (\<lambda>_. PfNone)(2 := x)\<rparr>"
  have "pause_reach [1, 2] 1 (pause_init\<lparr>pz := PzCreate [1, 2]\<rparr>)"
    by (rule go [OF pause_reach.start pause_step.pause]) (simp add: pause_init_def)
  then have "pause_reach [1, 2] 1 (pause_init\<lparr>pz := PzCreate [2]\<rparr>)"
    by (rule go) (use pause_step.create [of "pause_init\<lparr>pz := PzCreate [1, 2]\<rparr>" 1 "[2]" "[1, 2]" 1]
      in \<open>simp add: pause_create_def\<close>)
  then have "pause_reach [1, 2] 1 (?S (PzCreate []) 0 PfReady)"
    by (rule go) (use pause_step.create [of "pause_init\<lparr>pz := PzCreate [2]\<rparr>" 2 "[]" "[1, 2]" 1]
      in \<open>simp add: pause_create_def pause_init_def\<close>)
  then have "pause_reach [1, 2] 1 (?S (PzWait 1) 0 PfReady)"
    by (rule go [OF _ pause_step.created]) (simp_all add: pause_created_def)
  then have "pause_reach [1, 2] 1 (?S (PzWait 1) 0 PfConfirm)"
    by (rule go) (use pause_step.dispatch [of "?S (PzWait 1) 0 PfReady" 2 "[1, 2]" 1] in simp)
  then have "pause_reach [1, 2] 1 (?S (PzWait 1) 1 PfBlocked)"
    by (rule go) (use pause_step.confirm [of "?S (PzWait 1) 0 PfConfirm" 2 "[1, 2]" 1] in \<open>simp add: pauseOperation1_def\<close>)
  then have "pause_reach [1, 2] 1 (?S (PzWait 0) 0 PfBlocked)"
    by (rule go) (use pause_step.confirmed [of "?S (PzWait 1) 1 PfBlocked" 0 "[1, 2]" 1] in simp)
  then have "pause_reach [1, 2] 1 (?S PzPaused 0 PfBlocked)"
    by (rule go) (use pause_step.paused [of "?S (PzWait 0) 0 PfBlocked" "[1, 2]" 1] in simp)
  then show ?thesis by (simp add: pause_run_def)
qed


end
