(* ===== verification/Sem_Timed.thy ===== *)
theory Sem_Timed
  imports Sem_Mutex
begin

text \<open>
  \<^verbatim>\<open>FredBenaphore\<close> of \<^verbatim>\<open>src/src/runtime/BlockingSync.h\<close> with a deadline. The semaphore of the default type rejects
  deadlines (theory \<open>Sem_Mutex\<close>), so the type here is \<^verbatim>\<open>FredBenaphore<LockedSemaphore<WorkerLock>,true>\<close>, one of the
  types in \<^verbatim>\<open>src/lockperf.sh\<close>; \<open>binary\<close> is the parameter \<^verbatim>\<open>Binary\<close> of the benaphore, the semaphore is a counting one.
  Between the benaphore and the semaphore, and while a fred is blocked, other freds run.
\<close>

section \<open>Operations\<close>

record fbl =
  fbl_ben :: int
  fbl_sem :: lsem

definition new_fbl :: "addr \<Rightarrow> int \<Rightarrow> fbl" where
  "new_fbl a c = \<lparr>fbl_ben = c, fbl_sem = new_sem a 0\<rparr>"

definition fbl_reset :: "int \<Rightarrow> fbl \<Rightarrow> fbl option" where
  "fbl_reset c b = do { l \<leftarrow> sem_reset 0 (fbl_sem b); Some (b\<lparr>fbl_sem := l, fbl_ben := c\<rparr>) }"

text \<open>\<^verbatim>\<open>P\<close>: the benaphore (true: open); the semaphore up to the suspension; the end of the suspension; the repair of
  the benaphore after a time-out. The last one is also what follows when the semaphore times out at once.\<close>

definition fbl_P1 :: "fbl \<Rightarrow> bool \<times> fbl" where
  "fbl_P1 b = (let (r, c) = ben_P (fbl_ben b) in (r, b\<lparr>fbl_ben := c\<rparr>))"

definition fbl_P2 :: "wait_arg \<Rightarrow> time \<Rightarrow> fid \<Rightarrow> fbl \<Rightarrow> freds \<Rightarrow> (SemaphoreResult option \<times> fbl \<times> freds) option" where
  "fbl_P2 arg now cf b F =
     do { (r, l, F') \<leftarrow> sem_internalP arg now cf (fbl_sem b) F; Some (r, b\<lparr>fbl_sem := l\<rparr>, F') }"

definition fbl_P3 :: "fid \<Rightarrow> fbl \<Rightarrow> freds \<Rightarrow> SemaphoreResult \<times> fbl" where
  "fbl_P3 cf b F = (let (r, l) = sem_P_end cf (fbl_sem b) F in (r, b\<lparr>fbl_sem := l\<rparr>))"

definition fbl_P4 :: "bool \<Rightarrow> SemaphoreResult \<Rightarrow> fbl \<Rightarrow> (SemaphoreResult \<times> fbl) option" where
  "fbl_P4 binary r b =
     (if r \<noteq> SemaphoreTimeout then Some (SemaphoreSuccess, b)
      else do { (_, c) \<leftarrow> ben_V binary (fbl_ben b); Some (SemaphoreTimeout, b\<lparr>fbl_ben := c\<rparr>) })"

definition fbl_tryP :: "fbl \<Rightarrow> SemaphoreResult \<times> fbl" where
  "fbl_tryP b = (let (r, c) = ben_tryP (fbl_ben b) in (if r then SemaphoreWasOpen else SemaphoreTimeout, b\<lparr>fbl_ben := c\<rparr>))"

text \<open>\<^verbatim>\<open>wait\<close> resets the benaphore and goes on as \<^verbatim>\<open>P\<close>.\<close>

definition fbl_wait :: "fbl \<Rightarrow> bool \<times> fbl" where
  "fbl_wait b = fbl_P1 (b\<lparr>fbl_ben := 0\<rparr>)"

text \<open>\<^verbatim>\<open>V\<close>: the benaphore (true: nobody to resume), then the semaphore.\<close>

definition fbl_V1 :: "bool \<Rightarrow> fbl \<Rightarrow> (bool \<times> fbl) option" where
  "fbl_V1 binary b = do { (r, c) \<leftarrow> ben_V binary (fbl_ben b); Some (r, b\<lparr>fbl_ben := c\<rparr>) }"

definition fbl_V2 :: "fbl \<Rightarrow> freds \<Rightarrow> fid option \<times> fbl \<times> freds" where
  "fbl_V2 b F = (let (r, l, F') = sem_V False (fbl_sem b) F in (r, b\<lparr>fbl_sem := l\<rparr>, F'))"

lemmas fbl_defs [lf_op] = fbl_reset_def fbl_P1_def fbl_P2_def fbl_P3_def fbl_P4_def fbl_tryP_def fbl_wait_def fbl_V1_def
  fbl_V2_def

section \<open>A wake-up that is counted twice\<close>

lemma fbl_wait_blocks: "fst (fbl_wait b) = False"
  by (simp add: fbl_wait_def fbl_P1_def ben_P_def)

text \<open>The fred \<open>cf\<close> enters the empty semaphore.\<close>

lemma fbl_enter:
  assumes "sem_counter (fbl_sem b) = 0" and "now < t" and "fbl_P2 (Until t) now cf b F = Some (r, b', F')"
  shows "r = None \<and> fbl_ben b' = fbl_ben b \<and> sem_counter (fbl_sem b') = 0
    \<and> sem_bq (fbl_sem b') = (sem_bq (fbl_sem b))\<lparr>bq_nodes := bq_nodes (sem_bq (fbl_sem b)) @ [cf]\<rparr> \<and> resumeInfo (F' cf) = 0"
  using assms
  by (auto simp: fbl_P2_def sem_internalP_def bq_block_begin_def prepareResumeRace_def split: Option.bind_split_asm if_splits)

text \<open>The \<^verbatim>\<open>V\<close> of another fred finds nobody to resume: the token stays in the semaphore.\<close>

lemma fbl_V2_none:
  assumes "bq_waiters (sem_bq (fbl_sem b)) F = []"
  shows "fbl_V2 b F = (None, b\<lparr>fbl_sem := (fbl_sem b)\<lparr>sem_counter := sem_counter (fbl_sem b) + 1\<rparr>\<rparr>, F)"
  using bq_unblock_none [OF assms] by (simp add: fbl_V2_def sem_V_def)

text \<open>C7: A \<^verbatim>\<open>FredBenaphore\<close> whose \<^verbatim>\<open>P\<close> times out can give out more tokens than it received. The timer of a blocked fred
  wins the race; a \<^verbatim>\<open>V\<close> that has seen the fred counted in the benaphore leaves its token in the semaphore; then the fred
  takes itself out of the benaphore by another \<^verbatim>\<open>V\<close>. One \<^verbatim>\<open>V\<close> has been called and nobody has been granted anything, but
  two further calls of \<^verbatim>\<open>P\<close> both succeed at once.\<close>

theorem benaphore_timeout_duplicates:
  assumes "fbl_ben b = 0" and "sem_counter (fbl_sem b) = 0" and "bq_nodes (sem_bq (fbl_sem b)) = []"
    and "now < t" and "tq \<noteq> 0" and "tq \<noteq> bq_addr (sem_bq (fbl_sem b))"
    and P1: "fbl_P1 b = (r1, b1)" and P2: "fbl_P2 (Until t) now cf b1 F = Some (r2, b2, F2)"
    and V1: "fbl_V1 binary b2 = Some (r3, b3)" and V2: "fbl_V2 b3 (race_won tq cf F2) = (r4, b4, F4)"
    and P3: "fbl_P3 cf b4 F4 = (r5, b5)" and P4: "fbl_P4 binary r5 b5 = Some (r6, b6)"
    and Q1: "fbl_P1 b6 = (r7, b7)" and R1: "fbl_P1 b7 = (r8, b8)"
  shows "\<not> r1 \<and> r2 = None \<and> \<not> r3 \<and> r4 = None \<and> r6 = SemaphoreTimeout
    \<and> r7 \<and> \<not> r8 \<and> (\<exists>b9. fbl_P2 arg now' g b8 F4 = Some (Some SemaphoreWasOpen, b9, F4))"
proof -
  have b1: "\<not> r1" "fbl_ben b1 = - 1" "fbl_sem b1 = fbl_sem b" using P1 assms(1) by (auto simp: fbl_P1_def ben_P_def)
  have b2: "r2 = None" "fbl_ben b2 = - 1" "sem_counter (fbl_sem b2) = 0" "resumeInfo (F2 cf) = 0"
    "bq_nodes (sem_bq (fbl_sem b2)) = [cf]" "bq_addr (sem_bq (fbl_sem b2)) = bq_addr (sem_bq (fbl_sem b))"
    using fbl_enter [OF _ assms(4) P2] assms(2,3) b1 by simp_all
  have b3: "\<not> r3" "fbl_ben b3 = 0" "fbl_sem b3 = fbl_sem b2"
    using V1 b2(2) by (auto simp: fbl_V1_def ben_V_def split: if_splits)
  have won: "resumeInfo (race_won tq cf F2 cf) = tq" using b2(4) by (simp add: race_won_def raceResume_def)
  then have "bq_waiters (sem_bq (fbl_sem b3)) (race_won tq cf F2) = []"
    using b2(5) b3(3) assms(5) by (simp add: bq_waiters_def)
  then have b4: "r4 = None" "F4 = race_won tq cf F2" "fbl_ben b4 = 0" "sem_counter (fbl_sem b4) = 1"
    "sem_bq (fbl_sem b4) = sem_bq (fbl_sem b2)"
    using V2 fbl_V2_none [of b3] b2(3) b3 by auto
  have b5: "r5 = SemaphoreTimeout" "fbl_ben b5 = 0" "sem_counter (fbl_sem b5) = 1"
    using P3 won b2(6) b4 assms(6) by (auto simp: fbl_P3_def sem_P_end_def bq_block_end_def)
  then have b6: "r6 = SemaphoreTimeout" "fbl_ben b6 = 1" "sem_counter (fbl_sem b6) = 1"
    using P4 by (auto simp: fbl_P4_def ben_V_def split: if_splits)
  then have b8: "r7" "\<not> r8" "sem_counter (fbl_sem b8) = 1"
    using Q1 R1 by (auto simp: fbl_P1_def ben_P_def)
  then have "\<exists>b9. fbl_P2 arg now' g b8 F4 = Some (Some SemaphoreWasOpen, b9, F4)"
    by (simp add: fbl_P2_def sem_internalP_def)
  with b1(1) b2(1) b3(1) b4(1) b6(1) b8(1,2) show ?thesis by blast
qed

abbreviation "fbl_at c n q \<equiv> \<lparr>fbl_ben = c, fbl_sem = \<lparr>sem_counter = n, sem_bq = \<lparr>bq_addr = 100, bq_nodes = q\<rparr>\<rparr>\<rparr>"

theorem benaphore_timeout_duplicates_witness:
  "\<exists>F. fbl_P1 (fbl_at 1 1 []) = (True, fbl_at 0 1 []) \<and> fbl_P1 (fbl_at 0 1 []) = (False, fbl_at (- 1) 1 [])
    \<and> (\<exists>b9. fbl_P2 Wait time_zero 3 (fbl_at (- 1) 1 []) F = Some (Some SemaphoreWasOpen, b9, F))"
proof -
  let ?F = "\<lambda>f. new_fred False 0 0"
  have p: "fbl_P2 (Until (fromMS 5)) time_zero 1 (fbl_at (- 1) 0 []) ?F = Some (None, fbl_at (- 1) 0 [1], ?F)"
    by (simp add: fbl_P2_def sem_internalP_def bq_block_begin_def prepareResumeRace_def new_fred_def fromMS_def time_zero_def
        less_time_def time_lt_def fun_eq_iff)
  have v: "fbl_V2 (fbl_at 0 0 [1]) (race_won 7 1 ?F) = (None, fbl_at 0 1 [1], race_won 7 1 ?F)"
    by (simp add: fbl_V2_def sem_V_def bq_unblock_def race_won_def raceResume_def new_fred_def)
  have e: "fbl_P3 1 (fbl_at 0 1 [1]) (race_won 7 1 ?F) = (SemaphoreTimeout, fbl_at 0 1 [])"
    by (simp add: fbl_P3_def sem_P_end_def bq_block_end_def race_won_def raceResume_def new_fred_def)
  have "\<exists>b9. fbl_P2 Wait time_zero 3 (fbl_at (- 1) 1 []) (race_won 7 1 ?F) = Some (Some SemaphoreWasOpen, b9, race_won 7 1 ?F)"
    using benaphore_timeout_duplicates [OF _ _ _ _ _ _ _ p _ v e, of "fbl_at 0 0 []" False True False SemaphoreTimeout
        "fbl_at 1 1 []" True "fbl_at 0 1 []" False "fbl_at (- 1) 1 []" Wait time_zero 3]
    by (simp add: fbl_P1_def fbl_V1_def fbl_P4_def ben_P_def ben_V_def fromMS_def time_zero_def less_time_def time_lt_def)
  then show ?thesis by (auto simp: fbl_P1_def ben_P_def)
qed

end
