(* ===== verification/Timeout_Queue.thy ===== *)
theory Timeout_Queue
  imports Locked_Sync
begin

text \<open>
  \<^verbatim>\<open>MCSTimeoutQueue\<close> of \<^verbatim>\<open>src/src/runtime/MCSTimeoutSemaphore.h\<close>: the queue of waiting freds behind
  \<^verbatim>\<open>LimitedTimeoutSemaphore\<close>, an MCS queue whose nodes can leave when their time is over. Links are machine words with
  the tag bits and reserved values of the source. The parts of an operation are functions on the shared memory; a part
  that would wait for another thread to go on has no result. The refinement theorem takes one operation at a time.
\<close>

section \<open>Tagged pointers\<close>

definition leaving_self :: mword where "leaving_self = 0x4"
definition leaving_other :: mword where "leaving_other = 0x8"
definition gone :: mword where "gone = 0xc"

definition is_restored :: "mword \<Rightarrow> bool" where "is_restored p \<longleftrightarrow> p AND 0x1 \<noteq> 0"
definition is_transient :: "mword \<Rightarrow> bool" where "is_transient p \<longleftrightarrow> is_restored p"
definition is_at_head :: "mword \<Rightarrow> bool" where "is_at_head p \<longleftrightarrow> p AND 0x2 \<noteq> 0"
definition restored :: "mword \<Rightarrow> mword" where "restored p = p OR 0x1"
definition transient :: "mword \<Rightarrow> mword" where "transient p = restored p"
definition at_head :: "mword \<Rightarrow> mword" where "at_head p = p OR 0x2"
definition cleaned :: "mword \<Rightarrow> mword" where "cleaned p = p AND NOT 0x3"
definition is_real :: "mword \<Rightarrow> bool" where "is_real p \<longleftrightarrow> \<not> is_at_head p \<and> p > 0x10"

lemmas mt_tag_defs = leaving_self_def leaving_other_def gone_def is_transient_def transient_def

text \<open>What the source assumes of the address of a node.\<close>

definition mt_node :: "mword \<Rightarrow> bool" where "mt_node a \<longleftrightarrow> a AND 0x3 = 0 \<and> a > 0x10"

lemma is_restored_bit: "is_restored p \<longleftrightarrow> bit p 0"
  using and_exp_eq_0_iff_not_bit [of p 0] by (simp add: is_restored_def)

lemma is_at_head_bit: "is_at_head p \<longleftrightarrow> bit p 1"
  using and_exp_eq_0_iff_not_bit [of p 1] by (simp add: is_at_head_def)

lemma bit_3: "bit (3::int) k \<longleftrightarrow> k < 2"
proof -
  have m: "(3::int) = mask 2" by (simp add: mask_eq_exp_minus_1)
  show ?thesis unfolding m bit_mask_iff by (auto simp: possible_bit_def)
qed

lemma mt_node_bits:
  assumes "mt_node a"
  shows "\<not> bit a 0" and "\<not> bit a 1"
proof -
  have "\<not> bit (a AND 3) 0" "\<not> bit (a AND 3) 1" using assms unfolding mt_node_def by simp_all
  then show "\<not> bit a 0" and "\<not> bit a 1" by (simp_all add: bit_and_iff bit_3)
qed

lemma mt_node_tags [simp]:
  assumes "mt_node a"
  shows "\<not> is_restored a" and "\<not> is_at_head a" and "is_real a" and "a \<noteq> 0" and "a \<noteq> leaving_self"
    and "a \<noteq> leaving_other" and "a \<noteq> gone" and "cleaned (restored a) = a"
proof -
  note b = mt_node_bits [OF assms]
  then show "\<not> is_restored a" and h: "\<not> is_at_head a" by (simp_all add: is_restored_bit is_at_head_bit)
  then show "is_real a" using assms by (simp add: is_real_def mt_node_def)
  show "a \<noteq> 0" "a \<noteq> leaving_self" "a \<noteq> leaving_other" "a \<noteq> gone"
    using assms by (auto simp: mt_node_def mt_tag_defs)
  show "cleaned (restored a) = a"
  proof (rule bit_word_eqI)
    fix k assume "k < LENGTH(64)"
    then have "bit (cleaned (restored a)) k \<longleftrightarrow> (bit a k \<or> k = 0) \<and> \<not> k < 2"
      by (auto simp: cleaned_def restored_def bit_simps bit_3)
    also have "\<dots> \<longleftrightarrow> bit a k" using b by (cases k; cases "k - 1") (auto simp: less_2_cases_iff)
    finally show "bit (cleaned (restored a)) k \<longleftrightarrow> bit a k" .
  qed
qed

lemma mt_tags [simp]:
  "\<not> mt_node 0" "\<not> mt_node leaving_self" "\<not> mt_node leaving_other" "\<not> mt_node gone"
  "\<not> is_restored 0" "\<not> is_restored leaving_self" "\<not> is_restored leaving_other" "\<not> is_restored gone"
  "\<not> is_at_head 0" "\<not> is_at_head leaving_self" "\<not> is_at_head leaving_other" "\<not> is_at_head gone"
  "leaving_self \<noteq> 0" "leaving_other \<noteq> 0" "gone \<noteq> 0" "leaving_self \<noteq> leaving_other" "gone \<noteq> leaving_self" "gone \<noteq> leaving_other"
  "leaving_self \<noteq> gone" "leaving_other \<noteq> gone" "leaving_other \<noteq> leaving_self"
  "is_restored (transient 0)" "transient 0 \<noteq> gone" "transient 0 \<noteq> leaving_self" "transient 0 \<noteq> leaving_other"
  by (simp_all add: mt_tag_defs is_restored_def is_at_head_def restored_def mt_node_def)

section \<open>Operations\<close>

text \<open>The shared memory: head and tail, the links of the nodes, and what is fixed for a node: its fred and whether it
  has a deadline. \<open>mt_locked\<close> is the lock \<^verbatim>\<open>predLock\<close> of a node.\<close>

record mtq =
  mt_head :: mword
  mt_tail :: mword
  mt_next :: "mword \<Rightarrow> mword"
  mt_prev :: "mword \<Rightarrow> mword"
  mt_locked :: "mword \<Rightarrow> bool"
  mt_fred :: "mword \<Rightarrow> fid"
  hasTimeout :: "mword \<Rightarrow> bool"
  mt_addr :: addr              \<comment> \<open>\<open>&head\<close>, the winner of a race that was popped\<close>
  mt_relink_addr :: addr       \<comment> \<open>\<open>&tail\<close>, the winner of a race that must link itself again\<close>

definition mt_empty :: "mtq \<Rightarrow> bool" where "mt_empty q \<longleftrightarrow> mt_tail q = 0"

abbreviation "mt_setN a v q \<equiv> q\<lparr>mt_next := (mt_next q)(a := v)\<rparr>"
abbreviation "mt_setP a v q \<equiv> q\<lparr>mt_prev := (mt_prev q)(a := v)\<rparr>"

definition swapWithTail :: "mword \<Rightarrow> mtq \<Rightarrow> bool \<times> mword \<times> mtq" where
  "swapWithTail n q = (mt_tail q = 0, mt_tail q, (mt_setN n 0 q)\<lparr>mt_tail := n\<rparr>)"

text \<open>\<^verbatim>\<open>linkTailToPred\<close>: up to the exchange of the predecessor's link (with its old value), and the rest.\<close>

definition linkTailToPred1 :: "mword \<Rightarrow> mword \<Rightarrow> mtq \<Rightarrow> mword \<times> mtq" where
  "linkTailToPred1 n pred q =
     (let q1 = mt_setP n (transient 0) q; temp = mt_next q1 pred
      in (temp, mt_setN pred (if is_transient temp then transient n else n) q1))"

text \<open>\<^verbatim>\<open>relink\<close>, one round: the new \<^verbatim>\<open>temp\<close> and \<^verbatim>\<open>pred\<close>. No result: the predecessor is leaving too.\<close>

definition mt_relink :: "mword \<Rightarrow> mword \<Rightarrow> mword \<Rightarrow> mtq \<Rightarrow> (mword \<times> mword \<times> mtq) option" where
  "mt_relink temp pred n q =
     (if is_restored temp
      then Some (cleaned temp, pred, if mt_prev q n = temp then mt_setP n (cleaned temp) q else q)
      else if mt_next q temp = leaving_self then None
      else Some (mt_next q temp, temp, mt_setN temp n q))"

definition linkTailToPred2 :: "mword \<Rightarrow> mword \<Rightarrow> mword \<Rightarrow> mtq \<Rightarrow> freds \<Rightarrow> (mword \<times> mtq \<times> freds) option" where
  "linkTailToPred2 temp n pred q F =
     (if is_transient temp
      then if mt_prev q n = transient 0 then None
           else Some (pred, if mt_prev q n = 0 then mt_setP n pred q else q, F)
      else if temp = leaving_self
      then let t = mt_prev q n
           in if t = transient 0 then None
              else if is_real t
              then do { F' \<leftarrow> (if is_restored t then Some F
                             else do { f \<leftarrow> prepareResumeRace (cancelEarlyResume (F (mt_fred q n)));
                                       Some (F(mt_fred q n := f)) });
                        (_, pred', q') \<leftarrow> mt_relink t pred n q;
                        Some (pred', q', F') }
              else Some (pred, q, F)
      else Some (pred, if mt_prev q n = transient 0 then mt_setP n pred q else q, F))"

text \<open>\<^verbatim>\<open>pushAndWaitUntilPopped\<close> up to the suspension, without (\<open>Wait\<close>) and with a deadline: the race of the fred is prepared
  before others can see its node. The first result is the predecessor, if there is one.\<close>

definition mt_push :: "mword \<Rightarrow> mtq \<Rightarrow> freds \<Rightarrow> (mword option \<times> mtq \<times> freds) option" where
  "mt_push n q F =
     (let (first, pred, q1) = swapWithTail n q
      in if first
         then do { F' \<leftarrow> (if hasTimeout q n then do { f \<leftarrow> prepareResumeRace (F (mt_fred q n)); Some (F(mt_fred q n := f)) }
                         else Some F);
                   Some (None, q1\<lparr>mt_head := n\<rparr>, F') }
         else let (temp, q2) = linkTailToPred1 n pred q1
              in do { f \<leftarrow> prepareResumeRace (F (mt_fred q n));
                      (pred', q3, F') \<leftarrow> linkTailToPred2 temp n pred q2 (F(mt_fred q n := f));
                      Some (Some pred', q3, F') })"

text \<open>\<^verbatim>\<open>popFromHead\<close>.\<close>

definition popFromHead :: "mword \<Rightarrow> mtq \<Rightarrow> mtq option" where
  "popFromHead n q =
     (let succ = mt_next q n
      in if succ = leaving_other \<or> is_transient succ then None
         else let q = (if succ = gone then mt_setN n 0 q else q); succ = (if succ = gone then 0 else succ)
              in if succ = 0 then if mt_tail q = n then Some (q\<lparr>mt_tail := 0\<rparr>) else None
                 else if hasTimeout q succ \<and> mt_locked q succ then None
                 else let q1 = mt_setN n (at_head 0) q;
                          q2 = (if hasTimeout q succ then mt_setP succ (at_head n) q1 else q1)
                      in Some (q2\<lparr>mt_head := succ\<rparr>))"

text \<open>\<^verbatim>\<open>tryPop\<close>: the fred to resume. \<^verbatim>\<open>handleTimeoutAtHead\<close>: the first node leaves.\<close>

definition mt_tryPop :: "mtq \<Rightarrow> freds \<Rightarrow> (fid option \<times> mtq \<times> freds) option" where
  "mt_tryPop q F =
     (let n = mt_head q; f = mt_fred q n; (won, f') = raceResume (mt_addr q) (F f)
      in if n \<noteq> 0 \<and> (\<not> hasTimeout q n \<or> won)
         then do { q' \<leftarrow> popFromHead n (q\<lparr>mt_head := 0\<rparr>); Some (Some f, q', if hasTimeout q n then F(f := f') else F) }
         else Some (None, q, F))"

definition handleTimeoutAtHead :: "mword \<Rightarrow> mtq \<Rightarrow> mtq option" where
  "handleTimeoutAtHead n q = popFromHead n (q\<lparr>mt_head := 0\<rparr>)"

text \<open>\<^verbatim>\<open>resumeSuccForRelink\<close>; true: the fred is resumed.\<close>

definition resumeSuccForRelink :: "mword \<Rightarrow> mword \<Rightarrow> mtq \<Rightarrow> freds \<Rightarrow> (bool \<times> mtq \<times> freds) option" where
  "resumeSuccForRelink succ pred q F =
     (let f = mt_fred q succ; (won, f') = raceResume (mt_relink_addr q) (F f)
      in if hasTimeout q succ then Some (won, mt_setP succ pred q, F(f := f'))
         else do { rassert won; Some (True, mt_setP succ pred q, F(f := f')) })"

text \<open>What a fred with a deadline does when it has been resumed: return, leave the queue, or link itself again; \<open>expired\<close> is
  \<^verbatim>\<open>didExpireAfterLosingRace\<close>. Before it leaves it ends its race: when it was popped in the meantime, it returns.\<close>

datatype mt_wake = WPopped | WLeave | WRelink

definition mt_woken :: "addr \<Rightarrow> bool \<Rightarrow> mtq \<Rightarrow> mt_wake" where
  "mt_woken winner expired q =
     (if winner = mt_addr q then WPopped else if winner \<noteq> mt_relink_addr q \<or> expired then WLeave else WRelink)"

definition mt_woken_cancel :: "mtq \<Rightarrow> fred \<Rightarrow> mt_wake \<times> fred" where
  "mt_woken_cancel q f =
     (let (winner, f') = cancelRunningResumeRace f
      in (if winner \<noteq> 0 \<and> winner = mt_addr q then WPopped else WLeave, f'))"

text \<open>Afterwards nobody can pop the fred: a pop has either won before, and the fred returns, or it fails.\<close>

lemma mt_woken_cancel_final:
  "mt_addr q \<noteq> 0 \<Longrightarrow> mt_woken_cancel q f = (w, f') \<Longrightarrow>
     fst (raceResume a f') = False \<and> (w = WPopped \<longleftrightarrow> resumeInfo f = mt_addr q)"
  by (auto simp: mt_woken_cancel_def cancelRunningResumeRace_def raceResume_def split: if_splits)

text \<open>The same fred afterwards, with its old predecessor \<open>pred\<close>: it links itself to the new one.\<close>

definition mt_woken_relink :: "mword \<Rightarrow> mword \<Rightarrow> mtq \<Rightarrow> freds \<Rightarrow> (mword \<times> mtq \<times> freds) option" where
  "mt_woken_relink n pred q F =
     do { f \<leftarrow> prepareResumeRace (F (mt_fred q n));
          let temp = mt_prev q n
          in if hasTimeout q n
             then if temp = pred \<or> temp = leaving_other \<or> mt_next q temp = leaving_self then None
                  else Some (temp, mt_setN temp n q, F(mt_fred q n := f))
             else do { rassert (temp \<noteq> pred \<and> is_real temp);
                       if mt_next q temp = leaving_self then None
                       else Some (temp, mt_setN temp n q, F(mt_fred q n := f)) } }"

section \<open>Leaving after a time-out\<close>

text \<open>Step 1: the successor, 0 if there is none; the link says that the node leaves.\<close>

definition mt_leave1 :: "mword \<Rightarrow> mtq \<Rightarrow> (mword \<times> mtq) option" where
  "mt_leave1 n q =
     (let succ = mt_next q n
      in if is_transient succ \<or> succ = leaving_other then None
         else Some (if succ = gone then 0 else succ, mt_setN n leaving_self q))"

text \<open>Step 2: tell the successor.\<close>

definition mt_leave2 :: "mword \<Rightarrow> mtq \<Rightarrow> mtq option" where
  "mt_leave2 succ q =
     (if succ = 0 then Some q
      else if mt_prev q succ = leaving_self then None else Some (mt_setP succ leaving_other q))"

text \<open>Step 3: the predecessor; no predecessor (\<open>Inl\<close>) when the node has become the first one.\<close>

definition mt_leave3 :: "mword \<Rightarrow> mword \<Rightarrow> mtq \<Rightarrow> ((mword + mword) \<times> mtq) option" where
  "mt_leave3 n pred q =
     (if mt_locked q n then None
      else let temp = mt_prev q n; q1 = mt_setP n leaving_self q
           in if is_at_head temp then Some (Inl temp, q1)
              else if temp = leaving_other then None
              else if temp \<noteq> pred then do { (_, pred', q2) \<leftarrow> mt_relink temp pred n q1; Some (Inr pred', q2) }
              else Some (Inr pred, q1))"

text \<open>Step 4: tell the predecessor. No result: it passes the head to this node, or leaves too and goes first.\<close>

definition mt_leave4 :: "mword \<Rightarrow> mword \<Rightarrow> mtq \<Rightarrow> mtq option" where
  "mt_leave4 succ pred q =
     (let predNext = mt_next q pred
      in if is_at_head predNext \<or> predNext = leaving_self then None
         else Some (mt_setN pred (if succ = 0 then transient 0 else leaving_other) q))"

text \<open>Steps 5 and 6: correct the tail, or hand the predecessor to the successor (with the fred that is resumed).\<close>

definition mt_leave5 :: "mword \<Rightarrow> mword \<Rightarrow> mword \<Rightarrow> mtq \<Rightarrow> freds \<Rightarrow> (fid option \<times> mtq \<times> freds) option" where
  "mt_leave5 n succ pred q F =
     (if succ = 0
      then if mt_tail q = n
           then let q1 = q\<lparr>mt_tail := pred\<rparr>
                in if mt_next q1 pred = transient 0 then Some (None, mt_setN pred gone q1, F)
                   else let actual = cleaned (mt_next q1 pred); q2 = mt_setN pred actual q1
                        in Some (None, if mt_prev q2 actual = transient 0 then mt_setP actual 0 q2 else q2, F)
           else None
      else do { (resumed, q1, F1) \<leftarrow> resumeSuccForRelink succ pred q F;
                Some (if resumed then Some (mt_fred q succ) else None, q1, F1) })"

text \<open>Serendipity: undo steps 1 and 2, wait to be the head, and leave as the head.\<close>

definition mt_serendipity :: "mword \<Rightarrow> mword \<Rightarrow> mtq \<Rightarrow> mtq option" where
  "mt_serendipity n succ q =
     (let q1 = (if succ = 0
                then if mt_next q n = leaving_self then mt_setN n 0 q else mt_setP (mt_next q n) (restored n) q
                else mt_setP succ (restored n) (mt_setN n succ q))
      in if mt_head q1 \<noteq> n then None else handleTimeoutAtHead n q1)"

text \<open>All steps without interference.\<close>

definition mt_leave :: "mword \<Rightarrow> mword \<Rightarrow> mtq \<Rightarrow> freds \<Rightarrow> (fid option \<times> mtq \<times> freds) option" where
  "mt_leave n pred q F =
     do { (succ, q1) \<leftarrow> mt_leave1 n q;
          q2 \<leftarrow> mt_leave2 succ q1;
          (r, q3) \<leftarrow> mt_leave3 n pred q2;
          case r of
            Inl _ \<Rightarrow> do { q4 \<leftarrow> mt_serendipity n succ q3; Some (None, q4, F) }
          | Inr pred' \<Rightarrow> do { q4 \<leftarrow> mt_leave4 succ pred' q3; mt_leave5 n succ pred' q4 F } }"

lemmas mt_op_defs = swapWithTail_def linkTailToPred1_def linkTailToPred2_def mt_push_def mt_tryPop_def popFromHead_def
  handleTimeoutAtHead_def resumeSuccForRelink_def mt_woken_relink_def mt_leave1_def mt_leave2_def mt_leave3_def mt_leave4_def
  mt_leave5_def mt_leave_def mt_relink_def

section \<open>The list of waiting freds\<close>

text \<open>Forward and backward links between neighbours; the last link is empty or tells that a node has gone. The backward
  link of the first node is not used by others.\<close>

definition mt_link :: "mtq \<Rightarrow> mword \<Rightarrow> mword \<Rightarrow> bool" where
  "mt_link q x y \<longleftrightarrow> mt_next q x = y \<and> mt_prev q y = x"

definition mt_rep :: "mtq \<Rightarrow> mword list \<Rightarrow> bool" where
  "mt_rep q xs \<longleftrightarrow> distinct xs \<and> (\<forall>x\<in>set xs. mt_node x \<and> \<not> mt_locked q x) \<and> successively (mt_link q) xs
     \<and> mt_head q = (if xs = [] then 0 else hd xs) \<and> mt_tail q = (if xs = [] then 0 else last xs)
     \<and> (xs \<noteq> [] \<longrightarrow> mt_next q (last xs) \<in> {0, gone})"

lemma successively_weaken:
  assumes "successively P xs" and "\<And>x y. x \<in> set (butlast xs) \<Longrightarrow> y \<in> set (tl xs) \<Longrightarrow> P x y \<Longrightarrow> Q x y"
  shows "successively Q xs"
  using assms by (induction xs rule: induct_list012) auto

text \<open>Parts of the list that an operation does not touch: up to a node, from a node on.\<close>

lemma mt_frame_upto:
  assumes "successively (mt_link q) (us @ [p])"
    and "\<And>x. x \<in> set us \<Longrightarrow> mt_next q' x = mt_next q x" and "\<And>y. y \<in> insert p (set us) \<Longrightarrow> mt_prev q' y = mt_prev q y"
  shows "successively (mt_link q') (us @ [p])"
proof (rule successively_weaken [OF assms(1)])
  fix x y assume x: "x \<in> set (butlast (us @ [p]))" and y: "y \<in> set (tl (us @ [p]))" and l: "mt_link q x y"
  have "y \<in> insert p (set us)" using y by (cases us) auto
  then show "mt_link q' x y" using x l assms(2) [of x] assms(3) [of y] by (simp add: mt_link_def)
qed

lemma mt_frame_from:
  assumes "successively (mt_link q) (s # vs)"
    and "\<And>x. x \<in> insert s (set vs) \<Longrightarrow> mt_next q' x = mt_next q x" and "\<And>y. y \<in> set vs \<Longrightarrow> mt_prev q' y = mt_prev q y"
  shows "successively (mt_link q') (s # vs)"
proof (rule successively_weaken [OF assms(1)])
  fix x y assume x: "x \<in> set (butlast (s # vs))" and y: "y \<in> set (tl (s # vs))" and l: "mt_link q x y"
  have "x \<in> insert s (set vs)" using in_set_butlastD [OF x] by simp
  then show "mt_link q' x y" using y l assms(2) [of x] assms(3) [of y] by (simp add: mt_link_def)
qed

text \<open>A new last node.\<close>

lemma mt_push_rep:
  assumes rep: "mt_rep q xs" and n: "mt_node n" "n \<notin> set xs" "\<not> mt_locked q n"
    and run: "runState (F (mt_fred q n)) = Running"
  shows "\<exists>q' F'. mt_push n q F = Some (if xs = [] then None else Some (last xs), q', F') \<and> mt_rep q' (xs @ [n])"
proof (cases xs rule: rev_cases)
  case Nil
  then show ?thesis using rep n run
    by (auto simp: mt_push_def swapWithTail_def mt_rep_def prepareResumeRace_def)
next
  case (snoc us p)
  have p: "mt_tail q = p" "mt_next q p \<in> {0, gone}" "mt_node p" "p \<noteq> n" "p \<notin> set us" "n \<notin> set us"
    using rep n(2) unfolding mt_rep_def snoc by auto
  let ?q1 = "(mt_setN n 0 q)\<lparr>mt_tail := n\<rparr>" and ?q' = "mt_setN p n (mt_setP n p ((mt_setN n 0 q)\<lparr>mt_tail := n\<rparr>))"
  obtain z where z: "mt_next q p = z" "\<not> is_transient z" "z \<noteq> leaving_self"
    using p(2) by (auto simp: is_transient_def)
  have 1: "swapWithTail n q = (False, p, ?q1)" using p(1,3) by (simp add: swapWithTail_def)
  have 2: "linkTailToPred1 n p ?q1 = (z, mt_setN p n (mt_setP n (transient 0) ?q1))"
    using z p(4) by (simp add: linkTailToPred1_def)
  have 3: "linkTailToPred2 z n p (mt_setN p n (mt_setP n (transient 0) ?q1)) H = Some (p, ?q', H)" for H
    using z by (simp add: linkTailToPred2_def)
  have e: "\<exists>F'. mt_push n q F = Some (Some p, ?q', F')"
    using run 3 by (simp add: mt_push_def 1 2 prepareResumeRace_def)
  have "successively (mt_link q) (us @ [p])" using rep unfolding mt_rep_def snoc by blast
  then have "successively (mt_link ?q') (us @ [p])"
    by (rule mt_frame_upto) (use p n(2) in \<open>auto simp: snoc\<close>)
  then have "successively (mt_link ?q') (xs @ [n])"
    using p(4) by (simp add: snoc successively_append_iff mt_link_def)
  then have "mt_rep ?q' (xs @ [n])" using rep n p(4) unfolding mt_rep_def snoc by (auto simp: hd_append)
  then show ?thesis using e by (auto simp: snoc)
qed

text \<open>The first node leaves.\<close>

lemma mt_pop_rep:
  assumes rep: "mt_rep q (n # ys)"
  shows "\<exists>q'. popFromHead n (q\<lparr>mt_head := 0\<rparr>) = Some q' \<and> mt_rep q' ys"
proof (cases ys)
  case Nil
  then have n: "mt_next q n \<in> {0, gone}" "mt_tail q = n" using rep by (simp_all add: mt_rep_def)
  then show ?thesis using Nil by (auto simp: popFromHead_def is_transient_def mt_rep_def Let_def)
next
  case (Cons y zs)
  have n: "mt_next q n = y" "mt_node y" "\<not> mt_locked q y" "n \<noteq> y" "n \<notin> set zs" "y \<notin> set zs" "successively (mt_link q) (y # zs)"
    using rep unfolding Cons mt_rep_def by (auto simp: mt_link_def)
  let ?q1 = "mt_setN n (at_head 0) (q\<lparr>mt_head := 0\<rparr>)"
  let ?q' = "(if hasTimeout q y then mt_setP y (at_head n) ?q1 else ?q1)\<lparr>mt_head := y\<rparr>"
  have e: "popFromHead n (q\<lparr>mt_head := 0\<rparr>) = Some ?q'" using n(1-3) by (simp add: popFromHead_def is_transient_def)
  have "successively (mt_link ?q') (y # zs)"
    by (rule mt_frame_from [OF n(7)]) (use n in auto)
  moreover have "last (y # zs) \<noteq> n" using n(4,5) last_in_set [of "y # zs"] by auto
  ultimately have "mt_rep ?q' ys" using rep n(4) unfolding Cons mt_rep_def by auto
  then show ?thesis using e by blast
qed

text \<open>The last node leaves.\<close>

lemma mt_leave_last_rep:
  assumes rep: "mt_rep q (us @ [p, n])"
  shows "\<exists>q'. mt_leave n p q F = Some (None, q', F) \<and> mt_rep q' (us @ [p])"
proof -
  have n: "mt_next q n \<in> {0, gone}" "mt_tail q = n" "mt_next q p = n" "mt_prev q n = p" "mt_node p" "mt_node n"
      "\<not> mt_locked q n" "p \<noteq> n" "p \<notin> set us" "n \<notin> set us" and su: "successively (mt_link q) (us @ [p])"
    using rep unfolding mt_rep_def by (auto simp: mt_link_def successively_append_iff)
  let ?q1 = "mt_setN n leaving_self q"
  let ?q3 = "mt_setP n leaving_self ?q1"
  let ?q' = "mt_setN p gone (mt_setN p (transient 0) ?q3\<lparr>mt_tail := p\<rparr>)"
  have 1: "mt_leave1 n q = Some (0, ?q1)" using n(1) by (auto simp: mt_leave1_def is_transient_def)
  have 2: "mt_leave2 0 ?q1 = Some ?q1" by (simp add: mt_leave2_def)
  have 3: "mt_leave3 n p ?q1 = Some (Inr p, ?q3)" using n(4,5,7) by (simp add: mt_leave3_def)
  have 4: "mt_leave4 0 p ?q3 = Some (mt_setN p (transient 0) ?q3)" using n(3,6,8) by (simp add: mt_leave4_def)
  have 5: "mt_leave5 n 0 p (mt_setN p (transient 0) ?q3) F = Some (None, ?q', F)" using n(2) by (simp add: mt_leave5_def)
  have "mt_leave n p q F = Some (None, ?q', F)" using 3 4 5 by (simp add: mt_leave_def 1 2)
  moreover have "successively (mt_link ?q') (us @ [p])"
    by (rule mt_frame_upto [OF su]) (use n in auto)
  then have "mt_rep ?q' (us @ [p])" using rep unfolding mt_rep_def by (auto simp: hd_append)
  ultimately show ?thesis by blast
qed

text \<open>A node in the middle leaves: its successor is resumed and links itself to the new predecessor.\<close>

lemma mt_leave_middle_rep:
  assumes rep: "mt_rep q (us @ p # n # s # vs)" and race: "resumeInfo (F (mt_fred q s)) = 0"
    and run: "runState (G (mt_fred q s)) = Running"
  shows "\<exists>q' F' q'' G'. mt_leave n p q F = Some (Some (mt_fred q s), q', F') \<and> mt_woken_relink s n q' G = Some (p, q'', G')
    \<and> mt_rep q'' (us @ p # s # vs)"
proof -
  have n: "mt_next q n = s" "mt_prev q s = n" "mt_next q p = n" "mt_prev q n = p" "mt_node p" "mt_node n" "mt_node s"
      "\<not> mt_locked q n" "p \<noteq> n" "p \<noteq> s" "n \<noteq> s" "p \<notin> set us" "n \<notin> set us" "s \<notin> set us" "p \<notin> set vs" "n \<notin> set vs" "s \<notin> set vs"
    and su: "successively (mt_link q) (us @ [p])" and sv: "successively (mt_link q) (s # vs)"
    using rep unfolding mt_rep_def by (auto simp: mt_link_def successively_append_iff)
  let ?q1 = "mt_setN n leaving_self q"
  let ?q2 = "mt_setP s leaving_other ?q1"
  let ?q3 = "mt_setP n leaving_self ?q2"
  let ?q4 = "mt_setN p leaving_other ?q3"
  let ?q' = "mt_setP s p ?q4" and ?q'' = "mt_setN p s (mt_setP s p ?q4)"
  have 1: "mt_leave1 n q = Some (s, ?q1)" using n(1,7) by (simp add: mt_leave1_def is_transient_def)
  have 2: "mt_leave2 s ?q1 = Some ?q2" using n(2,6,7) by (simp add: mt_leave2_def)
  have 3: "mt_leave3 n p ?q2 = Some (Inr p, ?q3)" using n(4,5,8,11) by (simp add: mt_leave3_def)
  have 4: "mt_leave4 s p ?q3 = Some ?q4" using n(3,6,7,9) by (simp add: mt_leave4_def)
  have "\<exists>F'. mt_leave5 n s p ?q4 F = Some (Some (mt_fred q s), ?q', F')"
    using race n(7) by (simp add: mt_leave5_def resumeSuccForRelink_def raceResume_def Let_def)
  then have "\<exists>F'. mt_leave n p q F = Some (Some (mt_fred q s), ?q', F')"
    using 2 3 4 by (simp add: mt_leave_def 1)
  moreover have "\<exists>G'. mt_woken_relink s n ?q' G = Some (p, ?q'', G')"
    using run n(5,9) by (simp add: mt_woken_relink_def prepareResumeRace_def)
  moreover have "mt_rep ?q'' (us @ p # s # vs)"
  proof -
    have "successively (mt_link ?q'') (us @ [p])" by (rule mt_frame_upto [OF su]) (use n in auto)
    moreover have "successively (mt_link ?q'') (s # vs)" by (rule mt_frame_from [OF sv]) (use n in auto)
    moreover have "mt_link ?q'' p s" by (simp add: mt_link_def)
    ultimately have "successively (mt_link ?q'') (us @ p # s # vs)" by (auto simp: successively_append_iff)
    then show ?thesis using rep n unfolding mt_rep_def by (auto simp: hd_append)
  qed
  ultimately show ?thesis by blast
qed

text \<open>A node that has become the first one while it was about to leave.\<close>

lemma mt_leave_head_rep:
  assumes rep: "mt_rep q (n # ys)" and h: "is_at_head (mt_prev q n)"
  shows "\<exists>q'. mt_leave n p q F = Some (None, q', F) \<and> mt_rep q' ys"
proof (cases ys)
  case Nil
  have n: "mt_next q n \<in> {0, gone}" "mt_tail q = n" "mt_head q = n" "mt_node n" "\<not> mt_locked q n"
    using rep Nil by (simp_all add: mt_rep_def)
  let ?q3 = "mt_setP n leaving_self (mt_setN n leaving_self q)"
  have 1: "mt_leave1 n q = Some (0, mt_setN n leaving_self q)" using n(1) by (auto simp: mt_leave1_def is_transient_def)
  have 3: "mt_leave3 n p (mt_setN n leaving_self q) = Some (Inl (mt_prev q n), ?q3)" using n(5) h by (simp add: mt_leave3_def)
  have 5: "\<exists>q'. mt_serendipity n 0 ?q3 = Some q' \<and> mt_rep q' []"
    using n by (simp add: mt_serendipity_def handleTimeoutAtHead_def popFromHead_def is_transient_def mt_rep_def)
  show ?thesis using 3 5 Nil by (auto simp: mt_leave_def 1 mt_leave2_def)
next
  case (Cons y zs)
  have n: "mt_next q n = y" "mt_prev q y = n" "mt_node n" "mt_node y" "\<not> mt_locked q n" "n \<noteq> y" "n \<notin> set zs" "y \<notin> set zs"
      "mt_head q = n" and sz: "successively (mt_link q) (y # zs)"
    using rep unfolding Cons mt_rep_def by (auto simp: mt_link_def)
  let ?q2 = "mt_setP y leaving_other (mt_setN n leaving_self q)"
  let ?q3 = "mt_setP n leaving_self ?q2"
  let ?q4 = "mt_setP y (restored n) (mt_setN n y ?q3)"
  have 1: "mt_leave1 n q = Some (y, mt_setN n leaving_self q)" using n(1,4) by (simp add: mt_leave1_def is_transient_def)
  have 2: "mt_leave2 y (mt_setN n leaving_self q) = Some ?q2" using n(2,3,4) by (simp add: mt_leave2_def)
  have 3: "mt_leave3 n p ?q2 = Some (Inl (mt_prev q n), ?q3)" using n(5,6) h by (simp add: mt_leave3_def)
  have 4: "mt_serendipity n y ?q3 = handleTimeoutAtHead n ?q4" using n(4,9) by (simp add: mt_serendipity_def)
  have e: "mt_leave n p q F = map_option (\<lambda>q'. (None, q', F)) (handleTimeoutAtHead n ?q4)"
    using 2 3 4 by (cases "handleTimeoutAtHead n ?q4") (simp_all add: mt_leave_def 1)
  let ?q1 = "mt_setN n (at_head 0) (?q4\<lparr>mt_head := 0\<rparr>)"
  let ?q' = "(if hasTimeout q y then mt_setP y (at_head n) ?q1 else ?q1)\<lparr>mt_head := y\<rparr>"
  have "\<not> mt_locked q y" using rep unfolding Cons mt_rep_def by simp
  then have "handleTimeoutAtHead n ?q4 = Some ?q'"
    using n(4) by (simp add: handleTimeoutAtHead_def popFromHead_def is_transient_def)
  moreover have "mt_rep ?q' ys"
  proof -
    have "successively (mt_link ?q') (y # zs)" by (rule mt_frame_from [OF sz]) (use n in auto)
    moreover have "last (y # zs) \<noteq> n" using n(6,7) last_in_set [of "y # zs"] by auto
    ultimately show ?thesis using rep n(6) unfolding Cons mt_rep_def by auto
  qed
  ultimately show ?thesis using e by simp
qed

section \<open>Refinement\<close>

lemma mt_tryPop_cases:
  "mt_rep q [] \<Longrightarrow> mt_tryPop q F = Some (None, q, F)"
  "mt_rep q (x # ys) \<Longrightarrow> hasTimeout q x \<Longrightarrow> resumeInfo (F (mt_fred q x)) \<noteq> 0 \<Longrightarrow> mt_tryPop q F = Some (None, q, F)"
  "mt_rep q (x # ys) \<Longrightarrow> \<not> hasTimeout q x \<or> resumeInfo (F (mt_fred q x)) = 0 \<Longrightarrow>
     \<exists>q' F'. mt_tryPop q F = Some (Some (mt_fred q x), q', F') \<and> mt_rep q' ys"
proof -
  show "mt_rep q [] \<Longrightarrow> mt_tryPop q F = Some (None, q, F)"
    by (simp add: mt_tryPop_def mt_rep_def Let_def split: prod.split)
  show "mt_tryPop q F = Some (None, q, F)" if "mt_rep q (x # ys)" "hasTimeout q x" "resumeInfo (F (mt_fred q x)) \<noteq> 0"
    using that by (simp add: mt_tryPop_def mt_rep_def raceResume_def Let_def)
  show "\<exists>q' F'. mt_tryPop q F = Some (Some (mt_fred q x), q', F') \<and> mt_rep q' ys"
    if rep: "mt_rep q (x # ys)" and c: "\<not> hasTimeout q x \<or> resumeInfo (F (mt_fred q x)) = 0"
  proof -
    have h: "mt_head q = x" "x \<noteq> 0" using rep by (auto simp: mt_rep_def)
    obtain q' where q': "popFromHead x (q\<lparr>mt_head := 0\<rparr>) = Some q'" "mt_rep q' ys" using mt_pop_rep [OF rep] by blast
    show ?thesis using h q' c by (auto simp: mt_tryPop_def raceResume_def Let_def)
  qed
qed

text \<open>C24: \<^verbatim>\<open>MCSTimeoutQueue\<close> keeps the waiting freds in the order of their arrival, each operation taken by itself: a new
  fred goes to the end; a pop takes the first fred, or nothing while its deadline has won the race; a fred whose time is
  over takes itself out wherever it is: as the head (also when it has just become the head), as the last one, or in the
  middle, where its successor is
  resumed and links itself to the predecessor. No assertion fails.\<close>

theorem timeout_queue_refines_list:
  assumes "mt_rep q xs"
  shows "(mt_node n \<and> n \<notin> set xs \<and> \<not> mt_locked q n \<and> runState (F (mt_fred q n)) = Running \<longrightarrow>
      (\<exists>q' F'. mt_push n q F = Some (if xs = [] then None else Some (last xs), q', F') \<and> mt_rep q' (xs @ [n])))
    \<and> (xs = [] \<longrightarrow> mt_tryPop q F = Some (None, q, F))
    \<and> (xs = x # ys \<and> (\<not> hasTimeout q x \<or> resumeInfo (F (mt_fred q x)) = 0) \<longrightarrow>
        (\<exists>q' F'. mt_tryPop q F = Some (Some (mt_fred q x), q', F') \<and> mt_rep q' ys))
    \<and> (xs = x # ys \<and> hasTimeout q x \<and> resumeInfo (F (mt_fred q x)) \<noteq> 0 \<longrightarrow>
        mt_tryPop q F = Some (None, q, F) \<and> (\<exists>q'. handleTimeoutAtHead x q = Some q' \<and> mt_rep q' ys))
    \<and> (xs = x # ys \<and> is_at_head (mt_prev q x) \<longrightarrow> (\<exists>q'. mt_leave x p q F = Some (None, q', F) \<and> mt_rep q' ys))
    \<and> (xs = us @ [p, x] \<longrightarrow> (\<exists>q'. mt_leave x p q F = Some (None, q', F) \<and> mt_rep q' (us @ [p])))
    \<and> (xs = us @ p # x # y # vs \<and> resumeInfo (F (mt_fred q y)) = 0 \<and> runState (G (mt_fred q y)) = Running \<longrightarrow>
        (\<exists>q1 F1 q2 G'. mt_leave x p q F = Some (Some (mt_fred q y), q1, F1) \<and> mt_woken_relink y x q1 G = Some (p, q2, G')
          \<and> mt_rep q2 (us @ p # y # vs)))"
proof (intro conjI impI)
  note rep = assms
  show "\<exists>q' F'. mt_push n q F = Some (if xs = [] then None else Some (last xs), q', F') \<and> mt_rep q' (xs @ [n])"
    if "mt_node n \<and> n \<notin> set xs \<and> \<not> mt_locked q n \<and> runState (F (mt_fred q n)) = Running"
    using mt_push_rep [OF rep] that by blast
  show "mt_tryPop q F = Some (None, q, F)" if "xs = []" using mt_tryPop_cases(1) rep that by simp
  show "\<exists>q' F'. mt_tryPop q F = Some (Some (mt_fred q x), q', F') \<and> mt_rep q' ys"
    if "xs = x # ys \<and> (\<not> hasTimeout q x \<or> resumeInfo (F (mt_fred q x)) = 0)"
    using mt_tryPop_cases(3) rep that by simp
  show "mt_tryPop q F = Some (None, q, F)" and "\<exists>q'. handleTimeoutAtHead x q = Some q' \<and> mt_rep q' ys"
    if "xs = x # ys \<and> hasTimeout q x \<and> resumeInfo (F (mt_fred q x)) \<noteq> 0"
    using mt_tryPop_cases(2) [of q x ys] mt_pop_rep [of q x ys] rep that by (simp_all add: handleTimeoutAtHead_def)
  show "\<exists>q'. mt_leave x p q F = Some (None, q', F) \<and> mt_rep q' ys" if "xs = x # ys \<and> is_at_head (mt_prev q x)"
    using mt_leave_head_rep rep that by blast
  show "\<exists>q'. mt_leave x p q F = Some (None, q', F) \<and> mt_rep q' (us @ [p])" if "xs = us @ [p, x]"
    using mt_leave_last_rep rep that by blast
  show "\<exists>q1 F1 q2 G'. mt_leave x p q F = Some (Some (mt_fred q y), q1, F1) \<and> mt_woken_relink y x q1 G = Some (p, q2, G')
      \<and> mt_rep q2 (us @ p # y # vs)"
    if "xs = us @ p # x # y # vs \<and> resumeInfo (F (mt_fred q y)) = 0 \<and> runState (G (mt_fred q y)) = Running"
    using mt_leave_middle_rep [of q us p x y vs F G] rep that by simp
qed

text \<open>Three freds with deadlines wait; the second one leaves.\<close>

definition mt_example :: mtq where
  "mt_example = \<lparr>mt_head = 0x20, mt_tail = 0x40, mt_next = (\<lambda>_. 0)(0x20 := 0x30, 0x30 := 0x40),
     mt_prev = (\<lambda>_. 0)(0x30 := 0x20, 0x40 := 0x30), mt_locked = (\<lambda>_. False), mt_fred = unat, hasTimeout = (\<lambda>_. True),
     mt_addr = 100, mt_relink_addr = 200\<rparr>"

theorem timeout_queue_refines_list_witness:
  "\<exists>q1 F1 q2 G'. mt_leave 0x30 0x20 mt_example (\<lambda>_. new_fred False 0 0) = Some (Some 64, q1, F1)
    \<and> mt_woken_relink 0x40 0x30 q1 (\<lambda>_. new_fred False 0 0) = Some (0x20, q2, G') \<and> mt_rep q2 [0x20, 0x40]"
proof -
  have rep: "mt_rep mt_example [0x20, 0x30, 0x40]"
    by (simp add: mt_rep_def mt_example_def mt_node_def mt_link_def)
  have "runState (new_fred False 0 0) = Running" "resumeInfo (new_fred False 0 0) = 0" "mt_fred mt_example 0x40 = 64"
    by (simp_all add: new_fred_def mt_example_def)
  then show ?thesis
    using timeout_queue_refines_list [OF rep, of 0 "\<lambda>_. new_fred False 0 0" "0x30" "[]" "0x20" "[]" "0x40" "[]" "\<lambda>_. new_fred False 0 0"]
    by simp
qed

end
