(* ===== verification/Processors.thy ===== *)
theory Processors
  imports Switching
begin

text \<open>
  All processors of a scheduler at once, in the configuration of \<^verbatim>\<open>src/src/runtime/testoptions.h\<close> (load balancing with the
  Go-style idle manager): \<^verbatim>\<open>switchFred\<close>, the routines after a switch, the visits of a search, \<^verbatim>\<open>idleYieldTo\<close> and the resumption of
  freds in \<^verbatim>\<open>src/src/runtime/Fred.cc\<close> and \<^verbatim>\<open>BaseProcessor.cc\<close>. The routine after a switch runs on the stack of the next fred
  and is a step of its own: in between, the previous fred has left its stack but is not yet on a queue, while other
  threads may resume it. The waking of idle processors is the subject of \<open>Go_Idle\<close>.
\<close>

section \<open>State and operations\<close>

record mcpu =
  mc_cur :: "pid \<Rightarrow> fid"
  mc_post :: "pid \<Rightarrow> (SwitchCode \<times> fid) option"   \<comment> \<open>the routine after a switch that is still to run\<close>
  mc_Q :: "pid \<Rightarrow> readyq"
  mc_F :: "fid \<Rightarrow> fred"
  mc_live :: "fid set"                             \<comment> \<open>created and not destroyed\<close>
  mc_rest :: "fid set"                             \<comment> \<open>idle freds that do not run\<close>

definition mc_enqueue :: "fid \<Rightarrow> mcpu \<Rightarrow> mcpu option" where
  "mc_enqueue f s =
     (let p = processor (mc_F s f)
      in do { q \<leftarrow> rq_enqueue (\<lambda>f. priority (mc_F s f)) f (mc_Q s p); Some (s\<lparr>mc_Q := (mc_Q s)(p := q)\<rparr>) })"

definition mc_switch :: "SwitchCode \<Rightarrow> pid \<Rightarrow> fid \<Rightarrow> mcpu \<Rightarrow> mcpu option" where
  "mc_switch code p nxt s =
     do { rassert (mc_cur s p \<noteq> nxt);
          Some (s\<lparr>mc_cur := (mc_cur s)(p := nxt), mc_post := (mc_post s)(p := Some (code, mc_cur s p)), mc_rest := mc_rest s - {nxt}\<rparr>) }"

text \<open>\<^verbatim>\<open>postIdle\<close>, \<^verbatim>\<open>postYield\<close>, \<^verbatim>\<open>postResume\<close>, \<^verbatim>\<open>postSuspend\<close>, \<^verbatim>\<open>postTerminate\<close>.\<close>

definition mc_after :: "pid \<Rightarrow> SwitchCode \<Rightarrow> fid \<Rightarrow> mcpu \<Rightarrow> mcpu option" where
  "mc_after p code prev s =
     (let s1 = s\<lparr>mc_post := (mc_post s)(p := None)\<rparr> in
      case code of
        Idle \<Rightarrow> Some (s1\<lparr>mc_rest := insert prev (mc_rest s)\<rparr>)
      | Yield \<Rightarrow> mc_enqueue prev s1
      | Resume \<Rightarrow> mc_enqueue prev s1
      | Suspend \<Rightarrow> do { (enq, f) \<leftarrow> postSuspend (mc_F s prev);
                       let s2 = s1\<lparr>mc_F := (mc_F s)(prev := f)\<rparr> in if enq then mc_enqueue prev s2 else Some s2 }
      | Terminate \<Rightarrow> Some (s1\<lparr>mc_live := mc_live s - {prev}\<rparr>))"

text \<open>One visit of a search: the ready queue of the processor itself, or of a victim, whose fred moves to this processor
  unless it has affinity. A search ends with the first visit that finds a fred; the other visits change nothing.\<close>

definition mc_take :: "bool \<Rightarrow> pid \<Rightarrow> pid \<Rightarrow> mcpu \<Rightarrow> fid option \<times> mcpu" where
  "mc_take locked p v s =
     (if v = p then let (r, q) = rq_dequeue (mc_Q s p) in (r, s\<lparr>mc_Q := (mc_Q s)(p := q)\<rparr>)
      else case rq_tryDequeue locked (mc_Q s v) of
             (None, q) \<Rightarrow> (None, s\<lparr>mc_Q := (mc_Q s)(v := q)\<rparr>)
           | (Some f, q) \<Rightarrow> (Some f, s\<lparr>mc_Q := (mc_Q s)(v := q), mc_F := (mc_F s)(f := snd (checkAffinity p (mc_F s f)))\<rparr>))"

text \<open>\<^verbatim>\<open>resume\<close> by any thread; \<^verbatim>\<open>start\<close> of a new fred.\<close>

definition mc_resume :: "fid \<Rightarrow> mcpu \<Rightarrow> mcpu option" where
  "mc_resume f s =
     do { (enq, f') \<leftarrow> fred_resume (mc_F s f);
          let s1 = s\<lparr>mc_F := (mc_F s)(f := f')\<rparr> in if enq then mc_enqueue f s1 else Some s1 }"

definition mc_start :: "bool \<Rightarrow> addr \<Rightarrow> pid \<Rightarrow> fid \<Rightarrow> mcpu \<Rightarrow> mcpu option" where
  "mc_start aff garbage proc f s =
     mc_enqueue f (s\<lparr>mc_F := (mc_F s)(f := new_fred aff garbage proc), mc_live := insert f (mc_live s)\<rparr>)"

section \<open>Interleavings\<close>

text \<open>A fred that is not an idle fred yields, to a fred of its own queue or a stolen one; suspends itself; ends; moves to
  another processor (\<open>migrate\<close>, then as if it yielded, with \<^verbatim>\<open>Resume\<close> at the end). \<^verbatim>\<open>scheduleFull\<close> gives the idle fred when its
  search has found nothing. The idle fred runs what its search finds. The fields of a fred that others
  change, its priority, affinity and race, may change at any time.\<close>

inductive mc_step :: "(pid \<Rightarrow> fid) \<Rightarrow> pid list \<Rightarrow> mcpu \<Rightarrow> mcpu \<Rightarrow> bool" for idle ps where
  found: "p \<in> set ps \<Longrightarrow> v \<in> set ps \<Longrightarrow> mc_post s p = None \<Longrightarrow> mc_cur s p \<noteq> idle p \<Longrightarrow>
     code \<in> {Yield, Resume, Suspend, Terminate} \<Longrightarrow> mc_take locked p v s = (Some nxt, s1) \<Longrightarrow>
     mc_switch code p nxt s1 = Some s' \<Longrightarrow> mc_step idle ps s s'"
| nothing_found: "p \<in> set ps \<Longrightarrow> mc_post s p = None \<Longrightarrow> mc_cur s p \<noteq> idle p \<Longrightarrow> code \<in> {Resume, Suspend, Terminate} \<Longrightarrow>
     mc_switch code p (idle p) s = Some s' \<Longrightarrow> mc_step idle ps s s'"
| idle: "p \<in> set ps \<Longrightarrow> v \<in> set ps \<Longrightarrow> mc_post s p = None \<Longrightarrow> mc_cur s p = idle p \<Longrightarrow>
     mc_take locked p v s = (Some nxt, s1) \<Longrightarrow> mc_switch Idle p nxt s1 = Some s' \<Longrightarrow> mc_step idle ps s s'"
| after: "p \<in> set ps \<Longrightarrow> mc_post s p = Some (code, prev) \<Longrightarrow> mc_after p code prev s = Some s' \<Longrightarrow> mc_step idle ps s s'"
| early: "p \<in> set ps \<Longrightarrow> mc_post s p = None \<Longrightarrow> mc_cur s p \<noteq> idle p \<Longrightarrow> suspend_cas (mc_F s (mc_cur s p)) = (True, f') \<Longrightarrow>
     mc_step idle ps s (s\<lparr>mc_F := (mc_F s)(mc_cur s p := f')\<rparr>)"
| migrate: "p \<in> set ps \<Longrightarrow> proc \<in> set ps \<Longrightarrow> mc_post s p = None \<Longrightarrow> mc_cur s p \<noteq> idle p \<Longrightarrow>
     mc_step idle ps s (s\<lparr>mc_F := (mc_F s)(mc_cur s p := (mc_F s (mc_cur s p))\<lparr>processor := proc\<rparr>)\<rparr>)"
| resume: "f \<in> mc_live s \<Longrightarrow> f \<notin> idle ` set ps \<Longrightarrow> mc_resume f s = Some s' \<Longrightarrow> mc_step idle ps s s'"
| start: "f \<notin> mc_live s \<Longrightarrow> proc \<in> set ps \<Longrightarrow> mc_start aff garbage proc f s = Some s' \<Longrightarrow> mc_step idle ps s s'"
| props: "pr < NumPriority \<Longrightarrow>
     mc_step idle ps s (s\<lparr>mc_F := (mc_F s)(f := (mc_F s f)\<lparr>priority := pr, affinity := aff, resumeInfo := ri\<rparr>)\<rparr>)"

definition mc_init :: "(pid \<Rightarrow> fid) \<Rightarrow> pid list \<Rightarrow> (fid \<Rightarrow> fred) \<Rightarrow> mcpu" where
  "mc_init idle ps F0 = \<lparr>mc_cur = idle, mc_post = (\<lambda>_. None), mc_Q = (\<lambda>_. rq_empty), mc_F = F0,
     mc_live = idle ` set ps, mc_rest = {}\<rparr>"

inductive mc_reach :: "(pid \<Rightarrow> fid) \<Rightarrow> pid list \<Rightarrow> (fid \<Rightarrow> fred) \<Rightarrow> mcpu \<Rightarrow> bool" for idle ps F0 where
  init: "mc_reach idle ps F0 (mc_init idle ps F0)"
| step: "mc_reach idle ps F0 s \<Longrightarrow> mc_step idle ps s s' \<Longrightarrow> mc_reach idle ps F0 s'"

section \<open>Where the freds are\<close>

text \<open>The freds that run, that have just left their stack, or that are on a ready queue.\<close>

definition mc_at :: "mcpu \<Rightarrow> pid \<Rightarrow> fid multiset" where
  "mc_at s p = {#mc_cur s p#} + (case mc_post s p of None \<Rightarrow> {#} | Some (_, f) \<Rightarrow> {#f#}) + mset (rq_all (mc_Q s p))"

definition mc_total :: "pid list \<Rightarrow> mcpu \<Rightarrow> fid multiset" where
  "mc_total ps s = (\<Sum>p\<in>set ps. mc_at s p)"

definition mc_awake :: "mcpu \<Rightarrow> fid \<Rightarrow> bool" where
  "mc_awake s f \<longleftrightarrow> f \<in> mc_live s \<and> runState (mc_F s f) \<noteq> Parked \<and> f \<notin> mc_rest s"

definition mc_good :: "pid list \<Rightarrow> fred \<Rightarrow> bool" where
  "mc_good ps f \<longleftrightarrow> processor f \<in> set ps \<and> priority f < NumPriority \<and> runState f \<in> {Parked, Running, ResumedEarly}"

text \<open>An idle fred runs on its own processor only, and is never on a queue.\<close>

definition mc_idle_ok :: "(pid \<Rightarrow> fid) \<Rightarrow> pid list \<Rightarrow> mcpu \<Rightarrow> bool" where
  "mc_idle_ok idle ps s \<longleftrightarrow> inj_on idle (set ps) \<and> mc_rest s \<subseteq> idle ` set ps \<and> idle ` set ps \<subseteq> mc_live s
     \<and> (\<forall>f\<in>idle ` set ps. runState (mc_F s f) = Running)
     \<and> (\<forall>p\<in>set ps. idle p \<in> mc_rest s \<or> mc_cur s p = idle p \<or> mc_post s p = Some (Idle, idle p))"

definition mc_idle_apart :: "(pid \<Rightarrow> fid) \<Rightarrow> pid list \<Rightarrow> mcpu \<Rightarrow> bool" where
  "mc_idle_apart idle ps s \<longleftrightarrow>
     (\<forall>p\<in>set ps. (mc_cur s p \<noteq> idle p \<longrightarrow> mc_cur s p \<notin> idle ` set ps)
        \<and> (\<forall>c f. mc_post s p = Some (c, f) \<longrightarrow> (if c = Idle then f = idle p else f \<notin> idle ` set ps))
        \<and> set (rq_all (mc_Q s p)) \<inter> idle ` set ps = {})"

definition mc_counts :: "pid list \<Rightarrow> mcpu \<Rightarrow> bool" where
  "mc_counts ps s \<longleftrightarrow> (\<forall>f. count (mc_total ps s) f = of_bool (mc_awake s f))"

definition mc_inv :: "(pid \<Rightarrow> fid) \<Rightarrow> pid list \<Rightarrow> mcpu \<Rightarrow> bool" where
  "mc_inv idle ps s \<longleftrightarrow> mc_counts ps s \<and> (\<forall>f\<in>mc_live s. mc_good ps (mc_F s f)) \<and> mc_idle_ok idle ps s \<and> mc_idle_apart idle ps s"

lemma mc_total_upd:
  assumes "p \<in> set ps" and "\<And>u. u \<noteq> p \<Longrightarrow> mc_at s' u = mc_at s u" and "mc_at s' p + A = mc_at s p + B"
  shows "mc_total ps s' + A = mc_total ps s + B"
proof -
  have "(\<Sum>u\<in>set ps - {p}. mc_at s' u) = (\<Sum>u\<in>set ps - {p}. mc_at s u)" using assms(2) by (intro sum.cong) auto
  then show ?thesis using assms(3) by (simp add: mc_total_def sum.remove [OF finite_set assms(1)] ac_simps)
qed

lemma mc_total_cong: "(\<And>u. mc_at s' u = mc_at s u) \<Longrightarrow> mc_total ps s' = mc_total ps s"
  by (simp add: mc_total_def)

lemma mc_in_total: "p \<in> set ps \<Longrightarrow> f \<in># mc_at s p \<Longrightarrow> f \<in># mc_total ps s"
  by (auto simp: mc_total_def set_mset_sum)

text \<open>What the operations do to the places.\<close>

lemma mc_enqueue_effect:
  assumes "mc_good ps (mc_F s f)"
  obtains q where "mc_enqueue f s = Some (s\<lparr>mc_Q := (mc_Q s)(processor (mc_F s f) := q)\<rparr>)"
    and "processor (mc_F s f) \<in> set ps" and "set (rq_all q) = insert f (set (rq_all (mc_Q s (processor (mc_F s f)))))"
    and "mc_total ps (s\<lparr>mc_Q := (mc_Q s)(processor (mc_F s f) := q)\<rparr>) = mc_total ps s + {#f#}"
proof -
  let ?p = "processor (mc_F s f)"
  have p: "?p \<in> set ps" "priority (mc_F s f) < NumPriority" using assms by (simp_all add: mc_good_def)
  then obtain q where q: "rq_enqueue (\<lambda>f. priority (mc_F s f)) f (mc_Q s ?p) = Some q" by (simp add: rq_enqueue_Some)
  have m: "mset (rq_all q) = mset (rq_all (mc_Q s ?p)) + {#f#}" by (rule mset_rq_enqueue [OF q])
  then have "set (rq_all q) = insert f (set (rq_all (mc_Q s ?p)))" by (metis set_mset_mset set_mset_add_mset_insert add_mset_add_single)
  moreover have "mc_total ps (s\<lparr>mc_Q := (mc_Q s)(?p := q)\<rparr>) + {#} = mc_total ps s + {#f#}"
    by (rule mc_total_upd [OF p(1)]) (simp_all add: mc_at_def m)
  ultimately show thesis using that [of q] p(1) q by (simp add: mc_enqueue_def)
qed

lemma mc_take_effect:
  assumes "mc_take locked p v s = (Some nxt, s1)" and "p \<in> set ps" and "v \<in> set ps"
  obtains q g where "s1 = s\<lparr>mc_Q := (mc_Q s)(v := q), mc_F := (mc_F s)(nxt := g)\<rparr>" and "mc_total ps s1 + {#nxt#} = mc_total ps s"
    and "rq_all (mc_Q s v) = nxt # rq_all q" and "runState g = runState (mc_F s nxt)" and "mc_good ps (mc_F s nxt) \<Longrightarrow> mc_good ps g"
proof -
  define g where "g = (if v = p then mc_F s nxt else snd (checkAffinity p (mc_F s nxt)))"
  obtain q where q: "rq_dequeue (mc_Q s v) = (Some nxt, q)" and s1: "s1 = s\<lparr>mc_Q := (mc_Q s)(v := q), mc_F := (mc_F s)(nxt := g)\<rparr>"
  proof (cases "v = p")
    case True
    then show thesis using assms(1) that by (auto simp: mc_take_def g_def split: prod.splits)
  next
    case False
    then obtain f q where "rq_tryDequeue locked (mc_Q s v) = (Some f, q)" "f = nxt"
      "s1 = s\<lparr>mc_Q := (mc_Q s)(v := q), mc_F := (mc_F s)(f := snd (checkAffinity p (mc_F s f)))\<rparr>"
      using assms(1) by (auto simp: mc_take_def split: prod.splits option.splits)
    then show thesis using that False by (simp add: g_def rq_tryDequeue_Some)
  qed
  have all: "rq_all (mc_Q s v) = nxt # rq_all q" using rq_dequeue_spec [of "mc_Q s v"] q by auto
  have "mc_total ps s1 + {#nxt#} = mc_total ps s + {#}"
    by (rule mc_total_upd [OF assms(3)]) (simp_all add: mc_at_def s1 all)
  moreover have "runState g = runState (mc_F s nxt)" and "mc_good ps (mc_F s nxt) \<Longrightarrow> mc_good ps g"
    using assms(2) by (auto simp: g_def checkAffinity_def mc_good_def)
  ultimately show thesis using that s1 all by simp
qed

lemma mc_switch_effect:
  assumes "mc_switch code p nxt s = Some s'" and "p \<in> set ps" and "mc_post s p = None"
  shows "s' = s\<lparr>mc_cur := (mc_cur s)(p := nxt), mc_post := (mc_post s)(p := Some (code, mc_cur s p)), mc_rest := mc_rest s - {nxt}\<rparr>"
    and "mc_total ps s' = mc_total ps s + {#nxt#}"
proof -
  show s': "s' = s\<lparr>mc_cur := (mc_cur s)(p := nxt), mc_post := (mc_post s)(p := Some (code, mc_cur s p)), mc_rest := mc_rest s - {nxt}\<rparr>"
    using assms(1) by (auto simp: mc_switch_def split: if_splits)
  have "mc_total ps s' + {#} = mc_total ps s + {#nxt#}"
    by (rule mc_total_upd [OF assms(2)]) (simp_all add: s' mc_at_def assms(3))
  then show "mc_total ps s' = mc_total ps s + {#nxt#}" by simp
qed

section \<open>The invariant is preserved\<close>

lemma mc_invD:
  assumes "mc_inv idle ps s"
  shows "count (mc_total ps s) f = of_bool (mc_awake s f)" and "f \<in> mc_live s \<Longrightarrow> mc_good ps (mc_F s f)"
    and "mc_idle_ok idle ps s" and "mc_idle_apart idle ps s"
  using assms by (auto simp: mc_inv_def mc_counts_def)

lemma mc_awakeI:
  assumes "mc_inv idle ps s" and "f \<in># mc_total ps s"
  shows "mc_awake s f" and "count (mc_total ps s) f = 1"
  using assms(2) mc_invD(1) [OF assms(1), of f] by (auto simp flip: count_greater_zero_iff split: if_splits)

text \<open>A move that keeps the total keeps the counts when it keeps who is awake; a fred that comes or goes changes both.\<close>

lemma mc_counts_keep: "mc_counts ps s \<Longrightarrow> mc_total ps s' = mc_total ps s \<Longrightarrow> (\<And>f. mc_awake s' f = mc_awake s f) \<Longrightarrow> mc_counts ps s'"
  by (simp add: mc_counts_def)

lemma mc_counts_come:
  "mc_counts ps s \<Longrightarrow> mc_total ps s' = mc_total ps s + {#g#} \<Longrightarrow> \<not> mc_awake s g \<Longrightarrow> mc_awake s' g \<Longrightarrow>
     (\<And>f. f \<noteq> g \<Longrightarrow> mc_awake s' f = mc_awake s f) \<Longrightarrow> mc_counts ps s'"
  by (auto simp: mc_counts_def)

lemma mc_counts_go:
  assumes "mc_counts ps s" and "mc_total ps s' + {#g#} = mc_total ps s" and "\<not> mc_awake s' g"
    and "\<And>f. f \<noteq> g \<Longrightarrow> mc_awake s' f = mc_awake s f"
  shows "mc_counts ps s'"
  unfolding mc_counts_def
proof
  fix f
  have "count (mc_total ps s') f + count {#g#} f = of_bool (mc_awake s f)"
    using assms(1,2) unfolding mc_counts_def by (metis count_union)
  then show "count (mc_total ps s') f = of_bool (mc_awake s' f)"
    using assms(3,4) by (cases "f = g"; cases "mc_awake s g") auto
qed

text \<open>No fred is at two places.\<close>

lemma mc_at_one:
  assumes inv: "mc_inv idle ps s" and p: "p \<in> set ps"
  shows "count (mc_at s p) f \<le> 1" and "q \<in> set ps \<Longrightarrow> q \<noteq> p \<Longrightarrow> count (mc_at s p) f + count (mc_at s q) f \<le> 1"
proof -
  have le: "count (mc_total ps s) f \<le> 1" using mc_invD(1) [OF inv, of f] by simp
  have t: "mc_total ps s = mc_at s p + (\<Sum>u\<in>set ps - {p}. mc_at s u)"
    by (simp add: mc_total_def sum.remove [OF finite_set p])
  then show "count (mc_at s p) f \<le> 1" using le by simp
  show "count (mc_at s p) f + count (mc_at s q) f \<le> 1" if "q \<in> set ps" "q \<noteq> p"
  proof -
    have "(\<Sum>u\<in>set ps - {p}. mc_at s u) = mc_at s q + (\<Sum>u\<in>set ps - {p} - {q}. mc_at s u)"
      using that by (intro sum.remove) auto
    then show ?thesis using le t by simp
  qed
qed

lemma mc_at_count:
  "count (mc_at s p) f = of_bool (mc_cur s p = f) + of_bool (\<exists>c. mc_post s p = Some (c, f)) + count (mset (rq_all (mc_Q s p))) f"
  by (auto simp: mc_at_def split: option.splits)

lemma mc_ready_awake:
  assumes "mc_inv idle ps s" and "v \<in> set ps" and "f \<in> set (rq_all (mc_Q s v))"
  shows "mc_awake s f" and "f \<notin> idle ` set ps" and "u \<in> set ps \<Longrightarrow> f \<noteq> mc_cur s u"
proof -
  have at: "f \<in># mc_at s v" using assms(3) by (simp add: mc_at_def)
  then show "mc_awake s f" using mc_awakeI(1) [OF assms(1) mc_in_total [OF assms(2)]] by blast
  show "f \<notin> idle ` set ps" using mc_invD(4) [OF assms(1)] assms(2,3) unfolding mc_idle_apart_def by blast
  show "f \<noteq> mc_cur s u" if "u \<in> set ps"
  proof
    assume f: "f = mc_cur s u"
    have r: "0 < count (mset (rq_all (mc_Q s v))) f" using assms(3) by (simp add: count_greater_zero_iff)
    show False
    proof (cases "u = v")
      case True
      then show False using mc_at_one(1) [OF assms(1,2), of f] r f by (simp add: mc_at_count)
    next
      case False
      then show False using mc_at_one(2) [OF assms(1,2) that, of f] r f by (simp add: mc_at_count)
    qed
  qed
qed

text \<open>A processor switches to a fred that a search has found.\<close>

lemma mc_found_inv:
  assumes inv: "mc_inv idle ps s" and p: "p \<in> set ps" "v \<in> set ps" "mc_post s p = None"
    and take: "mc_take locked p v s = (Some nxt, s1)" and sw: "mc_switch code p nxt s1 = Some s'"
    and code: "if code = Idle then mc_cur s p = idle p else mc_cur s p \<noteq> idle p"
  shows "mc_inv idle ps s'"
proof -
  obtain q g where s1: "s1 = s\<lparr>mc_Q := (mc_Q s)(v := q), mc_F := (mc_F s)(nxt := g)\<rparr>" and t1: "mc_total ps s1 + {#nxt#} = mc_total ps s"
    and all: "rq_all (mc_Q s v) = nxt # rq_all q" and g: "runState g = runState (mc_F s nxt)" "mc_good ps (mc_F s nxt) \<Longrightarrow> mc_good ps g"
    using mc_take_effect [OF take p(1,2)] by blast
  have "mc_post s1 p = None" using p(3) by (simp add: s1)
  note sw' = mc_switch_effect [OF sw p(1) this]
  have nxt: "mc_awake s nxt" "nxt \<notin> idle ` set ps" using mc_ready_awake [OF inv p(2)] all by auto
  then have rest: "nxt \<notin> mc_rest s" by (simp add: mc_awake_def)
  have s': "s' = s\<lparr>mc_cur := (mc_cur s)(p := nxt), mc_post := (mc_post s)(p := Some (code, mc_cur s p)),
      mc_Q := (mc_Q s)(v := q), mc_F := (mc_F s)(nxt := g)\<rparr>"
    using sw'(1) rest by (simp add: s1)
  have "mc_total ps s' = mc_total ps s" using sw'(2) t1 by simp
  then have "mc_counts ps s'"
    using inv by (intro mc_counts_keep [of ps s s']) (auto simp: mc_inv_def s' mc_awake_def g(1))
  moreover have "\<forall>f\<in>mc_live s'. mc_good ps (mc_F s' f)" using mc_invD(2) [OF inv] g(2) by (simp add: s')
  moreover have "mc_idle_ok idle ps s'"
    using mc_invD(3) [OF inv] p nxt(2) code g(1) unfolding mc_idle_ok_def s' by (auto split: if_splits)
  moreover have "mc_idle_apart idle ps s'"
  proof -
    have "set (rq_all q) \<inter> idle ` set ps = {}" using mc_ready_awake(2) [OF inv p(2)] all by auto
    then show ?thesis using mc_invD(4) [OF inv] p nxt(2) code unfolding mc_idle_apart_def s' by (auto split: if_splits)
  qed
  ultimately show ?thesis by (simp add: mc_inv_def)
qed

text \<open>A processor switches to its idle fred.\<close>

lemma mc_nothing_found_inv:
  assumes inv: "mc_inv idle ps s" and p: "p \<in> set ps" "mc_post s p = None" "mc_cur s p \<noteq> idle p"
    and sw: "mc_switch code p (idle p) s = Some s'" and code: "code \<noteq> Idle"
  shows "mc_inv idle ps s'"
proof -
  note ok = mc_invD(3) [OF inv, unfolded mc_idle_ok_def]
  note sw' = mc_switch_effect [OF sw p(1,2)]
  have rest: "idle p \<in> mc_rest s" using ok p by auto
  have "runState (mc_F s (idle p)) = Running" "idle p \<in> mc_live s" using ok p(1) by auto
  then have "mc_counts ps s'"
    using inv rest sw'(2) by (intro mc_counts_come [of ps s s' "idle p"]) (auto simp: mc_inv_def sw'(1) mc_awake_def)
  moreover have "\<forall>f\<in>mc_live s'. mc_good ps (mc_F s' f)" using mc_invD(2) [OF inv] by (simp add: sw'(1))
  moreover have "idle u \<noteq> idle p" if "u \<in> set ps" "u \<noteq> p" for u using ok p(1) that by (auto dest: inj_onD)
  then have "mc_idle_ok idle ps s'" using ok p unfolding mc_idle_ok_def sw'(1) by (auto split: if_splits)
  moreover have "mc_idle_apart idle ps s'"
    using mc_invD(4) [OF inv] p code unfolding mc_idle_apart_def sw'(1) by (auto split: if_splits)
  ultimately show ?thesis by (simp add: mc_inv_def)
qed

text \<open>A fred that is on no queue is put on one.\<close>

lemma mc_enqueue_inv:
  assumes "mc_enqueue f s = Some s'" and good: "mc_good ps (mc_F s f)" and f: "f \<notin> idle ` set ps"
    and counts: "\<And>g. count (mc_total ps s + {#f#}) g = of_bool (mc_awake s g)"
    and "\<forall>f\<in>mc_live s. mc_good ps (mc_F s f)" and ok: "mc_idle_ok idle ps s" "mc_idle_apart idle ps s"
  shows "mc_inv idle ps s'"
proof -
  obtain q where e: "mc_enqueue f s = Some (s\<lparr>mc_Q := (mc_Q s)(processor (mc_F s f) := q)\<rparr>)" "processor (mc_F s f) \<in> set ps"
    and q: "set (rq_all q) = insert f (set (rq_all (mc_Q s (processor (mc_F s f)))))"
    and t: "mc_total ps (s\<lparr>mc_Q := (mc_Q s)(processor (mc_F s f) := q)\<rparr>) = mc_total ps s + {#f#}"
    using mc_enqueue_effect [OF good] by blast
  have s': "s' = s\<lparr>mc_Q := (mc_Q s)(processor (mc_F s f) := q)\<rparr>" using assms(1) e(1) by simp
  have "mc_counts ps s'" using counts t unfolding mc_counts_def s' by (simp add: mc_awake_def)
  moreover have "mc_idle_ok idle ps s'" using ok(1) by (simp add: mc_idle_ok_def s')
  moreover have "mc_idle_apart idle ps s'"
    using ok(2) e(2) f q unfolding mc_idle_apart_def s' by (auto split: if_splits)
  ultimately show ?thesis using assms(5) by (simp add: mc_inv_def s')
qed

text \<open>The routine after a switch.\<close>

lemma mc_pending:
  assumes inv: "mc_inv idle ps s" and p: "p \<in> set ps" "mc_post s p = Some (code, prev)"
  shows "mc_awake s prev" and "if code = Idle then prev = idle p else prev \<notin> idle ` set ps" and "mc_good ps (mc_F s prev)"
    and "mc_total ps (s\<lparr>mc_post := (mc_post s)(p := None)\<rparr>) + {#prev#} = mc_total ps s"
proof -
  have "prev \<in># mc_at s p" using p(2) by (simp add: mc_at_def)
  then show a: "mc_awake s prev" using mc_awakeI(1) [OF inv mc_in_total [OF p(1)]] by blast
  show "if code = Idle then prev = idle p else prev \<notin> idle ` set ps"
    using mc_invD(4) [OF inv] p unfolding mc_idle_apart_def by blast
  show "mc_good ps (mc_F s prev)" using mc_invD(2) [OF inv] a by (simp add: mc_awake_def)
  have "mc_total ps (s\<lparr>mc_post := (mc_post s)(p := None)\<rparr>) + {#prev#} = mc_total ps s + {#}"
    by (rule mc_total_upd [OF p(1)]) (simp_all add: mc_at_def p(2))
  then show "mc_total ps (s\<lparr>mc_post := (mc_post s)(p := None)\<rparr>) + {#prev#} = mc_total ps s" by simp
qed

lemma mc_after_inv:
  assumes inv: "mc_inv idle ps s" and p: "p \<in> set ps" "mc_post s p = Some (code, prev)"
    and st: "mc_after p code prev s = Some s'"
  shows "mc_inv idle ps s'"
proof -
  let ?s1 = "s\<lparr>mc_post := (mc_post s)(p := None)\<rparr>"
  note P = mc_pending [OF inv p] and ok = mc_invD(3,4) [OF inv]
  have good: "\<forall>f\<in>mc_live s. mc_good ps (mc_F s f)" using mc_invD(2) [OF inv] by blast
  have counts: "mc_counts ps s" using inv by (simp add: mc_inv_def)
  have c1: "count (mc_total ps ?s1 + {#prev#}) g = of_bool (mc_awake ?s1 g)" for g
    using mc_invD(1) [OF inv, of g] P(4) by (simp add: mc_awake_def)
  have ok1: "mc_idle_ok idle ps ?s1" if "code \<noteq> Idle"
    using ok(1) p that unfolding mc_idle_ok_def by (auto split: if_splits)
  have ap1: "mc_idle_apart idle ps ?s1" using ok(2) unfolding mc_idle_apart_def by auto
  have run: "runState (mc_F s prev) \<noteq> Parked" "runState (mc_F s prev) \<in> {Parked, Running, ResumedEarly}"
    using P(1,3) by (simp_all add: mc_awake_def mc_good_def)
  consider (idle) "code = Idle" | (enq) "code \<in> {Yield, Resume}" | (susp) "code = Suspend" | (dead) "code = Terminate"
    by (cases code) auto
  then show ?thesis
  proof cases
    case idle
    then have s': "s' = ?s1\<lparr>mc_rest := insert prev (mc_rest s)\<rparr>" "prev = idle p" using st P(2) by (simp_all add: mc_after_def)
    have "mc_total ps s' = mc_total ps ?s1" by (rule mc_total_cong) (simp add: s' mc_at_def)
    then have "mc_counts ps s'" using P(4) by (intro mc_counts_go [OF counts, of s' prev]) (auto simp: s' mc_awake_def)
    moreover have "mc_idle_ok idle ps s'" using ok(1) p(1) unfolding mc_idle_ok_def s' by auto
    moreover have "mc_idle_apart idle ps s'" using ap1 by (simp add: mc_idle_apart_def s')
    ultimately show ?thesis using good by (simp add: mc_inv_def s')
  next
    case enq
    then have "mc_enqueue prev ?s1 = Some s'" using st by (auto simp: mc_after_def)
    then show ?thesis using enq P(2,3) c1 good ok1 ap1 by (intro mc_enqueue_inv [of prev ?s1 s']) auto
  next
    case dead
    then have s': "s' = ?s1\<lparr>mc_live := mc_live s - {prev}\<rparr>" using st by (simp add: mc_after_def)
    have ni: "prev \<notin> idle ` set ps" using P(2) dead by simp
    have "mc_total ps s' = mc_total ps ?s1" by (rule mc_total_cong) (simp add: s' mc_at_def)
    then have "mc_counts ps s'" using P(4) by (intro mc_counts_go [OF counts, of s' prev]) (auto simp: s' mc_awake_def)
    moreover have "mc_idle_ok idle ps s'" using ok1 dead ni unfolding mc_idle_ok_def s' by auto
    moreover have "mc_idle_apart idle ps s'" using ap1 by (simp add: mc_idle_apart_def s')
    ultimately show ?thesis using good by (simp add: mc_inv_def s')
  next
    case susp
    have ni: "prev \<notin> idle ` set ps" using P(2) susp by simp
    obtain e f where e: "postSuspend (mc_F s prev) = Some (e, f)" using run by (cases "postSuspend (mc_F s prev)") (auto simp: fred_op_None)
    let ?s2 = "?s1\<lparr>mc_F := (mc_F s)(prev := f)\<rparr>"
    have f: "mc_good ps f" using e P(3) by (auto simp: postSuspend_Some mc_good_def)
    then have good2: "\<forall>g\<in>mc_live ?s2. mc_good ps (mc_F ?s2 g)" using good by simp
    have ok2: "mc_idle_ok idle ps ?s2" using ok1 susp ni unfolding mc_idle_ok_def by auto
    have ap2: "mc_idle_apart idle ps ?s2" using ap1 by (simp add: mc_idle_apart_def)
    have t2: "mc_total ps ?s2 = mc_total ps ?s1" by (rule mc_total_cong) (simp add: mc_at_def)
    show ?thesis
    proof (cases e)
      case True
      then have "mc_enqueue prev ?s2 = Some s'" using st susp e by (simp add: mc_after_def)
      moreover have "runState f = Running" using e True by (auto simp: postSuspend_Some)
      then have "count (mc_total ps ?s2 + {#prev#}) g = of_bool (mc_awake ?s2 g)" for g
        using c1 [of g] run(1) unfolding t2 by (simp add: mc_awake_def)
      ultimately show ?thesis using f ni good2 ok2 ap2 by (intro mc_enqueue_inv [of prev ?s2 s']) auto
    next
      case False
      then have s': "s' = ?s2" and "runState f = Parked" using st susp e by (auto simp: mc_after_def postSuspend_Some)
      then have "mc_counts ps s'" using P(4) t2 by (intro mc_counts_go [OF counts, of s' prev]) (auto simp: mc_awake_def)
      then show ?thesis using good2 ok2 ap2 by (simp add: mc_inv_def s')
    qed
  qed
qed

text \<open>The fields of one fred change.\<close>

lemma mc_field_inv:
  assumes inv: "mc_inv idle ps s" and good: "mc_good ps (mc_F s f) \<Longrightarrow> mc_good ps g"
    and run: "runState g = Parked \<longleftrightarrow> runState (mc_F s f) = Parked" and idle: "f \<notin> idle ` set ps \<or> runState g = runState (mc_F s f)"
  shows "mc_inv idle ps (s\<lparr>mc_F := (mc_F s)(f := g)\<rparr>)" (is "mc_inv idle ps ?s")
proof -
  have "mc_total ps ?s = mc_total ps s" by (rule mc_total_cong) (simp add: mc_at_def)
  then have "mc_counts ps ?s"
    using inv run by (intro mc_counts_keep [of ps s ?s]) (auto simp: mc_inv_def mc_awake_def)
  moreover have "\<forall>h\<in>mc_live ?s. mc_good ps (mc_F ?s h)" using mc_invD(2) [OF inv] good by simp
  moreover have "mc_idle_ok idle ps ?s" using mc_invD(3) [OF inv] idle unfolding mc_idle_ok_def by auto
  moreover have "mc_idle_apart idle ps ?s" using mc_invD(4) [OF inv] by (simp add: mc_idle_apart_def)
  ultimately show ?thesis by (simp add: mc_inv_def)
qed

text \<open>A parked or new fred becomes ready.\<close>

lemma mc_ready_inv:
  assumes inv: "mc_inv idle ps s" and f: "f \<notin> idle ` set ps" "\<not> mc_awake s f" "mc_good ps g" "runState g = Running"
    and enq: "mc_enqueue f (s\<lparr>mc_F := (mc_F s)(f := g), mc_live := insert f (mc_live s)\<rparr>) = Some s'"
  shows "mc_inv idle ps s'"
proof (rule mc_enqueue_inv [OF enq _ f(1)])
  let ?s = "s\<lparr>mc_F := (mc_F s)(f := g), mc_live := insert f (mc_live s)\<rparr>"
  have rest: "f \<notin> mc_rest s" using mc_invD(3) [OF inv] f(1) by (auto simp: mc_idle_ok_def)
  have "mc_total ps ?s = mc_total ps s" by (rule mc_total_cong) (simp add: mc_at_def)
  then show "count (mc_total ps ?s + {#f#}) h = of_bool (mc_awake ?s h)" for h
    using mc_invD(1) [OF inv, of h] f(2,4) rest by (cases "h = f") (auto simp: mc_awake_def)
  show "mc_good ps (mc_F ?s f)" "\<forall>h\<in>mc_live ?s. mc_good ps (mc_F ?s h)" using mc_invD(2) [OF inv] f(3) by simp_all
  show "mc_idle_ok idle ps ?s" using mc_invD(3) [OF inv] f(1) unfolding mc_idle_ok_def by auto
  show "mc_idle_apart idle ps ?s" using mc_invD(4) [OF inv] by (simp add: mc_idle_apart_def)
qed

lemma mc_step_inv:
  assumes "mc_step idle ps s s'" and inv: "mc_inv idle ps s"
  shows "mc_inv idle ps s'"
  using assms(1)
proof (cases rule: mc_step.cases)
  case (found p v code locked nxt s1)
  then show ?thesis using mc_found_inv [OF inv found(1,2,3,6,7)] by auto
next
  case (nothing_found p code)
  then show ?thesis using mc_nothing_found_inv [OF inv nothing_found(1-3,5)] by auto
next
  case (idle p v locked nxt s1)
  then show ?thesis using mc_found_inv [OF inv idle(1,2,3,5,6)] by auto
next
  case (after p code prev)
  then show ?thesis using mc_after_inv [OF inv after] by blast
next
  case (early p f')
  then have "mc_cur s p \<notin> idle ` set ps" using mc_invD(4) [OF inv] unfolding mc_idle_apart_def by blast
  then show ?thesis unfolding early(1)
    by (intro mc_field_inv [OF inv]) (use early(5) in \<open>auto simp: suspend_cas_eq mc_good_def\<close>)
next
  case (migrate p proc)
  show ?thesis unfolding migrate(1)
    by (intro mc_field_inv [OF inv]) (use migrate(3) in \<open>auto simp: mc_good_def\<close>)
next
  case (resume f)
  note good = mc_invD(2) [OF inv resume(1)]
  obtain e g where e: "fred_resume (mc_F s f) = Some (e, g)"
    and s': "(if e then mc_enqueue f (s\<lparr>mc_F := (mc_F s)(f := g)\<rparr>) else Some (s\<lparr>mc_F := (mc_F s)(f := g)\<rparr>)) = Some s'"
    using resume(3) by (auto simp: mc_resume_def bind_eq_Some_conv Let_def)
  have g: "mc_good ps g" using e good by (auto simp: fred_resume_Some mc_good_def)
  show ?thesis
  proof (cases e)
    case True
    then have "runState (mc_F s f) = Parked" "runState g = Running" using e by (auto simp: fred_resume_Some)
    moreover have "insert f (mc_live s) = mc_live s" using resume(1) by blast
    then have "mc_enqueue f (s\<lparr>mc_F := (mc_F s)(f := g), mc_live := insert f (mc_live s)\<rparr>) = Some s'"
      using s' True by simp
    ultimately show ?thesis using mc_ready_inv [OF inv resume(2) _ g] by (simp add: mc_awake_def)
  next
    case False
    then have "s' = s\<lparr>mc_F := (mc_F s)(f := g)\<rparr>" using s' by simp
    moreover have "mc_inv idle ps (s\<lparr>mc_F := (mc_F s)(f := g)\<rparr>)"
      by (rule mc_field_inv [OF inv]) (use False e g resume(2) in \<open>auto simp: fred_resume_Some\<close>)
    ultimately show ?thesis by simp
  qed
next
  case (start f proc aff garbage)
  have "f \<notin> idle ` set ps" using mc_invD(3) [OF inv] start(1) by (auto simp: mc_idle_ok_def)
  moreover have "mc_good ps (new_fred aff garbage proc)" "runState (new_fred aff garbage proc) = Running"
    using start(2) by (simp_all add: mc_good_def new_fred_def DefaultPriority_def NumPriority_def)
  ultimately show ?thesis
    using mc_ready_inv [OF inv, of f "new_fred aff garbage proc" s'] start(1,3) by (simp add: mc_start_def mc_awake_def)
next
  case (props pr f aff ri)
  show ?thesis unfolding props(1)
    by (intro mc_field_inv [OF inv]) (use props(2) in \<open>auto simp: mc_good_def\<close>)
qed

lemma sum_singleton_inj: "finite A \<Longrightarrow> inj_on h A \<Longrightarrow> (\<Sum>p\<in>A. {#h p#}) = mset_set (h ` A)"
  by (induction A rule: finite_induct) auto

lemma mc_init_inv:
  assumes "inj_on idle (set ps)" and "\<forall>p\<in>set ps. mc_good ps (F0 (idle p)) \<and> runState (F0 (idle p)) = Running"
  shows "mc_inv idle ps (mc_init idle ps F0)"
proof -
  have at: "mc_at (mc_init idle ps F0) p = {#idle p#}" for p by (simp add: mc_at_def mc_init_def rq_all_eq rq_empty_def)
  have "mc_total ps (mc_init idle ps F0) = mset_set (idle ` set ps)"
    unfolding mc_total_def at using assms(1) by (simp add: sum_singleton_inj)
  then have "mc_counts ps (mc_init idle ps F0)"
    using assms(2) by (auto simp: mc_counts_def mc_awake_def mc_init_def count_mset_set')
  then show ?thesis
    using assms by (auto simp: mc_inv_def mc_idle_ok_def mc_idle_apart_def mc_init_def rq_all_eq rq_empty_def)
qed

lemma mc_reach_inv:
  assumes "mc_reach idle ps F0 s" and "inj_on idle (set ps)"
    and "\<forall>p\<in>set ps. mc_good ps (F0 (idle p)) \<and> runState (F0 (idle p)) = Running"
  shows "mc_inv idle ps s"
  using assms(1)
proof (induction rule: mc_reach.induct)
  case init
  show ?case by (rule mc_init_inv [OF assms(2,3)])
next
  case (step s s')
  then show ?case using mc_step_inv by blast
qed

section \<open>A fred runs once\<close>

lemma mc_after_total:
  assumes inv: "mc_inv idle ps s" and p: "p \<in> set ps" "mc_post s p = Some (code, prev)"
  shows "mc_after p code prev s \<noteq> None"
proof -
  note P = mc_pending [OF inv p]
  have enq: "mc_enqueue prev s2 \<noteq> None" if "mc_good ps (mc_F s2 prev)" for s2
    by (rule mc_enqueue_effect [OF that]) simp
  have run: "runState (mc_F s prev) \<noteq> Parked" "runState (mc_F s prev) \<in> {Parked, Running, ResumedEarly}"
    using P(1,3) by (simp_all add: mc_awake_def mc_good_def)
  obtain e f where e: "postSuspend (mc_F s prev) = Some (e, f)" "mc_good ps f"
  proof -
    obtain e f where "postSuspend (mc_F s prev) = Some (e, f)" using run by (cases "postSuspend (mc_F s prev)") (auto simp: fred_op_None)
    moreover from this have "mc_good ps f" using P(3) by (auto simp: postSuspend_Some mc_good_def)
    ultimately show thesis using that by blast
  qed
  then show ?thesis using enq P(3) by (cases code) (simp_all add: mc_after_def Let_def)
qed

text \<open>C3: All processors together, for every interleaving of switches, routines after a switch, searches, resumptions,
  migrations and new freds: no fred runs on two processors, and a fred that runs is on no ready queue and not about to be put
  on one; no fred is twice on the queues; a fred that is not parked is at exactly one place, and a parked fred at none, so
  none is lost; and no assertion fails: not in the routine after a switch, nor the one that a fred does not switch to itself.\<close>

theorem fred_runs_once:
  assumes "mc_reach idle ps F0 s" and "inj_on idle (set ps)"
    and "\<forall>p\<in>set ps. mc_good ps (F0 (idle p)) \<and> runState (F0 (idle p)) = Running" and p: "p \<in> set ps" and q: "q \<in> set ps"
  shows "(mc_cur s p = mc_cur s q \<longrightarrow> p = q)
    \<and> mc_cur s p \<notin> set (rq_all (mc_Q s q)) \<and> mc_post s q \<noteq> Some (c, mc_cur s p) \<and> distinct (rq_all (mc_Q s q))
    \<and> (f \<in> mc_live s \<and> f \<notin> idle ` set ps \<longrightarrow> count (mc_total ps s) f = (if runState (mc_F s f) = Parked then 0 else 1))
    \<and> (mc_post s p = Some (code, prev) \<longrightarrow> mc_after p code prev s \<noteq> None)
    \<and> (mc_take locked p q s = (Some nxt, s1) \<longrightarrow> mc_switch code p nxt s1 \<noteq> None)"
proof -
  note inv = mc_reach_inv [OF assms(1-3)]
  have 1: "p = q" if "mc_cur s p = mc_cur s q"
    using mc_at_one(2) [OF inv p q, of "mc_cur s p"] that by (cases "p = q") (simp_all add: mc_at_count)
  have 2: "mc_cur s p \<notin> set (rq_all (mc_Q s q))" using mc_ready_awake(3) [OF inv q _ p] by blast
  have 3: "mc_post s q \<noteq> Some (c, mc_cur s p)"
  proof
    assume c: "mc_post s q = Some (c, mc_cur s p)"
    show False
    proof (cases "p = q")
      case True
      then show False using mc_at_one(1) [OF inv q, of "mc_cur s p"] c by (simp add: mc_at_count)
    next
      case False
      then show False using mc_at_one(2) [OF inv p q, of "mc_cur s p"] c by (simp add: mc_at_count)
    qed
  qed
  have "count (mset (rq_all (mc_Q s q))) g \<le> 1" for g using mc_at_one(1) [OF inv q, of g] by (simp add: mc_at_count)
  then have 4: "distinct (rq_all (mc_Q s q))" by (simp add: distinct_count_atmost_1 le_Suc_eq count_eq_zero_iff)
  have 5: "count (mc_total ps s) f = (if runState (mc_F s f) = Parked then 0 else 1)" if "f \<in> mc_live s" "f \<notin> idle ` set ps"
    using mc_invD(1) [OF inv, of f] mc_invD(3) [OF inv] that by (auto simp: mc_awake_def mc_idle_ok_def)
  have 6: "mc_after p code prev s \<noteq> None" if "mc_post s p = Some (code, prev)" by (rule mc_after_total [OF inv p that])
  have 7: "mc_switch code p nxt s1 \<noteq> None" if take: "mc_take locked p q s = (Some nxt, s1)"
  proof -
    obtain q' g where s1: "s1 = s\<lparr>mc_Q := (mc_Q s)(q := q'), mc_F := (mc_F s)(nxt := g)\<rparr>" and "rq_all (mc_Q s q) = nxt # rq_all q'"
      using mc_take_effect [OF take p q] by blast
    then have "nxt \<noteq> mc_cur s p" using mc_ready_awake(3) [OF inv q _ p, of nxt] by simp
    then show ?thesis by (simp add: mc_switch_def s1)
  qed
  show ?thesis using 1 2 3 4 5 6 7 by blast
qed

text \<open>Two processors with the idle freds 10 and 11; fred 3 is created for processor 0, and processor 1 steals it.\<close>

definition mc_example :: mcpu where
  "mc_example = \<lparr>mc_cur = (\<lambda>p. p + 10)(1 := 3), mc_post = (\<lambda>_. None)(1 := Some (Idle, 11)), mc_Q = (\<lambda>_. rq_empty),
     mc_F = (\<lambda>_. new_fred False 0 0)(3 := new_fred False 0 1), mc_live = {3, 10, 11}, mc_rest = {}\<rparr>"

lemma mc_example_reach: "mc_reach (\<lambda>p. p + 10) [0, 1] (\<lambda>_. new_fred False 0 0) mc_example"
proof -
  let ?F = "\<lambda>_::fid. new_fred False 0 0"
  let ?s0 = "mc_init (\<lambda>p. p + 10) [0, 1] ?F"
  let ?s1 = "?s0\<lparr>mc_live := {3, 10, 11}, mc_Q := (mc_Q ?s0)(0 := rq_empty(1 := [3]))\<rparr>"
  let ?s2 = "?s0\<lparr>mc_live := {3, 10, 11}, mc_F := ?F(3 := new_fred False 0 1)\<rparr>"
  have "mc_start False 0 0 3 ?s0 = Some ?s1"
    by (simp add: mc_start_def mc_enqueue_def rq_enqueue_def mc_init_def new_fred_def DefaultPriority_def NumPriority_def rq_empty_def
        insert_commute fun_eq_iff)
  then have 1: "mc_step (\<lambda>p. p + 10) [0, 1] ?s0 ?s1"
    by (intro mc_step.start [of 3 _ 0]) (simp_all add: mc_init_def)
  have "rq_tryDequeue True (rq_empty(1 := [3])) = (Some 3, rq_empty)"
    by (simp add: rq_tryDequeue_Some rq_all_eq rq_empty_def rq_dequeue_unfold fun_eq_iff)
  then have "mc_take True 1 0 ?s1 = (Some 3, ?s2)"
    by (simp add: mc_take_def mc_init_def checkAffinity_def new_fred_def fun_eq_iff)
  moreover have "mc_switch Idle 1 3 ?s2 = Some mc_example"
    by (simp add: mc_switch_def mc_init_def mc_example_def fun_eq_iff)
  ultimately have 2: "mc_step (\<lambda>p. p + 10) [0, 1] ?s1 mc_example"
    by (intro mc_step.idle [of 1 _ 0]) (simp_all add: mc_init_def)
  show ?thesis using mc_reach.step [OF mc_reach.step [OF mc_reach.init 1] 2] .
qed

theorem fred_runs_once_witness:
  "mc_cur mc_example 1 = 3 \<and> mc_cur mc_example 0 \<noteq> 3 \<and> count (mc_total [0, 1] mc_example) 3 = 1
    \<and> mc_after 1 Idle 11 mc_example \<noteq> None"
proof -
  have m: "mc_cur mc_example 1 = 3" "mc_post mc_example 1 = Some (Idle, 11)" "3 \<in> mc_live mc_example"
    "runState (mc_F mc_example 3) = Running" by (simp_all add: mc_example_def new_fred_def)
  have "inj_on (\<lambda>p::nat. p + 10) (set [0, 1])" by simp
  moreover have "\<forall>p\<in>set [0, 1::nat]. mc_good [0, 1] (new_fred False 0 0) \<and> runState (new_fred False 0 0) = Running"
    by (simp add: mc_good_def new_fred_def DefaultPriority_def NumPriority_def)
  ultimately show ?thesis
    using fred_runs_once [OF mc_example_reach, of 1 0 _ 3 Idle 11] m by auto
qed

end
