(* ===== verification/Stats_Model.thy ===== *)
theory Stats_Model
  imports Platform "HOL-Library.Signed_Division"
begin

text \<open>
  The counters of \<^verbatim>\<open>src/src/runtime/Stats.h\<close> as they are compiled with
  \<^verbatim>\<open>TESTING_ENABLE_STATISTICS\<close>: \<^verbatim>\<open>Counter\<close>,
  \<^verbatim>\<open>Average\<close>, \<^verbatim>\<open>HashTable\<close>, \<^verbatim>\<open>Distribution\<close>
  and \<^verbatim>\<open>Queue\<close>, each with the operations \<open>count\<close>, \<open>aggregate\<close> and
  \<open>reset\<close>, and the statistics objects of the runtime that are composed of them. The lemmas
  show what the numbers mean: a collector is determined by the samples it was given, and
  aggregating two collectors is the same as giving all samples to one of them.

  \<^verbatim>\<open>Number\<close> is \<^verbatim>\<open>long long\<close>: a 64-bit word, read as a signed
  number where it is divided. Every atomic addition is one step; the sum and the sum of squares of
  an average are only consistent with its counter when no addition is under way.
\<close>

section \<open>Collectors\<close>

type_synonym number = "64 word"
type_synonym counter = number

definition counter_new :: counter where "counter_new = 0"

definition counter_count :: "number \<Rightarrow> counter \<Rightarrow> counter" where
  "counter_count n c = c + n"

definition counter_aggregate :: "counter \<Rightarrow> counter \<Rightarrow> counter" where
  "counter_aggregate x c = c + x"

definition counter_reset :: "counter \<Rightarrow> counter" where "counter_reset c = 0"

record average_stat =
  av_cnt :: counter
  av_sum :: number
  av_sqsum :: number

definition average_new :: average_stat where
  "average_new = \<lparr>av_cnt = counter_new, av_sum = 0, av_sqsum = 0\<rparr>"

definition number_div :: "number \<Rightarrow> number \<Rightarrow> number" where
  "number_div a b = word_of_int (sint a sdiv sint b)"

definition average_value :: "average_stat \<Rightarrow> number" where
  "average_value a = (if av_cnt a = 0 then 0 else number_div (av_sum a) (av_cnt a))"

text \<open>The argument of \<^verbatim>\<open>sqrt\<close> in \<^verbatim>\<open>Average::variance\<close>.\<close>

definition variance_radicand :: "average_stat \<Rightarrow> number" where
  "variance_radicand a =
     (if av_cnt a = 0 then 0
      else number_div (av_sqsum a - number_div (av_sum a * av_sum a) (av_cnt a)) (av_cnt a))"

definition average_count :: "number \<Rightarrow> average_stat \<Rightarrow> average_stat" where
  "average_count v a = a\<lparr>av_cnt := counter_count 1 (av_cnt a), av_sum := av_sum a + v,
                         av_sqsum := av_sqsum a + v * v\<rparr>"

definition average_aggregate :: "average_stat \<Rightarrow> average_stat \<Rightarrow> average_stat" where
  "average_aggregate x a = a\<lparr>av_cnt := counter_aggregate (av_cnt x) (av_cnt a),
     av_sum := av_sum a + av_sum x, av_sqsum := av_sqsum a + av_sqsum x\<rparr>"

definition average_reset :: "average_stat \<Rightarrow> average_stat" where
  "average_reset a = a\<lparr>av_cnt := 0, av_sum := 0, av_sqsum := 0\<rparr>"

text \<open>\<^verbatim>\<open>HashTable<N>\<close>: the list holds the \<^verbatim>\<open>N\<close> buckets.\<close>

type_synonym hash_stat = "counter list"

definition hash_new :: "nat \<Rightarrow> hash_stat" where "hash_new N = replicate N counter_new"

definition hash_at :: "hash_stat \<Rightarrow> nat \<Rightarrow> number" where "hash_at h n = h ! n"

definition hash_count :: "nat \<Rightarrow> hash_stat \<Rightarrow> hash_stat" where
  "hash_count n h = h[n mod length h := counter_count 1 (h ! (n mod length h))]"

definition hash_aggregate :: "hash_stat \<Rightarrow> hash_stat \<Rightarrow> hash_stat" where
  "hash_aggregate x h = map2 counter_aggregate x h"

definition hash_reset :: "hash_stat \<Rightarrow> hash_stat" where
  "hash_reset h = map counter_reset h"

record dist_stat =
  ds_average :: average_stat
  ds_zero :: counter
  ds_hash :: hash_stat

definition dist_new :: dist_stat where
  "dist_new = \<lparr>ds_average = average_new, ds_zero = counter_new,
               ds_hash = hash_new (bitsize TYPE(64 word))\<rparr>"

definition dist_count :: "number \<Rightarrow> dist_stat \<Rightarrow> dist_stat" where
  "dist_count n d =
     (let d1 = d\<lparr>ds_average := average_count n (ds_average d)\<rparr>
      in if n \<noteq> 0 then d1\<lparr>ds_hash := hash_count (nat (floorlog2 n)) (ds_hash d1)\<rparr>
         else d1\<lparr>ds_zero := counter_count 1 (ds_zero d1)\<rparr>)"

definition dist_aggregate :: "dist_stat \<Rightarrow> dist_stat \<Rightarrow> dist_stat" where
  "dist_aggregate x d = d\<lparr>ds_average := average_aggregate (ds_average x) (ds_average d),
     ds_zero := counter_aggregate (ds_zero x) (ds_zero d),
     ds_hash := hash_aggregate (ds_hash x) (ds_hash d)\<rparr>"

definition dist_reset :: "dist_stat \<Rightarrow> dist_stat" where
  "dist_reset d = d\<lparr>ds_average := average_reset (ds_average d),
     ds_zero := counter_reset (ds_zero d), ds_hash := hash_reset (ds_hash d)\<rparr>"

record queue_stat =
  qs_qlen :: number
  qs_fails :: counter
  qs_tryfails :: counter
  qs_qdist :: dist_stat

definition queue_stat_new :: queue_stat where
  "queue_stat_new = \<lparr>qs_qlen = 0, qs_fails = counter_new, qs_tryfails = counter_new,
                     qs_qdist = dist_new\<rparr>"

definition queue_stat_add :: "number \<Rightarrow> queue_stat \<Rightarrow> queue_stat" where
  "queue_stat_add n q = (let q1 = q\<lparr>qs_qlen := qs_qlen q + n\<rparr>
                         in q1\<lparr>qs_qdist := dist_count (qs_qlen q1) (qs_qdist q1)\<rparr>)"

definition queue_stat_remove :: "number \<Rightarrow> queue_stat \<Rightarrow> queue_stat" where
  "queue_stat_remove n q = q\<lparr>qs_qlen := qs_qlen q - n\<rparr>"

definition queue_stat_fail :: "queue_stat \<Rightarrow> queue_stat" where
  "queue_stat_fail q = q\<lparr>qs_fails := counter_count 1 (qs_fails q)\<rparr>"

definition queue_stat_tryfail :: "queue_stat \<Rightarrow> queue_stat" where
  "queue_stat_tryfail q = q\<lparr>qs_tryfails := counter_count 1 (qs_tryfails q)\<rparr>"

definition queue_stat_aggregate :: "queue_stat \<Rightarrow> queue_stat \<Rightarrow> queue_stat" where
  "queue_stat_aggregate x q = q\<lparr>qs_qlen := qs_qlen q + qs_qlen x,
     qs_fails := counter_aggregate (qs_fails x) (qs_fails q),
     qs_tryfails := counter_aggregate (qs_tryfails x) (qs_tryfails q),
     qs_qdist := dist_aggregate (qs_qdist x) (qs_qdist q)\<rparr>"

definition queue_stat_reset :: "queue_stat \<Rightarrow> queue_stat" where
  "queue_stat_reset q = q\<lparr>qs_qlen := 0, qs_fails := counter_reset (qs_fails q),
     qs_tryfails := counter_reset (qs_tryfails q), qs_qdist := dist_reset (qs_qdist q)\<rparr>"

lemmas stat_defs = counter_new_def counter_count_def counter_aggregate_def counter_reset_def
  average_new_def average_count_def average_aggregate_def average_reset_def
  hash_new_def hash_aggregate_def hash_reset_def
  dist_new_def dist_count_def dist_aggregate_def dist_reset_def
  queue_stat_new_def queue_stat_aggregate_def queue_stat_reset_def

section \<open>What a collector holds\<close>

text \<open>The number of samples, as the 64-bit counter shows it, that satisfy a condition.\<close>

definition samples :: "(number \<Rightarrow> bool) \<Rightarrow> number list \<Rightarrow> number" where
  "samples P xs = of_nat (length (filter P xs))"

lemma samples_simps [simp]:
  "samples P [] = 0"
  "samples P (xs @ ys) = samples P xs + samples P ys"
  "samples P (x # xs) = (if P x then 1 else 0) + samples P xs"
  by (simp_all add: samples_def)

definition average_of :: "number list \<Rightarrow> average_stat" where
  "average_of xs = fold average_count xs average_new"

definition dist_of :: "number list \<Rightarrow> dist_stat" where
  "dist_of xs = fold dist_count xs dist_new"

lemma average_of_snoc [simp]:
  "average_of [] = average_new" "average_of (xs @ [x]) = average_count x (average_of xs)"
  by (simp_all add: average_of_def)

lemma dist_of_snoc [simp]:
  "dist_of [] = dist_new" "dist_of (xs @ [x]) = dist_count x (dist_of xs)"
  by (simp_all add: dist_of_def)

lemma average_of_eq:
  "average_of xs = \<lparr>av_cnt = samples (\<lambda>_. True) xs, av_sum = sum_list xs,
                    av_sqsum = (\<Sum>x\<leftarrow>xs. x * x)\<rparr>"
  by (induction xs rule: rev_induct) (simp_all add: stat_defs)

lemma dist_count_sel [simp]:
  "ds_average (dist_count n d) = average_count n (ds_average d)"
  "ds_zero (dist_count n d) = (if n = 0 then 1 else 0) + ds_zero d"
  "ds_hash (dist_count n d) = (if n = 0 then ds_hash d else hash_count (nat (floorlog2 n)) (ds_hash d))"
  by (simp_all add: dist_count_def counter_count_def Let_def)

lemma dist_new_sel [simp]:
  "ds_average dist_new = average_new" "ds_zero dist_new = 0" "ds_hash dist_new = replicate 64 0"
  by (simp_all add: dist_new_def counter_new_def hash_new_def bitsize_def)

lemma dist_of_average [simp]: "ds_average (dist_of xs) = average_of xs"
  by (induction xs rule: rev_induct) simp_all

lemma dist_of_zero [simp]: "ds_zero (dist_of xs) = samples (\<lambda>n. n = 0) xs"
  by (induction xs rule: rev_induct) simp_all

lemma dist_of_hash_length [simp]: "length (ds_hash (dist_of xs)) = 64"
  by (induction xs rule: rev_induct) (simp_all add: hash_count_def)

text \<open>\<^verbatim>\<open>floorlog2\<close> finds the binary order of magnitude of a nonzero number.\<close>

lemma floorlog2_nat:
  assumes "(n :: number) \<noteq> 0"
  shows "nat (floorlog2 n) = 63 - clz n" "clz n < 64"
proof -
  from clz_nonzero(1) [OF assms] show "clz n < 64" by simp
  then show "nat (floorlog2 n) = 63 - clz n"
    using assms by (simp add: floorlog2_def msb_def bitsize_def nat_diff_distrib)
qed

lemma word_less_pow2_iff:
  "unat (n :: 'a::len word) < 2 ^ k \<longleftrightarrow> (\<forall>j\<ge>k. \<not> bit n j)"
proof -
  have "unat n < 2 ^ k \<longleftrightarrow> take_bit k n = n"
    by (simp add: take_bit_nat_eq_self_iff [symmetric] unsigned_take_bit_eq [symmetric] word_unat_eq_iff)
  also have "\<dots> \<longleftrightarrow> (\<forall>j\<ge>k. \<not> bit n j)"
    by (auto simp: bit_eq_iff bit_take_bit_iff)
      (metis bit_imp_le_length linorder_not_le, metis linorder_not_le)
  finally show ?thesis .
qed

lemma floorlog2_order:
  assumes "(n :: number) \<noteq> 0"
  shows "nat (floorlog2 n) = k \<longleftrightarrow> 2 ^ k \<le> unat n \<and> unat n < 2 ^ Suc k"
proof -
  let ?m = "nat (floorlog2 n)"
  note b = clz_nonzero [OF assms]
  have up: "unat n < 2 ^ Suc ?m"
    unfolding word_less_pow2_iff using b(3) by (auto simp: floorlog2_nat [OF assms])
  have lo: "2 ^ ?m \<le> unat n"
    unfolding not_less [symmetric] word_less_pow2_iff using b(2)
    by (auto simp: floorlog2_nat [OF assms])
  have "?m = k" if "2 ^ k \<le> unat n" "unat n < 2 ^ Suc k"
  proof -
    have "(2::nat) ^ k < 2 ^ Suc ?m" "(2::nat) ^ ?m < 2 ^ Suc k"
      using that up lo by (blast intro: le_less_trans)+
    then show ?thesis by (simp add: power_strict_increasing_iff del: power_Suc)
  qed
  with up lo show ?thesis by blast
qed

lemma dist_of_hash:
  assumes "k < 64"
  shows "hash_at (ds_hash (dist_of xs)) k = samples (\<lambda>n. 2 ^ k \<le> unat n \<and> unat n < 2 ^ Suc k) xs"
proof (induction xs rule: rev_induct)
  case Nil
  then show ?case using assms by (simp add: hash_at_def)
next
  case (snoc n xs)
  show ?case
  proof (cases "n = 0")
    case True
    with snoc show ?thesis by simp
  next
    case False
    have "nat (floorlog2 n) mod 64 = nat (floorlog2 n)"
      using floorlog2_nat [OF False] by simp
    with False snoc assms floorlog2_order [OF False, of k] show ?thesis
      by (auto simp: counter_count_def hash_count_def hash_at_def nth_list_update add.commute)
  qed
qed

lemma dist_eqI:
  assumes "ds_average d = ds_average e" "ds_zero d = ds_zero e"
    and "length (ds_hash d) = length (ds_hash e)"
    and "\<And>k. k < length (ds_hash d) \<Longrightarrow> hash_at (ds_hash d) k = hash_at (ds_hash e) k"
  shows "d = (e :: dist_stat)"
  using assms by (cases d, cases e) (auto simp: hash_at_def intro: nth_equalityI)

lemma average_aggregate_of: "average_aggregate (average_of ys) (average_of xs) = average_of (xs @ ys)"
  unfolding average_of_eq by (simp add: stat_defs)

lemma hash_at_aggregate:
  "k < length h \<Longrightarrow> length x = length h \<Longrightarrow> hash_at (hash_aggregate x h) k = hash_at h k + hash_at x k"
  by (simp add: hash_at_def hash_aggregate_def counter_aggregate_def)

lemma dist_aggregate_sel [simp]:
  "ds_average (dist_aggregate x d) = average_aggregate (ds_average x) (ds_average d)"
  "ds_zero (dist_aggregate x d) = ds_zero d + ds_zero x"
  "ds_hash (dist_aggregate x d) = hash_aggregate (ds_hash x) (ds_hash d)"
  by (simp_all add: dist_aggregate_def counter_aggregate_def)

lemma length_hash_aggregate [simp]:
  "length (hash_aggregate x h) = min (length x) (length h)"
  by (simp add: hash_aggregate_def)

lemma dist_aggregate_of: "dist_aggregate (dist_of ys) (dist_of xs) = dist_of (xs @ ys)"
  by (rule dist_eqI) (simp_all add: average_aggregate_of hash_at_aggregate dist_of_hash)

lemma dist_reset_of: "dist_reset (dist_of xs) = dist_of []"
  by (rule dist_eqI)
    (simp_all add: dist_reset_def average_reset_def average_new_def counter_new_def
      counter_reset_def hash_reset_def hash_at_def)

text \<open>The radicand of the deviation is never negative as long as the sums fit: by the
  inequality of Cauchy and Schwarz, the square of the sum is at most the number of samples times
  the sum of squares.\<close>

lemma sum_list_square_le:
  fixes xs :: "int list"
  shows "(sum_list xs)\<^sup>2 \<le> int (length xs) * (\<Sum>x\<leftarrow>xs. x\<^sup>2)"
proof (induction xs)
  case (Cons a xs)
  define S Q n where "S = sum_list xs" and "Q = (\<Sum>x\<leftarrow>xs. x\<^sup>2)" and "n = int (length xs)"
  have ih: "S\<^sup>2 \<le> n * Q" using Cons by (simp add: S_def Q_def n_def)
  have "2 * a * S \<le> n * a\<^sup>2 + Q"
  proof (cases "n = 0")
    case True
    then show ?thesis by (simp add: n_def S_def Q_def)
  next
    case False
    then have n: "n > 0" by (simp add: n_def)
    have "n * (2 * a * S) \<le> (n * a)\<^sup>2 + S\<^sup>2"
      using zero_le_power2 [of "n * a - S"] by (simp add: power2_eq_square algebra_simps)
    also have "\<dots> \<le> n * (n * a\<^sup>2 + Q)"
      using ih by (simp add: power2_eq_square algebra_simps)
    finally show ?thesis using n by simp
  qed
  with ih have "(a + S)\<^sup>2 \<le> (1 + n) * (a\<^sup>2 + Q)"
    by (simp add: power2_eq_square algebra_simps)
  then show ?case by (simp add: S_def Q_def n_def)
qed simp

lemma sint_of_small: "- (2 ^ 63) \<le> i \<Longrightarrow> i < 2 ^ 63 \<Longrightarrow> sint (word_of_int i :: number) = i"
  by (simp add: int_word_sint)

lemma number_div_small:
  assumes "0 \<le> i" "i < 2 ^ 63" "0 < j" "j < 2 ^ 63"
  shows "number_div (word_of_int i) (word_of_int j) = word_of_int (i div j)"
  using assms
  by (cases "i = 0") (simp_all add: number_div_def sint_of_small signed_divide_int_def)

definition radicand :: "int list \<Rightarrow> int" where
  "radicand xs = ((\<Sum>x\<leftarrow>xs. x\<^sup>2) - (sum_list xs)\<^sup>2 div int (length xs)) div int (length xs)"

lemma average_of_int:
  "average_of (map word_of_int xs) = \<lparr>av_cnt = word_of_int (int (length xs)),
     av_sum = word_of_int (sum_list xs), av_sqsum = word_of_int (\<Sum>x\<leftarrow>xs. x\<^sup>2)\<rparr>"
proof -
  have "sum_list (map word_of_int xs) = (word_of_int (sum_list xs) :: number)"
    "(\<Sum>x\<leftarrow>xs. word_of_int x * word_of_int x) = (word_of_int (\<Sum>x\<leftarrow>xs. x\<^sup>2) :: number)"
    by (induction xs) (simp_all add: power2_eq_square)
  then show ?thesis by (simp add: average_of_eq samples_def comp_def)
qed

lemma variance_radicand_correct:
  assumes "int (length xs) < 2 ^ 63" and "(sum_list xs)\<^sup>2 < 2 ^ 63" and "(\<Sum>x\<leftarrow>xs. x\<^sup>2) < 2 ^ 63"
  shows "0 \<le> radicand xs \<and> variance_radicand (average_of (map word_of_int xs)) = word_of_int (radicand xs)"
proof (cases "xs = []")
  case True
  then show ?thesis by (simp add: radicand_def variance_radicand_def average_new_def counter_new_def)
next
  case False
  define S Q n where "S = sum_list xs" and "Q = (\<Sum>x\<leftarrow>xs. x\<^sup>2)" and "n = int (length xs)"
  have n: "0 < n" "n < 2 ^ 63" using False assms(1) by (simp_all add: n_def)
  have SQ: "S\<^sup>2 \<le> n * Q" using sum_list_square_le [of xs] by (simp add: S_def Q_def n_def)
  have "S\<^sup>2 div n \<le> (n * Q) div n" using SQ n by (intro zdiv_mono1)
  then have d: "0 \<le> S\<^sup>2 div n" "S\<^sup>2 div n \<le> Q" using n by (simp_all add: pos_imp_zdiv_nonneg_iff)
  have n0: "(word_of_int n :: number) \<noteq> 0"
    using n sint_of_small [of n] by (metis less_irrefl neg_le_0_iff_le order.trans order_less_imp_le signed_0 zero_le_power zero_le_numeral)
  have "variance_radicand (average_of (map word_of_int xs))
      = number_div (word_of_int Q - number_div (word_of_int (S\<^sup>2)) (word_of_int n)) (word_of_int n)"
    using n0 unfolding average_of_int variance_radicand_def
    by (simp add: S_def Q_def n_def power2_eq_square)
  also have "\<dots> = word_of_int ((Q - S\<^sup>2 div n) div n)"
    using n d assms(2,3) number_div_small [of "S\<^sup>2" n] number_div_small [of "Q - S\<^sup>2 div n" n]
    by (simp add: S_def [symmetric] Q_def [symmetric] del: of_int_power flip: of_int_diff)
  finally show ?thesis
    using n d by (simp add: radicand_def pos_imp_zdiv_nonneg_iff S_def Q_def n_def)
qed

section \<open>Distributions\<close>

text \<open>A \<^verbatim>\<open>Distribution\<close> that has counted a list of samples holds their
  number, sum and sum of squares, the number of zeros, and in bucket \<open>k\<close> the number of samples
  from \<open>2^k\<close> to below \<open>2^(k+1)\<close> (all as 64-bit numbers). Aggregating two distributions gives what
  one of them would hold after counting the samples of both, and a reset distribution is as new.\<close>

theorem distribution_correct:
  "dist_of xs = \<lparr>ds_average = \<lparr>av_cnt = of_nat (length xs), av_sum = sum_list xs,
                                av_sqsum = (\<Sum>x\<leftarrow>xs. x * x)\<rparr>,
                 ds_zero = samples (\<lambda>n. n = 0) xs,
                 ds_hash = map (\<lambda>k. samples (\<lambda>n. 2 ^ k \<le> unat n \<and> unat n < 2 ^ Suc k) xs) [0..<64]\<rparr>
 \<and> dist_aggregate (dist_of ys) (dist_of xs) = dist_of (xs @ ys)
 \<and> dist_reset (dist_of xs) = dist_new"
proof -
  have "ds_hash (dist_of xs)
      = map (\<lambda>k. samples (\<lambda>n. 2 ^ k \<le> unat n \<and> unat n < 2 ^ Suc k) xs) [0..<64]"
    using dist_of_hash by (intro nth_equalityI) (simp_all add: hash_at_def)
  moreover have "ds_average (dist_of xs) = \<lparr>av_cnt = of_nat (length xs), av_sum = sum_list xs,
                                av_sqsum = (\<Sum>x\<leftarrow>xs. x * x)\<rparr>"
    by (simp add: average_of_eq samples_def)
  ultimately show ?thesis
    by (auto simp: dist_aggregate_of dist_reset_of intro: dist_stat.equality)
qed

end
