(* ===== verification/Stats_Print.thy ===== *)
theory Stats_Print
  imports Stats_Model "HOL-Library.Multiset"
begin

text \<open>
  The statistics objects of the runtime and their report (\<^verbatim>\<open>src/src/runtime/Stats.h\<close>
  from \<^verbatim>\<open>EventScopeStats\<close> on, and \<^verbatim>\<open>Stats.cc\<close>): registration
  in the list of statistics objects, \<^verbatim>\<open>StatsClear\<close> and
  \<^verbatim>\<open>StatsPrint\<close>. The report orders the objects in a multimap by the address of
  their parent, walks the resulting forest recursively from the null pointer and adds every
  printed object to the total of its kind. An output line is a pair of depth and object; how its
  numbers are rendered is stream output and left out.
\<close>

section \<open>Statistics objects\<close>

record eventscope_stats =
  es_srvconn :: counter
  es_cliconn :: counter
  es_resets :: counter
  es_calls :: counter
  es_fails :: counter

record poller_stats =
  po_regs :: counter
  po_eventsB :: dist_stat
  po_eventsNB :: dist_stat

record iouring_stats =
  iu_attempts :: dist_stat
  iu_submits :: dist_stat
  iu_eventsB :: dist_stat
  iu_eventsNB :: dist_stat

record timer_stats =
  ti_events :: dist_stat

record cluster_stats =
  cl_pause :: counter

record idlemanager_stats =
  im_ready :: dist_stat
  im_blocked :: dist_stat

record processor_stats =
  pr_create :: counter
  pr_start :: counter
  pr_deq :: counter
  pr_handover :: counter
  pr_borrow :: counter
  pr_steal :: counter
  pr_idle :: counter
  pr_wake :: counter

record readyqueue_stats =
  rq_queue :: queue_stat

definition es_aggregate :: "eventscope_stats \<Rightarrow> eventscope_stats \<Rightarrow> eventscope_stats" where
  "es_aggregate x s = s\<lparr>es_srvconn := counter_aggregate (es_srvconn x) (es_srvconn s),
     es_cliconn := counter_aggregate (es_cliconn x) (es_cliconn s),
     es_resets := counter_aggregate (es_resets x) (es_resets s),
     es_calls := counter_aggregate (es_calls x) (es_calls s),
     es_fails := counter_aggregate (es_fails x) (es_fails s)\<rparr>"

definition es_reset :: "eventscope_stats \<Rightarrow> eventscope_stats" where
  "es_reset s = s\<lparr>es_srvconn := counter_reset (es_srvconn s), es_cliconn := counter_reset (es_cliconn s),
     es_resets := counter_reset (es_resets s), es_calls := counter_reset (es_calls s),
     es_fails := counter_reset (es_fails s)\<rparr>"

definition po_aggregate :: "poller_stats \<Rightarrow> poller_stats \<Rightarrow> poller_stats" where
  "po_aggregate x s = s\<lparr>po_regs := counter_aggregate (po_regs x) (po_regs s),
     po_eventsB := dist_aggregate (po_eventsB x) (po_eventsB s),
     po_eventsNB := dist_aggregate (po_eventsNB x) (po_eventsNB s)\<rparr>"

definition po_reset :: "poller_stats \<Rightarrow> poller_stats" where
  "po_reset s = s\<lparr>po_regs := counter_reset (po_regs s), po_eventsB := dist_reset (po_eventsB s),
     po_eventsNB := dist_reset (po_eventsNB s)\<rparr>"

definition iu_aggregate :: "iouring_stats \<Rightarrow> iouring_stats \<Rightarrow> iouring_stats" where
  "iu_aggregate x s = s\<lparr>iu_attempts := dist_aggregate (iu_attempts x) (iu_attempts s),
     iu_submits := dist_aggregate (iu_submits x) (iu_submits s),
     iu_eventsB := dist_aggregate (iu_eventsB x) (iu_eventsB s),
     iu_eventsNB := dist_aggregate (iu_eventsNB x) (iu_eventsNB s)\<rparr>"

definition iu_reset :: "iouring_stats \<Rightarrow> iouring_stats" where
  "iu_reset s = s\<lparr>iu_attempts := dist_reset (iu_attempts s), iu_submits := dist_reset (iu_submits s),
     iu_eventsB := dist_reset (iu_eventsB s), iu_eventsNB := dist_reset (iu_eventsNB s)\<rparr>"

definition ti_aggregate :: "timer_stats \<Rightarrow> timer_stats \<Rightarrow> timer_stats" where
  "ti_aggregate x s = s\<lparr>ti_events := dist_aggregate (ti_events x) (ti_events s)\<rparr>"

definition ti_reset :: "timer_stats \<Rightarrow> timer_stats" where
  "ti_reset s = s\<lparr>ti_events := dist_reset (ti_events s)\<rparr>"

definition cl_aggregate :: "cluster_stats \<Rightarrow> cluster_stats \<Rightarrow> cluster_stats" where
  "cl_aggregate x s = s\<lparr>cl_pause := counter_aggregate (cl_pause x) (cl_pause s)\<rparr>"

definition cl_reset :: "cluster_stats \<Rightarrow> cluster_stats" where
  "cl_reset s = s\<lparr>cl_pause := counter_reset (cl_pause s)\<rparr>"

definition im_aggregate :: "idlemanager_stats \<Rightarrow> idlemanager_stats \<Rightarrow> idlemanager_stats" where
  "im_aggregate x s = s\<lparr>im_ready := dist_aggregate (im_ready x) (im_ready s),
     im_blocked := dist_aggregate (im_blocked x) (im_blocked s)\<rparr>"

definition im_reset :: "idlemanager_stats \<Rightarrow> idlemanager_stats" where
  "im_reset s = s\<lparr>im_ready := dist_reset (im_ready s), im_blocked := dist_reset (im_blocked s)\<rparr>"

definition pr_aggregate :: "processor_stats \<Rightarrow> processor_stats \<Rightarrow> processor_stats" where
  "pr_aggregate x s = s\<lparr>pr_create := counter_aggregate (pr_create x) (pr_create s),
     pr_start := counter_aggregate (pr_start x) (pr_start s),
     pr_deq := counter_aggregate (pr_deq x) (pr_deq s),
     pr_handover := counter_aggregate (pr_handover x) (pr_handover s),
     pr_borrow := counter_aggregate (pr_borrow x) (pr_borrow s),
     pr_steal := counter_aggregate (pr_steal x) (pr_steal s),
     pr_idle := counter_aggregate (pr_idle x) (pr_idle s),
     pr_wake := counter_aggregate (pr_wake x) (pr_wake s)\<rparr>"

definition pr_reset :: "processor_stats \<Rightarrow> processor_stats" where
  "pr_reset s = s\<lparr>pr_create := counter_reset (pr_create s), pr_start := counter_reset (pr_start s),
     pr_deq := counter_reset (pr_deq s), pr_handover := counter_reset (pr_handover s),
     pr_borrow := counter_reset (pr_borrow s), pr_steal := counter_reset (pr_steal s),
     pr_idle := counter_reset (pr_idle s), pr_wake := counter_reset (pr_wake s)\<rparr>"

definition rq_aggregate :: "readyqueue_stats \<Rightarrow> readyqueue_stats \<Rightarrow> readyqueue_stats" where
  "rq_aggregate x s = s\<lparr>rq_queue := queue_stat_aggregate (rq_queue x) (rq_queue s)\<rparr>"

definition rq_reset :: "readyqueue_stats \<Rightarrow> readyqueue_stats" where
  "rq_reset s = s\<lparr>rq_queue := queue_stat_reset (rq_queue s)\<rparr>"

text \<open>A statistics object: the fields of \<^verbatim>\<open>Base\<close> and those of its class. An
  address is a number, the null pointer is 0.\<close>

type_synonym sptr = nat

datatype stat_class =
    EventScopeStats eventscope_stats
  | PollerStats poller_stats
  | IOUringStats iouring_stats
  | TimerStats timer_stats
  | ClusterStats cluster_stats
  | IdleManagerStats idlemanager_stats
  | ProcessorStats processor_stats
  | ReadyQueueStats readyqueue_stats

record stat_base =
  sb_object :: sptr
  sb_parent :: sptr
  sb_name :: string
  sb_sort :: nat
  sb_class :: stat_class

text \<open>The constructors: initialised counters, and the sort number of the class.\<close>

definition new_eventscope :: eventscope_stats where
  "new_eventscope = \<lparr>es_srvconn = counter_new, es_cliconn = counter_new, es_resets = counter_new,
     es_calls = counter_new, es_fails = counter_new\<rparr>"

definition new_poller :: poller_stats where
  "new_poller = \<lparr>po_regs = counter_new, po_eventsB = dist_new, po_eventsNB = dist_new\<rparr>"

definition new_iouring :: iouring_stats where
  "new_iouring = \<lparr>iu_attempts = dist_new, iu_submits = dist_new, iu_eventsB = dist_new,
     iu_eventsNB = dist_new\<rparr>"

definition new_timer :: timer_stats where "new_timer = \<lparr>ti_events = dist_new\<rparr>"

definition new_cluster :: cluster_stats where "new_cluster = \<lparr>cl_pause = counter_new\<rparr>"

definition new_idlemanager :: idlemanager_stats where
  "new_idlemanager = \<lparr>im_ready = dist_new, im_blocked = dist_new\<rparr>"

definition new_processor :: processor_stats where
  "new_processor = \<lparr>pr_create = counter_new, pr_start = counter_new, pr_deq = counter_new,
     pr_handover = counter_new, pr_borrow = counter_new, pr_steal = counter_new,
     pr_idle = counter_new, pr_wake = counter_new\<rparr>"

definition new_readyqueue :: readyqueue_stats where
  "new_readyqueue = \<lparr>rq_queue = queue_stat_new\<rparr>"

fun class_sort :: "stat_class \<Rightarrow> nat" where
  "class_sort (EventScopeStats _) = 0"
| "class_sort (PollerStats _) = 1"
| "class_sort (IOUringStats _) = 1"
| "class_sort (TimerStats _) = 1"
| "class_sort (ClusterStats _) = 2"
| "class_sort (IdleManagerStats _) = 1"
| "class_sort (ProcessorStats _) = 2"
| "class_sort (ReadyQueueStats _) = 0"

text \<open>\<^verbatim>\<open>Base::Base\<close> appends the new object to \<^verbatim>\<open>statsList\<close>, which is
  the list of objects in the order of their construction.\<close>

definition stats_new :: "sptr \<Rightarrow> sptr \<Rightarrow> string \<Rightarrow> stat_class \<Rightarrow> stat_base list \<Rightarrow> stat_base list" where
  "stats_new obj par n c statsList =
     statsList @ [\<lparr>sb_object = obj, sb_parent = par, sb_name = n, sb_sort = class_sort c, sb_class = c\<rparr>]"

definition StatsReset :: "stat_base list" where "StatsReset = []"

fun class_reset :: "stat_class \<Rightarrow> stat_class" where
  "class_reset (EventScopeStats s) = EventScopeStats (es_reset s)"
| "class_reset (PollerStats s) = PollerStats (po_reset s)"
| "class_reset (IOUringStats s) = IOUringStats (iu_reset s)"
| "class_reset (TimerStats s) = TimerStats (ti_reset s)"
| "class_reset (ClusterStats s) = ClusterStats (cl_reset s)"
| "class_reset (IdleManagerStats s) = IdleManagerStats (im_reset s)"
| "class_reset (ProcessorStats s) = ProcessorStats (pr_reset s)"
| "class_reset (ReadyQueueStats s) = ReadyQueueStats (rq_reset s)"

definition StatsClear :: "stat_base list \<Rightarrow> stat_base list" where
  "StatsClear statsList = map (\<lambda>o'. o'\<lparr>sb_class := class_reset (sb_class o')\<rparr>) statsList"

section \<open>The report\<close>

text \<open>The key of the multimap and its order. The names in the program are ASCII, for which the
  comparison of \<^verbatim>\<open>char\<close> values is that of their codes; the first character of the empty
  C string is the terminating 0.\<close>

record print_node =
  pn_object :: sptr
  pn_sort :: nat
  pn_name :: string

definition first_char :: "string \<Rightarrow> nat" where
  "first_char s = (case s of [] \<Rightarrow> 0 | c # _ \<Rightarrow> of_char c)"

definition node_less :: "print_node \<Rightarrow> print_node \<Rightarrow> bool" where
  "node_less a b =
     (if pn_object a \<noteq> pn_object b then pn_object a < pn_object b
      else if pn_sort a \<noteq> pn_sort b then pn_sort a < pn_sort b
      else first_char (pn_name a) < first_char (pn_name b))"

text \<open>\<^verbatim>\<open>std::multimap\<close>: the entries in order; a new entry is inserted after those
  with an equivalent key.\<close>

type_synonym report_map = "(print_node \<times> stat_base) list"

definition map_insert :: "print_node \<Rightarrow> stat_base \<Rightarrow> report_map \<Rightarrow> report_map" where
  "map_insert k o' m = takeWhile (\<lambda>e. \<not> node_less k (fst e)) m @ (k, o')
                       # dropWhile (\<lambda>e. \<not> node_less k (fst e)) m"

definition map_below :: "print_node \<Rightarrow> report_map \<Rightarrow> report_map" where
  "map_below k m = takeWhile (\<lambda>e. node_less (fst e) k) m"

definition map_lower_bound :: "print_node \<Rightarrow> report_map \<Rightarrow> report_map" where
  "map_lower_bound k m = dropWhile (\<lambda>e. node_less (fst e) k) m"

lemma map_erase_length:
  "map_lower_bound k m = e # rest \<Longrightarrow> length m = Suc (length (map_below k m @ rest))"
  unfolding map_below_def map_lower_bound_def
  by (metis append.assoc append_Cons length_append_singleton length_Cons length_append add_Suc_right takeWhile_dropWhile_id)

text \<open>The totals, one object for each class.\<close>

record stat_totals =
  to_eventscope :: eventscope_stats
  to_poller :: poller_stats
  to_iouring :: iouring_stats
  to_timer :: timer_stats
  to_cluster :: cluster_stats
  to_idlemanager :: idlemanager_stats
  to_processor :: processor_stats
  to_readyqueue :: readyqueue_stats

definition new_totals :: stat_totals where
  "new_totals = \<lparr>to_eventscope = new_eventscope, to_poller = new_poller, to_iouring = new_iouring,
     to_timer = new_timer, to_cluster = new_cluster, to_idlemanager = new_idlemanager,
     to_processor = new_processor, to_readyqueue = new_readyqueue\<rparr>"

text \<open>The first statement of each \<^verbatim>\<open>print\<close>, for an object that is not itself a
  total.\<close>

fun add_total :: "stat_class \<Rightarrow> stat_totals \<Rightarrow> stat_totals" where
  "add_total (EventScopeStats s) t = t\<lparr>to_eventscope := es_aggregate s (to_eventscope t)\<rparr>"
| "add_total (PollerStats s) t = t\<lparr>to_poller := po_aggregate s (to_poller t)\<rparr>"
| "add_total (IOUringStats s) t = t\<lparr>to_iouring := iu_aggregate s (to_iouring t)\<rparr>"
| "add_total (TimerStats s) t = t\<lparr>to_timer := ti_aggregate s (to_timer t)\<rparr>"
| "add_total (ClusterStats s) t = t\<lparr>to_cluster := cl_aggregate s (to_cluster t)\<rparr>"
| "add_total (IdleManagerStats s) t = t\<lparr>to_idlemanager := im_aggregate s (to_idlemanager t)\<rparr>"
| "add_total (ProcessorStats s) t = t\<lparr>to_processor := pr_aggregate s (to_processor t)\<rparr>"
| "add_total (ReadyQueueStats s) t = t\<lparr>to_readyqueue := rq_aggregate s (to_readyqueue t)\<rparr>"

type_synonym report_line = "nat \<times> stat_base"
type_synonym report_state = "report_map \<times> stat_totals"

text \<open>The loop of \<^verbatim>\<open>PrintRecursive\<close> for the children of \<open>nxt\<close> at a depth; the
  recursive call prints the child, adds it to its total and runs the loop for the child's own
  address one level deeper.\<close>

function (sequential) print_children :: "sptr \<Rightarrow> nat \<Rightarrow> report_state \<Rightarrow> report_line list \<times> report_state" where
  "print_children nxt depth (m, t) =
     (let k = \<lparr>pn_object = nxt, pn_sort = 0, pn_name = []\<rparr>
      in case map_lower_bound k m of
           [] \<Rightarrow> ([], (m, t))
         | (k', o') # rest \<Rightarrow>
             if pn_object k' \<noteq> nxt then ([], (m, t))
             else let (out1, st1) = print_children (sb_object o') (depth + 1)
                                      (map_below k m @ rest, add_total (sb_class o') t);
                      (out2, st2) = print_children nxt depth st1
                  in ((depth, o') # out1 @ out2, st2))"
  by pat_completeness auto

termination
proof (relation "measure (\<lambda>(_, _, m, _). length m)")
  fix nxt depth :: nat and m and t :: stat_totals and k k' :: print_node and e rest o' d2 out1 st1
  assume k: "map_lower_bound k m = e # rest"
  let ?m1 = "map_below k m @ rest"
  show child: "((sb_object o', depth + 1, ?m1, add_total (sb_class o') t), nxt, depth, m, t)
      \<in> measure (\<lambda>(_, _, m, _). length m)"
    using map_erase_length [OF k] by simp
  have shrink: "length (fst (snd (print_children x d s))) \<le> length (fst s)"
    if "print_children_dom (x, d, s)" for x d s
    using that
  proof (induction x d s rule: print_children.pinduct)
    case (1 nxt depth m t)
    let ?k = "\<lparr>pn_object = nxt, pn_sort = 0, pn_name = []\<rparr>"
    show ?case
    proof (cases "map_lower_bound ?k m")
      case (Cons e rest)
      with 1 map_erase_length [OF Cons] show ?thesis
        by (fastforce simp: print_children.psimps [OF 1(1)] Let_def split: prod.split)
    qed (simp add: print_children.psimps [OF 1(1)])
  qed
  assume eqs: "d2 = print_children (sb_object o') (depth + 1) (?m1, add_total (sb_class o') t)"
      "(out1, st1) = d2"
    and dom: "print_children_dom (sb_object o', depth + 1, ?m1, add_total (sb_class o') t)"
  have "length (fst st1) \<le> length ?m1"
    using shrink [OF dom] unfolding eqs(1) [symmetric] eqs(2) [symmetric] by simp
  then show "((nxt, depth, st1), nxt, depth, m, t) \<in> measure (\<lambda>(_, _, m, _). length m)"
    using map_erase_length [OF k] by (cases st1) simp
qed simp

text \<open>\<^verbatim>\<open>StatsPrint\<close>: \<open>env\<close> is the value of the environment variable
  \<^verbatim>\<open>FibrePrintStats\<close>. The statistics list is emptied into the multimap and then takes the
  total objects, which the second part prints and removes. The result holds the lines of the
  report, the lines of the totals, the entries of the multimap that were not printed (and are not
  deleted) and the list afterwards.\<close>

record stat_report =
  sr_lines :: "report_line list"
  sr_totals :: "stat_base list"
  sr_left :: report_map
  sr_list :: "stat_base list"

definition node_of :: "stat_base \<Rightarrow> print_node" where
  "node_of o' = \<lparr>pn_object = sb_parent o', pn_sort = sb_sort o', pn_name = sb_name o'\<rparr>"

definition build_map :: "stat_base list \<Rightarrow> report_map" where
  "build_map statsList = fold (\<lambda>o'. map_insert (node_of o') o') statsList []"

definition total_objects :: "stat_totals \<Rightarrow> stat_base list" where
  "total_objects t =
     (let add = \<lambda>n c. stats_new 0 0 n c
      in add ''ReadyQueue '' (ReadyQueueStats (to_readyqueue t))
        (add ''Processor  '' (ProcessorStats (to_processor t))
        (add ''IdleManager'' (IdleManagerStats (to_idlemanager t))
        (add ''Cluster    '' (ClusterStats (to_cluster t))
        (add ''Timer      '' (TimerStats (to_timer t))
        (add ''IOUring    '' (IOUringStats (to_iouring t))
        (add ''Poller     '' (PollerStats (to_poller t))
        (add ''EventScope '' (EventScopeStats (to_eventscope t)) []))))))))"

definition StatsPrint :: "string option \<Rightarrow> bool \<Rightarrow> stat_base list \<Rightarrow> stat_report" where
  "StatsPrint env totals statsList =
     (case env of
        None \<Rightarrow> \<lparr>sr_lines = [], sr_totals = [], sr_left = [], sr_list = statsList\<rparr>
      | Some _ \<Rightarrow>
          (let (ls, (m, t)) = print_children 0 0 (build_map statsList, new_totals)
           in \<lparr>sr_lines = ls, sr_totals = (if totals then total_objects t else []), sr_left = m,
               sr_list = (if totals then [] else total_objects t)\<rparr>))"

text \<open>\<^verbatim>\<open>_lfPrintStats\<close> in \<^verbatim>\<open>Bootstrap.cc\<close>, which runs at the end of the program: the first
  letter of the variable asks for the totals. None is nothing printed.\<close>

definition lfPrintStats :: "string option \<Rightarrow> stat_base list \<Rightarrow> stat_report option" where
  "lfPrintStats env statsList =
     map_option (\<lambda>e. StatsPrint env (first_char e = of_char CHR ''t'' \<or> first_char e = of_char CHR ''T'') statsList) env"

section \<open>Every reachable object is printed once\<close>

subsection \<open>The multimap\<close>

text \<open>The order is that of the addresses of the parents first.\<close>

definition map_sorted :: "report_map \<Rightarrow> bool" where
  "map_sorted m \<longleftrightarrow> sorted (map (pn_object \<circ> fst) m) \<and> (\<forall>(k, o')\<in>set m. k = node_of o')"

lemma node_less_lower: "node_less a \<lparr>pn_object = x, pn_sort = 0, pn_name = []\<rparr> \<longleftrightarrow> pn_object a < x"
  by (auto simp: node_less_def first_char_def)

lemma takeWhile_not_less_sorted:
  assumes "sorted (map f xs)" and "\<And>x. x \<in> set xs \<Longrightarrow> P x \<Longrightarrow> y \<le> f x" and "\<And>x. x \<in> set xs \<Longrightarrow> \<not> P x \<Longrightarrow> f x \<le> (y :: nat)"
  shows "sorted (map f (takeWhile (\<lambda>x. \<not> P x) xs) @ y # map f (dropWhile (\<lambda>x. \<not> P x) xs))"
  using assms
proof (induction xs)
  case (Cons x xs)
  show ?case
  proof (cases "P x")
    case True
    with Cons.prems show ?thesis by (auto intro: order_trans)
  next
    case False
    with Cons.prems Cons.IH have "sorted (map f (takeWhile (\<lambda>x. \<not> P x) xs) @ y # map f (dropWhile (\<lambda>x. \<not> P x) xs))"
      by simp
    with False Cons.prems show ?thesis
      by (auto dest: set_takeWhileD set_dropWhileD)
  qed
qed simp

lemma map_insert_sorted: "map_sorted m \<Longrightarrow> map_sorted (map_insert (node_of o') o' m)"
  unfolding map_sorted_def map_insert_def
  using takeWhile_not_less_sorted [of "pn_object \<circ> fst" m "\<lambda>e. node_less (node_of o') (fst e)" "pn_object (node_of o')"]
  by (auto simp: node_less_def split: if_splits dest: set_takeWhileD set_dropWhileD)

lemma map_insert_mset [simp]: "mset (map_insert k o' m) = add_mset (k, o') (mset m)"
proof -
  let ?P = "\<lambda>e. \<not> node_less k (fst e)"
  have "mset (takeWhile ?P m) + mset (dropWhile ?P m) = mset m"
    by (metis mset_append takeWhile_dropWhile_id)
  then show ?thesis by (simp add: map_insert_def)
qed

lemma build_map_props:
  "map_sorted (build_map ss)" "mset (map snd (build_map ss)) = mset ss"
  by (induction ss rule: rev_induct)
    (simp_all add: build_map_def map_insert_sorted, simp add: map_sorted_def)

lemma sorted_no_key:
  assumes "map_sorted m" and "\<And>e rest. map_lower_bound \<lparr>pn_object = x, pn_sort = 0, pn_name = []\<rparr> m = e # rest
      \<Longrightarrow> pn_object (fst e) \<noteq> x"
  shows "\<forall>e\<in>set m. pn_object (fst e) \<noteq> x"
proof -
  let ?P = "\<lambda>e. node_less (fst e) \<lparr>pn_object = x, pn_sort = 0, pn_name = []\<rparr>"
  have split: "m = takeWhile ?P m @ dropWhile ?P m" by simp
  have 1: "\<forall>e\<in>set (takeWhile ?P m). pn_object (fst e) \<noteq> x"
    by (auto simp: node_less_lower dest: set_takeWhileD)
  have 2: "\<forall>e\<in>set (dropWhile ?P m). pn_object (fst e) \<noteq> x"
  proof (cases "dropWhile ?P m")
    case (Cons e rest)
    with assms(2) have ne: "pn_object (fst e) \<noteq> x" by (simp add: map_lower_bound_def)
    from Cons have "\<not> ?P e" by (metis hd_dropWhile list.distinct(1) list.sel(1))
    with ne have "x < pn_object (fst e)" by (simp add: node_less_lower)
    moreover have "sorted (map (pn_object \<circ> fst) (e # rest))"
      using assms(1) split Cons unfolding map_sorted_def by (metis map_append sorted_append)
    ultimately show ?thesis using Cons by auto
  next
    case Nil
    then show ?thesis unfolding Nil by simp
  qed
  from 1 2 show ?thesis by (metis Un_iff set_append split)
qed

lemma map_erase_props:
  assumes "map_sorted m" and "map_lower_bound k m = (k', o') # rest"
  shows "map_sorted (map_below k m @ rest)" "k' = node_of o'"
    "mset m = add_mset (k', o') (mset (map_below k m @ rest))"
proof -
  have m: "m = map_below k m @ (k', o') # rest"
    using assms(2) unfolding map_below_def map_lower_bound_def by (metis takeWhile_dropWhile_id)
  from assms(1) have "map_sorted (map_below k m @ (k', o') # rest)" using m by simp
  then show "map_sorted (map_below k m @ rest)" "k' = node_of o'"
    by (auto simp: map_sorted_def sorted_append)
  show "mset m = add_mset (k', o') (mset (map_below k m @ rest))"
    using arg_cong [OF m, of mset] by simp
qed

subsection \<open>The traversal\<close>

definition children_ok :: "sptr \<Rightarrow> report_map \<Rightarrow> stat_totals \<Rightarrow> report_line list \<Rightarrow> report_map \<Rightarrow> stat_totals \<Rightarrow> bool" where
  "children_ok x m t out m' t' \<longleftrightarrow>
     map_sorted m' \<and> set m' \<subseteq> set m
   \<and> mset (map snd m) = mset (map snd out) + mset (map snd m')
   \<and> (\<forall>e\<in>set m'. pn_object (fst e) \<notin> insert x (sb_object ` snd ` set out))
   \<and> t' = fold add_total (map (sb_class \<circ> snd) out) t
   \<and> (\<forall>S. x \<in> S \<longrightarrow> (\<forall>o'\<in>snd ` set m. sb_parent o' \<in> S \<longrightarrow> sb_object o' \<in> S)
           \<longrightarrow> sb_parent ` snd ` set out \<subseteq> S)"

declare print_children.simps [simp del]

lemma print_children_stop:
  assumes "\<And>k' o' rest. map_lower_bound \<lparr>pn_object = x, pn_sort = 0, pn_name = []\<rparr> m = (k', o') # rest
      \<Longrightarrow> pn_object k' \<noteq> x"
  shows "print_children x d (m, t) = ([], (m, t))"
  using assms by (auto simp: print_children.simps Let_def split: list.split)

lemma print_children_go:
  assumes "map_lower_bound \<lparr>pn_object = x, pn_sort = 0, pn_name = []\<rparr> m = (k', o') # rest" and "pn_object k' = x"
    and "print_children (sb_object o') (d + 1)
           (map_below \<lparr>pn_object = x, pn_sort = 0, pn_name = []\<rparr> m @ rest, add_total (sb_class o') t) = (out1, st1)"
    and "print_children x d st1 = (out2, st2)"
  shows "print_children x d (m, t) = ((d, o') # out1 @ out2, st2)"
  by (subst print_children.simps) (use assms in \<open>simp add: Let_def\<close>)

lemma children_ok_append:
  assumes "children_ok (sb_object o') m1 (add_total (sb_class o') t) out1 m2 t2"
    and "children_ok x m2 t2 out2 m' t'"
    and "set m = insert (k', o') (set m1)" and "mset (map snd m) = add_mset o' (mset (map snd m1))"
    and "sb_parent o' = x"
  shows "children_ok x m t ((d, o') # out1 @ out2) m' t'"
proof -
  have closed: "sb_parent ` snd ` set ((d, o') # out1 @ out2) \<subseteq> S"
    if S: "x \<in> S" "\<forall>o''\<in>snd ` set m. sb_parent o'' \<in> S \<longrightarrow> sb_object o'' \<in> S" for S
  proof -
    have "sb_object o' \<in> S" using S assms(3,5) by auto
    moreover have "\<forall>o''\<in>snd ` set m1. sb_parent o'' \<in> S \<longrightarrow> sb_object o'' \<in> S"
      using S(2) assms(3) by auto
    ultimately have 1: "sb_parent ` snd ` set out1 \<subseteq> S"
      using assms(1) unfolding children_ok_def by blast
    have "set m2 \<subseteq> set m1" using assms(1) by (simp add: children_ok_def)
    then have "\<forall>o''\<in>snd ` set m2. sb_parent o'' \<in> S \<longrightarrow> sb_object o'' \<in> S"
      using S(2) assms(3) by auto
    then have 2: "sb_parent ` snd ` set out2 \<subseteq> S"
      using assms(2) S(1) unfolding children_ok_def by blast
    from 1 2 S(1) assms(5) show ?thesis by (simp add: image_Un)
  qed
  have "set m' \<subseteq> set m2" "set m2 \<subseteq> set m1"
    using assms(1,2) by (simp_all add: children_ok_def)
  have left: "\<forall>e\<in>set m2. pn_object (fst e) \<notin> insert (sb_object o') (sb_object ` snd ` set out1)"
    "\<forall>e\<in>set m'. pn_object (fst e) \<notin> insert x (sb_object ` snd ` set out2)"
    using assms(1,2) by (simp_all add: children_ok_def)
  have "\<forall>e\<in>set m'. pn_object (fst e) \<notin> insert x (sb_object ` snd ` set ((d, o') # out1 @ out2))"
  proof
    fix e assume e: "e \<in> set m'"
    with \<open>set m' \<subseteq> set m2\<close> have "e \<in> set m2" by blast
    with left e show "pn_object (fst e) \<notin> insert x (sb_object ` snd ` set ((d, o') # out1 @ out2))"
      by (simp add: image_Un)
  qed
  moreover have "mset (map snd m) = mset (map snd ((d, o') # out1 @ out2)) + mset (map snd m')"
    using assms(1,2,4) by (simp add: children_ok_def)
  moreover have "t' = fold add_total (map (sb_class \<circ> snd) ((d, o') # out1 @ out2)) t"
    using assms(1,2) by (simp add: children_ok_def)
  moreover have "map_sorted m'" using assms(2) by (simp add: children_ok_def)
  moreover have "set m' \<subseteq> set m"
    using \<open>set m' \<subseteq> set m2\<close> \<open>set m2 \<subseteq> set m1\<close> assms(3) by blast
  ultimately show ?thesis
    unfolding children_ok_def by (intro conjI allI impI closed) assumption+
qed

lemma print_children_ok:
  "print_children x d (m, t) = (out, (m', t')) \<Longrightarrow> map_sorted m \<Longrightarrow> children_ok x m t out m' t'"
proof (induction x d "(m, t)" arbitrary: m t out m' t' rule: print_children.induct)
  case (1 x d m t)
  let ?k = "\<lparr>pn_object = x, pn_sort = 0, pn_name = []\<rparr>"
  show ?case
  proof (cases "\<exists>k' o' rest. map_lower_bound ?k m = (k', o') # rest \<and> pn_object k' = x")
    case False
    then have "print_children x d (m, t) = ([], (m, t))"
      by (intro print_children_stop) blast
    with "1.prems"(1) have "out = []" "m' = m" "t' = t" by simp_all
    moreover have "\<forall>e\<in>set m. pn_object (fst e) \<noteq> x"
      using False by (intro sorted_no_key [OF "1.prems"(2)]) auto
    ultimately show ?thesis using "1.prems"(2) by (simp add: children_ok_def)
  next
    case True
    then obtain k' o' rest where lb: "map_lower_bound ?k m = (k', o') # rest" and k': "pn_object k' = x"
      by blast
    define m1 where "m1 = map_below ?k m @ rest"
    note e = map_erase_props [OF "1.prems"(2) lb, folded m1_def]
    obtain out1 m2 t2 where c: "print_children (sb_object o') (d + 1) (m1, add_total (sb_class o') t) = (out1, (m2, t2))"
      by (metis prod_cases3)
    obtain out2 st2 where n: "print_children x d (m2, t2) = (out2, st2)"
      by (metis surj_pair)
    have eq: "out = (d, o') # out1 @ out2" "st2 = (m', t')"
      using print_children_go [OF lb k' c [unfolded m1_def] n] "1.prems"(1) by simp_all
    have ok1: "children_ok (sb_object o') m1 (add_total (sb_class o') t) out1 m2 t2"
      using "1.hyps"(1) [OF refl lb refl] k' c e(1) by (simp add: m1_def)
    then have "map_sorted m2" by (simp add: children_ok_def)
    then have ok2: "children_ok x m2 t2 out2 m' t'"
      using "1.hyps"(2) [OF refl lb refl] k' c n eq(2) by (simp add: m1_def)
    show ?thesis unfolding eq(1)
    proof (rule children_ok_append [OF ok1 ok2])
      show "set m = insert (k', o') (set m1)"
        using arg_cong [OF e(3), of set_mset] by simp
      show "mset (map snd m) = add_mset o' (mset (map snd m1))" using e(3) by simp
      show "sb_parent o' = x" using e(2) k' by (simp add: node_of_def)
    qed
  qed
qed

text \<open>The shape of the report: below the line of an object follow the lines of its children, one
  level deeper.\<close>

inductive report :: "sptr \<Rightarrow> nat \<Rightarrow> report_line list \<Rightarrow> bool" where
  report_nil: "report x d []"
| report_child: "report (sb_object o') (d + 1) out1 \<Longrightarrow> sb_parent o' = x \<Longrightarrow> report x d out2
    \<Longrightarrow> report x d ((d, o') # out1 @ out2)"

lemma print_children_report:
  "map_sorted m \<Longrightarrow> report x d (fst (print_children x d (m, t)))"
proof (induction x d "(m, t)" arbitrary: m t rule: print_children.induct)
  case (1 x d m t)
  let ?k = "\<lparr>pn_object = x, pn_sort = 0, pn_name = []\<rparr>"
  show ?case
  proof (cases "\<exists>k' o' rest. map_lower_bound ?k m = (k', o') # rest \<and> pn_object k' = x")
    case False
    then have "print_children x d (m, t) = ([], (m, t))"
      by (intro print_children_stop) blast
    then show ?thesis by (simp add: report_nil)
  next
    case True
    then obtain k' o' rest where lb: "map_lower_bound ?k m = (k', o') # rest" and k': "pn_object k' = x"
      by blast
    define m1 where "m1 = map_below ?k m @ rest"
    note e = map_erase_props [OF "1.prems" lb, folded m1_def]
    obtain out1 m2 t2 where c: "print_children (sb_object o') (d + 1) (m1, add_total (sb_class o') t) = (out1, (m2, t2))"
      by (metis prod_cases3)
    obtain out2 st2 where n: "print_children x d (m2, t2) = (out2, st2)"
      by (metis surj_pair)
    have r1: "report (sb_object o') (d + 1) out1"
      using "1.hyps"(1) [OF refl lb refl] k' c e(1) by (simp add: m1_def)
    have "map_sorted m2"
      using print_children_ok [OF c e(1)] by (simp add: children_ok_def)
    then have "report x d out2"
      using "1.hyps"(2) [OF refl lb refl] k' c n by (simp add: m1_def)
    with r1 k' e(2) show ?thesis
      by (simp add: print_children_go [OF lb k' c [unfolded m1_def] n] report_child node_of_def)
  qed
qed

subsection \<open>The totals\<close>

lemma hash_aggregate_left_commute:
  "hash_aggregate x (hash_aggregate y h) = hash_aggregate y (hash_aggregate x h)"
  by (rule nth_equalityI) (auto simp: hash_aggregate_def counter_aggregate_def)

lemmas aggregate_defs = es_aggregate_def po_aggregate_def iu_aggregate_def ti_aggregate_def
  cl_aggregate_def im_aggregate_def pr_aggregate_def rq_aggregate_def
  counter_aggregate_def average_aggregate_def dist_aggregate_def queue_stat_aggregate_def

lemma add_total_commute: "add_total a \<circ> add_total b = add_total b \<circ> add_total a"
  by (rule ext, cases a; cases b)
    (simp_all add: aggregate_defs hash_aggregate_left_commute add_ac)

lemma fold_add_total_mset:
  "mset xs = mset ys \<Longrightarrow> fold add_total xs = fold add_total ys"
  by (rule fold_multiset_equiv) (simp_all add: add_total_commute)

subsection \<open>The report of the program\<close>

text \<open>The addresses that a chain of parents connects to the null pointer.\<close>

inductive_set reached :: "stat_base list \<Rightarrow> sptr set" for ss where
  reached_null: "0 \<in> reached ss"
| reached_child: "o' \<in> set ss \<Longrightarrow> sb_parent o' \<in> reached ss \<Longrightarrow> sb_object o' \<in> reached ss"

definition printed :: "stat_base list \<Rightarrow> stat_base multiset" where
  "printed ss = filter_mset (\<lambda>o'. sb_parent o' \<in> reached ss) (mset ss)"

lemma mset_split_filter:
  assumes "M = A + B" and "\<forall>x\<in>#A. P x" and "\<forall>x\<in>#B. \<not> P x"
  shows "A = filter_mset P M" "B = filter_mset (\<lambda>x. \<not> P x) M"
proof -
  have "filter_mset P A = A" "filter_mset (\<lambda>x. \<not> P x) B = B"
    using assms(2,3) by (subst filter_mset_eq_conv, simp)+
  moreover have "filter_mset P B = {#}" "filter_mset (\<lambda>x. \<not> P x) A = {#}"
    using assms(2,3) by simp_all
  ultimately show "A = filter_mset P M" "B = filter_mset (\<lambda>x. \<not> P x) M"
    using assms(1) by simp_all
qed

lemma children_ok_top:
  assumes "children_ok 0 m t out m' t'" and "mset (map snd m) = mset ss" and "map_sorted m"
  shows "mset (map snd out) = printed ss"
    "mset (map snd m') = mset ss - printed ss"
proof -
  have nodes: "pn_object (fst e) = sb_parent (snd e)" if "e \<in> set m'" for e
    using assms(1) that by (cases e) (auto simp: children_ok_def map_sorted_def node_of_def)
  have sets: "set ss = snd ` set m" using assms(2) by (metis set_map set_mset_mset)
  have split: "mset ss = mset (map snd out) + mset (map snd m')"
    using assms(1,2) by (simp add: children_ok_def)
  have none: "\<forall>e\<in>set m'. sb_parent (snd e) \<notin> insert 0 (sb_object ` snd ` set out)"
    using assms(1) nodes by (simp add: children_ok_def)
  have left: "\<forall>e\<in>set m'. sb_parent (snd e) \<noteq> a" if "a \<in> reached ss" for a
    using that
  proof induction
    case reached_null
    then show ?case using none by simp
  next
    case (reached_child o')
    then have "o' \<notin> snd ` set m'" by auto
    moreover have "set ss = snd ` set out \<union> snd ` set m'"
      using arg_cong [OF split, of set_mset] by simp
    ultimately have "o' \<in> snd ` set out" using reached_child(1) by blast
    then have "sb_object o' \<in> sb_object ` snd ` set out" by blast
    then show ?case using none by (metis insertCI)
  qed
  have "\<forall>o'\<in>snd ` set m. sb_parent o' \<in> reached ss \<longrightarrow> sb_object o' \<in> reached ss"
    using reached.reached_child sets by blast
  then have "sb_parent ` snd ` set out \<subseteq> reached ss"
    using assms(1) reached.reached_null [of ss] unfolding children_ok_def by blast
  then have out: "\<forall>o'\<in>#mset (map snd out). sb_parent o' \<in> reached ss" by auto
  have "\<forall>o'\<in>#mset (map snd m'). sb_parent o' \<notin> reached ss" using left by auto
  note f = mset_split_filter [OF split out this]
  then show "mset (map snd out) = printed ss" by (simp add: printed_def)
  with split show "mset (map snd m') = mset ss - printed ss" by simp
qed

text \<open>C38: The report prints every registered statistics object exactly once if a chain of parents
  leads from it to the null pointer, and no other object: those stay in the multimap. This holds
  for every list of objects, also with equal addresses or cycles of parents. The lines follow the
  tree of parents, each child one level below its parent. The totals are the result of aggregating
  the printed objects, in any order, into fresh objects; without the second part of the output they
  stay in the statistics list. Without the environment variable nothing happens.\<close>

theorem stats_print_complete:
  "StatsPrint None tot ss = \<lparr>sr_lines = [], sr_totals = [], sr_left = [], sr_list = ss\<rparr>
 \<and> (let r = StatsPrint (Some v) tot ss;
        totals = total_objects (fold add_total (map sb_class (filter (\<lambda>o'. sb_parent o' \<in> reached ss) ss)) new_totals)
    in mset (map snd (sr_lines r)) = printed ss
     \<and> mset (map snd (sr_left r)) = mset ss - printed ss
     \<and> report 0 0 (sr_lines r)
     \<and> sr_totals r = (if tot then totals else [])
     \<and> sr_list r = (if tot then [] else totals))"
proof -
  obtain ls m t where p: "print_children 0 0 (build_map ss, new_totals) = (ls, (m, t))"
    by (metis prod_cases3)
  note ok = print_children_ok [OF p build_map_props(1)]
  note top = children_ok_top [OF ok build_map_props(2,1)]
  have "mset (map (sb_class \<circ> snd) ls) = mset (map sb_class (filter (\<lambda>o'. sb_parent o' \<in> reached ss) ss))"
    using arg_cong [OF top(1), of "image_mset sb_class"] by (simp add: printed_def mset_filter multiset.map_comp)
  note perm = fold_add_total_mset [OF this]
  have "t = fold add_total (map (sb_class \<circ> snd) ls) new_totals"
    using ok by (simp add: children_ok_def)
  then have t: "t = fold add_total (map sb_class (filter (\<lambda>o'. sb_parent o' \<in> reached ss) ss)) new_totals"
    by (simp only: perm)
  have "report 0 0 ls"
    using print_children_report [OF build_map_props(1), of 0 0 ss new_totals] by (simp add: p)
  with top show ?thesis
    unfolding t by (simp add: StatsPrint_def p Let_def t)
qed

end
