(* ===== verification/C_Interface.thy ===== *)
theory C_Interface
  imports Fibre_API
begin

text \<open>
  The C interface (\<^verbatim>\<open>src/src/libfibre/cfibre.cc\<close>) for fibre attributes, fibre creation and
  the synchronisation objects. A C variable such as a \<^verbatim>\<open>cfibre_sem_t\<close> holds the address of an
  object that the initialisation routine creates and the destruction routine deletes; every other routine
  passes the object to the routine of the same name in \<^verbatim>\<open>fibre.h\<close>. The objects live in a heap with
  one map for each type. The address that \<^verbatim>\<open>new\<close> gives is an argument \<open>p\<close>; a routine that is
  called with an address where there is no object (a null pointer, a deleted object) has no result. The
  remaining routines forward input and output calls or the calls of other components.
\<close>

section \<open>Objects and handles\<close>

record c_heap =
  h_attr :: "mword \<rightharpoonup> fibre_attr"
  h_sem :: "mword \<rightharpoonup> lsem"
  h_mutexattr :: "mword \<rightharpoonup> mutexattr"
  h_mutex :: "mword \<rightharpoonup> scmutex"
  h_cond :: "mword \<rightharpoonup> bqueue"
  h_rwlock :: "mword \<rightharpoonup> rwlock"
  h_barrier :: "mword \<rightharpoonup> lbarrier"
  h_fastmutexattr :: "mword \<rightharpoonup> mutexattr"
  h_fastmutex :: "mword \<rightharpoonup> ssmutex"

definition c_heap0 :: c_heap where
  "c_heap0 = \<lparr>h_attr = Map.empty, h_sem = Map.empty, h_mutexattr = Map.empty, h_mutex = Map.empty,
     h_cond = Map.empty, h_rwlock = Map.empty, h_barrier = Map.empty, h_fastmutexattr = Map.empty,
     h_fastmutex = Map.empty\<rparr>"

definition put_attr :: "mword \<Rightarrow> fibre_attr option \<Rightarrow> c_heap \<Rightarrow> c_heap" where
  "put_attr h x H = H\<lparr>h_attr := (h_attr H)(h := x)\<rparr>"

definition put_sem :: "mword \<Rightarrow> lsem option \<Rightarrow> c_heap \<Rightarrow> c_heap" where
  "put_sem h x H = H\<lparr>h_sem := (h_sem H)(h := x)\<rparr>"

definition put_mutexattr :: "mword \<Rightarrow> mutexattr option \<Rightarrow> c_heap \<Rightarrow> c_heap" where
  "put_mutexattr h x H = H\<lparr>h_mutexattr := (h_mutexattr H)(h := x)\<rparr>"

definition put_mutex :: "mword \<Rightarrow> scmutex option \<Rightarrow> c_heap \<Rightarrow> c_heap" where
  "put_mutex h x H = H\<lparr>h_mutex := (h_mutex H)(h := x)\<rparr>"

definition put_cond :: "mword \<Rightarrow> bqueue option \<Rightarrow> c_heap \<Rightarrow> c_heap" where
  "put_cond h x H = H\<lparr>h_cond := (h_cond H)(h := x)\<rparr>"

definition put_rwlock :: "mword \<Rightarrow> rwlock option \<Rightarrow> c_heap \<Rightarrow> c_heap" where
  "put_rwlock h x H = H\<lparr>h_rwlock := (h_rwlock H)(h := x)\<rparr>"

definition put_barrier :: "mword \<Rightarrow> lbarrier option \<Rightarrow> c_heap \<Rightarrow> c_heap" where
  "put_barrier h x H = H\<lparr>h_barrier := (h_barrier H)(h := x)\<rparr>"

definition put_fastmutexattr :: "mword \<Rightarrow> mutexattr option \<Rightarrow> c_heap \<Rightarrow> c_heap" where
  "put_fastmutexattr h x H = H\<lparr>h_fastmutexattr := (h_fastmutexattr H)(h := x)\<rparr>"

definition put_fastmutex :: "mword \<Rightarrow> ssmutex option \<Rightarrow> c_heap \<Rightarrow> c_heap" where
  "put_fastmutex h x H = H\<lparr>h_fastmutex := (h_fastmutex H)(h := x)\<rparr>"

section \<open>Fibre attributes and creation\<close>

definition cfibre_attr_init :: "fibre_env \<Rightarrow> mword \<Rightarrow> c_heap \<Rightarrow> cint \<times> mword \<times> c_heap" where
  "cfibre_attr_init env p H = (let (r, a) = fibre_attr_init env in (r, p, put_attr p (Some a) H))"

definition cfibre_attr_destroy :: "mword \<Rightarrow> c_heap \<Rightarrow> (cint \<times> mword \<times> c_heap) option" where
  "cfibre_attr_destroy h H = do { a \<leftarrow> h_attr H h; Some (fibre_attr_destroy a, 0, put_attr h None H) }"

definition cfibre_attr_setcluster :: "mword \<Rightarrow> nat \<Rightarrow> c_heap \<Rightarrow> (cint \<times> c_heap) option" where
  "cfibre_attr_setcluster h x H =
     do { a \<leftarrow> h_attr H h; let (r, a') = fibre_attr_setcluster x a; Some (r, put_attr h (Some a') H) }"

definition cfibre_attr_getcluster :: "mword \<Rightarrow> c_heap \<Rightarrow> (cint \<times> nat) option" where
  "cfibre_attr_getcluster h H = do { a \<leftarrow> h_attr H h; Some (fibre_attr_getcluster a) }"

definition cfibre_attr_setstacksize :: "mword \<Rightarrow> mword \<Rightarrow> c_heap \<Rightarrow> (cint \<times> c_heap) option" where
  "cfibre_attr_setstacksize h x H =
     do { a \<leftarrow> h_attr H h; let (r, a') = fibre_attr_setstacksize x a; Some (r, put_attr h (Some a') H) }"

definition cfibre_attr_getstacksize :: "mword \<Rightarrow> c_heap \<Rightarrow> (cint \<times> mword) option" where
  "cfibre_attr_getstacksize h H = do { a \<leftarrow> h_attr H h; Some (fibre_attr_getstacksize a) }"

definition cfibre_attr_setguardsize :: "mword \<Rightarrow> mword \<Rightarrow> c_heap \<Rightarrow> (cint \<times> c_heap) option" where
  "cfibre_attr_setguardsize h x H =
     do { a \<leftarrow> h_attr H h; let (r, a') = fibre_attr_setguardsize x a; Some (r, put_attr h (Some a') H) }"

definition cfibre_attr_getguardsize :: "mword \<Rightarrow> c_heap \<Rightarrow> (cint \<times> mword) option" where
  "cfibre_attr_getguardsize h H = do { a \<leftarrow> h_attr H h; Some (fibre_attr_getguardsize a) }"

definition cfibre_attr_setpriority :: "mword \<Rightarrow> cint \<Rightarrow> c_heap \<Rightarrow> (cint \<times> c_heap) option" where
  "cfibre_attr_setpriority h x H =
     do { a \<leftarrow> h_attr H h; let (r, a') = fibre_attr_setpriority x a; Some (r, put_attr h (Some a') H) }"

definition cfibre_attr_getpriority :: "mword \<Rightarrow> c_heap \<Rightarrow> (cint \<times> cint) option" where
  "cfibre_attr_getpriority h H = do { a \<leftarrow> h_attr H h; Some (fibre_attr_getpriority a) }"

definition cfibre_attr_setaffinity :: "mword \<Rightarrow> cint \<Rightarrow> c_heap \<Rightarrow> (cint \<times> c_heap) option" where
  "cfibre_attr_setaffinity h x H =
     do { a \<leftarrow> h_attr H h; let (r, a') = fibre_attr_setaffinity x a; Some (r, put_attr h (Some a') H) }"

definition cfibre_attr_getaffinity :: "mword \<Rightarrow> c_heap \<Rightarrow> (cint \<times> cint) option" where
  "cfibre_attr_getaffinity h H = do { a \<leftarrow> h_attr H h; Some (fibre_attr_getaffinity a) }"

definition cfibre_attr_setdetachstate :: "mword \<Rightarrow> cint \<Rightarrow> c_heap \<Rightarrow> (cint \<times> c_heap) option" where
  "cfibre_attr_setdetachstate h x H =
     do { a \<leftarrow> h_attr H h; let (r, a') = fibre_attr_setdetachstate x a; Some (r, put_attr h (Some a') H) }"

definition cfibre_attr_getdetachstate :: "mword \<Rightarrow> c_heap \<Rightarrow> (cint \<times> cint) option" where
  "cfibre_attr_getdetachstate h H = do { a \<leftarrow> h_attr H h; Some (fibre_attr_getdetachstate a) }"

definition cfibre_create ::
  "fibre_env \<Rightarrow> mword option \<Rightarrow> addr \<Rightarrow> addr \<Rightarrow> c_heap \<Rightarrow> (cint \<times> fibre \<times> pid \<times> nat) option" where
  "cfibre_create env attr start_routine arg H =
     (case attr of
        Some h \<Rightarrow> do { a \<leftarrow> h_attr H h; fibre_create env (Some a) start_routine arg }
      | None \<Rightarrow> fibre_create env None start_routine arg)"

section \<open>Semaphores\<close>

definition cfibre_sem_init :: "mword \<Rightarrow> cint \<Rightarrow> cint \<Rightarrow> c_heap \<Rightarrow> (cint \<times> mword \<times> c_heap) option" where
  "cfibre_sem_init p pshared v H =
     do { (r, s) \<leftarrow> fibre_sem_init (unat p) pshared v; Some (r, p, put_sem p (Some s) H) }"

definition cfibre_sem_destroy :: "mword \<Rightarrow> c_heap \<Rightarrow> (cint \<times> mword \<times> c_heap) option" where
  "cfibre_sem_destroy h H =
     do { s \<leftarrow> h_sem H h; (r, _) \<leftarrow> fibre_sem_destroy s; Some (r, 0, put_sem h None H) }"

definition cfibre_sem_wait :: "mword \<Rightarrow> time \<Rightarrow> fid \<Rightarrow> freds \<Rightarrow> c_heap \<Rightarrow> (cint option \<times> freds \<times> c_heap) option" where
  "cfibre_sem_wait h now cf F H =
     do { x \<leftarrow> h_sem H h; (r, x', F') \<leftarrow> fibre_sem_wait now cf x F; Some (r, F', put_sem h (Some x') H) }"

definition cfibre_sem_wait_end :: "mword \<Rightarrow> fid \<Rightarrow> freds \<Rightarrow> c_heap \<Rightarrow> (cint \<times> c_heap) option" where
  "cfibre_sem_wait_end h cf F H =
     do { x \<leftarrow> h_sem H h; let (r, x') = fibre_sem_wait_end cf x F; Some (r, put_sem h (Some x') H) }"

definition cfibre_sem_trywait :: "mword \<Rightarrow> time \<Rightarrow> fid \<Rightarrow> freds \<Rightarrow> c_heap \<Rightarrow> (cint option \<times> freds \<times> c_heap) option" where
  "cfibre_sem_trywait h now cf F H =
     do { x \<leftarrow> h_sem H h; (r, x', F') \<leftarrow> fibre_sem_trywait now cf x F; Some (r, F', put_sem h (Some x') H) }"

definition cfibre_sem_timedwait :: "mword \<Rightarrow> time \<Rightarrow> time \<Rightarrow> fid \<Rightarrow> freds \<Rightarrow> c_heap \<Rightarrow> (cint option \<times> freds \<times> c_heap) option" where
  "cfibre_sem_timedwait h abs_timeout now cf F H =
     do { x \<leftarrow> h_sem H h; (r, x', F') \<leftarrow> fibre_sem_timedwait abs_timeout now cf x F; Some (r, F', put_sem h (Some x') H) }"

definition cfibre_sem_timedwait_end :: "mword \<Rightarrow> fid \<Rightarrow> freds \<Rightarrow> c_heap \<Rightarrow> (cint \<times> c_heap) option" where
  "cfibre_sem_timedwait_end h cf F H =
     do { x \<leftarrow> h_sem H h; let (r, x') = fibre_sem_timedwait_end cf x F; Some (r, put_sem h (Some x') H) }"

definition cfibre_sem_post :: "mword \<Rightarrow> freds \<Rightarrow> c_heap \<Rightarrow> (cint \<times> fid option \<times> freds \<times> c_heap) option" where
  "cfibre_sem_post h F H =
     do { s \<leftarrow> h_sem H h; let (r, wake, s', F') = fibre_sem_post s F; Some (r, wake, F', put_sem h (Some s') H) }"

definition cfibre_sem_getvalue :: "mword \<Rightarrow> c_heap \<Rightarrow> (cint \<times> cint) option" where
  "cfibre_sem_getvalue h H = do { s \<leftarrow> h_sem H h; Some (fibre_sem_getvalue s) }"

section \<open>Mutexes\<close>

definition cfibre_mutexattr_init :: "mword \<Rightarrow> c_heap \<Rightarrow> cint \<times> mword \<times> c_heap" where
  "cfibre_mutexattr_init p H = (0, p, put_mutexattr p (Some new_mutexattr) H)"

definition cfibre_mutexattr_destroy :: "mword \<Rightarrow> c_heap \<Rightarrow> (cint \<times> mword \<times> c_heap) option" where
  "cfibre_mutexattr_destroy h H = do { _ \<leftarrow> h_mutexattr H h; Some (0, 0, put_mutexattr h None H) }"

definition cfibre_mutexattr_settype :: "mword \<Rightarrow> cint \<Rightarrow> c_heap \<Rightarrow> (cint \<times> c_heap) option" where
  "cfibre_mutexattr_settype h t H =
     do { a \<leftarrow> h_mutexattr H h; let (r, a') = fibre_mutexattr_settype t a; Some (r, put_mutexattr h (Some a') H) }"

text \<open>\<^verbatim>\<open>(fibre_mutexattr_t*)attr\<close> converts the address of the variable that holds the handle, where the
  address of the object is stored: its low 32 bits are read as the type (the supported processors are little
  endian).\<close>

definition handle_as_mutexattr :: "mword \<Rightarrow> mutexattr" where
  "handle_as_mutexattr h = \<lparr>ma_type = ucast h\<rparr>"

text \<open>The argument \<open>attr\<close> is the content of the variable that the pointer refers to, none for a null pointer.\<close>

definition cfibre_mutex_init :: "mword \<Rightarrow> mword option \<Rightarrow> c_heap \<Rightarrow> cint \<times> mword \<times> c_heap" where
  "cfibre_mutex_init p attr H =
     (let (r, m) = fibre_mutex_init (unat p) (map_option handle_as_mutexattr attr)
      in (r, p, put_mutex p (Some m) H))"

definition cfibre_mutex_destroy :: "mword \<Rightarrow> c_heap \<Rightarrow> (cint \<times> mword \<times> c_heap) option" where
  "cfibre_mutex_destroy h H =
     do { m \<leftarrow> h_mutex H h; let (r, _) = fibre_mutex_destroy m; Some (r, 0, put_mutex h None H) }"

definition cfibre_mutex_lock :: "mword \<Rightarrow> time \<Rightarrow> fid \<Rightarrow> freds \<Rightarrow> c_heap \<Rightarrow> (cint option \<times> freds \<times> c_heap) option" where
  "cfibre_mutex_lock h now cf F H =
     do { x \<leftarrow> h_mutex H h; (r, x', F') \<leftarrow> fibre_mutex_lock now cf x F; Some (r, F', put_mutex h (Some x') H) }"

definition cfibre_mutex_lock_end :: "mword \<Rightarrow> time \<Rightarrow> fid \<Rightarrow> freds \<Rightarrow> c_heap \<Rightarrow> (cint option \<times> freds \<times> c_heap) option" where
  "cfibre_mutex_lock_end h now cf F H =
     do { x \<leftarrow> h_mutex H h; (r, x', F') \<leftarrow> fibre_mutex_lock_end now cf x F; Some (r, F', put_mutex h (Some x') H) }"

definition cfibre_mutex_trylock :: "mword \<Rightarrow> time \<Rightarrow> fid \<Rightarrow> freds \<Rightarrow> c_heap \<Rightarrow> (cint option \<times> freds \<times> c_heap) option" where
  "cfibre_mutex_trylock h now cf F H =
     do { x \<leftarrow> h_mutex H h; (r, x', F') \<leftarrow> fibre_mutex_trylock now cf x F; Some (r, F', put_mutex h (Some x') H) }"

definition cfibre_mutex_timedlock :: "mword \<Rightarrow> time \<Rightarrow> time \<Rightarrow> fid \<Rightarrow> freds \<Rightarrow> c_heap \<Rightarrow> (cint option \<times> freds \<times> c_heap) option" where
  "cfibre_mutex_timedlock h abstime now cf F H =
     do { x \<leftarrow> h_mutex H h; (r, x', F') \<leftarrow> fibre_mutex_timedlock abstime now cf x F; Some (r, F', put_mutex h (Some x') H) }"

definition cfibre_mutex_timedlock_end :: "mword \<Rightarrow> time \<Rightarrow> time \<Rightarrow> fid \<Rightarrow> freds \<Rightarrow> c_heap \<Rightarrow> (cint option \<times> freds \<times> c_heap) option" where
  "cfibre_mutex_timedlock_end h abstime now cf F H =
     do { x \<leftarrow> h_mutex H h; (r, x', F') \<leftarrow> fibre_mutex_timedlock_end abstime now cf x F; Some (r, F', put_mutex h (Some x') H) }"

definition cfibre_mutex_unlock :: "mword \<Rightarrow> freds \<Rightarrow> c_heap \<Rightarrow> (cint \<times> fid option \<times> freds \<times> c_heap) option" where
  "cfibre_mutex_unlock h F H =
     do { m \<leftarrow> h_mutex H h; (r, wake, m', F') \<leftarrow> fibre_mutex_unlock m F;
          Some (r, wake, F', put_mutex h (Some m') H) }"

section \<open>Condition variables\<close>

text \<open>\<^verbatim>\<open>cfibre_condattr_init\<close> creates no object; the routine it calls does not use its argument.\<close>

definition cfibre_condattr_init :: cint where "cfibre_condattr_init = 0"

definition cfibre_condattr_destroy :: cint where "cfibre_condattr_destroy = 0"

definition cfibre_cond_init :: "mword \<Rightarrow> mword option \<Rightarrow> c_heap \<Rightarrow> (cint \<times> mword \<times> c_heap) option" where
  "cfibre_cond_init p attr H =
     do { (r, q) \<leftarrow> fibre_cond_init (unat p) attr; Some (r, p, put_cond p (Some q) H) }"

definition cfibre_cond_destroy :: "mword \<Rightarrow> c_heap \<Rightarrow> (cint \<times> mword \<times> c_heap) option" where
  "cfibre_cond_destroy h H = do { q \<leftarrow> h_cond H h; r \<leftarrow> fibre_cond_destroy q; Some (r, 0, put_cond h None H) }"

definition cfibre_cond_wait ::
  "mword \<Rightarrow> mword \<Rightarrow> time \<Rightarrow> fid \<Rightarrow> freds \<Rightarrow> c_heap \<Rightarrow> (bool option \<times> fid option \<times> freds \<times> c_heap) option" where
  "cfibre_cond_wait h hm now cf F H =
     do { q \<leftarrow> h_cond H h; m \<leftarrow> h_mutex H hm;
          (r, wake, q', m', F') \<leftarrow> fibre_cond_wait now cf q m F;
          Some (r, wake, F', put_mutex hm (Some m') (put_cond h (Some q') H)) }"

definition cfibre_cond_timedwait ::
  "mword \<Rightarrow> mword \<Rightarrow> time \<Rightarrow> time \<Rightarrow> fid \<Rightarrow> freds \<Rightarrow> c_heap \<Rightarrow> (bool option \<times> fid option \<times> freds \<times> c_heap) option" where
  "cfibre_cond_timedwait h hm abstime now cf F H =
     do { q \<leftarrow> h_cond H h; m \<leftarrow> h_mutex H hm;
          (r, wake, q', m', F') \<leftarrow> fibre_cond_timedwait abstime now cf q m F;
          Some (r, wake, F', put_mutex hm (Some m') (put_cond h (Some q') H)) }"

text \<open>The end of both calls, when the mutex is acquired again.\<close>

definition cfibre_cond_relock ::
  "mword \<Rightarrow> bool \<Rightarrow> time \<Rightarrow> fid \<Rightarrow> freds \<Rightarrow> c_heap \<Rightarrow> (cint option \<times> freds \<times> c_heap) option" where
  "cfibre_cond_relock hm signalled now cf F H =
     do { m \<leftarrow> h_mutex H hm; (r, m', F') \<leftarrow> fibre_cond_relock signalled now cf m F;
          Some (r, F', put_mutex hm (Some m') H) }"

definition cfibre_cond_signal :: "mword \<Rightarrow> freds \<Rightarrow> c_heap \<Rightarrow> (cint \<times> fid list \<times> freds \<times> c_heap) option" where
  "cfibre_cond_signal h F H =
     do { q \<leftarrow> h_cond H h; let (r, wake, q', F') = fibre_cond_signal q F; Some (r, wake, F', put_cond h (Some q') H) }"

definition cfibre_cond_broadcast :: "mword \<Rightarrow> freds \<Rightarrow> c_heap \<Rightarrow> (cint \<times> fid list \<times> freds \<times> c_heap) option" where
  "cfibre_cond_broadcast h F H =
     do { q \<leftarrow> h_cond H h; let (r, wake, q', F') = fibre_cond_broadcast q F; Some (r, wake, F', put_cond h (Some q') H) }"

section \<open>Readers-writer locks\<close>

text \<open>The lock has two queues; the second one has another address inside the object.\<close>

definition cfibre_rwlock_init :: "mword \<Rightarrow> addr \<Rightarrow> mword option \<Rightarrow> c_heap \<Rightarrow> (cint \<times> mword \<times> c_heap) option" where
  "cfibre_rwlock_init p b attr H =
     do { (r, l) \<leftarrow> fibre_rwlock_init (unat p) b attr; Some (r, p, put_rwlock p (Some l) H) }"

definition cfibre_rwlock_destroy :: "mword \<Rightarrow> c_heap \<Rightarrow> (cint \<times> mword \<times> c_heap) option" where
  "cfibre_rwlock_destroy h H =
     do { l \<leftarrow> h_rwlock H h; (r, _) \<leftarrow> fibre_rwlock_destroy l; Some (r, 0, put_rwlock h None H) }"

definition cfibre_rwlock_rdlock :: "mword \<Rightarrow> time \<Rightarrow> fid \<Rightarrow> freds \<Rightarrow> c_heap \<Rightarrow> (cint option \<times> freds \<times> c_heap) option" where
  "cfibre_rwlock_rdlock h now cf F H =
     do { x \<leftarrow> h_rwlock H h; (r, x', F') \<leftarrow> fibre_rwlock_rdlock now cf x F; Some (r, F', put_rwlock h (Some x') H) }"

definition cfibre_rwlock_tryrdlock :: "mword \<Rightarrow> time \<Rightarrow> fid \<Rightarrow> freds \<Rightarrow> c_heap \<Rightarrow> (cint option \<times> freds \<times> c_heap) option" where
  "cfibre_rwlock_tryrdlock h now cf F H =
     do { x \<leftarrow> h_rwlock H h; (r, x', F') \<leftarrow> fibre_rwlock_tryrdlock now cf x F; Some (r, F', put_rwlock h (Some x') H) }"

definition cfibre_rwlock_wrlock :: "mword \<Rightarrow> time \<Rightarrow> fid \<Rightarrow> freds \<Rightarrow> c_heap \<Rightarrow> (cint option \<times> freds \<times> c_heap) option" where
  "cfibre_rwlock_wrlock h now cf F H =
     do { x \<leftarrow> h_rwlock H h; (r, x', F') \<leftarrow> fibre_rwlock_wrlock now cf x F; Some (r, F', put_rwlock h (Some x') H) }"

definition cfibre_rwlock_trywrlock :: "mword \<Rightarrow> time \<Rightarrow> fid \<Rightarrow> freds \<Rightarrow> c_heap \<Rightarrow> (cint option \<times> freds \<times> c_heap) option" where
  "cfibre_rwlock_trywrlock h now cf F H =
     do { x \<leftarrow> h_rwlock H h; (r, x', F') \<leftarrow> fibre_rwlock_trywrlock now cf x F; Some (r, F', put_rwlock h (Some x') H) }"

definition cfibre_rwlock_timedrdlock :: "mword \<Rightarrow> time \<Rightarrow> time \<Rightarrow> fid \<Rightarrow> freds \<Rightarrow> c_heap \<Rightarrow> (cint option \<times> freds \<times> c_heap) option" where
  "cfibre_rwlock_timedrdlock h abstime now cf F H =
     do { x \<leftarrow> h_rwlock H h; (r, x', F') \<leftarrow> fibre_rwlock_timedrdlock abstime now cf x F; Some (r, F', put_rwlock h (Some x') H) }"

definition cfibre_rwlock_timedwrlock :: "mword \<Rightarrow> time \<Rightarrow> time \<Rightarrow> fid \<Rightarrow> freds \<Rightarrow> c_heap \<Rightarrow> (cint option \<times> freds \<times> c_heap) option" where
  "cfibre_rwlock_timedwrlock h abstime now cf F H =
     do { x \<leftarrow> h_rwlock H h; (r, x', F') \<leftarrow> fibre_rwlock_timedwrlock abstime now cf x F; Some (r, F', put_rwlock h (Some x') H) }"

definition cfibre_rwlock_rdlock_end :: "mword \<Rightarrow> cint \<Rightarrow> fid \<Rightarrow> freds \<Rightarrow> c_heap \<Rightarrow> (cint \<times> fid option \<times> freds \<times> c_heap) option" where
  "cfibre_rwlock_rdlock_end h err cf F H =
     do { l \<leftarrow> h_rwlock H h; let (r, wake, l', F') = fibre_rwlock_rdlock_end err cf l F;
          Some (r, wake, F', put_rwlock h (Some l') H) }"

definition cfibre_rwlock_wrlock_end :: "mword \<Rightarrow> cint \<Rightarrow> fid \<Rightarrow> freds \<Rightarrow> c_heap \<Rightarrow> (cint \<times> c_heap) option" where
  "cfibre_rwlock_wrlock_end h err cf F H =
     do { x \<leftarrow> h_rwlock H h; let (r, x') = fibre_rwlock_wrlock_end err cf x F; Some (r, put_rwlock h (Some x') H) }"

definition cfibre_rwlock_unlock :: "mword \<Rightarrow> freds \<Rightarrow> c_heap \<Rightarrow> (cint \<times> fid option \<times> freds \<times> c_heap) option" where
  "cfibre_rwlock_unlock h F H =
     do { l \<leftarrow> h_rwlock H h; (r, wake, l', F') \<leftarrow> fibre_rwlock_unlock l F;
          Some (r, wake, F', put_rwlock h (Some l') H) }"

section \<open>Barriers\<close>

definition cfibre_barrier_init :: "mword \<Rightarrow> mword option \<Rightarrow> cint \<Rightarrow> c_heap \<Rightarrow> (cint \<times> mword \<times> c_heap) option" where
  "cfibre_barrier_init p attr count H =
     do { (r, b) \<leftarrow> fibre_barrier_init (unat p) attr count; Some (r, p, put_barrier p (Some b) H) }"

definition cfibre_barrier_destroy :: "mword \<Rightarrow> c_heap \<Rightarrow> (cint \<times> mword \<times> c_heap) option" where
  "cfibre_barrier_destroy h H =
     do { b \<leftarrow> h_barrier H h; r \<leftarrow> fibre_barrier_destroy b; Some (r, 0, put_barrier h None H) }"

definition cfibre_barrier_wait :: "mword \<Rightarrow> fid \<Rightarrow> freds \<Rightarrow> c_heap \<Rightarrow> (cint option \<times> fid list \<times> freds \<times> c_heap) option" where
  "cfibre_barrier_wait h cf F H =
     do { b \<leftarrow> h_barrier H h; (r, wake, b', F') \<leftarrow> fibre_barrier_wait cf b F;
          Some (r, wake, F', put_barrier h (Some b') H) }"

definition cfibre_barrier_wait_end :: "mword \<Rightarrow> fid \<Rightarrow> freds \<Rightarrow> c_heap \<Rightarrow> (cint \<times> c_heap) option" where
  "cfibre_barrier_wait_end h cf F H =
     do { x \<leftarrow> h_barrier H h; let (r, x') = fibre_barrier_wait_end cf x F; Some (r, put_barrier h (Some x') H) }"

section \<open>Fast mutexes\<close>

definition cfibre_fastmutexattr_init :: "mword \<Rightarrow> c_heap \<Rightarrow> cint \<times> mword \<times> c_heap" where
  "cfibre_fastmutexattr_init p H = (0, p, put_fastmutexattr p (Some new_mutexattr) H)"

definition cfibre_fastmutexattr_destroy :: "mword \<Rightarrow> c_heap \<Rightarrow> (cint \<times> mword \<times> c_heap) option" where
  "cfibre_fastmutexattr_destroy h H = do { _ \<leftarrow> h_fastmutexattr H h; Some (0, 0, put_fastmutexattr h None H) }"

definition cfibre_fastmutexattr_settype :: "mword \<Rightarrow> cint \<Rightarrow> c_heap \<Rightarrow> (cint \<times> c_heap) option" where
  "cfibre_fastmutexattr_settype h t H =
     do { a \<leftarrow> h_fastmutexattr H h; let (r, a') = fibre_mutexattr_settype t a;
          Some (r, put_fastmutexattr h (Some a') H) }"

definition cfibre_fastmutex_init :: "mword \<Rightarrow> mword option \<Rightarrow> c_heap \<Rightarrow> cint \<times> mword \<times> c_heap" where
  "cfibre_fastmutex_init p attr H =
     (let (r, m) = fibre_fastmutex_init (map_option handle_as_mutexattr attr)
      in (r, p, put_fastmutex p (Some m) H))"

definition cfibre_fastmutex_destroy :: "mword \<Rightarrow> c_heap \<Rightarrow> (cint \<times> mword \<times> c_heap) option" where
  "cfibre_fastmutex_destroy h H =
     do { m \<leftarrow> h_fastmutex H h; Some (fibre_fastmutex_destroy m, 0, put_fastmutex h None H) }"

definition cfibre_fastmutex_lock :: "mword \<Rightarrow> fid \<Rightarrow> c_heap \<Rightarrow> (cint option \<times> c_heap) option" where
  "cfibre_fastmutex_lock h cf H =
     do { m \<leftarrow> h_fastmutex H h; (r, m') \<leftarrow> fibre_fastmutex_lock cf m; Some (r, put_fastmutex h (Some m') H) }"

definition cfibre_fastmutex_lock_end :: "mword \<Rightarrow> fid \<Rightarrow> c_heap \<Rightarrow> (cint option \<times> c_heap) option" where
  "cfibre_fastmutex_lock_end h cf H =
     do { m \<leftarrow> h_fastmutex H h; (r, m') \<leftarrow> fibre_fastmutex_lock_end cf m; Some (r, put_fastmutex h (Some m') H) }"

definition cfibre_fastmutex_trylock :: "mword \<Rightarrow> fid \<Rightarrow> c_heap \<Rightarrow> (cint option \<times> c_heap) option" where
  "cfibre_fastmutex_trylock h cf H =
     do { m \<leftarrow> h_fastmutex H h; (r, m') \<leftarrow> fibre_fastmutex_trylock cf m; Some (r, put_fastmutex h (Some m') H) }"

definition cfibre_fastmutex_unlock :: "mword \<Rightarrow> fid \<Rightarrow> c_heap \<Rightarrow> (cint \<times> fid option \<times> c_heap) option" where
  "cfibre_fastmutex_unlock h cf H =
     do { m \<leftarrow> h_fastmutex H h; (r, wake, m') \<leftarrow> fibre_fastmutex_unlock cf m;
          Some (r, wake, put_fastmutex h (Some m') H) }"

definition cfibre_fastcond_wait ::
  "mword \<Rightarrow> mword \<Rightarrow> time \<Rightarrow> fid \<Rightarrow> freds \<Rightarrow> c_heap \<Rightarrow> (bool option \<times> fid option \<times> freds \<times> c_heap) option" where
  "cfibre_fastcond_wait h hm now cf F H =
     do { q \<leftarrow> h_cond H h; m \<leftarrow> h_fastmutex H hm;
          (r, wake, q', m', F') \<leftarrow> fibre_fastcond_wait now cf q m F;
          Some (r, wake, F', put_fastmutex hm (Some m') (put_cond h (Some q') H)) }"

definition cfibre_fastcond_timedwait ::
  "mword \<Rightarrow> mword \<Rightarrow> time \<Rightarrow> time \<Rightarrow> fid \<Rightarrow> freds \<Rightarrow> c_heap \<Rightarrow> (bool option \<times> fid option \<times> freds \<times> c_heap) option" where
  "cfibre_fastcond_timedwait h hm abstime now cf F H =
     do { q \<leftarrow> h_cond H h; m \<leftarrow> h_fastmutex H hm;
          (r, wake, q', m', F') \<leftarrow> fibre_fastcond_timedwait abstime now cf q m F;
          Some (r, wake, F', put_fastmutex hm (Some m') (put_cond h (Some q') H)) }"

definition cfibre_fastcond_relock :: "mword \<Rightarrow> bool \<Rightarrow> fid \<Rightarrow> c_heap \<Rightarrow> (cint option \<times> c_heap) option" where
  "cfibre_fastcond_relock hm signalled cf H =
     do { m \<leftarrow> h_fastmutex H hm; (r, m') \<leftarrow> fibre_fastcond_relock signalled cf m;
          Some (r, put_fastmutex hm (Some m') H) }"

section \<open>Handles are typed\<close>

lemmas put_defs = put_attr_def put_sem_def put_mutexattr_def put_mutex_def put_cond_def put_rwlock_def
  put_barrier_def put_fastmutexattr_def put_fastmutex_def

text \<open>The number of objects at an address.\<close>

definition c_count :: "c_heap \<Rightarrow> mword \<Rightarrow> nat" where
  "c_count H h = of_bool (h_attr H h \<noteq> None) + of_bool (h_sem H h \<noteq> None) + of_bool (h_mutexattr H h \<noteq> None)
     + of_bool (h_mutex H h \<noteq> None) + of_bool (h_cond H h \<noteq> None) + of_bool (h_rwlock H h \<noteq> None)
     + of_bool (h_barrier H h \<noteq> None) + of_bool (h_fastmutexattr H h \<noteq> None)
     + of_bool (h_fastmutex H h \<noteq> None)"

text \<open>All calls that change the heap, in any order and from any number of threads; \<open>new\<close> gives an
  address that is not null and where no object lives.\<close>

inductive c_step :: "c_heap \<Rightarrow> c_heap \<Rightarrow> bool" where
  attr_init: "p \<noteq> 0 \<Longrightarrow> c_count H p = 0 \<Longrightarrow> cfibre_attr_init x0 p H = (r0, p, H') \<Longrightarrow> c_step H H'"
| attr_destroy: "cfibre_attr_destroy x0 H = Some (r0, r1, H') \<Longrightarrow> c_step H H'"
| attr_setcluster: "cfibre_attr_setcluster x0 x1 H = Some (r0, H') \<Longrightarrow> c_step H H'"
| attr_setstacksize: "cfibre_attr_setstacksize x0 x1 H = Some (r0, H') \<Longrightarrow> c_step H H'"
| attr_setguardsize: "cfibre_attr_setguardsize x0 x1 H = Some (r0, H') \<Longrightarrow> c_step H H'"
| attr_setpriority: "cfibre_attr_setpriority x0 x1 H = Some (r0, H') \<Longrightarrow> c_step H H'"
| attr_setaffinity: "cfibre_attr_setaffinity x0 x1 H = Some (r0, H') \<Longrightarrow> c_step H H'"
| attr_setdetachstate: "cfibre_attr_setdetachstate x0 x1 H = Some (r0, H') \<Longrightarrow> c_step H H'"
| sem_init: "p \<noteq> 0 \<Longrightarrow> c_count H p = 0 \<Longrightarrow> cfibre_sem_init p x1 x2 H = Some (r0, p, H') \<Longrightarrow> c_step H H'"
| sem_destroy: "cfibre_sem_destroy x0 H = Some (r0, r1, H') \<Longrightarrow> c_step H H'"
| sem_wait: "cfibre_sem_wait x0 x1 x2 x3 H = Some (r0, r1, H') \<Longrightarrow> c_step H H'"
| sem_wait_end: "cfibre_sem_wait_end x0 x1 x2 H = Some (r0, H') \<Longrightarrow> c_step H H'"
| sem_trywait: "cfibre_sem_trywait x0 x1 x2 x3 H = Some (r0, r1, H') \<Longrightarrow> c_step H H'"
| sem_timedwait: "cfibre_sem_timedwait x0 x1 x2 x3 x4 H = Some (r0, r1, H') \<Longrightarrow> c_step H H'"
| sem_timedwait_end: "cfibre_sem_timedwait_end x0 x1 x2 H = Some (r0, H') \<Longrightarrow> c_step H H'"
| sem_post: "cfibre_sem_post x0 x1 H = Some (r0, r1, r2, H') \<Longrightarrow> c_step H H'"
| mutexattr_init: "p \<noteq> 0 \<Longrightarrow> c_count H p = 0 \<Longrightarrow> cfibre_mutexattr_init p H = (r0, p, H') \<Longrightarrow> c_step H H'"
| mutexattr_destroy: "cfibre_mutexattr_destroy x0 H = Some (r0, r1, H') \<Longrightarrow> c_step H H'"
| mutexattr_settype: "cfibre_mutexattr_settype x0 x1 H = Some (r0, H') \<Longrightarrow> c_step H H'"
| mutex_init: "p \<noteq> 0 \<Longrightarrow> c_count H p = 0 \<Longrightarrow> cfibre_mutex_init p x1 H = (r0, p, H') \<Longrightarrow> c_step H H'"
| mutex_destroy: "cfibre_mutex_destroy x0 H = Some (r0, r1, H') \<Longrightarrow> c_step H H'"
| mutex_lock: "cfibre_mutex_lock x0 x1 x2 x3 H = Some (r0, r1, H') \<Longrightarrow> c_step H H'"
| mutex_lock_end: "cfibre_mutex_lock_end x0 x1 x2 x3 H = Some (r0, r1, H') \<Longrightarrow> c_step H H'"
| mutex_trylock: "cfibre_mutex_trylock x0 x1 x2 x3 H = Some (r0, r1, H') \<Longrightarrow> c_step H H'"
| mutex_timedlock: "cfibre_mutex_timedlock x0 x1 x2 x3 x4 H = Some (r0, r1, H') \<Longrightarrow> c_step H H'"
| mutex_timedlock_end: "cfibre_mutex_timedlock_end x0 x1 x2 x3 x4 H = Some (r0, r1, H') \<Longrightarrow> c_step H H'"
| mutex_unlock: "cfibre_mutex_unlock x0 x1 H = Some (r0, r1, r2, H') \<Longrightarrow> c_step H H'"
| cond_init: "p \<noteq> 0 \<Longrightarrow> c_count H p = 0 \<Longrightarrow> cfibre_cond_init p x1 H = Some (r0, p, H') \<Longrightarrow> c_step H H'"
| cond_destroy: "cfibre_cond_destroy x0 H = Some (r0, r1, H') \<Longrightarrow> c_step H H'"
| cond_wait: "cfibre_cond_wait x0 x1 x2 x3 x4 H = Some (r0, r1, r2, H') \<Longrightarrow> c_step H H'"
| cond_timedwait: "cfibre_cond_timedwait x0 x1 x2 x3 x4 x5 H = Some (r0, r1, r2, H') \<Longrightarrow> c_step H H'"
| cond_relock: "cfibre_cond_relock x0 x1 x2 x3 x4 H = Some (r0, r1, H') \<Longrightarrow> c_step H H'"
| cond_signal: "cfibre_cond_signal x0 x1 H = Some (r0, r1, r2, H') \<Longrightarrow> c_step H H'"
| cond_broadcast: "cfibre_cond_broadcast x0 x1 H = Some (r0, r1, r2, H') \<Longrightarrow> c_step H H'"
| rwlock_init: "p \<noteq> 0 \<Longrightarrow> c_count H p = 0 \<Longrightarrow> cfibre_rwlock_init p x1 x2 H = Some (r0, p, H') \<Longrightarrow> c_step H H'"
| rwlock_destroy: "cfibre_rwlock_destroy x0 H = Some (r0, r1, H') \<Longrightarrow> c_step H H'"
| rwlock_rdlock: "cfibre_rwlock_rdlock x0 x1 x2 x3 H = Some (r0, r1, H') \<Longrightarrow> c_step H H'"
| rwlock_tryrdlock: "cfibre_rwlock_tryrdlock x0 x1 x2 x3 H = Some (r0, r1, H') \<Longrightarrow> c_step H H'"
| rwlock_wrlock: "cfibre_rwlock_wrlock x0 x1 x2 x3 H = Some (r0, r1, H') \<Longrightarrow> c_step H H'"
| rwlock_trywrlock: "cfibre_rwlock_trywrlock x0 x1 x2 x3 H = Some (r0, r1, H') \<Longrightarrow> c_step H H'"
| rwlock_timedrdlock: "cfibre_rwlock_timedrdlock x0 x1 x2 x3 x4 H = Some (r0, r1, H') \<Longrightarrow> c_step H H'"
| rwlock_timedwrlock: "cfibre_rwlock_timedwrlock x0 x1 x2 x3 x4 H = Some (r0, r1, H') \<Longrightarrow> c_step H H'"
| rwlock_rdlock_end: "cfibre_rwlock_rdlock_end x0 x1 x2 x3 H = Some (r0, r1, r2, H') \<Longrightarrow> c_step H H'"
| rwlock_wrlock_end: "cfibre_rwlock_wrlock_end x0 x1 x2 x3 H = Some (r0, H') \<Longrightarrow> c_step H H'"
| rwlock_unlock: "cfibre_rwlock_unlock x0 x1 H = Some (r0, r1, r2, H') \<Longrightarrow> c_step H H'"
| barrier_init: "p \<noteq> 0 \<Longrightarrow> c_count H p = 0 \<Longrightarrow> cfibre_barrier_init p x1 x2 H = Some (r0, p, H') \<Longrightarrow> c_step H H'"
| barrier_destroy: "cfibre_barrier_destroy x0 H = Some (r0, r1, H') \<Longrightarrow> c_step H H'"
| barrier_wait: "cfibre_barrier_wait x0 x1 x2 H = Some (r0, r1, r2, H') \<Longrightarrow> c_step H H'"
| barrier_wait_end: "cfibre_barrier_wait_end x0 x1 x2 H = Some (r0, H') \<Longrightarrow> c_step H H'"
| fastmutexattr_init: "p \<noteq> 0 \<Longrightarrow> c_count H p = 0 \<Longrightarrow> cfibre_fastmutexattr_init p H = (r0, p, H') \<Longrightarrow> c_step H H'"
| fastmutexattr_destroy: "cfibre_fastmutexattr_destroy x0 H = Some (r0, r1, H') \<Longrightarrow> c_step H H'"
| fastmutexattr_settype: "cfibre_fastmutexattr_settype x0 x1 H = Some (r0, H') \<Longrightarrow> c_step H H'"
| fastmutex_init: "p \<noteq> 0 \<Longrightarrow> c_count H p = 0 \<Longrightarrow> cfibre_fastmutex_init p x1 H = (r0, p, H') \<Longrightarrow> c_step H H'"
| fastmutex_destroy: "cfibre_fastmutex_destroy x0 H = Some (r0, r1, H') \<Longrightarrow> c_step H H'"
| fastmutex_lock: "cfibre_fastmutex_lock x0 x1 H = Some (r0, H') \<Longrightarrow> c_step H H'"
| fastmutex_lock_end: "cfibre_fastmutex_lock_end x0 x1 H = Some (r0, H') \<Longrightarrow> c_step H H'"
| fastmutex_trylock: "cfibre_fastmutex_trylock x0 x1 H = Some (r0, H') \<Longrightarrow> c_step H H'"
| fastmutex_unlock: "cfibre_fastmutex_unlock x0 x1 H = Some (r0, r1, H') \<Longrightarrow> c_step H H'"
| fastcond_wait: "cfibre_fastcond_wait x0 x1 x2 x3 x4 H = Some (r0, r1, r2, H') \<Longrightarrow> c_step H H'"
| fastcond_timedwait: "cfibre_fastcond_timedwait x0 x1 x2 x3 x4 x5 H = Some (r0, r1, r2, H') \<Longrightarrow> c_step H H'"
| fastcond_relock: "cfibre_fastcond_relock x0 x1 x2 H = Some (r0, H') \<Longrightarrow> c_step H H'"

inductive c_reach :: "c_heap \<Rightarrow> bool" where
  start: "c_reach c_heap0"
| step: "c_reach H \<Longrightarrow> c_step H H' \<Longrightarrow> c_reach H'"

lemma c_count_heap0 [simp]: "c_count c_heap0 h = 0"
  by (simp add: c_count_def c_heap0_def)

lemmas c_call_defs = cfibre_attr_init_def cfibre_attr_destroy_def cfibre_attr_setcluster_def cfibre_attr_getcluster_def
  cfibre_attr_setstacksize_def cfibre_attr_getstacksize_def cfibre_attr_setguardsize_def cfibre_attr_getguardsize_def
  cfibre_attr_setpriority_def cfibre_attr_getpriority_def cfibre_attr_setaffinity_def cfibre_attr_getaffinity_def
  cfibre_attr_setdetachstate_def cfibre_attr_getdetachstate_def cfibre_create_def cfibre_sem_init_def
  cfibre_sem_destroy_def cfibre_sem_wait_def cfibre_sem_wait_end_def cfibre_sem_trywait_def
  cfibre_sem_timedwait_def cfibre_sem_timedwait_end_def cfibre_sem_post_def cfibre_sem_getvalue_def
  cfibre_mutexattr_init_def cfibre_mutexattr_destroy_def cfibre_mutexattr_settype_def cfibre_mutex_init_def
  cfibre_mutex_destroy_def cfibre_mutex_lock_def cfibre_mutex_lock_end_def cfibre_mutex_trylock_def
  cfibre_mutex_timedlock_def cfibre_mutex_timedlock_end_def cfibre_mutex_unlock_def cfibre_condattr_init_def
  cfibre_condattr_destroy_def cfibre_cond_init_def cfibre_cond_destroy_def cfibre_cond_wait_def
  cfibre_cond_timedwait_def cfibre_cond_relock_def cfibre_cond_signal_def cfibre_cond_broadcast_def
  cfibre_rwlock_init_def cfibre_rwlock_destroy_def cfibre_rwlock_rdlock_def cfibre_rwlock_tryrdlock_def
  cfibre_rwlock_wrlock_def cfibre_rwlock_trywrlock_def cfibre_rwlock_timedrdlock_def cfibre_rwlock_timedwrlock_def
  cfibre_rwlock_rdlock_end_def cfibre_rwlock_wrlock_end_def cfibre_rwlock_unlock_def cfibre_barrier_init_def
  cfibre_barrier_destroy_def cfibre_barrier_wait_def cfibre_barrier_wait_end_def cfibre_fastmutexattr_init_def
  cfibre_fastmutexattr_destroy_def cfibre_fastmutexattr_settype_def cfibre_fastmutex_init_def cfibre_fastmutex_destroy_def
  cfibre_fastmutex_lock_def cfibre_fastmutex_lock_end_def cfibre_fastmutex_trylock_def cfibre_fastmutex_unlock_def
  cfibre_fastcond_wait_def cfibre_fastcond_timedwait_def cfibre_fastcond_relock_def

lemma put_count:
  "h_attr H a = Some yattr \<Longrightarrow> c_count (put_attr a (Some xattr) H) = c_count H"
  "h_sem H a = Some ysem \<Longrightarrow> c_count (put_sem a (Some xsem) H) = c_count H"
  "h_mutexattr H a = Some ymutexattr \<Longrightarrow> c_count (put_mutexattr a (Some xmutexattr) H) = c_count H"
  "h_mutex H a = Some ymutex \<Longrightarrow> c_count (put_mutex a (Some xmutex) H) = c_count H"
  "h_cond H a = Some ycond \<Longrightarrow> c_count (put_cond a (Some xcond) H) = c_count H"
  "h_rwlock H a = Some yrwlock \<Longrightarrow> c_count (put_rwlock a (Some xrwlock) H) = c_count H"
  "h_barrier H a = Some ybarrier \<Longrightarrow> c_count (put_barrier a (Some xbarrier) H) = c_count H"
  "h_fastmutexattr H a = Some yfastmutexattr \<Longrightarrow> c_count (put_fastmutexattr a (Some xfastmutexattr) H) = c_count H"
  "h_fastmutex H a = Some yfastmutex \<Longrightarrow> c_count (put_fastmutex a (Some xfastmutex) H) = c_count H"
  by (auto simp: c_count_def put_defs fun_eq_iff)

lemma put_fresh:
  "c_count H p = 0 \<Longrightarrow> c_count (put_attr p (Some xattr) H) = (c_count H)(p := 1)"
  "c_count H p = 0 \<Longrightarrow> c_count (put_sem p (Some xsem) H) = (c_count H)(p := 1)"
  "c_count H p = 0 \<Longrightarrow> c_count (put_mutexattr p (Some xmutexattr) H) = (c_count H)(p := 1)"
  "c_count H p = 0 \<Longrightarrow> c_count (put_mutex p (Some xmutex) H) = (c_count H)(p := 1)"
  "c_count H p = 0 \<Longrightarrow> c_count (put_cond p (Some xcond) H) = (c_count H)(p := 1)"
  "c_count H p = 0 \<Longrightarrow> c_count (put_rwlock p (Some xrwlock) H) = (c_count H)(p := 1)"
  "c_count H p = 0 \<Longrightarrow> c_count (put_barrier p (Some xbarrier) H) = (c_count H)(p := 1)"
  "c_count H p = 0 \<Longrightarrow> c_count (put_fastmutexattr p (Some xfastmutexattr) H) = (c_count H)(p := 1)"
  "c_count H p = 0 \<Longrightarrow> c_count (put_fastmutex p (Some xfastmutex) H) = (c_count H)(p := 1)"
  by (auto simp: c_count_def put_defs fun_eq_iff)

lemma put_none:
  "c_count (put_attr a None H) h \<le> c_count H h"
  "c_count (put_sem a None H) h \<le> c_count H h"
  "c_count (put_mutexattr a None H) h \<le> c_count H h"
  "c_count (put_mutex a None H) h \<le> c_count H h"
  "c_count (put_cond a None H) h \<le> c_count H h"
  "c_count (put_rwlock a None H) h \<le> c_count H h"
  "c_count (put_barrier a None H) h \<le> c_count H h"
  "c_count (put_fastmutexattr a None H) h \<le> c_count H h"
  "c_count (put_fastmutex a None H) h \<le> c_count H h"
  by (auto simp: c_count_def put_defs)

lemma put_lookup [simp]:
  "h_attr (put_cond h x H) = h_attr H"
  "h_sem (put_cond h x H) = h_sem H"
  "h_mutexattr (put_cond h x H) = h_mutexattr H"
  "h_mutex (put_cond h x H) = h_mutex H"
  "h_rwlock (put_cond h x H) = h_rwlock H"
  "h_barrier (put_cond h x H) = h_barrier H"
  "h_fastmutexattr (put_cond h x H) = h_fastmutexattr H"
  "h_fastmutex (put_cond h x H) = h_fastmutex H"
  by (simp_all add: put_defs)

lemma c_keep:
  "cfibre_attr_setcluster x0_2 x1_2 H = Some (r0_2, H') \<Longrightarrow> c_count H' = c_count H"
  "cfibre_attr_setstacksize x0_3 x1_3 H = Some (r0_3, H') \<Longrightarrow> c_count H' = c_count H"
  "cfibre_attr_setguardsize x0_4 x1_4 H = Some (r0_4, H') \<Longrightarrow> c_count H' = c_count H"
  "cfibre_attr_setpriority x0_5 x1_5 H = Some (r0_5, H') \<Longrightarrow> c_count H' = c_count H"
  "cfibre_attr_setaffinity x0_6 x1_6 H = Some (r0_6, H') \<Longrightarrow> c_count H' = c_count H"
  "cfibre_attr_setdetachstate x0_7 x1_7 H = Some (r0_7, H') \<Longrightarrow> c_count H' = c_count H"
  "cfibre_sem_wait x0_10 x1_10 x2_10 x3_10 H = Some (r0_10, r1_10, H') \<Longrightarrow> c_count H' = c_count H"
  "cfibre_sem_wait_end x0_11 x1_11 x2_11 H = Some (r0_11, H') \<Longrightarrow> c_count H' = c_count H"
  "cfibre_sem_trywait x0_12 x1_12 x2_12 x3_12 H = Some (r0_12, r1_12, H') \<Longrightarrow> c_count H' = c_count H"
  "cfibre_sem_timedwait x0_13 x1_13 x2_13 x3_13 x4_13 H = Some (r0_13, r1_13, H') \<Longrightarrow> c_count H' = c_count H"
  "cfibre_sem_timedwait_end x0_14 x1_14 x2_14 H = Some (r0_14, H') \<Longrightarrow> c_count H' = c_count H"
  "cfibre_sem_post x0_15 x1_15 H = Some (r0_15, r1_15, r2_15, H') \<Longrightarrow> c_count H' = c_count H"
  "cfibre_mutexattr_settype x0_18 x1_18 H = Some (r0_18, H') \<Longrightarrow> c_count H' = c_count H"
  "cfibre_mutex_lock x0_21 x1_21 x2_21 x3_21 H = Some (r0_21, r1_21, H') \<Longrightarrow> c_count H' = c_count H"
  "cfibre_mutex_lock_end x0_22 x1_22 x2_22 x3_22 H = Some (r0_22, r1_22, H') \<Longrightarrow> c_count H' = c_count H"
  "cfibre_mutex_trylock x0_23 x1_23 x2_23 x3_23 H = Some (r0_23, r1_23, H') \<Longrightarrow> c_count H' = c_count H"
  "cfibre_mutex_timedlock x0_24 x1_24 x2_24 x3_24 x4_24 H = Some (r0_24, r1_24, H') \<Longrightarrow> c_count H' = c_count H"
  "cfibre_mutex_timedlock_end x0_25 x1_25 x2_25 x3_25 x4_25 H = Some (r0_25, r1_25, H') \<Longrightarrow> c_count H' = c_count H"
  "cfibre_mutex_unlock x0_26 x1_26 H = Some (r0_26, r1_26, r2_26, H') \<Longrightarrow> c_count H' = c_count H"
  "cfibre_cond_wait x0_29 x1_29 x2_29 x3_29 x4_29 H = Some (r0_29, r1_29, r2_29, H') \<Longrightarrow> c_count H' = c_count H"
  "cfibre_cond_timedwait x0_30 x1_30 x2_30 x3_30 x4_30 x5_30 H = Some (r0_30, r1_30, r2_30, H') \<Longrightarrow> c_count H' = c_count H"
  "cfibre_cond_relock x0_31 x1_31 x2_31 x3_31 x4_31 H = Some (r0_31, r1_31, H') \<Longrightarrow> c_count H' = c_count H"
  "cfibre_cond_signal x0_32 x1_32 H = Some (r0_32, r1_32, r2_32, H') \<Longrightarrow> c_count H' = c_count H"
  "cfibre_cond_broadcast x0_33 x1_33 H = Some (r0_33, r1_33, r2_33, H') \<Longrightarrow> c_count H' = c_count H"
  "cfibre_rwlock_rdlock x0_36 x1_36 x2_36 x3_36 H = Some (r0_36, r1_36, H') \<Longrightarrow> c_count H' = c_count H"
  "cfibre_rwlock_tryrdlock x0_37 x1_37 x2_37 x3_37 H = Some (r0_37, r1_37, H') \<Longrightarrow> c_count H' = c_count H"
  "cfibre_rwlock_wrlock x0_38 x1_38 x2_38 x3_38 H = Some (r0_38, r1_38, H') \<Longrightarrow> c_count H' = c_count H"
  "cfibre_rwlock_trywrlock x0_39 x1_39 x2_39 x3_39 H = Some (r0_39, r1_39, H') \<Longrightarrow> c_count H' = c_count H"
  "cfibre_rwlock_timedrdlock x0_40 x1_40 x2_40 x3_40 x4_40 H = Some (r0_40, r1_40, H') \<Longrightarrow> c_count H' = c_count H"
  "cfibre_rwlock_timedwrlock x0_41 x1_41 x2_41 x3_41 x4_41 H = Some (r0_41, r1_41, H') \<Longrightarrow> c_count H' = c_count H"
  "cfibre_rwlock_rdlock_end x0_42 x1_42 x2_42 x3_42 H = Some (r0_42, r1_42, r2_42, H') \<Longrightarrow> c_count H' = c_count H"
  "cfibre_rwlock_wrlock_end x0_43 x1_43 x2_43 x3_43 H = Some (r0_43, H') \<Longrightarrow> c_count H' = c_count H"
  "cfibre_rwlock_unlock x0_44 x1_44 H = Some (r0_44, r1_44, r2_44, H') \<Longrightarrow> c_count H' = c_count H"
  "cfibre_barrier_wait x0_47 x1_47 x2_47 H = Some (r0_47, r1_47, r2_47, H') \<Longrightarrow> c_count H' = c_count H"
  "cfibre_barrier_wait_end x0_48 x1_48 x2_48 H = Some (r0_48, H') \<Longrightarrow> c_count H' = c_count H"
  "cfibre_fastmutexattr_settype x0_51 x1_51 H = Some (r0_51, H') \<Longrightarrow> c_count H' = c_count H"
  "cfibre_fastmutex_lock x0_54 x1_54 H = Some (r0_54, H') \<Longrightarrow> c_count H' = c_count H"
  "cfibre_fastmutex_lock_end x0_55 x1_55 H = Some (r0_55, H') \<Longrightarrow> c_count H' = c_count H"
  "cfibre_fastmutex_trylock x0_56 x1_56 H = Some (r0_56, H') \<Longrightarrow> c_count H' = c_count H"
  "cfibre_fastmutex_unlock x0_57 x1_57 H = Some (r0_57, r1_57, H') \<Longrightarrow> c_count H' = c_count H"
  "cfibre_fastcond_wait x0_58 x1_58 x2_58 x3_58 x4_58 H = Some (r0_58, r1_58, r2_58, H') \<Longrightarrow> c_count H' = c_count H"
  "cfibre_fastcond_timedwait x0_59 x1_59 x2_59 x3_59 x4_59 x5_59 H = Some (r0_59, r1_59, r2_59, H') \<Longrightarrow> c_count H' = c_count H"
  "cfibre_fastcond_relock x0_60 x1_60 x2_60 H = Some (r0_60, H') \<Longrightarrow> c_count H' = c_count H"
  by (auto simp: c_call_defs Let_def bind_eq_Some_conv put_count split_beta)

lemma c_fresh:
  "cfibre_attr_init x0_0 p H = (r0_0, p, H') \<Longrightarrow> c_count H p = 0 \<Longrightarrow> c_count H' = (c_count H)(p := 1)"
  "cfibre_sem_init p x1_8 x2_8 H = Some (r0_8, p, H') \<Longrightarrow> c_count H p = 0 \<Longrightarrow> c_count H' = (c_count H)(p := 1)"
  "cfibre_mutexattr_init p H = (r0_16, p, H') \<Longrightarrow> c_count H p = 0 \<Longrightarrow> c_count H' = (c_count H)(p := 1)"
  "cfibre_mutex_init p x1_19 H = (r0_19, p, H') \<Longrightarrow> c_count H p = 0 \<Longrightarrow> c_count H' = (c_count H)(p := 1)"
  "cfibre_cond_init p x1_27 H = Some (r0_27, p, H') \<Longrightarrow> c_count H p = 0 \<Longrightarrow> c_count H' = (c_count H)(p := 1)"
  "cfibre_rwlock_init p x1_34 x2_34 H = Some (r0_34, p, H') \<Longrightarrow> c_count H p = 0 \<Longrightarrow> c_count H' = (c_count H)(p := 1)"
  "cfibre_barrier_init p x1_45 x2_45 H = Some (r0_45, p, H') \<Longrightarrow> c_count H p = 0 \<Longrightarrow> c_count H' = (c_count H)(p := 1)"
  "cfibre_fastmutexattr_init p H = (r0_49, p, H') \<Longrightarrow> c_count H p = 0 \<Longrightarrow> c_count H' = (c_count H)(p := 1)"
  "cfibre_fastmutex_init p x1_52 H = (r0_52, p, H') \<Longrightarrow> c_count H p = 0 \<Longrightarrow> c_count H' = (c_count H)(p := 1)"
  by (auto simp: c_call_defs Let_def bind_eq_Some_conv put_fresh split_beta)

lemma c_drop:
  "cfibre_attr_destroy x0_1 H = Some (r0_1, r1_1, H') \<Longrightarrow> c_count H' \<le> c_count H"
  "cfibre_sem_destroy x0_9 H = Some (r0_9, r1_9, H') \<Longrightarrow> c_count H' \<le> c_count H"
  "cfibre_mutexattr_destroy x0_17 H = Some (r0_17, r1_17, H') \<Longrightarrow> c_count H' \<le> c_count H"
  "cfibre_mutex_destroy x0_20 H = Some (r0_20, r1_20, H') \<Longrightarrow> c_count H' \<le> c_count H"
  "cfibre_cond_destroy x0_28 H = Some (r0_28, r1_28, H') \<Longrightarrow> c_count H' \<le> c_count H"
  "cfibre_rwlock_destroy x0_35 H = Some (r0_35, r1_35, H') \<Longrightarrow> c_count H' \<le> c_count H"
  "cfibre_barrier_destroy x0_46 H = Some (r0_46, r1_46, H') \<Longrightarrow> c_count H' \<le> c_count H"
  "cfibre_fastmutexattr_destroy x0_50 H = Some (r0_50, r1_50, H') \<Longrightarrow> c_count H' \<le> c_count H"
  "cfibre_fastmutex_destroy x0_53 H = Some (r0_53, r1_53, H') \<Longrightarrow> c_count H' \<le> c_count H"
  by (auto simp: c_call_defs Let_def bind_eq_Some_conv put_none le_fun_def split_beta)

text \<open>A call creates at most one object, at a free address, or deletes one.\<close>

lemma c_step_count:
  assumes "c_step H H'"
  shows "c_count H' h \<le> c_count H h \<or> h \<noteq> 0 \<and> c_count H h = 0 \<and> c_count H' h = 1"
  using assms
  by cases (auto dest!: c_keep c_fresh c_drop simp: le_fun_def split: if_splits)

lemma c_reach_count: "c_reach H \<Longrightarrow> c_count H h \<le> 1 \<and> c_count H 0 = 0"
proof (induction rule: c_reach.induct)
  case (step H H')
  then show ?case using c_step_count [OF step.hyps(2), of h] c_step_count [OF step.hyps(2), of 0] by auto
qed simp

section \<open>Mutex attributes\<close>

text \<open>An aligned address is never read as the type of a recursive mutex.\<close>

lemma aligned_not_recursive:
  assumes "p AND 15 = (0 :: mword)"
  shows "mutex_init_code (Some (handle_as_mutexattr p)) = 0"
proof -
  have "\<not> bit (p AND 15) 0" using assms by simp
  then have "\<not> bit p 0" by (simp add: bit_and_iff)
  then have "\<not> bit (ucast p :: cint) 0" by (simp add: bit_ucast_iff)
  then have "(ucast p :: cint) \<noteq> 1" by (metis bit_1_0)
  then show ?thesis
    by (simp add: mutex_init_code_def handle_as_mutexattr_def FIBRE_MUTEX_RECURSIVE_def)
qed


definition c_heap1 :: c_heap where
  "c_heap1 = snd (snd (cfibre_mutex_init 4096 None c_heap0))"


text \<open>C37: The C interface loses the type of a mutex. It passes the address of the variable with the
  handle of the attributes instead of the handle, so that \<^verbatim>\<open>fibre_mutex_init\<close> reads the lower
  half of an address as the type. For every aligned address it returns 0, whatever type was set; the same
  attributes make \<^verbatim>\<open>fibre_mutex_init\<close> itself refuse a recursive mutex. The mutex that the caller
  takes for recursive aborts the program when its owner locks it again. The same holds for fast mutexes.\<close>

theorem cfibre_mutexattr_ignored:
  assumes "a AND 15 = 0"
    and "cfibre_mutexattr_settype a t (snd (snd (cfibre_mutexattr_init a H))) = Some (r, H2)"
  shows "h_mutexattr H2 a = Some \<lparr>ma_type = t\<rparr>
    \<and> fst (fibre_mutex_init (unat p) (h_mutexattr H2 a)) = (if t = FIBRE_MUTEX_RECURSIVE then -1 else 0)
    \<and> fst (fibre_fastmutex_init (h_mutexattr H2 a)) = (if t = FIBRE_MUTEX_RECURSIVE then -1 else 0)
    \<and> (\<exists>H3 H4. cfibre_mutex_init p (Some a) H2 = (0, p, H3)
          \<and> cfibre_mutex_lock p now cf F H3 = Some (Some 0, F, H4)
          \<and> cfibre_mutex_lock p now' cf F' H4 = None)
    \<and> (\<exists>H3 H4. cfibre_fastmutex_init p (Some a) H2 = (0, p, H3)
          \<and> cfibre_fastmutex_lock p cf H3 = Some (Some 0, H4)
          \<and> cfibre_fastmutex_lock p cf H4 = None)"
proof -
  note code = aligned_not_recursive [OF assms(1)]
  have a: "h_mutexattr H2 a = Some \<lparr>ma_type = t\<rparr>"
    using assms(2) by (auto simp: cfibre_mutexattr_settype_def cfibre_mutexattr_init_def put_mutexattr_def
      fibre_mutexattr_settype_def new_mutexattr_def)
  let ?m = "sc_set_owner cf ((new_scmutex (unat p))\<lparr>sc_value := 1\<rparr>)"
  have m: "cfibre_mutex_init p (Some a) H2 = (0, p, put_mutex p (Some (new_scmutex (unat p))) H2)"
    by (simp add: cfibre_mutex_init_def fibre_mutex_init_def code)
  have m1: "cfibre_mutex_lock p now cf F (put_mutex p (Some (new_scmutex (unat p))) H2)
      = Some (Some 0, F, put_mutex p (Some ?m) H2)"
    by (simp add: cfibre_mutex_lock_def fibre_mutex_lock_def put_mutex_def acquire_defs new_scmutex_def)
  have m2: "cfibre_mutex_lock p now' cf F' (put_mutex p (Some ?m) H2) = None"
    by (simp add: cfibre_mutex_lock_def fibre_mutex_lock_def put_mutex_def acquire_defs new_scmutex_def)
  have f: "cfibre_fastmutex_init p (Some a) H2 = (0, p, put_fastmutex p (Some new_ssmutex) H2)"
    by (simp add: cfibre_fastmutex_init_def fibre_fastmutex_init_def code)
  obtain sm where f1: "cfibre_fastmutex_lock p cf (put_fastmutex p (Some new_ssmutex) H2)
      = Some (Some 0, put_fastmutex p (Some sm) H2)"
    and f2: "cfibre_fastmutex_lock p cf (put_fastmutex p (Some sm) H2) = None"
    by (simp add: cfibre_fastmutex_lock_def fibre_fastmutex_lock_def put_fastmutex_def acquire_defs new_ssmutex_def)
  have "fst (fibre_mutex_init (unat p) (h_mutexattr H2 a)) = (if t = FIBRE_MUTEX_RECURSIVE then -1 else 0)"
    "fst (fibre_fastmutex_init (h_mutexattr H2 a)) = (if t = FIBRE_MUTEX_RECURSIVE then -1 else 0)"
    by (simp_all add: a fibre_mutex_init_def fibre_fastmutex_init_def mutex_init_code_def)
  with a m m1 m2 f f1 f2 show ?thesis by blast
qed

theorem cfibre_mutexattr_ignored_witness:
  "\<exists>H2. cfibre_mutexattr_settype 4096 FIBRE_MUTEX_RECURSIVE (snd (snd (cfibre_mutexattr_init 4096 c_heap0))) = Some (0, H2)
    \<and> fst (fibre_mutex_init 8192 (h_mutexattr H2 4096)) = -1
    \<and> (\<exists>H3 H4. cfibre_mutex_init 8192 (Some 4096) H2 = (0, 8192, H3)
          \<and> cfibre_mutex_lock 8192 time_zero 1 api_freds H3 = Some (Some 0, api_freds, H4)
          \<and> cfibre_mutex_lock 8192 time_zero 1 api_freds H4 = None)"
proof -
  obtain H2 where H2: "cfibre_mutexattr_settype 4096 FIBRE_MUTEX_RECURSIVE
      (snd (snd (cfibre_mutexattr_init 4096 c_heap0))) = Some (0, H2)"
    by (simp add: cfibre_mutexattr_settype_def cfibre_mutexattr_init_def put_mutexattr_def fibre_mutexattr_settype_def)
  show ?thesis
    using cfibre_mutexattr_ignored [OF _ H2, of 8192 time_zero 1 api_freds time_zero api_freds] H2 by auto
qed

end
