(* ===== verification/Cluster_Start.thy ===== *)
theory Cluster_Start
  imports Scheduler_Ring
begin

text \<open>
  The creation of workers in \<^verbatim>\<open>src/src/libfibre/Cluster.h\<close> and \<^verbatim>\<open>Cluster.cc\<close>:
  \<^verbatim>\<open>registerWorker\<close> for the calling thread, \<^verbatim>\<open>addWorker\<close> with the thread it creates
  (\<^verbatim>\<open>threadHelper\<close>, \<^verbatim>\<open>registerIdleWorker\<close>), and \<^verbatim>\<open>getWorkerSysIDs\<close>.
  Any number of calls of \<^verbatim>\<open>addWorker\<close> and of the new threads interleave; a call is identified by
  the address of its worker. The new thread reads its arguments from the stack frame of the caller; the join of
  the initial fibre, in its destructor, is what keeps the frame alive. Stacks, thread attributes and names are
  left out.
\<close>

section \<open>State\<close>

text \<open>The initial fibre: not created; set up; started by the idle loop; finished, which its join waits for.\<close>

datatype init_fibre = InNone | InReady | InRunning | InDone

text \<open>\<^verbatim>\<open>addWorker\<close>: not called; worker created; initial fibre created; arguments stored; thread
  created and waiting in \<^verbatim>\<open>delete initFibre\<close>; returned. \<open>CrMain\<close> is the worker of \<^verbatim>\<open>registerWorker\<close>.\<close>

datatype creator = CrNone | CrWorker | CrFibre | CrArgs | CrWait | CrReturned | CrMain

text \<open>The new thread: not created; at the start of \<^verbatim>\<open>threadHelper\<close>; arguments read; set up; idle
  fibre recorded; switched to the initial fibre; in the idle loop.\<close>

datatype new_thread = ThNone | ThStart | ThArgs | ThSetup | ThIdleSet | ThInit | ThIdle

record worker_ctx =
  cx_fred :: addr
  cx_proc :: addr
  cx_cluster :: addr
  cx_scope :: addr

record argpack =
  ap_cluster :: addr
  ap_worker :: addr
  ap_init :: addr

record start_sys =
  st_sched :: sched
  st_tid :: "addr \<rightharpoonup> nat"          \<comment> \<open>\<open>sysThreadId\<close>, none while uninitialised\<close>
  st_ctx :: "addr \<rightharpoonup> worker_ctx"      \<comment> \<open>the thread-local variables of the worker's thread\<close>
  st_idle :: "addr \<rightharpoonup> addr"        \<comment> \<open>\<open>idleFred\<close>\<close>
  st_args :: "addr \<rightharpoonup> argpack"     \<comment> \<open>the frame of \<open>addWorker\<close> with \<open>args\<close>, while it exists\<close>
  st_init :: "addr \<Rightarrow> init_fibre"
  st_cr :: "addr \<Rightarrow> creator"
  st_th :: "addr \<Rightarrow> new_thread"

section \<open>Operations\<close>

text \<open>The constructor of \<^verbatim>\<open>Worker\<close> puts the processor on the ring.\<close>

definition new_Worker :: "addr \<Rightarrow> start_sys \<Rightarrow> start_sys option" where
  "new_Worker w s = do { sc \<leftarrow> addProcessor w (st_sched s); Some (s\<lparr>st_sched := sc\<rparr>) }"

definition setIdleLoop :: "addr \<Rightarrow> addr \<Rightarrow> start_sys \<Rightarrow> start_sys" where
  "setIdleLoop w f s = s\<lparr>st_idle := (st_idle s)(w \<mapsto> f)\<rparr>"

definition install :: "addr \<Rightarrow> addr \<Rightarrow> addr \<Rightarrow> addr \<Rightarrow> worker_ctx" where
  "install fib bp cl es = \<lparr>cx_fred = fib, cx_proc = bp, cx_cluster = cl, cx_scope = es\<rparr>"

definition setupWorker :: "addr \<Rightarrow> addr \<Rightarrow> addr \<Rightarrow> addr \<Rightarrow> nat \<Rightarrow> start_sys \<Rightarrow> start_sys" where
  "setupWorker cl es fibre w self s =
     s\<lparr>st_tid := (st_tid s)(w \<mapsto> self), st_ctx := (st_ctx s)(w \<mapsto> install fibre w cl es)\<rparr>"

text \<open>\<^verbatim>\<open>registerWorker\<close>, by the thread \<open>self\<close> with its new main and idle fibres.\<close>

definition registerWorker :: "addr \<Rightarrow> addr \<Rightarrow> addr \<Rightarrow> addr \<Rightarrow> addr \<Rightarrow> nat \<Rightarrow> start_sys \<Rightarrow> start_sys option" where
  "registerWorker cl es w mainFibre idleFibre self s =
     do { s1 \<leftarrow> new_Worker w s;
          let s2 = setupWorker cl es mainFibre w self s1;
          Some ((setIdleLoop w idleFibre s2)\<lparr>st_cr := (st_cr s)(w := CrMain)\<rparr>) }"

text \<open>\<^verbatim>\<open>addWorker\<close>, in five parts. The last one is the end of \<^verbatim>\<open>delete initFibre\<close> and the return.\<close>

definition aw_worker :: "addr \<Rightarrow> start_sys \<Rightarrow> start_sys option" where
  "aw_worker w s = do { s1 \<leftarrow> new_Worker w s; Some (s1\<lparr>st_cr := (st_cr s)(w := CrWorker)\<rparr>) }"

definition aw_fibre :: "addr \<Rightarrow> start_sys \<Rightarrow> start_sys" where
  "aw_fibre w s = s\<lparr>st_init := (st_init s)(w := InReady), st_cr := (st_cr s)(w := CrFibre)\<rparr>"

definition aw_args :: "addr \<Rightarrow> addr \<Rightarrow> addr \<Rightarrow> start_sys \<Rightarrow> start_sys" where
  "aw_args cl w initFibre s =
     s\<lparr>st_args := (st_args s)(w \<mapsto> \<lparr>ap_cluster = cl, ap_worker = w, ap_init = initFibre\<rparr>),
       st_cr := (st_cr s)(w := CrArgs)\<rparr>"

definition aw_thread :: "addr \<Rightarrow> start_sys \<Rightarrow> start_sys" where
  "aw_thread w s = s\<lparr>st_th := (st_th s)(w := ThStart), st_cr := (st_cr s)(w := CrWait)\<rparr>"

definition aw_return :: "addr \<Rightarrow> start_sys \<Rightarrow> start_sys option" where
  "aw_return w s =
     (if st_init s w = InDone
      then Some (s\<lparr>st_args := (st_args s)(w := None), st_cr := (st_cr s)(w := CrReturned)\<rparr>) else None)"

text \<open>The new thread. Reading arguments that no longer exist has no result; so has switching to an initial
  fibre that is not ready.\<close>

definition threadHelper :: "addr \<Rightarrow> start_sys \<Rightarrow> (argpack \<times> start_sys) option" where
  "threadHelper w s = do { a \<leftarrow> st_args s w; Some (a, s\<lparr>st_th := (st_th s)(w := ThArgs)\<rparr>) }"

definition riw_setup :: "addr \<Rightarrow> addr \<Rightarrow> addr \<Rightarrow> addr \<Rightarrow> nat \<Rightarrow> start_sys \<Rightarrow> start_sys" where
  "riw_setup cl es idleFibre w self s =
     (setupWorker cl es idleFibre w self s)\<lparr>st_th := (st_th s)(w := ThSetup)\<rparr>"

definition riw_idle :: "addr \<Rightarrow> addr \<Rightarrow> start_sys \<Rightarrow> start_sys" where
  "riw_idle idleFibre w s = (setIdleLoop w idleFibre s)\<lparr>st_th := (st_th s)(w := ThIdleSet)\<rparr>"

definition riw_run :: "addr \<Rightarrow> start_sys \<Rightarrow> start_sys option" where
  "riw_run w s =
     do { rassert (st_init s w = InReady);
          Some (s\<lparr>st_init := (st_init s)(w := InRunning), st_th := (st_th s)(w := ThInit)\<rparr>) }"

text \<open>\<^verbatim>\<open>getWorkerSysIDs\<close>: an id that is not yet set is an uninitialised member.\<close>

fun sysid_walk :: "nat \<Rightarrow> addr \<Rightarrow> start_sys \<Rightarrow> nat option list" where
  "sysid_walk 0 p s = []"
| "sysid_walk (Suc n) p s = st_tid s p # sysid_walk n (Next (ringHeap (st_sched s)) p) s"

definition getWorkerSysIDs :: "nat \<Rightarrow> start_sys \<Rightarrow> nat option list \<times> nat" where
  "getWorkerSysIDs cnt s =
     (sysid_walk (min cnt (ringCount (st_sched s))) (placeProc (st_sched s)) s, ringCount (st_sched s))"

section \<open>Interleavings\<close>

text \<open>The initial fibre may block: the idle loop then continues before it has finished. Other threads place
  fibres on the ring.\<close>

inductive start_step :: "addr \<Rightarrow> addr \<Rightarrow> start_sys \<Rightarrow> start_sys \<Rightarrow> bool" for cl es where
  worker: "st_cr s w = CrNone \<Longrightarrow> w \<noteq> 0 \<Longrightarrow> Prev (ringHeap (st_sched s)) w = 0 \<Longrightarrow> Next (ringHeap (st_sched s)) w = 0
    \<Longrightarrow> aw_worker w s = Some s' \<Longrightarrow> start_step cl es s s'"
| fibre: "st_cr s w = CrWorker \<Longrightarrow> start_step cl es s (aw_fibre w s)"
| args: "st_cr s w = CrFibre \<Longrightarrow> start_step cl es s (aw_args cl w f s)"
| thread: "st_cr s w = CrArgs \<Longrightarrow> start_step cl es s (aw_thread w s)"
| joined: "st_cr s w = CrWait \<Longrightarrow> aw_return w s = Some s' \<Longrightarrow> start_step cl es s s'"
| helper: "st_th s w = ThStart \<Longrightarrow> threadHelper w s = Some (a, s') \<Longrightarrow> start_step cl es s s'"
| set_up: "st_th s w = ThArgs \<Longrightarrow> start_step cl es s (riw_setup cl es f w self s)"
| idle: "st_th s w = ThSetup \<Longrightarrow> start_step cl es s (riw_idle f w s)"
| run: "st_th s w = ThIdleSet \<Longrightarrow> riw_run w s = Some s' \<Longrightarrow> start_step cl es s s'"
| loop: "st_th s w = ThInit \<Longrightarrow> start_step cl es s (s\<lparr>st_th := (st_th s)(w := ThIdle)\<rparr>)"
| finish: "st_init s w = InRunning \<Longrightarrow> start_step cl es s (s\<lparr>st_init := (st_init s)(w := InDone)\<rparr>)"
| place: "placement (st_sched s) = Some (p, sc) \<Longrightarrow> start_step cl es s (s\<lparr>st_sched := sc\<rparr>)"

definition start_empty :: "dheap \<Rightarrow> start_sys" where
  "start_empty h = \<lparr>st_sched = new_sched h, st_tid = Map.empty, st_ctx = Map.empty, st_idle = Map.empty,
     st_args = Map.empty, st_init = (\<lambda>_. InNone), st_cr = (\<lambda>_. CrNone), st_th = (\<lambda>_. ThNone)\<rparr>"

inductive start_reach :: "addr \<Rightarrow> addr \<Rightarrow> start_sys \<Rightarrow> bool" for cl es where
  start: "m \<noteq> 0 \<Longrightarrow> Prev h m = 0 \<Longrightarrow> Next h m = 0 \<Longrightarrow> registerWorker cl es m mf idf self (start_empty h) = Some s
    \<Longrightarrow> start_reach cl es s"
| step: "start_reach cl es s \<Longrightarrow> start_step cl es s s' \<Longrightarrow> start_reach cl es s'"

section \<open>Invariant\<close>

text \<open>What holds of one worker: by the state of the thread and of the call.\<close>

definition worker_ok :: "addr \<Rightarrow> addr \<Rightarrow> start_sys \<Rightarrow> addr \<Rightarrow> bool" where
  "worker_ok cl es s w \<longleftrightarrow>
     (st_args s w = None \<longleftrightarrow> st_cr s w \<notin> {CrArgs, CrWait})
   \<and> (st_th s w = ThNone \<longleftrightarrow> st_cr s w \<notin> {CrWait, CrReturned})
   \<and> (st_init s w \<in> {InRunning, InDone} \<longleftrightarrow> st_th s w \<in> {ThInit, ThIdle})
   \<and> (st_init s w = InNone \<longleftrightarrow> st_cr s w \<in> {CrNone, CrWorker, CrMain})
   \<and> (st_cr s w = CrReturned \<longrightarrow> st_init s w = InDone)
   \<and> (st_cr s w = CrMain \<or> st_th s w \<in> {ThSetup, ThIdleSet, ThInit, ThIdle} \<longrightarrow>
        st_tid s w \<noteq> None \<and> (\<exists>f. st_ctx s w = Some (install f w cl es)))
   \<and> (st_cr s w = CrMain \<or> st_th s w \<in> {ThIdleSet, ThInit, ThIdle} \<longrightarrow> st_idle s w \<noteq> None)"

definition start_inv :: "addr \<Rightarrow> addr \<Rightarrow> start_sys \<Rightarrow> bool" where
  "start_inv cl es s \<longleftrightarrow> (\<forall>w. worker_ok cl es s w)
     \<and> (\<exists>ps. sched_rep (st_sched s) ps \<and> set ps = {w. st_cr s w \<noteq> CrNone})"

lemmas start_ops = aw_fibre_def aw_args_def aw_thread_def aw_return_def threadHelper_def riw_setup_def
  riw_idle_def riw_run_def setupWorker_def setIdleLoop_def

lemma new_Worker_rep:
  assumes "sched_rep (st_sched s) ps" and "w \<notin> set ps" "w \<noteq> 0" "Prev (ringHeap (st_sched s)) w = 0" "Next (ringHeap (st_sched s)) w = 0"
  shows "\<exists>sc qs. new_Worker w s = Some (s\<lparr>st_sched := sc\<rparr>) \<and> sched_rep sc qs \<and> set qs = insert w (set ps)"
proof -
  obtain sc where sc: "addProcessor w (st_sched s) = Some sc" "sched_rep sc (if ps = [] then [w] else hd ps # w # tl ps)"
    using addProcessor_rep [OF assms] by blast
  moreover have "set (if ps = [] then [w] else hd ps # w # tl ps) = insert w (set ps)" by (cases ps) auto
  ultimately show ?thesis by (auto simp: new_Worker_def)
qed

lemma start_inv_init:
  assumes "m \<noteq> 0" "Prev h m = 0" "Next h m = 0" "registerWorker cl es m mf idf self (start_empty h) = Some s"
  shows "start_inv cl es s"
proof -
  obtain sc qs where n: "new_Worker m (start_empty h) = Some ((start_empty h)\<lparr>st_sched := sc\<rparr>)" "sched_rep sc qs" "set qs = {m}"
    using new_Worker_rep [of "start_empty h" "[]" m] assms(1-3) by (auto simp: start_empty_def new_sched_def sched_rep_def)
  with assms(4) have "s = (setIdleLoop m idf (setupWorker cl es mf m self ((start_empty h)\<lparr>st_sched := sc\<rparr>)))\<lparr>st_cr := (\<lambda>_. CrNone)(m := CrMain)\<rparr>"
    by (auto simp: registerWorker_def start_empty_def)
  with n show ?thesis
    by (auto simp: start_inv_def worker_ok_def start_ops start_empty_def intro!: exI [of _ qs])
qed

text \<open>A step of one worker.\<close>

lemma start_inv_local:
  assumes "start_inv cl es s" and "worker_ok cl es s' w"
    and "st_sched s' = st_sched s" and "st_cr s w \<noteq> CrNone" "st_cr s' w \<noteq> CrNone"
    and "\<And>v. v \<noteq> w \<Longrightarrow> st_tid s' v = st_tid s v \<and> st_ctx s' v = st_ctx s v \<and> st_idle s' v = st_idle s v
      \<and> st_args s' v = st_args s v \<and> st_init s' v = st_init s v \<and> st_cr s' v = st_cr s v \<and> st_th s' v = st_th s v"
  shows "start_inv cl es s'"
proof -
  have "worker_ok cl es s' v" for v
  proof (cases "v = w")
    case False
    then have "worker_ok cl es s' v = worker_ok cl es s v" using assms(6) by (simp add: worker_ok_def)
    with assms(1) show ?thesis by (simp add: start_inv_def)
  qed (simp add: assms(2))
  moreover have "st_cr s' v \<noteq> CrNone \<longleftrightarrow> st_cr s v \<noteq> CrNone" for v
    using assms(4-6) by (cases "v = w") auto
  ultimately show ?thesis using assms(1,3) by (simp add: start_inv_def)
qed

lemma start_inv_step:
  assumes "start_step cl es s s'" and inv: "start_inv cl es s"
  shows "start_inv cl es s'"
proof -
  obtain ps where ps: "sched_rep (st_sched s) ps" "set ps = {w. st_cr s w \<noteq> CrNone}"
    using inv by (auto simp: start_inv_def)
  have ok: "worker_ok cl es s w" for w using inv by (simp add: start_inv_def)
  show ?thesis using assms(1)
  proof cases
    case (worker w)
    then obtain sc qs where n: "new_Worker w s = Some (s\<lparr>st_sched := sc\<rparr>)" "sched_rep sc qs" "set qs = insert w (set ps)"
      using new_Worker_rep [OF ps(1), of w] ps(2) by auto
    with worker have s': "s' = s\<lparr>st_sched := sc, st_cr := (st_cr s)(w := CrWorker)\<rparr>" by (simp add: aw_worker_def)
    have "worker_ok cl es s' v" for v
      using ok [of v] worker(1) by (auto simp: s' worker_ok_def)
    moreover have "sched_rep (st_sched s') qs \<and> set qs = {v. st_cr s' v \<noteq> CrNone}"
      using n ps(2) by (auto simp: s')
    ultimately show ?thesis unfolding start_inv_def by blast
  next
    case (place p sc)
    obtain q qs where q: "ps = q # qs" using place(2) ps(1) by (cases ps) (auto simp: sched_rep_def placement_def)
    then have "sched_rep sc (qs @ [q])" using placement_rep ps(1) place(2) by fastforce
    moreover have "set (qs @ [q]) = set ps" using q by auto
    moreover have "worker_ok cl es s' v" for v using ok [of v] by (simp add: place(1) worker_ok_def)
    ultimately show ?thesis
      using ps(2) unfolding start_inv_def by (intro conjI allI exI [of _ "qs @ [q]"]) (simp_all add: place(1))
  next
    case (fibre w)
    show ?thesis
      by (rule start_inv_local [OF inv, of _ w])
        (use ok [of w] fibre in \<open>auto simp: worker_ok_def start_ops\<close>)
  next
    case (args w f)
    show ?thesis
      by (rule start_inv_local [OF inv, of _ w])
        (use ok [of w] args in \<open>auto simp: worker_ok_def start_ops\<close>)
  next
    case (thread w)
    show ?thesis
      by (rule start_inv_local [OF inv, of _ w])
        (use ok [of w] thread in \<open>auto simp: worker_ok_def start_ops\<close>)
  next
    case (joined w)
    then have i: "st_init s w = InDone"
      and s': "s' = s\<lparr>st_args := (st_args s)(w := None), st_cr := (st_cr s)(w := CrReturned)\<rparr>"
      by (auto simp: aw_return_def split: if_splits)
    show ?thesis unfolding s'
      by (rule start_inv_local [OF inv, of _ w])
        (use ok [of w] joined(1) i in \<open>auto simp: worker_ok_def\<close>)
  next
    case (helper w a)
    then have i: "st_args s w = Some a" and s': "s' = s\<lparr>st_th := (st_th s)(w := ThArgs)\<rparr>"
      by (auto simp: threadHelper_def bind_eq_Some_conv)
    show ?thesis unfolding s'
      by (rule start_inv_local [OF inv, of _ w])
        (use ok [of w] helper(1) i in \<open>auto simp: worker_ok_def\<close>)
  next
    case (set_up w f self)
    show ?thesis
      by (rule start_inv_local [OF inv, of _ w])
        (use ok [of w] set_up in \<open>auto simp: worker_ok_def start_ops\<close>)
  next
    case (idle w f)
    show ?thesis
      by (rule start_inv_local [OF inv, of _ w])
        (use ok [of w] idle in \<open>auto simp: worker_ok_def start_ops\<close>)
  next
    case (run w)
    then have i: "st_init s w = InReady"
      and s': "s' = s\<lparr>st_init := (st_init s)(w := InRunning), st_th := (st_th s)(w := ThInit)\<rparr>"
      by (auto simp: riw_run_def split: if_splits)
    show ?thesis unfolding s'
      by (rule start_inv_local [OF inv, of _ w])
        (use ok [of w] run(1) i in \<open>auto simp: worker_ok_def\<close>)
  next
    case (loop w)
    show ?thesis
      by (rule start_inv_local [OF inv, of _ w])
        (use ok [of w] loop in \<open>auto simp: worker_ok_def start_ops\<close>)
  next
    case (finish w)
    have "st_cr s w \<notin> {CrNone, CrWorker, CrMain}" "st_th s w \<in> {ThInit, ThIdle}"
      using ok [of w] finish(2) by (simp_all add: worker_ok_def)
    then show ?thesis unfolding finish(1)
      by (intro start_inv_local [OF inv, of _ w])
        (use ok [of w] finish(2) in \<open>simp_all add: worker_ok_def\<close>)
  qed
qed

lemma start_reach_inv: "start_reach cl es s \<Longrightarrow> start_inv cl es s"
  by (induction rule: start_reach.induct) (blast intro: start_inv_init start_inv_step)+

section \<open>Properties\<close>

text \<open>The walk along the ring visits the processors in order.\<close>

lemma sysid_walk_ring:
  "dseg (ringHeap (st_sched s)) (p # ps) \<Longrightarrow> n \<le> length (p # ps) \<Longrightarrow> sysid_walk n p s = map (st_tid s) (take n (p # ps))"
proof (induction ps arbitrary: p n)
  case Nil
  then show ?case by (cases n) simp_all
next
  case (Cons q ps)
  then show ?case by (cases n) simp_all
qed

lemma getWorkerSysIDs_rep:
  assumes "sched_rep (st_sched s) ps"
  shows "getWorkerSysIDs cnt s = (map (st_tid s) (take cnt ps), length ps)"
proof (cases ps)
  case Nil
  with assms show ?thesis by (simp add: getWorkerSysIDs_def sched_rep_def)
next
  case (Cons p qs)
  then have "dseg (ringHeap (st_sched s)) (p # qs)" "placeProc (st_sched s) = p" "ringCount (st_sched s) = length (p # qs)"
    using assms by (auto simp: sched_rep_def ring_alt)
  with Cons show ?thesis
    by (simp add: getWorkerSysIDs_def sysid_walk_ring min_def del: sysid_walk.simps)
qed


text \<open>Between the constructor of the worker and the start of its thread, \<^verbatim>\<open>getWorkerSysIDs\<close> of another
  thread reads an uninitialised id.\<close>

definition links0 :: dheap where "links0 = \<lparr>Next = (\<lambda>_. 0), Prev = (\<lambda>_. 0)\<rparr>"

lemma sysids_uninitialised:
  "\<exists>s. start_reach 1 2 s \<and> getWorkerSysIDs 2 s = ([Some 77, None], 2)"
proof -
  obtain s1 where s1: "registerWorker 1 2 16 3 4 77 (start_empty links0) = Some s1"
    "st_cr s1 32 = CrNone" "Prev (ringHeap (st_sched s1)) 32 = 0" "Next (ringHeap (st_sched s1)) 32 = 0"
    "placeProc (st_sched s1) = 16" "ringCount (st_sched s1) = 1" "Next (ringHeap (st_sched s1)) 16 = 16"
    "Prev (ringHeap (st_sched s1)) 16 = 16" "st_tid s1 16 = Some 77" "st_tid s1 32 = None"
    by (simp add: registerWorker_def new_Worker_def addProcessor_def start_empty_def new_sched_def links0_def
      ring_close_def set_Next_def set_Prev_def start_ops)
  have r1: "start_reach 1 2 s1"
    by (rule start_reach.start [OF _ _ _ s1(1)]) (simp_all add: links0_def)
  have rep: "sched_rep (st_sched s1) [16]"
    using s1(5-8) by (simp add: sched_rep_def ring_def)
  obtain sc where sc: "addProcessor 32 (st_sched s1) = Some sc" "sched_rep sc [16, 32]"
    using addProcessor_rep [OF rep, of 32] s1(3,4) by auto
  define s2 where "s2 = s1\<lparr>st_sched := sc, st_cr := (st_cr s1)(32 := CrWorker)\<rparr>"
  have "aw_worker 32 s1 = Some s2" using sc(1) by (simp add: aw_worker_def new_Worker_def s2_def)
  then have "start_step 1 2 s1 s2" using s1(2-4) by (intro start_step.worker [of s1 32]) simp_all
  then have "start_reach 1 2 s2" by (rule start_reach.step [OF r1])
  moreover have "getWorkerSysIDs 2 s2 = ([Some 77, None], 2)"
    using getWorkerSysIDs_rep [of s2 "[16, 32]" 2] sc(2) s1(9,10) by (simp add: s2_def)
  ultimately show ?thesis by blast
qed


end
