(* ===== verification/Debug_Options.thy ===== *)
theory Debug_Options
  imports Bitmap_Model "HOL-Library.Sublist"
begin

text \<open>
  The parsing of the debug string in \<^verbatim>\<open>src/src/runtime/Debug.cc\<close>: words separated by commas,
  each of which selects the debug level whose name it abbreviates. \<^verbatim>\<open>DBG::init\<close> writes a NUL
  over each separator and restores it afterwards; here a word is cut off instead. The messages are left out.
\<close>

section \<open>Definitions\<close>

definition Basic :: nat where "Basic = 0"

definition DebugOptions :: "string list" where
  "DebugOptions = [''basic'', ''blocking'', ''polling'', ''scheduling'', ''threads'', ''warning'']"

text \<open>Is the result of \<^verbatim>\<open>strncmp\<close> zero? The end of a list is the terminating NUL.\<close>

fun strncmp_zero :: "string \<Rightarrow> string \<Rightarrow> nat \<Rightarrow> bool" where
  "strncmp_zero a b 0 = True"
| "strncmp_zero (x # a) (y # b) (Suc n) = (x = y \<and> strncmp_zero a b n)"
| "strncmp_zero [] [] (Suc n) = True"
| "strncmp_zero a b (Suc n) = False"

text \<open>The inner loop: \<open>i\<close> is the option that comes next, \<open>level\<close> the match so far. A second match leaves the
  loop with no result (\<^verbatim>\<open>goto nextoption\<close>).\<close>

fun match_loop :: "string \<Rightarrow> string list \<Rightarrow> nat \<Rightarrow> nat option \<Rightarrow> nat option option" where
  "match_loop w [] i level = Some level"
| "match_loop w (opt # opts) i level =
     (if strncmp_zero w opt (length w)
      then (case level of None \<Rightarrow> match_loop w opts (i + 1) (Some i) | Some _ \<Rightarrow> None)
      else match_loop w opts (i + 1) level)"

function dbg_loop :: "string list \<Rightarrow> string \<Rightarrow> mword \<Rightarrow> mword" where
  "dbg_loop options wordstart levels =
     (let w = takeWhile (\<lambda>c. c \<noteq> CHR '','') wordstart;
          levels' = (case match_loop w options 0 None of Some (Some level) \<Rightarrow> bit_set levels level | _ \<Rightarrow> levels)
      in case dropWhile (\<lambda>c. c \<noteq> CHR '','') wordstart of
           [] \<Rightarrow> levels'
         | _ # rest \<Rightarrow> dbg_loop options rest levels')"
  by pat_completeness auto
termination
proof (relation "measure (\<lambda>(_, ws, _). length ws)")
  fix options ws levels w levels' c and rest :: string
  assume "dropWhile (\<lambda>c. c \<noteq> CHR '','') ws = c # rest"
  then have "length (c # rest) \<le> length ws" by (metis length_dropWhile_le)
  then show "((options, rest, levels'), options, ws, levels) \<in> measure (\<lambda>(_, ws, _). length ws)" by simp
qed simp

definition dbg_init :: "string list \<Rightarrow> string \<Rightarrow> mword" where
  "dbg_init options dstring = dbg_loop options dstring (bit_set 0 Basic)"

definition dbg_test :: "mword \<Rightarrow> nat \<Rightarrow> bool" where "dbg_test levels c = bit_tst levels c"

declare dbg_loop.simps [simp del]

section \<open>Words and abbreviations\<close>

lemma strncmp_zero_prefix: "strncmp_zero w opt (length w) \<longleftrightarrow> prefix w opt"
proof (induction w arbitrary: opt)
  case (Cons x w)
  then show ?case by (cases opt) auto
qed simp

text \<open>The options that a word abbreviates.\<close>

definition abbreviated :: "string list \<Rightarrow> string \<Rightarrow> nat set" where
  "abbreviated options w = {l. l < length options \<and> prefix w (options ! l)}"

lemma match_loop_eq:
  "match_loop w opts i level = Some (Some l) \<longleftrightarrow>
     (if level = None then (+) i ` abbreviated opts w = {l} else level = Some l \<and> abbreviated opts w = {})"
proof (induction opts arbitrary: i level)
  case Nil
  then show ?case by (auto simp: abbreviated_def)
next
  case (Cons opt opts)
  have a: "abbreviated (opt # opts) w = (if prefix w opt then {0} else {}) \<union> Suc ` abbreviated opts w"
    by (auto simp: abbreviated_def less_Suc_eq_0_disj)
  have shift: "(+) i ` Suc ` A = (+) (i + 1) ` A" for A by (auto simp: image_image)
  show ?case
    by (auto simp: Cons.IH a strncmp_zero_prefix shift image_Un split: option.split)
qed

lemma match_loop_unique: "match_loop w options 0 None = Some (Some l) \<longleftrightarrow> abbreviated options w = {l}"
  by (simp add: match_loop_eq)

text \<open>The words between commas.\<close>

definition word_of :: "string \<Rightarrow> string \<Rightarrow> bool" where
  "word_of s w \<longleftrightarrow> (\<exists>u v. s = u @ w @ v \<and> (u = [] \<or> last u = CHR '','') \<and> (v = [] \<or> hd v = CHR '','')
     \<and> CHR '','' \<notin> set w)"

lemma word_of_no_comma:
  assumes "CHR '','' \<notin> set s"
  shows "word_of s w \<longleftrightarrow> w = s"
proof
  assume "word_of s w"
  then obtain u v where uv: "s = u @ w @ v" "u = [] \<or> last u = CHR '',''" "v = [] \<or> hd v = CHR '',''"
    by (auto simp: word_of_def)
  with assms have "CHR '','' \<notin> set u" "CHR '','' \<notin> set v" by auto
  with uv(2,3) have "u = []" "v = []" by (metis last_in_set, metis hd_in_set)
  with uv(1) show "w = s" by simp
next
  assume "w = s"
  with assms show "word_of s w" unfolding word_of_def by (intro exI [of _ "[]"]) simp
qed

lemma cut_word: "c \<notin> set a \<Longrightarrow> takeWhile (\<lambda>x. x \<noteq> c) (a @ c # s) = a"
  by (induction a) auto

lemma word_of_comma:
  assumes "CHR '','' \<notin> set a"
  shows "word_of (a @ CHR '','' # s) w \<longleftrightarrow> w = a \<or> word_of s w"
proof
  assume "word_of (a @ CHR '','' # s) w"
  then obtain u v where uv: "a @ CHR '','' # s = u @ w @ v" "u = [] \<or> last u = CHR '',''"
    "v = [] \<or> hd v = CHR '',''" "CHR '','' \<notin> set w" by (auto simp: word_of_def)
  show "w = a \<or> word_of s w"
  proof (cases "u = []")
    case True
    with uv(1) have eq: "a @ CHR '','' # s = w @ v" by simp
    have "v \<noteq> []" using eq uv(4) by auto
    then obtain v' where "v = CHR '','' # v'" using uv(3) by (metis list.sel(1) neq_Nil_conv)
    with eq have "a @ CHR '','' # s = w @ CHR '','' # v'" by simp
    then have "w = a" using cut_word [OF assms, of s] cut_word [OF uv(4), of v'] by simp
    then show ?thesis ..
  next
    case False
    then obtain u' where u: "u = u' @ [CHR '','']" using uv(2) by (metis append_butlast_last_id)
    with uv(1) have eq: "a @ CHR '','' # s = u' @ CHR '','' # w @ v" by simp
    have "\<exists>x. (u' = a \<and> s = w @ v) \<or> (u' = a @ CHR '','' # x \<and> s = x @ CHR '','' # w @ v)"
    proof -
      from eq consider us where "a = u' @ us" "us @ CHR '','' # s = CHR '','' # w @ v"
        | us where "u' = a @ us" "CHR '','' # s = us @ CHR '','' # w @ v"
        unfolding append_eq_append_conv2 by metis
      then show ?thesis
      proof cases
        case 1
        with assms show ?thesis by (cases us) auto
      next
        case 2
        then show ?thesis by (cases us) auto
      qed
    qed
    then obtain x where "(u' = a \<and> s = w @ v) \<or> (u' = a @ CHR '','' # x \<and> s = x @ CHR '','' # w @ v)" ..
    then have "word_of s w"
    proof
      assume "u' = a \<and> s = w @ v"
      then show ?thesis using uv(3,4) unfolding word_of_def by (intro exI [of _ "[]"] exI [of _ v]) simp
    next
      assume "u' = a @ CHR '','' # x \<and> s = x @ CHR '','' # w @ v"
      then show ?thesis using uv(3,4) unfolding word_of_def
        by (intro exI [of _ "x @ [CHR '','']"] exI [of _ v]) simp
    qed
    then show ?thesis ..
  qed
next
  assume "w = a \<or> word_of s w"
  then show "word_of (a @ CHR '','' # s) w"
  proof
    assume "w = a"
    then show ?thesis using assms unfolding word_of_def
      by (intro exI [of _ "[]"] exI [of _ "CHR '','' # s"]) simp
  next
    assume "word_of s w"
    then obtain u v where uv: "s = u @ w @ v" "u = [] \<or> last u = CHR '',''" "v = [] \<or> hd v = CHR '',''" "CHR '','' \<notin> set w"
      by (auto simp: word_of_def)
    then show ?thesis unfolding word_of_def
      by (intro exI [of _ "a @ CHR '','' # u"] exI [of _ v]) auto
  qed
qed

section \<open>Property\<close>

lemma dbg_loop_bit:
  assumes "length options \<le> 64"
  shows "bit (dbg_loop options s levels) l \<longleftrightarrow> bit levels l \<or> (\<exists>w. word_of s w \<and> abbreviated options w = {l})"
  using assms
proof (induction options s levels rule: dbg_loop.induct)
  case (1 options s levels)
  let ?w = "takeWhile (\<lambda>c. c \<noteq> CHR '','') s"
  define levels' where "levels' =
    (case match_loop ?w options 0 None of Some (Some level) \<Rightarrow> bit_set levels level | _ \<Rightarrow> levels)"
  have nc: "CHR '','' \<notin> set ?w" by (auto dest: set_takeWhileD)
  have here: "bit levels' l \<longleftrightarrow> bit levels l \<or> abbreviated options ?w = {l}"
  proof (cases "\<exists>k. match_loop ?w options 0 None = Some (Some k)")
    case True
    then obtain k where k: "match_loop ?w options 0 None = Some (Some k)" ..
    then have ab: "abbreviated options ?w = {k}" by (simp only: match_loop_unique)
    have "k \<in> abbreviated options ?w" unfolding ab by simp
    then have "k < 64" using "1.prems" by (simp add: abbreviated_def)
    then show ?thesis by (auto simp: levels'_def k ab bit_ops(1))
  next
    case False
    then consider "match_loop ?w options 0 None = None" | "match_loop ?w options 0 None = Some None"
      by (metis option.exhaust)
    then have "levels' = levels" by cases (simp_all only: levels'_def option.case)
    moreover have "abbreviated options ?w \<noteq> {l}" using False match_loop_unique by metis
    ultimately show ?thesis by simp
  qed
  show ?case
  proof (cases "dropWhile (\<lambda>c. c \<noteq> CHR '','') s")
    case Nil
    then have "s = ?w" by (metis append_Nil2 takeWhile_dropWhile_id)
    with nc have "word_of s w \<longleftrightarrow> w = ?w" for w using word_of_no_comma by metis
    moreover have "dbg_loop options s levels = levels'"
      unfolding levels'_def by (subst dbg_loop.simps, unfold Nil Let_def) simp
    ultimately show ?thesis using here by simp
  next
    case (Cons c rest)
    have c: "c = CHR '',''" using hd_dropWhile [of "\<lambda>c. c \<noteq> CHR '',''" s] unfolding Cons by simp
    have s: "s = ?w @ CHR '','' # rest"
      using takeWhile_dropWhile_id [of "\<lambda>c. c \<noteq> CHR '',''" s, symmetric] unfolding Cons c .
    have words: "word_of s w \<longleftrightarrow> w = ?w \<or> word_of rest w" for w
      using word_of_comma [OF nc, of rest w] by (simp only: s [symmetric])
    have "bit (dbg_loop options rest levels') l \<longleftrightarrow> bit levels' l \<or> (\<exists>w. word_of rest w \<and> abbreviated options w = {l})"
      using "1.IH" [OF refl _ Cons, of levels'] "1.prems" by (simp add: levels'_def)
    moreover have "dbg_loop options s levels = dbg_loop options rest levels'"
      unfolding levels'_def by (subst dbg_loop.simps, unfold Cons Let_def) simp
    moreover have "(\<exists>w. word_of s w \<and> A w) \<longleftrightarrow> A ?w \<or> (\<exists>w. word_of rest w \<and> A w)" for A :: "string \<Rightarrow> bool"
      unfolding words by blast
    ultimately show ?thesis by (simp only: here disj_assoc)
  qed
qed

text \<open>\<^verbatim>\<open>DBG::init\<close> enables the basic level and exactly those levels whose name is the only one that
  some word of the string abbreviates; other words, e.g. ambiguous ones or the empty word, have no effect.\<close>

theorem dbg_init_correct:
  "dbg_test (dbg_init DebugOptions s) l \<longleftrightarrow> l = Basic \<or> (\<exists>w. word_of s w \<and> abbreviated DebugOptions w = {l})"
  unfolding dbg_test_def dbg_init_def bit_tst_iff
  by (subst dbg_loop_bit) (auto simp: DebugOptions_def bit_ops(1) Basic_def)

end
