(* ===== verification/Master_Timer.thy ===== *)
theory Master_Timer
  imports Poller_Model
begin

text \<open>
  The master poller of \<^verbatim>\<open>src/src/libfibre/Poller.h\<close> and \<^verbatim>\<open>Poller.cc\<close> together with the timer queue of
  \<^verbatim>\<open>src/src/runtime/BlockingSync.h\<close>: the poll thread waits in \<^verbatim>\<open>epoll_wait\<close>, the timer descriptor that
  \<^verbatim>\<open>setTimer\<close> programs becomes readable when the earliest deadline has passed, its event opens the input
  semaphore of the descriptor, and the next \<^verbatim>\<open>prePoll\<close> takes the semaphore, reads the descriptor and runs
  \<^verbatim>\<open>checkExpiry\<close>. Every step of the poll thread interleaves with sleeping, cancelled and woken freds, with
  the clock and with the other users of the descriptor table. The behaviour of \<^verbatim>\<open>timerfd\<close> and
  \<^verbatim>\<open>epoll\<close> (level-triggered) is the documented one. \<open>mctor_step\<close> models the constructor of the
  master poller, which starts the thread before it creates the timer descriptor.
\<close>

section \<open>State\<close>

text \<open>Where the poll thread is: \<open>MLoop\<close> at the test of \<^verbatim>\<open>pollTerminate\<close>, \<open>MPre\<close> before \<^verbatim>\<open>tryblock\<close>,
  \<open>MRead\<close> before \<^verbatim>\<open>read\<close>, \<open>MNow\<close> at the start of \<^verbatim>\<open>checkExpiry\<close>, \<open>MCheck\<close> with the time read and the
  lock of the queue still to be taken, \<open>MWait\<close> in \<^verbatim>\<open>epoll_wait\<close>, \<open>MNotify\<close> in \<^verbatim>\<open>notifyAll\<close> with the events
  left.\<close>

datatype mt_pc = MLoop | MPre | MRead | MNow | MCheck "time" | MWait | MNotify "epoll_event list" | MExit

record mt_sys =
  mtq :: timerq
  mtF :: freds
  mt_es :: evscope
  mt_sleepers :: "fid set"        \<comment> \<open>freds inside \<open>blockTimeout\<close>\<close>
  mt_clock :: time
  mt_hw :: "time option"          \<comment> \<open>programmed expiry of the timer descriptor\<close>
  mt_ticks :: nat                 \<comment> \<open>its expirations that have not been read\<close>
  mt_at :: mt_pc
  mt_term :: bool                 \<comment> \<open>\<open>pollTerminate\<close>\<close>
  mt_waker :: "int option"        \<comment> \<open>readable eventfd of \<open>terminate\<close>\<close>

text \<open>\<^verbatim>\<open>timerfd_settime\<close> with an absolute time: a zero value disarms, any call clears the expirations.\<close>

definition timerfd_settime :: "(int \<times> int) \<times> time \<Rightarrow> time option" where
  "timerfd_settime tval = (if snd tval = Time 0 0 then None else Some (snd tval))"

definition mt_newTimeout :: "time option \<Rightarrow> mt_sys \<Rightarrow> mt_sys" where
  "mt_newTimeout arm s = (case arm of None \<Rightarrow> s
     | Some t \<Rightarrow> s\<lparr>mt_hw := timerfd_settime (setTimer t), mt_ticks := 0\<rparr>)"

section \<open>Steps\<close>

text \<open>Steps of the poll thread \<open>mp\<close> with timer descriptor \<open>tfd\<close>: \<^verbatim>\<open>BaseThreadPoller::pollLoop\<close> with
  \<^verbatim>\<open>MasterPoller::prePoll\<close>.\<close>

inductive mt_master :: "int \<Rightarrow> fid \<Rightarrow> mt_sys \<Rightarrow> mt_sys \<Rightarrow> bool" for tfd mp where
  leave: "mt_at s = MLoop \<Longrightarrow> mt_term s \<Longrightarrow> mt_master tfd mp s (s\<lparr>mt_at := MExit\<rparr>)"
| loop: "mt_at s = MLoop \<Longrightarrow> \<not> mt_term s \<Longrightarrow> mt_master tfd mp s (s\<lparr>mt_at := MPre\<rparr>)"
| tryblock: "mt_at s = MPre \<Longrightarrow> es_tryblock (mt_clock s) mp tfd (mtF s) (mt_es s) = Some (r, es') \<Longrightarrow>
     mt_master tfd mp s (s\<lparr>mt_es := es', mt_at := if r then MRead else MWait\<rparr>)"
| readfd: "mt_at s = MRead \<Longrightarrow>
     mt_master tfd mp s (s\<lparr>mt_ticks := 0, mt_at := if mt_ticks s = 0 then MWait else MNow\<rparr>)"
| readclock: "mt_at s = MNow \<Longrightarrow> mt_master tfd mp s (s\<lparr>mt_at := MCheck (mt_clock s)\<rparr>)"
| check: "mt_at s = MCheck now \<Longrightarrow> checkExpiry now (mtq s) (mtF s) = (rs, q, F, arm) \<Longrightarrow>
     mt_master tfd mp s (mt_newTimeout arm (s\<lparr>mtq := q, mtF := F, mt_at := MWait\<rparr>))"
| poll: "mt_at s = MWait \<Longrightarrow> doPoll (r, e) = Some n \<Longrightarrow> length evs = nat n \<Longrightarrow> length evs \<le> MaxPoll \<Longrightarrow>
     (\<And>ev. ev \<in> set evs \<Longrightarrow> 0 \<le> ev_fd ev \<and> ev_fd ev < int (length (fdSyncVector (mt_es s)))) \<Longrightarrow>
     (\<And>ev. ev \<in> set evs \<Longrightarrow> ev_fd ev = tfd \<Longrightarrow> 0 < mt_ticks s \<and> ev_events ev = EPOLLIN) \<Longrightarrow>
     mt_master tfd mp s (s\<lparr>mt_at := MNotify evs\<rparr>)"
| notify: "mt_at s = MNotify (ev # evs) \<Longrightarrow> notifyOne ev (mtF s) (mt_es s) = Some (f, F', es') \<Longrightarrow>
     mt_master tfd mp s (s\<lparr>mtF := F', mt_es := es', mt_at := MNotify evs\<rparr>)"
| again: "mt_at s = MNotify [] \<Longrightarrow> mt_master tfd mp s (s\<lparr>mt_at := MLoop\<rparr>)"

text \<open>The addresses of the semaphores never change.\<close>

definition es_addrs :: "evscope \<Rightarrow> (addr \<times> addr) list" where
  "es_addrs es = map (\<lambda>s. (bq_addr (sem_bq (sfd_sync s True)), bq_addr (sem_bq (sfd_sync s False)))) (fdSyncVector es)"

text \<open>The timer expires.\<close>

inductive mt_fire :: "mt_sys \<Rightarrow> mt_sys \<Rightarrow> bool" where
  fire: "mt_hw s = Some t \<Longrightarrow> t \<le> mt_clock s \<Longrightarrow> mt_fire s (s\<lparr>mt_hw := None, mt_ticks := Suc (mt_ticks s)\<rparr>)"

text \<open>Everything else: freds that sleep, are cancelled or wake up, the clock, blocking I/O on other descriptors,
  and \<^verbatim>\<open>BaseThreadPoller::terminate\<close>, which sets the flag and then makes an eventfd of its own readable.\<close>

inductive mt_env :: "int \<Rightarrow> mt_sys \<Rightarrow> mt_sys \<Rightarrow> bool" for tfd where
  sleep: "cf \<notin> mt_sleepers s \<Longrightarrow> time_add (mt_clock s) timeout \<noteq> Time 0 0 \<Longrightarrow>
     sleepFred_begin (mt_clock s) timeout cf (mtq s) (mtF s) = Some (q, arm, F) \<Longrightarrow>
     mt_env tfd s (mt_newTimeout arm (s\<lparr>mtq := q, mtF := F, mt_sleepers := insert cf (mt_sleepers s)\<rparr>))"
| cancel: "a \<noteq> 0 \<Longrightarrow> a \<noteq> tq_addr (mtq s) \<Longrightarrow> mt_env tfd s (s\<lparr>mtF := race_won a f (mtF s)\<rparr>)"
| wake: "cf \<in> mt_sleepers s \<Longrightarrow> resumeInfo (mtF s cf) \<noteq> 0 \<Longrightarrow> sleepFred_end cf (mtq s) (mtF s) = (r, q) \<Longrightarrow>
     mt_env tfd s (s\<lparr>mtq := q, mt_sleepers := mt_sleepers s - {cf}\<rparr>)"
| clock: "mt_clock s \<le> t \<Longrightarrow> mt_env tfd s (s\<lparr>mt_clock := t\<rparr>)"
| io: "fdsync tfd es' = fdsync tfd (mt_es s) \<Longrightarrow> es_addrs es' = es_addrs (mt_es s) \<Longrightarrow> mt_env tfd s (s\<lparr>mt_es := es'\<rparr>)"
| term_flag: "mt_env tfd s (s\<lparr>mt_term := True\<rparr>)"
| term_wake: "mt_term s \<Longrightarrow> w \<noteq> tfd \<Longrightarrow> 0 \<le> w \<Longrightarrow> w < int (length (fdSyncVector (mt_es s))) \<Longrightarrow>
     mt_env tfd s (s\<lparr>mt_waker := Some w\<rparr>)"

definition mt_start :: "addr \<Rightarrow> freds \<Rightarrow> evscope \<Rightarrow> time \<Rightarrow> mt_sys" where
  "mt_start a F es now = \<lparr>mtq = new_timerq a, mtF = F, mt_es = es, mt_sleepers = {}, mt_clock = now, mt_hw = None, mt_ticks = 0,
     mt_at = MLoop, mt_term = False, mt_waker = None\<rparr>"

text \<open>The scope at the start: the timer descriptor is in the table, its input semaphore has no waiter, and no
  semaphore has the address of the timer queue.\<close>

definition timer_fd_ok :: "int \<Rightarrow> evscope \<Rightarrow> bool" where
  "timer_fd_ok tfd es \<longleftrightarrow> 0 \<le> tfd \<and> tfd < int (length (fdSyncVector es))
     \<and> (let m = sfd_sync (fdSyncVector es ! nat tfd) True in sem_counter m \<in> {0, 1} \<and> bq_nodes (sem_bq m) = [])"

definition es_addrs_ok :: "addr \<Rightarrow> evscope \<Rightarrow> bool" where
  "es_addrs_ok a es \<longleftrightarrow> (\<forall>(i, oa) \<in> set (es_addrs es). i \<noteq> 0 \<and> i \<noteq> a \<and> oa \<noteq> 0 \<and> oa \<noteq> a)"

inductive mt_reach :: "int \<Rightarrow> fid \<Rightarrow> addr \<Rightarrow> mt_sys \<Rightarrow> bool" for tfd mp a where
  start: "timer_fd_ok tfd es \<Longrightarrow> es_addrs_ok a es \<Longrightarrow> mt_reach tfd mp a (mt_start a F es now)"
| master: "mt_reach tfd mp a s \<Longrightarrow> mt_master tfd mp s s' \<Longrightarrow> mt_reach tfd mp a s'"
| fire: "mt_reach tfd mp a s \<Longrightarrow> mt_fire s s' \<Longrightarrow> mt_reach tfd mp a s'"
| env: "mt_reach tfd mp a s \<Longrightarrow> mt_env tfd s s' \<Longrightarrow> mt_reach tfd mp a s'"

section \<open>Invariant\<close>

definition timer_covered :: "mt_sys \<Rightarrow> bool" where
  "timer_covered s \<longleftrightarrow> (tq_queue (mtq s) \<noteq> [] \<longrightarrow> 0 < mt_ticks s \<or> mt_at s = MNow \<or> (\<exists>now. mt_at s = MCheck now)
     \<or> (\<exists>h. mt_hw s = Some h \<and> h \<le> fst (hd (tq_queue (mtq s)))))"

definition mt_inv :: "int \<Rightarrow> mt_sys \<Rightarrow> bool" where
  "mt_inv tfd s \<longleftrightarrow> tq_wf (mtq s) (mtF s) (mt_sleepers s) \<and> Time 0 0 \<notin> fst ` set (tq_queue (mtq s))
     \<and> timer_covered s \<and> timer_fd_ok tfd (mt_es s) \<and> es_addrs_ok (tq_addr (mtq s)) (mt_es s)
     \<and> (\<forall>evs. mt_at s = MNotify evs \<longrightarrow> (\<forall>ev\<in>set evs. 0 \<le> ev_fd ev \<and> ev_fd ev < int (length (fdSyncVector (mt_es s)))
           \<and> (ev_fd ev = tfd \<longrightarrow> ev_events ev = EPOLLIN)))
     \<and> (\<forall>now. mt_at s = MCheck now \<longrightarrow> now \<le> mt_clock s)
     \<and> (mt_at s = MExit \<longrightarrow> mt_term s)
     \<and> (\<forall>w. mt_waker s = Some w \<longrightarrow> mt_term s \<and> w \<noteq> tfd \<and> 0 \<le> w \<and> w < int (length (fdSyncVector (mt_es s))))"

text \<open>What winning a race with another address does to the freds.\<close>

definition races_kept :: "addr \<Rightarrow> freds \<Rightarrow> freds \<Rightarrow> bool" where
  "races_kept a F F' \<longleftrightarrow> (\<forall>f. resumeInfo (F f) \<noteq> 0 \<longrightarrow> resumeInfo (F' f) = resumeInfo (F f))
     \<and> (\<forall>f. resumeInfo (F f) = 0 \<longrightarrow> resumeInfo (F' f) \<noteq> a)"

lemma races_kept_refl: "a \<noteq> 0 \<Longrightarrow> races_kept a F F"
  by (simp add: races_kept_def)

lemma tq_wf_races: "tq_wf q F B \<Longrightarrow> races_kept (tq_addr q) F F' \<Longrightarrow> tq_wf q F' B"
  unfolding tq_wf_def races_kept_def by metis

lemma race_won_races: "b \<noteq> 0 \<Longrightarrow> b \<noteq> a \<Longrightarrow> a \<noteq> 0 \<Longrightarrow> races_kept a F (race_won b f F)"
  by (simp add: races_kept_def race_won_def raceResume_def)

lemma sem_V_races:
  assumes "sem_V binary m F = (f, m', F')" and "bq_addr (sem_bq m) \<noteq> a" and "a \<noteq> 0"
  shows "races_kept a F F'" and "bq_addr (sem_bq m') = bq_addr (sem_bq m)"
    and "bq_nodes (sem_bq m) = [] \<Longrightarrow> bq_nodes (sem_bq m') = [] \<and> sem_counter m' = (if binary then 1 else sem_counter m + 1)"
proof -
  have "races_kept a F F' \<and> bq_addr (sem_bq m') = bq_addr (sem_bq m)"
  proof (cases "bq_waiters (sem_bq m) F")
    case Nil
    with assms(1) have "F' = F" "bq_addr (sem_bq m') = bq_addr (sem_bq m)"
      by (auto simp: sem_V_def bq_unblock_none Let_def)
    with assms(3) show ?thesis by (simp add: races_kept_refl)
  next
    case (Cons g gs)
    then have "resumeInfo (F g) = 0" by (auto simp: bq_waiters_def filter_eq_Cons_iff)
    moreover have "F' = F(g := (F g)\<lparr>resumeInfo := bq_addr (sem_bq m)\<rparr>)" "bq_addr (sem_bq m') = bq_addr (sem_bq m)"
      using assms(1) by (auto simp: sem_V_def bq_unblock_some [OF Cons] Let_def)
    ultimately show ?thesis using assms(2,3) by (auto simp: races_kept_def)
  qed
  then show "races_kept a F F'" and "bq_addr (sem_bq m') = bq_addr (sem_bq m)" by simp_all
  show "bq_nodes (sem_bq m) = [] \<Longrightarrow> bq_nodes (sem_bq m') = [] \<and> sem_counter m' = (if binary then 1 else sem_counter m + 1)"
    using assms(1) bq_unblock_none [of "sem_bq m" F] by (auto simp: sem_V_def bq_waiters_def)
qed

lemma fdsync_eq_Some: "fdsync fd es = Some s \<longleftrightarrow> 0 \<le> fd \<and> fd < int (length (fdSyncVector es)) \<and> s = fdSyncVector es ! nat fd"
  by (auto simp: fdsync_def rassert_def)

lemma es_addrs_fdset:
  assumes "fdsync fd es = Some s" and "\<And>i. bq_addr (sem_bq (sfd_sync s' i)) = bq_addr (sem_bq (sfd_sync s i))"
  shows "es_addrs (fdset fd s' es) = es_addrs es"
  using assms by (auto simp: es_addrs_def fdset_def fdsync_eq_Some map_update list_update_same_conv)

lemma es_addrs_length: "es_addrs es' = es_addrs es \<Longrightarrow> length (fdSyncVector es') = length (fdSyncVector es)"
  by (metis es_addrs_def length_map)

lemma es_addrs_okD:
  assumes "es_addrs_ok a es" and "fdsync fd es = Some s"
  shows "bq_addr (sem_bq (sfd_sync s Input)) \<noteq> 0" and "bq_addr (sem_bq (sfd_sync s Input)) \<noteq> a"
proof -
  have "s \<in> set (fdSyncVector es)" using assms(2) by (auto simp: fdsync_eq_Some)
  then show "bq_addr (sem_bq (sfd_sync s Input)) \<noteq> 0" and "bq_addr (sem_bq (sfd_sync s Input)) \<noteq> a"
    using assms(1) by (cases Input; force simp: es_addrs_ok_def es_addrs_def)+
qed

lemma es_unblock_timer:
  assumes "es_unblock Input fd F es = Some (f, F', es')" and "es_addrs_ok a es" and "a \<noteq> 0"
  shows "races_kept a F F'" and "es_addrs es' = es_addrs es" and "timer_fd_ok tfd es \<Longrightarrow> timer_fd_ok tfd es'"
    and "timer_fd_ok tfd es \<Longrightarrow> fd = tfd \<Longrightarrow> Input \<Longrightarrow> sem_counter (sfd_sync (fdSyncVector es' ! nat tfd) True) = 1"
proof -
  obtain s where s: "fdsync fd es = Some s" using assms(1) by (auto simp: es_unblock_def bind_eq_Some_conv)
  obtain f0 m F0 where "sem_V True (sfd_sync s Input) F = (f0, m, F0)" by (metis prod_cases3)
  with assms(1) s have m: "sem_V True (sfd_sync s Input) F = (f, m, F')"
    and es': "es' = fdset fd (s\<lparr>sfd_sync := (sfd_sync s)(Input := m)\<rparr>) es"
    by (auto simp: es_unblock_def)
  note ad = es_addrs_okD [OF assms(2) s, of Input]
  note v = sem_V_races [OF m ad(2) assms(3)]
  show "races_kept a F F'" by (rule v(1))
  show "es_addrs es' = es_addrs es" unfolding es' by (rule es_addrs_fdset [OF s]) (simp add: v(2))
  show "timer_fd_ok tfd es \<Longrightarrow> timer_fd_ok tfd es'"
    using s v(3) by (cases Input; cases "nat fd = nat tfd"; auto simp: timer_fd_ok_def es' fdset_def fdsync_eq_Some Let_def)
  show "timer_fd_ok tfd es \<Longrightarrow> fd = tfd \<Longrightarrow> Input \<Longrightarrow> sem_counter (sfd_sync (fdSyncVector es' ! nat tfd) True) = 1"
    using s v(3) by (auto simp: timer_fd_ok_def es' fdset_def fdsync_eq_Some Let_def)
qed

lemma notifyOne_timer:
  assumes "notifyOne ev F es = Some (f, F', es')" and "es_addrs_ok a es" and "a \<noteq> 0"
  shows "races_kept a F F'" and "es_addrs es' = es_addrs es" and "timer_fd_ok tfd es \<Longrightarrow> timer_fd_ok tfd es'"
  using assms es_unblock_timer(1-3) [OF _ assms(2,3)] races_kept_refl [OF assms(3)]
  by (auto simp: notifyOne_def split: if_splits)

lemma es_tryblock_timer:
  assumes "timer_fd_ok tfd es"
  shows "\<exists>es'. es_tryblock now mp tfd F es = Some (sem_counter (sfd_sync (fdSyncVector es ! nat tfd) True) = 1, es')
    \<and> es_addrs es' = es_addrs es \<and> timer_fd_ok tfd es' \<and> sem_counter (sfd_sync (fdSyncVector es' ! nat tfd) True) = 0"
proof -
  let ?s = "fdSyncVector es ! nat tfd"
  let ?m = "sfd_sync ?s True"
  let ?m' = "if sem_counter ?m = 1 then ?m\<lparr>sem_counter := 0\<rparr> else ?m"
  let ?s' = "?s\<lparr>sfd_sync := (sfd_sync ?s)(True := ?m')\<rparr>"
  have s: "fdsync tfd es = Some ?s" and c: "sem_counter ?m = 0 \<or> sem_counter ?m = 1" and n: "bq_nodes (sem_bq ?m) = []"
    using assms by (auto simp: timer_fd_ok_def fdsync_eq_Some Let_def)
  have "es_tryblock now mp tfd F es = Some (sem_counter ?m = 1, fdset tfd ?s' es)"
    using c s by (auto simp: es_tryblock_def sem_tryP_def sem_internalP_def)
  moreover have "es_addrs (fdset tfd ?s' es) = es_addrs es" by (rule es_addrs_fdset [OF s]) simp
  moreover have "fdSyncVector (fdset tfd ?s' es) ! nat tfd = ?s'" "length (fdSyncVector (fdset tfd ?s' es)) = length (fdSyncVector es)"
    using s by (auto simp: fdset_def fdsync_eq_Some)
  ultimately show ?thesis using c n assms by (auto simp: timer_fd_ok_def)
qed

section \<open>Every step keeps the invariant\<close>

lemma mt_newTimeout_sel [simp]:
  "mtq (mt_newTimeout arm s) = mtq s" "mtF (mt_newTimeout arm s) = mtF s" "mt_es (mt_newTimeout arm s) = mt_es s"
  "mt_sleepers (mt_newTimeout arm s) = mt_sleepers s" "mt_clock (mt_newTimeout arm s) = mt_clock s"
  "mt_at (mt_newTimeout arm s) = mt_at s" "mt_term (mt_newTimeout arm s) = mt_term s" "mt_waker (mt_newTimeout arm s) = mt_waker s"
  by (simp_all add: mt_newTimeout_def split: option.splits)

lemma covered_newTimeout:
  assumes "t = fst (hd (tq_queue (mtq s)))" and "t \<noteq> Time 0 0"
  shows "timer_covered (mt_newTimeout (Some t) s)"
  using assms by (simp add: timer_covered_def mt_newTimeout_def timerfd_settime_def setTimer_def)

lemma mt_master_inv:
  assumes "mt_master tfd mp s s'" and inv: "mt_inv tfd s"
  shows "mt_inv tfd s'"
  using assms(1)
proof cases
  case (tryblock r es')
  have "timer_fd_ok tfd (mt_es s)" using inv by (simp add: mt_inv_def)
  from es_tryblock_timer [OF this, of "mt_clock s" mp "mtF s"] tryblock(3)
  have "es_addrs es' = es_addrs (mt_es s)" "timer_fd_ok tfd es'" by auto
  with inv tryblock(1,2) es_addrs_length [of es' "mt_es s"] show ?thesis
    by (auto simp: mt_inv_def timer_covered_def es_addrs_ok_def)
next
  case (check now rs q F arm)
  have wf: "tq_wf (mtq s) (mtF s) (mt_sleepers s)" using inv by (simp add: mt_inv_def)
  note eq = checkExpiry_eq [OF wf check(3)] and wf' = checkExpiry_wf [OF wf check(3)]
  have nz: "Time 0 0 \<notin> fst ` set (tq_queue q)" and ad: "tq_addr q = tq_addr (mtq s)"
    using inv by (auto simp: mt_inv_def eq(1) tq_rest_def)
  let ?s = "s\<lparr>mtq := q, mtF := F, mt_at := MWait\<rparr>"
  have "timer_covered (mt_newTimeout arm ?s)"
  proof (cases "tq_queue q = []")
    case True
    then show ?thesis by (simp add: timer_covered_def)
  next
    case False
    then have "fst (hd (tq_queue q)) \<noteq> Time 0 0" using nz by (metis hd_in_set image_eqI)
    with False covered_newTimeout [of _ ?s] show ?thesis by (simp add: eq(3))
  qed
  with inv check(1) wf' nz ad show ?thesis by (simp add: mt_inv_def)
next
  case (notify ev evs f F' es')
  have "es_addrs_ok (tq_addr (mtq s)) (mt_es s)" "tq_addr (mtq s) \<noteq> 0" using inv by (auto simp: mt_inv_def tq_wf_def)
  note n = notifyOne_timer [OF notify(3) this]
  have "tq_wf (mtq s) F' (mt_sleepers s)" using inv n(1) by (auto simp: mt_inv_def intro: tq_wf_races)
  with inv n notify(1,2) es_addrs_length [OF n(2)] show ?thesis
    by (auto simp: mt_inv_def timer_covered_def es_addrs_ok_def)
qed (use inv in \<open>auto simp: mt_inv_def timer_covered_def\<close>)

lemma mt_fire_inv: "mt_fire s s' \<Longrightarrow> mt_inv tfd s \<Longrightarrow> mt_inv tfd s'"
  by (erule mt_fire.cases) (auto simp: mt_inv_def timer_covered_def)

lemma mt_sleep_inv:
  assumes "cf \<notin> mt_sleepers s" and "time_add (mt_clock s) timeout \<noteq> Time 0 0"
    and "sleepFred_begin (mt_clock s) timeout cf (mtq s) (mtF s) = Some (q, arm, F)" and inv: "mt_inv tfd s"
  shows "mt_inv tfd (mt_newTimeout arm (s\<lparr>mtq := q, mtF := F, mt_sleepers := insert cf (mt_sleepers s)\<rparr>))"
proof -
  let ?t = "time_add (mt_clock s) timeout" and ?s = "s\<lparr>mtq := q, mtF := F, mt_sleepers := insert cf (mt_sleepers s)\<rparr>"
  have e: "tq_enqueue cf ?t (mtq s) = (q, arm)" and F: "F = (mtF s)(cf := (mtF s cf)\<lparr>resumeInfo := 0\<rparr>)"
    using assms(3) by (auto simp: sleepFred_begin_def bind_eq_Some_conv prepareResumeRace_Some split: prod.splits)
  have wf: "tq_wf (mtq s) (mtF s) (mt_sleepers s)" using inv by (simp add: mt_inv_def)
  note en = tq_enqueue_wf [OF wf assms(1) e]
  have q: "tq_addr q = tq_addr (mtq s)" "set (tq_queue q) = insert (?t, cf) (set (tq_queue (mtq s)))"
    using e by (auto simp: tq_enqueue_def Let_def)
  have "timer_covered (mt_newTimeout arm ?s)"
  proof (cases "tq_queue (mtq s) = [] \<or> ?t < fst (hd (tq_queue (mtq s)))")
    case True
    then have "arm = Some ?t" "fst (hd (tq_queue q)) = ?t" using en(3,4) by (auto simp: min_def)
    with covered_newTimeout [of ?t ?s] assms(2) show ?thesis by simp
  next
    case False
    then have "arm = None" "fst (hd (tq_queue q)) = fst (hd (tq_queue (mtq s)))" using en(3,4) by (auto simp: min_def)
    with False inv show ?thesis by (simp add: mt_newTimeout_def mt_inv_def timer_covered_def)
  qed
  with inv en(1) q assms(2) F show ?thesis by (auto simp: mt_inv_def)
qed

lemma mt_env_inv:
  assumes "mt_env tfd s s'" and inv: "mt_inv tfd s"
  shows "mt_inv tfd s'"
  using assms(1)
proof cases
  case (sleep cf timeout q arm F)
  then show ?thesis using mt_sleep_inv inv by blast
next
  case (cancel a f)
  have "races_kept (tq_addr (mtq s)) (mtF s) (race_won a f (mtF s))"
    using race_won_races [OF cancel(2,3)] inv by (simp add: mt_inv_def tq_wf_def)
  with inv cancel(1) show ?thesis by (auto simp: mt_inv_def timer_covered_def intro: tq_wf_races)
next
  case (wake cf r q)
  have wf: "tq_wf (mtq s) (mtF s) (mt_sleepers s)" using inv by (simp add: mt_inv_def)
  note w = sleepFred_end_wf [OF wf wake(2-4)]
  have "tq_queue q \<noteq> [] \<Longrightarrow> tq_queue (mtq s) \<noteq> [] \<and> fst (hd (tq_queue (mtq s))) \<le> fst (hd (tq_queue q))"
    using hd_filter_le [of "tq_queue (mtq s)"] wf w(4) by (auto simp: tq_wf_def)
  then have "timer_covered (s\<lparr>mtq := q, mt_sleepers := mt_sleepers s - {cf}\<rparr>)"
    using inv by (auto simp: mt_inv_def timer_covered_def intro: order_trans)
  moreover have "tq_addr q = tq_addr (mtq s)"
    using wake(4) by (auto simp: sleepFred_end_def blockTimeout_end_def tq_erase_def Let_def split: if_splits)
  moreover have "Time 0 0 \<notin> fst ` set (tq_queue q)" using inv by (auto simp: w(4) mt_inv_def)
  ultimately show ?thesis using inv w(1) wake(1) by (simp add: mt_inv_def)
next
  case (io es')
  have "timer_fd_ok tfd es'"
    using inv io(2) es_addrs_length [OF io(3)] by (auto simp: mt_inv_def timer_fd_ok_def fdsync_def rassert_def split: if_splits)
  with inv io(1,3) es_addrs_length [OF io(3)] show ?thesis
    by (simp add: mt_inv_def timer_covered_def es_addrs_ok_def)
qed (use inv in \<open>auto simp: mt_inv_def timer_covered_def\<close>)

lemma mt_reach_inv: "mt_reach tfd mp a s \<Longrightarrow> a \<noteq> 0 \<Longrightarrow> mt_inv tfd s"
proof (induction rule: mt_reach.induct)
  case (start es F now)
  then show ?case by (simp add: mt_inv_def mt_start_def tq_wf_def new_timerq_def timer_covered_def)
qed (auto intro: mt_master_inv mt_fire_inv mt_env_inv)

section \<open>Progress\<close>

text \<open>The steps that happen without anybody else: the timer expires, and the poll thread runs, where
  \<^verbatim>\<open>epoll_wait\<close> returns only for the timer descriptor or the eventfd of \<^verbatim>\<open>terminate\<close>.\<close>

definition mt_own :: "int \<Rightarrow> fid \<Rightarrow> mt_sys \<Rightarrow> mt_sys \<Rightarrow> bool" where
  "mt_own tfd mp s s' \<longleftrightarrow> mt_fire s s' \<or> mt_master tfd mp s s'
     \<and> (mt_at s = MWait \<longrightarrow> (\<exists>ev. mt_at s' = MNotify [ev] \<and> (ev_fd ev = tfd \<or> mt_waker s = Some (ev_fd ev))))"

text \<open>The signal of the timer descriptor is on its way: its semaphore is open or about to be opened.\<close>

definition mt_signalled :: "int \<Rightarrow> mt_sys \<Rightarrow> bool" where
  "mt_signalled tfd s \<longleftrightarrow> sem_counter (sfd_sync (fdSyncVector (mt_es s) ! nat tfd) True) = 1
     \<or> (\<exists>evs. mt_at s = MNotify evs \<and> tfd \<in> ev_fd ` set evs)"

text \<open>A bound on the number of these steps.\<close>

fun mt_rank_pc :: "bool \<Rightarrow> bool \<Rightarrow> bool \<Rightarrow> time \<Rightarrow> mt_pc \<Rightarrow> nat" where
  "mt_rank_pc e c t now MExit = 0"
| "mt_rank_pc e c t now MWait = (if e then 4 else 10)"
| "mt_rank_pc e c t now (MCheck n) = (if e then 5 else 11) + (if n < now then 200 else 0)"
| "mt_rank_pc e c t now MNow = (if e then 6 else 12)"
| "mt_rank_pc e c t now MRead = (if e then 7 else if t then 4 else 13)"
| "mt_rank_pc e c t now MPre = (if e then 8 else if \<not> c then 11 else if t then 5 else 14)"
| "mt_rank_pc e c t now MLoop = (if e then 1 else if \<not> c then 12 else if t then 6 else 15)"
| "mt_rank_pc e c t now (MNotify evs) = (if e then 2 else if \<not> c then 13 else if t then 7 else 16) + length evs"

definition mt_rank :: "int \<Rightarrow> mt_sys \<Rightarrow> nat" where
  "mt_rank tfd s = mt_rank_pc (mt_term s) (mt_signalled tfd s) (0 < mt_ticks s) (mt_clock s) (mt_at s)
     + (if 0 < mt_ticks s then 20 else 0) + (if \<exists>h. mt_hw s = Some h \<and> h \<le> mt_clock s then 100 else 0)"

lemma mt_fire_rank: "mt_fire s s' \<Longrightarrow> mt_rank tfd s' < mt_rank tfd s"
proof (erule mt_fire.cases)
  fix u t assume "s = u" "s' = u\<lparr>mt_hw := None, mt_ticks := Suc (mt_ticks u)\<rparr>" "mt_hw u = Some t" "t \<le> mt_clock u"
  then show ?thesis by (cases "mt_at u") (auto simp: mt_rank_def mt_signalled_def)
qed

lemma notifyOne_signalled:
  assumes "notifyOne ev F es = Some (f, F', es')" and "es_addrs_ok a es" and "a \<noteq> 0" and "timer_fd_ok tfd es"
    and "0 \<le> ev_fd ev" and "ev_fd ev = tfd \<longrightarrow> ev_events ev = EPOLLIN"
  shows "sem_counter (sfd_sync (fdSyncVector es' ! nat tfd) True) = 1 \<longleftrightarrow>
    sem_counter (sfd_sync (fdSyncVector es ! nat tfd) True) = 1 \<or> ev_fd ev = tfd"
proof (cases "ev_fd ev = tfd")
  case True
  with assms(1,6) have "es_unblock True tfd F es = Some (f, F', es')"
    by (simp add: notifyOne_def mask_bits EPOLLIN_def)
  from es_unblock_timer(4) [OF this assms(2,3,4)] True show ?thesis by simp
next
  case False
  then have "nat (ev_fd ev) \<noteq> nat tfd" using assms(4,5) by (auto simp: timer_fd_ok_def)
  then have "fdSyncVector es' ! nat tfd = fdSyncVector es ! nat tfd"
    using assms(1) by (auto simp: notifyOne_def es_unblock_def bind_eq_Some_conv fdset_def Let_def case_prod_beta split: if_splits)
  with False show ?thesis by simp
qed

lemma mt_master_rank:
  assumes "mt_master tfd mp s s'" and inv: "mt_inv tfd s"
    and own: "mt_at s = MWait \<Longrightarrow> \<exists>ev. mt_at s' = MNotify [ev] \<and> (ev_fd ev = tfd \<or> mt_waker s = Some (ev_fd ev))"
  shows "mt_rank tfd s' < mt_rank tfd s"
  using assms(1)
proof cases
  case (tryblock r es')
  have "timer_fd_ok tfd (mt_es s)" using inv by (simp add: mt_inv_def)
  from es_tryblock_timer [OF this, of "mt_clock s" mp "mtF s"] tryblock(3)
  have "r \<longleftrightarrow> mt_signalled tfd s" by (auto simp: mt_signalled_def tryblock(2))
  with tryblock(1,2) show ?thesis by (auto simp: mt_rank_def)
next
  case (check now rs q F arm)
  have wf: "tq_wf (mtq s) (mtF s) (mt_sleepers s)" and le: "now \<le> mt_clock s" using inv check(2) by (auto simp: mt_inv_def)
  note eq = checkExpiry_eq [OF wf check(3)]
  have "now < t" if "arm = Some t" for t
  proof -
    have "tq_queue q \<noteq> []" "t = fst (hd (tq_queue q))" using that eq(3) by (auto split: if_splits)
    then show ?thesis using hd_in_set [of "tq_queue q"] by (auto simp: eq(1) tq_rest_def)
  qed
  with le check(1,2) show ?thesis
    by (auto simp: mt_rank_def mt_newTimeout_def timerfd_settime_def setTimer_def split: option.splits)
next
  case (poll r e n evs)
  obtain ev where ev: "evs = [ev]" "ev_fd ev = tfd \<or> mt_waker s = Some (ev_fd ev)"
    using own [OF poll(2)] poll(1) by auto
  then have "mt_term s \<or> 0 < mt_ticks s \<and> mt_signalled tfd s'"
    using inv poll(1,7) by (auto simp: mt_inv_def mt_signalled_def)
  with poll(1,2) ev(1) show ?thesis by (auto simp: mt_rank_def)
next
  case (notify ev evs f F' es')
  have "es_addrs_ok (tq_addr (mtq s)) (mt_es s)" "tq_addr (mtq s) \<noteq> 0" "timer_fd_ok tfd (mt_es s)" "0 \<le> ev_fd ev"
    "ev_fd ev = tfd \<longrightarrow> ev_events ev = EPOLLIN"
    using inv notify(2) by (auto simp: mt_inv_def tq_wf_def)
  from notifyOne_signalled [OF notify(3) this] have "mt_signalled tfd s' \<longleftrightarrow> mt_signalled tfd s"
    using notify(1,2) by (auto simp: mt_signalled_def)
  with notify(1,2) show ?thesis by (simp add: mt_rank_def)
qed (auto simp: mt_rank_def mt_signalled_def)

lemma mt_own_rank: "mt_own tfd mp s s' \<Longrightarrow> mt_inv tfd s \<Longrightarrow> mt_rank tfd s' < mt_rank tfd s"
  unfolding mt_own_def using mt_fire_rank mt_master_rank by blast

lemma mt_own_inv: "mt_own tfd mp s s' \<Longrightarrow> mt_inv tfd s \<Longrightarrow> mt_inv tfd s'"
  unfolding mt_own_def using mt_fire_inv mt_master_inv by blast

lemma mt_own_bound:
  assumes "(mt_own tfd mp ^^ n) s s'" and "mt_inv tfd s"
  shows "n + mt_rank tfd s' \<le> mt_rank tfd s" and "mt_inv tfd s'"
  using assms
proof (induction n arbitrary: s')
  case (Suc n)
  { case 1
    then obtain u where u: "(mt_own tfd mp ^^ n) s u" "mt_own tfd mp u s'" by auto
    from Suc.IH [OF u(1) 1(2)] mt_own_rank [OF u(2)] show ?case by simp }
  { case 2
    then obtain u where u: "(mt_own tfd mp ^^ n) s u" "mt_own tfd mp u s'" by auto
    from Suc.IH(2) [OF u(1) 2(2)] mt_own_inv [OF u(2)] show ?case by simp }
qed simp_all

text \<open>Which entries leave the queue.\<close>

definition mt_kept :: "mt_sys \<Rightarrow> mt_sys \<Rightarrow> bool" where
  "mt_kept s s' \<longleftrightarrow> mt_clock s' = mt_clock s \<and> mt_term s' = mt_term s \<and> mt_waker s' = mt_waker s
     \<and> (\<forall>e\<in>set (tq_queue (mtq s)). e \<in> set (tq_queue (mtq s')) \<or> fst e \<le> mt_clock s \<and> resumeInfo (mtF s' (snd e)) \<noteq> 0)
     \<and> (\<forall>f. resumeInfo (mtF s f) \<noteq> 0 \<longrightarrow> resumeInfo (mtF s' f) \<noteq> 0)"

lemma mt_kept_trans: "mt_kept s u \<Longrightarrow> mt_kept u v \<Longrightarrow> mt_kept s v"
  unfolding mt_kept_def by (metis (no_types, lifting))

lemma mt_own_kept:
  assumes "mt_own tfd mp s s'" and inv: "mt_inv tfd s"
  shows "mt_kept s s'"
proof -
  have "mt_kept s s'" if "mt_master tfd mp s s'"
    using that
  proof cases
    case (check now rs q F arm)
    have wf: "tq_wf (mtq s) (mtF s) (mt_sleepers s)" and le: "now \<le> mt_clock s" using inv check(2) by (auto simp: mt_inv_def)
    note eq = checkExpiry_eq [OF wf check(3)]
    have "e \<in> set (tq_queue q) \<or> fst e \<le> mt_clock s \<and> resumeInfo (F (snd e)) \<noteq> 0" if "e \<in> set (tq_queue (mtq s))" for e
    proof (cases "now < fst e")
      case True
      with that show ?thesis by (simp add: eq(1) tq_rest_def)
    next
      case False
      then have "snd e \<in> set (tq_due now (tq_queue (mtq s)))" using that by (force simp: tq_due_def)
      with False le wf show ?thesis by (auto simp: eq(2) tq_won_def tq_wf_def)
    qed
    moreover have "resumeInfo (mtF s f) \<noteq> 0 \<longrightarrow> resumeInfo (F f) \<noteq> 0" for f
      using wf by (simp add: eq(2) tq_won_def tq_wf_def)
    ultimately show ?thesis by (simp add: check(1) mt_kept_def)
  next
    case (notify ev evs f F' es')
    have "es_addrs_ok (tq_addr (mtq s)) (mt_es s)" "tq_addr (mtq s) \<noteq> 0" using inv by (auto simp: mt_inv_def tq_wf_def)
    from notifyOne_timer(1) [OF notify(3) this] show ?thesis by (simp add: notify(1) mt_kept_def races_kept_def)
  qed (auto simp: mt_kept_def)
  moreover have "mt_kept s s'" if "mt_fire s s'" using that by cases (simp add: mt_kept_def)
  ultimately show ?thesis using assms(1) by (auto simp: mt_own_def)
qed

lemma mt_own_steps_kept: "(mt_own tfd mp ^^ n) s s' \<Longrightarrow> mt_inv tfd s \<Longrightarrow> mt_kept s s'"
proof (induction n arbitrary: s')
  case 0
  then show ?case by (simp add: mt_kept_def)
next
  case (Suc n)
  then obtain u where u: "(mt_own tfd mp ^^ n) s u" "mt_own tfd mp u s'" by auto
  with Suc.IH Suc.prems(2) mt_own_bound(2) mt_own_kept mt_kept_trans show ?case by metis
qed

text \<open>Where such a run can end: nowhere but in \<^verbatim>\<open>epoll_wait\<close> without a readable descriptor, or after the loop.\<close>

lemma mt_stuck:
  assumes "\<And>s'. \<not> mt_own tfd mp s s'" and inv: "mt_inv tfd s"
  shows "(mt_at s = MExit \<or> mt_at s = MWait \<and> mt_ticks s = 0 \<and> mt_waker s = None) \<and> (\<forall>h. mt_hw s = Some h \<longrightarrow> mt_clock s < h)"
proof -
  have nf: "\<not> mt_fire s u" and nm: "mt_at s \<noteq> MWait \<Longrightarrow> \<not> mt_master tfd mp s u" for u
    using assms(1) [of u] by (auto simp: mt_own_def)
  have tfd: "timer_fd_ok tfd (mt_es s)" using inv by (simp add: mt_inv_def)
  have np: "\<not> (0 \<le> w \<and> w < int (length (fdSyncVector (mt_es s))) \<and> (w = tfd \<and> 0 < mt_ticks s \<or> w \<noteq> tfd \<and> mt_waker s = Some w))"
    if "mt_at s = MWait" for w
  proof
    assume w: "0 \<le> w \<and> w < int (length (fdSyncVector (mt_es s))) \<and> (w = tfd \<and> 0 < mt_ticks s \<or> w \<noteq> tfd \<and> mt_waker s = Some w)"
    let ?evs = "[\<lparr>ev_events = EPOLLIN, ev_fd = w\<rparr>]"
    have "doPoll (1, 0) = Some 1" by (simp add: doPoll_def)
    from mt_master.poll [OF that this, of ?evs tfd mp] w have "mt_master tfd mp s (s\<lparr>mt_at := MNotify ?evs\<rparr>)"
      by (auto simp: MaxPoll_def)
    with w assms(1) [of "s\<lparr>mt_at := MNotify ?evs\<rparr>"] show False by (auto simp: mt_own_def)
  qed
  have fire: "mt_clock s < h" if "mt_hw s = Some h" for h
    using nf mt_fire.fire [OF that] by (meson not_le)
  have "mt_at s = MExit \<or> mt_at s = MWait \<and> mt_ticks s = 0 \<and> mt_waker s = None"
  proof (cases "mt_at s")
    case MLoop
    then show ?thesis using nm mt_master.leave mt_master.loop by (metis mt_pc.distinct(9))
  next
    case MPre
    then show ?thesis using nm mt_master.tryblock [OF MPre, of mp tfd] es_tryblock_timer [OF tfd, of "mt_clock s" mp "mtF s"] by auto
  next
    case (MCheck now)
    obtain rs q F arm where "checkExpiry now (mtq s) (mtF s) = (rs, q, F, arm)" by (metis prod_cases4)
    from mt_master.check [OF MCheck this] nm MCheck show ?thesis by auto
  next
    case MWait
    then show ?thesis using np [OF MWait, of tfd] np [OF MWait, of "the (mt_waker s)"] tfd inv
      by (cases "mt_waker s") (auto simp: timer_fd_ok_def mt_inv_def)
  next
    case (MNotify evs)
    show ?thesis
    proof (cases evs)
      case Nil
      with MNotify nm mt_master.again [of s tfd mp] show ?thesis by auto
    next
      case (Cons ev evs')
      then have "\<exists>s1. fdsync (ev_fd ev) (mt_es s) = Some s1" using inv MNotify by (auto simp: mt_inv_def fdsync_eq_Some)
      then have "notifyOne ev (mtF s) (mt_es s) \<noteq> None"
        by (auto simp: notifyOne_def es_unblock_def Let_def case_prod_beta)
      then obtain f F' es' where "notifyOne ev (mtF s) (mt_es s) = Some (f, F', es')" by auto
      from mt_master.notify [OF _ this] MNotify Cons nm show ?thesis by auto
    qed
  qed (use nm mt_master.readfd [of s tfd mp] mt_master.readclock [of s tfd mp] in auto)
  with fire show ?thesis by blast
qed

lemma mt_covered_future:
  assumes "mt_inv tfd s" and "mt_at s = MWait" and "mt_ticks s = 0" and "\<forall>h. mt_hw s = Some h \<longrightarrow> mt_clock s < h"
    and "e \<in> set (tq_queue (mtq s))"
  shows "mt_clock s < fst e"
proof -
  have "fst (hd (tq_queue (mtq s))) \<le> fst e"
    using assms(1,5) by (cases "tq_queue (mtq s)") (auto simp: mt_inv_def tq_wf_def)
  moreover obtain h where "mt_hw s = Some h" "h \<le> fst (hd (tq_queue (mtq s)))"
    using assms(1,2,3,5) by (auto simp: mt_inv_def timer_covered_def)
  ultimately show ?thesis using assms(4) by fastforce
qed


text \<open>Witness: fred 1 sleeps for three seconds from time 2; at time 6 the poll thread runs until it has to wait
  again, and the fred has been resumed.\<close>

definition mt_ex_es :: evscope where
  "mt_ex_es = es_initSync 2 (\<lambda>f b. if b then Suc f else 4 + f)"

definition mt_ex :: mt_sys where
  "mt_ex = (mt_start 9 (\<lambda>f. new_fred False 0 0) mt_ex_es (Time 2 0))
     \<lparr>mtq := \<lparr>tq_addr = 9, tq_queue = [(Time 5 0, 1)], tq_expired = (\<lambda>_. False)\<rparr>, mt_sleepers := {1},
      mt_hw := Some (Time 5 0), mt_clock := Time 6 0\<rparr>"

lemma mt_ex_reach: "mt_reach 1 0 9 mt_ex"
proof -
  let ?F = "\<lambda>f::fid. new_fred False 0 0"
  let ?s = "mt_start 9 ?F mt_ex_es (Time 2 0)"
  have r: "mt_reach 1 0 9 ?s"
    by (rule mt_reach.start) (simp_all add: mt_ex_es_def es_initSync_def timer_fd_ok_def es_addrs_ok_def es_addrs_def
        new_syncfd_def new_sem_def queue_init_def upt_rec)
  have "sleepFred_begin (mt_clock ?s) (Time 3 0) 1 (mtq ?s) (mtF ?s) = Some (mtq mt_ex, Some (Time 5 0), ?F)"
    by (simp add: sleepFred_begin_def tq_enqueue_def new_timerq_def mt_ex_def mt_start_def prepareResumeRace_def
        new_fred_def time_add_def NSEC_def fun_eq_iff)
  from mt_env.sleep [OF _ _ this]
  have "mt_env 1 ?s (mt_newTimeout (Some (Time 5 0)) (?s\<lparr>mtq := mtq mt_ex, mtF := ?F, mt_sleepers := insert 1 (mt_sleepers ?s)\<rparr>))"
    by (simp add: mt_start_def time_add_def NSEC_def)
  with r have "mt_reach 1 0 9 (mt_newTimeout (Some (Time 5 0)) (?s\<lparr>mtq := mtq mt_ex, mtF := ?F, mt_sleepers := {1}\<rparr>))"
    by (auto intro: mt_reach.env simp: mt_start_def)
  from mt_reach.env [OF this mt_env.clock [of _ "Time 6 0"]] show ?thesis
    by (simp add: mt_ex_def mt_start_def mt_newTimeout_def timerfd_settime_def setTimer_def less_eq_time_def time_le_def time_lt_def)
qed


section \<open>The constructor\<close>

text \<open>The constructor of \<^verbatim>\<open>MasterPoller\<close> in program order, next to the first round of the poll thread. The
  member \<^verbatim>\<open>timerFD\<close> of the newly allocated object holds an arbitrary value until it is assigned.\<close>

datatype mctor_pc = CStart | CCreate | CSetup | CDone

record mctor_sys =
  ctor_at :: mctor_pc
  ctor_timerFD :: int
  ctor_running :: bool                \<comment> \<open>the poll thread runs and has not reached \<open>epoll_wait\<close>\<close>
  ctor_asserted :: bool               \<comment> \<open>the assertion in \<open>tryblock\<close> has failed\<close>
  ctor_taken :: "int option"          \<comment> \<open>the descriptor whose semaphore it has taken\<close>
  ctor_es :: evscope

inductive mctor_step :: "int \<Rightarrow> fid \<Rightarrow> mctor_sys \<Rightarrow> mctor_sys \<Rightarrow> bool" for fd mp where
  thread: "ctor_at s = CStart \<Longrightarrow> mctor_step fd mp s (s\<lparr>ctor_at := CCreate, ctor_running := True\<rparr>)"
| create: "ctor_at s = CCreate \<Longrightarrow> mctor_step fd mp s (s\<lparr>ctor_at := CSetup, ctor_timerFD := fd\<rparr>)"
| setup_fd: "ctor_at s = CSetup \<Longrightarrow> setupFD (ctor_timerFD s) Create True Level = r \<Longrightarrow> mctor_step fd mp s (s\<lparr>ctor_at := CDone\<rparr>)"
| pre_ok: "ctor_running s \<Longrightarrow> es_tryblock now mp (ctor_timerFD s) F (ctor_es s) = Some (b, es') \<Longrightarrow>
     mctor_step fd mp s (s\<lparr>ctor_running := False, ctor_es := es', ctor_taken := if b then Some (ctor_timerFD s) else None\<rparr>)"
| pre_fail: "ctor_running s \<Longrightarrow> es_tryblock now mp (ctor_timerFD s) F (ctor_es s) = None \<Longrightarrow>
     mctor_step fd mp s (s\<lparr>ctor_running := False, ctor_asserted := True\<rparr>)"

definition mctor_start :: "int \<Rightarrow> evscope \<Rightarrow> mctor_sys" where
  "mctor_start g es = \<lparr>ctor_at = CStart, ctor_timerFD = g, ctor_running = False, ctor_asserted = False, ctor_taken = None, ctor_es = es\<rparr>"

lemma es_tryblock_None: "es_tryblock now mp fd F es = None \<longleftrightarrow> \<not> (0 \<le> fd \<and> fd < int (length (fdSyncVector es)))"
  by (auto simp: es_tryblock_def fdsync_def sem_tryP_def sem_internalP_def rassert_def Let_def)

lemma mctor_reach_asserted:
  "(mctor_step fd mp)\<^sup>*\<^sup>* (mctor_start g es) s \<Longrightarrow>
     length (fdSyncVector (ctor_es s)) = length (fdSyncVector es)
     \<and> (ctor_timerFD s = g \<or> ctor_timerFD s = fd)
     \<and> (ctor_asserted s \<longrightarrow> g < 0 \<or> int (length (fdSyncVector es)) \<le> g \<or> fd < 0 \<or> int (length (fdSyncVector es)) \<le> fd)"
proof (induction rule: rtranclp_induct)
  case (step s u)
  from step(2) show ?case
  proof cases
    case (pre_ok now F b es')
    then have "length (fdSyncVector es') = length (fdSyncVector (ctor_es s))"
      by (auto simp: es_tryblock_def bind_eq_Some_conv fdset_def split: prod.splits)
    with step(3) pre_ok(1) show ?thesis by auto
  next
    case (pre_fail now F)
    then have "\<not> (0 \<le> ctor_timerFD s \<and> ctor_timerFD s < int (length (fdSyncVector (ctor_es s))))"
      by (simp add: es_tryblock_None)
    with step(3) pre_fail(1) show ?thesis by auto
  qed (use step(3) in auto)
qed (simp add: mctor_start_def)

text \<open>The thread is started before the descriptor exists: its first \<^verbatim>\<open>prePoll\<close> can run with the value \<open>g\<close> that
  happens to be in the memory of the object. If this is no descriptor of the scope the assertion of \<^verbatim>\<open>tryblock\<close>
  fails, and this is the only way it can fail; if it is one whose input semaphore is open, the thread takes
  the semaphore away from the fibre it was meant for.\<close>

theorem master_ctor_race:
  assumes "0 \<le> fd" and "fd < int (length (fdSyncVector es))"
  shows "((\<exists>s. (mctor_step fd mp)\<^sup>*\<^sup>* (mctor_start g es) s \<and> ctor_asserted s) \<longleftrightarrow> g < 0 \<or> int (length (fdSyncVector es)) \<le> g)
    \<and> (timer_fd_ok g es \<and> sem_counter (sfd_sync (fdSyncVector es ! nat g) True) = 1 \<longrightarrow>
         (\<exists>s. (mctor_step fd mp)\<^sup>*\<^sup>* (mctor_start g es) s \<and> ctor_taken s = Some g
            \<and> sem_counter (sfd_sync (fdSyncVector (ctor_es s) ! nat g) True) = 0))"
proof -
  let ?s = "(mctor_start g es)\<lparr>ctor_at := CCreate, ctor_running := True\<rparr>"
  have r: "(mctor_step fd mp)\<^sup>*\<^sup>* (mctor_start g es) ?s"
    using mctor_step.thread [of "mctor_start g es" fd mp] by (simp add: mctor_start_def r_into_rtranclp)
  have "\<exists>s. (mctor_step fd mp)\<^sup>*\<^sup>* (mctor_start g es) s \<and> ctor_asserted s" if "g < 0 \<or> int (length (fdSyncVector es)) \<le> g"
  proof -
    have "es_tryblock (Time 0 0) mp g (\<lambda>_. new_fred False 0 0) es = None" using that by (auto simp: es_tryblock_None)
    then have "mctor_step fd mp ?s (?s\<lparr>ctor_running := False, ctor_asserted := True\<rparr>)"
      using mctor_step.pre_fail [of ?s "Time 0 0" mp "\<lambda>_. new_fred False 0 0" fd] by (simp add: mctor_start_def)
    from rtranclp.rtrancl_into_rtrancl [OF r this] show ?thesis by force
  qed
  moreover have "\<exists>s. (mctor_step fd mp)\<^sup>*\<^sup>* (mctor_start g es) s \<and> ctor_taken s = Some g
            \<and> sem_counter (sfd_sync (fdSyncVector (ctor_es s) ! nat g) True) = 0"
    if g: "timer_fd_ok g es" "sem_counter (sfd_sync (fdSyncVector es ! nat g) True) = 1"
  proof -
    obtain es' where e: "es_tryblock (Time 0 0) mp g (\<lambda>_. new_fred False 0 0) es = Some (True, es')"
      "sem_counter (sfd_sync (fdSyncVector es' ! nat g) True) = 0"
      using es_tryblock_timer [OF g(1), of "Time 0 0" mp "\<lambda>_. new_fred False 0 0"] g(2) by auto
    then have "mctor_step fd mp ?s (?s\<lparr>ctor_running := False, ctor_es := es', ctor_taken := Some g\<rparr>)"
      using mctor_step.pre_ok [of ?s "Time 0 0" mp "\<lambda>_. new_fred False 0 0" True es' fd] by (simp add: mctor_start_def)
    from rtranclp.rtrancl_into_rtrancl [OF r this] e(2) show ?thesis by force
  qed
  moreover have "g < 0 \<or> int (length (fdSyncVector es)) \<le> g"
    if "(mctor_step fd mp)\<^sup>*\<^sup>* (mctor_start g es) s" "ctor_asserted s" for s
    using mctor_reach_asserted [OF that(1)] that(2) assms by auto
  ultimately show ?thesis by blast
qed

end
